(* ===== verification/Prelude.thy ===== *)
theory Prelude
  imports Main "HOL-Library.Word"
begin

text \<open>
  Shared vocabulary of the development: the machine integers of an LP64 host, the faults an
  \<open>assert\<close>, a \<open>panic\<close>, an out-of-range access or an undefined shift ends the program with, the
  result type of operations that can end in a fault, and the generic facts on lists, words and
  results that the component theories use.
\<close>

unbundle bit_operations_syntax

section \<open>Machine integers\<close>

type_synonym u8 = "8 word"
type_synonym u16 = "16 word"
type_synonym u32 = "32 word"
type_synonym u64 = "64 word"

section \<open>Faults and results\<close>

datatype fault =
    AssertFail      \<comment> \<open>a failed \<open>assert (...)\<close>\<close>
  | PanicCall       \<comment> \<open>a call of \<open>panic (...)\<close>\<close>
  | OutOfRange      \<comment> \<open>an access outside the allocated object\<close>
  | Undefined       \<comment> \<open>an operation C leaves undefined, such as an oversized shift\<close>
  | UseAfterFree    \<comment> \<open>a use of an object that has been deleted\<close>
  | NoReturn        \<comment> \<open>a loop did not end within the bound given for it\<close>

type_synonym 'a res = "fault + 'a"

named_theorems res_simps \<open>rewriting of results and their composition\<close>

definition bindR :: "'a res \<Rightarrow> ('a \<Rightarrow> 'b res) \<Rightarrow> 'b res" where
  "bindR m f = (case m of Inl e \<Rightarrow> Inl e | Inr x \<Rightarrow> f x)"

lemma bindR_Inr [simp, res_simps]: "bindR (Inr x) f = f x"
  by (simp add: bindR_def)

lemma bindR_Inl [simp, res_simps]: "bindR (Inl e) f = Inl e"
  by (simp add: bindR_def)

lemma bindR_assoc: "bindR (bindR m f) g = bindR m (\<lambda>x. bindR (f x) g)"
  by (cases m) simp_all

lemma bindR_eq_Inr [res_simps]: "bindR m f = Inr y \<longleftrightarrow> (\<exists>x. m = Inr x \<and> f x = Inr y)"
  by (cases m) auto

lemma bindRE: "bindR m f = Inr y \<Longrightarrow> (\<And>x. m = Inr x \<Longrightarrow> f x = Inr y \<Longrightarrow> P) \<Longrightarrow> P"
  by (cases m) auto

lemma bindR_cong [fundef_cong]:
  "m = m' \<Longrightarrow> (\<And>x. m' = Inr x \<Longrightarrow> f x = f' x) \<Longrightarrow> bindR m f = bindR m' f'"
  by (cases m') auto

definition guardR :: "fault \<Rightarrow> bool \<Rightarrow> unit res" where
  "guardR e b = (if b then Inr () else Inl e)"

lemma guardR_True [simp, res_simps]: "b \<Longrightarrow> guardR e b = Inr ()"
  by (simp add: guardR_def)

lemma guardR_eq_Inr [simp, res_simps]: "guardR e b = Inr u \<longleftrightarrow> b"
  by (simp add: guardR_def)

lemma guardR_False [res_simps]: "\<not> b \<Longrightarrow> guardR e b = Inl e"
  by (simp add: guardR_def)

text \<open>If the operation returns, its result satisfies the predicate.\<close>

definition post :: "('a \<Rightarrow> bool) \<Rightarrow> 'a res \<Rightarrow> bool" where
  "post P m \<longleftrightarrow> (case m of Inl e \<Rightarrow> True | Inr x \<Rightarrow> P x)"

lemma post_simps [simp]: "post P (Inl e)" "post P (Inr x) = P x"
  by (simp_all add: post_def)

lemma post_bind: "post Q m \<Longrightarrow> (\<And>x. Q x \<Longrightarrow> post P (f x)) \<Longrightarrow> post P (bindR m f)"
  by (cases m) auto

lemma postD: "post P m \<Longrightarrow> m = Inr x \<Longrightarrow> P x"
  by simp

lemma post_guard: "post (\<lambda>_. b) (guardR e b)"
  by (simp add: guardR_def)

lemma post_option: "(x = None \<Longrightarrow> post Q f) \<Longrightarrow> (\<And>y. x = Some y \<Longrightarrow> post Q (g y)) \<Longrightarrow> post Q (case x of None \<Rightarrow> f | Some y \<Rightarrow> g y)"
  by (cases x) auto

lemma post_if: "(b \<Longrightarrow> post Q f) \<Longrightarrow> (\<not> b \<Longrightarrow> post Q g) \<Longrightarrow> post Q (if b then f else g)"
  by simp

lemma post_conj: "post P m \<Longrightarrow> post Q m \<Longrightarrow> post (\<lambda>x. P x \<and> Q x) m"
  by (cases m) auto

lemma post_any: "(\<And>x. post P (f x)) \<Longrightarrow> post P (bindR m f)"
  by (cases m) auto

text \<open>A read and a write of an array element; outside the array both are faults.\<close>

definition rd :: "'a list \<Rightarrow> nat \<Rightarrow> 'a res" where
  "rd xs i = (if i < length xs then Inr (xs ! i) else Inl OutOfRange)"

definition wr :: "'a list \<Rightarrow> nat \<Rightarrow> 'a \<Rightarrow> 'a list res" where
  "wr xs i v = (if i < length xs then Inr (xs[i := v]) else Inl OutOfRange)"

lemma rd_ok [simp, res_simps]: "i < length xs \<Longrightarrow> rd xs i = Inr (xs ! i)"
  by (simp add: rd_def)

lemma wr_ok [simp, res_simps]: "i < length xs \<Longrightarrow> wr xs i v = Inr (xs[i := v])"
  by (simp add: wr_def)

lemma rd_eq_Inr [res_simps]: "rd xs i = Inr v \<longleftrightarrow> i < length xs \<and> v = xs ! i"
  by (auto simp: rd_def)

lemma wr_eq_Inr [res_simps]: "wr xs i v = Inr ys \<longleftrightarrow> i < length xs \<and> ys = xs[i := v]"
  by (auto simp: wr_def)

text \<open>The element after a given one, as the link of an intrusive list gives it.\<close>

fun next_in :: "'a list \<Rightarrow> 'a \<Rightarrow> 'a option" where
  "next_in [] x = None"
| "next_in (y # ys) x = (if x = y then (case ys of [] \<Rightarrow> None | z # _ \<Rightarrow> Some z) else next_in ys x)"

section \<open>Words\<close>

named_theorems word_nat \<open>moving word terms to natural numbers\<close>

text \<open>A check of every entry of a table against its index, as a loop the simplifier can run.\<close>

fun table_ok :: "(nat \<Rightarrow> 'a \<Rightarrow> bool) \<Rightarrow> nat \<Rightarrow> 'a list \<Rightarrow> bool" where
  "table_ok P i [] = True"
| "table_ok P i (x # xs) = (P i x \<and> table_ok P (i + 1) xs)"

lemma table_okD: "table_ok P i xs \<Longrightarrow> j < length xs \<Longrightarrow> P (i + j) (xs ! j)"
proof (induction xs arbitrary: i j)
  case (Cons x xs)
  show ?case
  proof (cases j)
    case (Suc n)
    with Cons.prems Cons.IH [of "i + 1" n] show ?thesis by simp
  qed (use Cons.prems in simp)
qed simp

lemma table_ok0D: "table_ok P 0 xs \<Longrightarrow> j < length xs \<Longrightarrow> P j (xs ! j)"
  using table_okD [of P 0 xs j] by simp

lemma unat_bounds [simp]:
  "unat (a :: u8) < 256" "unat (b :: u32) < 4294967296" "unat (c :: u64) < 18446744073709551616"
proof -
  have "unat a < 2 ^ LENGTH(8)" "unat b < 2 ^ LENGTH(32)" "unat c < 2 ^ LENGTH(64)"
    by (rule unsigned_less)+
  then show "unat a < 256" "unat b < 4294967296" "unat c < 18446744073709551616"
    by simp_all
qed

lemma unat_drop_bit_div [word_nat]: "unat (drop_bit n (w :: 'a::len word)) = unat w div 2 ^ n"
  using drop_bit_eq_div [of n "unat w"] by (simp only: unat_drop_bit_eq)

lemma unat_and_mask_mod [word_nat]: "unat (w AND mask n :: 'a::len word) = unat w mod 2 ^ n"
  using take_bit_eq_mod [of n "unat w"]
  by (simp only: take_bit_eq_mask [symmetric] unsigned_take_bit_eq)

lemma push_take_join:
  "push_bit n (take_bit m (drop_bit n w)) OR take_bit n w = take_bit (m + n) (w :: 'a::len word)"
  by (rule bit_eqI) (auto simp: bit_simps)

lemma ucast_ucast_u8: "(ucast (ucast (w :: 'a::len word) :: u8) :: 'a word) = take_bit 8 w"
  by (rule bit_eqI) (auto simp: bit_simps)

lemma take_bit_word_self: "LENGTH('a) \<le> n \<Longrightarrow> take_bit n w = (w :: 'a::len word)"
  by (rule bit_eqI) (auto simp: bit_simps dest: bit_imp_le_length)

lemma unat_pow2 [word_nat]:
  assumes "n < LENGTH('a)"
  shows "unat (2 ^ n :: 'a::len word) = 2 ^ n"
proof -
  have "unat (word_of_nat (2 ^ n) :: 'a word) = 2 ^ n"
    using assms by (simp only: unsigned_of_nat) (simp add: take_bit_nat_eq_self power_strict_increasing)
  then show ?thesis by simp
qed

lemma and_not_mask_eq_0_iff:
  "(w :: 'a::len word) AND NOT (mask n) = 0 \<longleftrightarrow> unat w < 2 ^ n"
proof -
  have "w AND NOT (mask n) = 0 \<longleftrightarrow> take_bit n w = w"
    by (auto simp: bit_eq_iff bit_simps)
  also have "\<dots> \<longleftrightarrow> unat (take_bit n w) = unat w"
    by (simp add: word_unat_eq_iff)
  also have "\<dots> \<longleftrightarrow> unat w < 2 ^ n"
    by (simp add: unsigned_take_bit_eq take_bit_nat_eq_self_iff)
  finally show ?thesis .
qed

end
