(* ===== verification/Msb.thy ===== *)
theory Msb
  imports Prelude
begin

text \<open>
  \<open>async/msb.h\<close> and \<open>async/msb.C\<close>: the lookup tables for the most and the least significant set
  bit of a byte, and the routines \<open>fls32\<close>, \<open>fls64\<close>, \<open>log2c32\<close>, \<open>log2c64\<close>, \<open>ffs32\<close> and \<open>ffs64\<close>
  built on them. The results are bit positions of at most 64, held as natural numbers; the
  arguments are 32-bit and 64-bit words.
\<close>

section \<open>Tables\<close>

definition bytemsb :: "nat list" where
  "bytemsb = [
  0, 1, 2, 2, 3, 3, 3, 3, 4, 4, 4, 4, 4, 4, 4, 4, 5, 5, 5, 5, 5, 5, 5, 5,
  5, 5, 5, 5, 5, 5, 5, 5, 6, 6, 6, 6, 6, 6, 6, 6, 6, 6, 6, 6, 6, 6, 6, 6,
  6, 6, 6, 6, 6, 6, 6, 6, 6, 6, 6, 6, 6, 6, 6, 6, 7, 7, 7, 7, 7, 7, 7, 7,
  7, 7, 7, 7, 7, 7, 7, 7, 7, 7, 7, 7, 7, 7, 7, 7, 7, 7, 7, 7, 7, 7, 7, 7,
  7, 7, 7, 7, 7, 7, 7, 7, 7, 7, 7, 7, 7, 7, 7, 7, 7, 7, 7, 7, 7, 7, 7, 7,
  7, 7, 7, 7, 7, 7, 7, 7, 8, 8, 8, 8, 8, 8, 8, 8, 8, 8, 8, 8, 8, 8, 8, 8,
  8, 8, 8, 8, 8, 8, 8, 8, 8, 8, 8, 8, 8, 8, 8, 8, 8, 8, 8, 8, 8, 8, 8, 8,
  8, 8, 8, 8, 8, 8, 8, 8, 8, 8, 8, 8, 8, 8, 8, 8, 8, 8, 8, 8, 8, 8, 8, 8,
  8, 8, 8, 8, 8, 8, 8, 8, 8, 8, 8, 8, 8, 8, 8, 8, 8, 8, 8, 8, 8, 8, 8, 8,
  8, 8, 8, 8, 8, 8, 8, 8, 8, 8, 8, 8, 8, 8, 8, 8, 8, 8, 8, 8, 8, 8, 8, 8,
  8, 8, 8, 8, 8, 8, 8, 8, 8, 8, 8, 8, 8, 8, 8, 8]"

definition bytelsb :: "nat list" where
  "bytelsb = [
  0, 1, 2, 1, 3, 1, 2, 1, 4, 1, 2, 1, 3, 1, 2, 1, 5, 1, 2, 1, 3, 1, 2, 1,
  4, 1, 2, 1, 3, 1, 2, 1, 6, 1, 2, 1, 3, 1, 2, 1, 4, 1, 2, 1, 3, 1, 2, 1,
  5, 1, 2, 1, 3, 1, 2, 1, 4, 1, 2, 1, 3, 1, 2, 1, 7, 1, 2, 1, 3, 1, 2, 1,
  4, 1, 2, 1, 3, 1, 2, 1, 5, 1, 2, 1, 3, 1, 2, 1, 4, 1, 2, 1, 3, 1, 2, 1,
  6, 1, 2, 1, 3, 1, 2, 1, 4, 1, 2, 1, 3, 1, 2, 1, 5, 1, 2, 1, 3, 1, 2, 1,
  4, 1, 2, 1, 3, 1, 2, 1, 8, 1, 2, 1, 3, 1, 2, 1, 4, 1, 2, 1, 3, 1, 2, 1,
  5, 1, 2, 1, 3, 1, 2, 1, 4, 1, 2, 1, 3, 1, 2, 1, 6, 1, 2, 1, 3, 1, 2, 1,
  4, 1, 2, 1, 3, 1, 2, 1, 5, 1, 2, 1, 3, 1, 2, 1, 4, 1, 2, 1, 3, 1, 2, 1,
  7, 1, 2, 1, 3, 1, 2, 1, 4, 1, 2, 1, 3, 1, 2, 1, 5, 1, 2, 1, 3, 1, 2, 1,
  4, 1, 2, 1, 3, 1, 2, 1, 6, 1, 2, 1, 3, 1, 2, 1, 4, 1, 2, 1, 3, 1, 2, 1,
  5, 1, 2, 1, 3, 1, 2, 1, 4, 1, 2, 1, 3, 1, 2, 1]"

section \<open>Routines\<close>

definition fls32 :: "u32 \<Rightarrow> nat" where
  "fls32 v =
     (if v AND 0xffff0000 \<noteq> 0 then
        (if v AND 0xff000000 \<noteq> 0 then 24 + bytemsb ! unat (drop_bit 24 v)
         else 16 + bytemsb ! unat (drop_bit 16 v))
      else if v AND 0x0000ff00 \<noteq> 0 then 8 + bytemsb ! unat (drop_bit 8 v)
      else bytemsb ! unat v)"

definition log2c32 :: "u32 \<Rightarrow> int" where
  "log2c32 v = (if v \<noteq> 0 then int (fls32 (v - 1)) else -1)"

definition fls64 :: "u64 \<Rightarrow> nat" where
  "fls64 v =
     (let h = ucast (drop_bit 32 v) :: u32
      in if h \<noteq> 0 then 32 + fls32 h else fls32 (ucast v))"

definition log2c64 :: "u64 \<Rightarrow> int" where
  "log2c64 v = (if v \<noteq> 0 then int (fls64 (v - 1)) else -1)"

definition ffs32 :: "u32 \<Rightarrow> nat" where
  "ffs32 v =
     (if v AND 0xffff \<noteq> 0 then
        (let vv = v AND 0xff
         in if vv \<noteq> 0 then bytelsb ! unat vv
            else 8 + bytelsb ! unat (drop_bit 8 v AND 0xff))
      else let vv = v AND 0xff0000
           in if vv \<noteq> 0 then 16 + bytelsb ! unat (drop_bit 16 vv)
              else if v \<noteq> 0 then 24 + bytelsb ! unat (drop_bit 24 v AND 0xff)
              else 0)"

definition ffs64 :: "u64 \<Rightarrow> nat" where
  "ffs64 v =
     (let l = ucast (v AND 0xffffffff) :: u32
      in if l \<noteq> 0 then fls32 l
         else let h = ucast (drop_bit 32 v) :: u32
              in if h \<noteq> 0 then 32 + fls32 h else 0)"

section \<open>The tables hold what their comments say\<close>

text \<open>\<open>is_msb n k\<close>: \<open>k\<close> is one more than the position of the highest set bit of \<open>n\<close>, 0 for 0.\<close>

definition is_msb :: "nat \<Rightarrow> nat \<Rightarrow> bool" where
  "is_msb n k \<longleftrightarrow> n < 2 ^ k \<and> (k = 0 \<or> 2 ^ (k - 1) \<le> n)"

text \<open>\<open>is_lsb n k\<close>: \<open>k\<close> is one more than the position of the lowest set bit of \<open>n\<close>, 0 for 0.\<close>

definition is_lsb :: "nat \<Rightarrow> nat \<Rightarrow> bool" where
  "is_lsb n k \<longleftrightarrow> (if n = 0 then k = 0 else 0 < k \<and> 2 ^ (k - 1) dvd n \<and> \<not> 2 ^ k dvd n)"

lemma length_bytemsb [simp]: "length bytemsb = 256"
  by (simp add: bytemsb_def)

lemma length_bytelsb [simp]: "length bytelsb = 256"
  by (simp add: bytelsb_def)

lemma bytemsb_is_msb: "b < 256 \<Longrightarrow> is_msb b (bytemsb ! b)"
proof (rule table_ok0D)
  show "table_ok is_msb 0 bytemsb" by (simp add: bytemsb_def is_msb_def del: One_nat_def)
qed simp

lemma bytelsb_is_lsb: "b < 256 \<Longrightarrow> is_lsb b (bytelsb ! b)"
proof (rule table_ok0D)
  show "table_ok is_lsb 0 bytelsb" by (simp add: bytelsb_def is_lsb_def del: One_nat_def)
qed simp

section \<open>Shifting the two specifications\<close>

lemma is_msb_pos: "is_msb n k \<Longrightarrow> 0 < n \<Longrightarrow> 0 < k"
  by (cases k) (auto simp: is_msb_def)

lemma is_msb_shift:
  assumes k: "is_msb (n div 2 ^ s) k" and pos: "0 < n div 2 ^ s"
  shows "is_msb n (s + k)"
proof -
  have kp: "0 < k" using is_msb_pos [OF k pos] .
  have lt: "n div 2 ^ s < 2 ^ k" and le: "2 ^ (k - 1) \<le> n div 2 ^ s"
    using k kp by (auto simp: is_msb_def)
  have "n < 2 ^ k * 2 ^ s"
    using lt by (simp add: less_mult_imp_div_less div_less_iff_less_mult)
  moreover have "2 ^ (k - 1) * 2 ^ s \<le> n"
    using le by (simp add: less_eq_div_iff_mult_less_eq)
  ultimately show ?thesis
    using kp by (simp add: is_msb_def power_add [symmetric] add.commute)
qed

lemma is_msb_unique:
  assumes "is_msb n j" and "is_msb n k"
  shows "j = k"
proof -
  have gen: "b \<le> a" if "is_msb n a" and "is_msb n b" for a b
  proof (rule ccontr)
    assume "\<not> b \<le> a"
    then have "a \<le> b - 1" and "b \<noteq> 0" by auto
    then have "(2::nat) ^ a \<le> 2 ^ (b - 1)" by (simp add: power_increasing)
    also have "\<dots> \<le> n" using that(2) \<open>b \<noteq> 0\<close> by (simp add: is_msb_def)
    finally show False using that(1) by (simp add: is_msb_def)
  qed
  from gen [OF assms] gen [OF assms(2,1)] show ?thesis by simp
qed

lemma is_lsb_shift:
  assumes "is_lsb (n div 2 ^ s) k" and "2 ^ s dvd n" and "n \<noteq> 0"
  shows "is_lsb n (s + k)"
proof -
  obtain m where m: "n = 2 ^ s * m" using assms(2) by (auto elim: dvdE)
  with assms have "0 < k" "2 ^ (k - 1) dvd m" "\<not> 2 ^ k dvd m"
    by (auto simp: is_lsb_def split: if_splits)
  moreover from this obtain j where "k = Suc j" by (cases k) auto
  ultimately show ?thesis
    using m assms(3) by (auto simp: is_lsb_def power_add mult.left_commute)
qed

lemma is_lsb_mod:
  assumes k: "is_lsb (n mod 2 ^ m) k" and nz: "n mod 2 ^ m \<noteq> 0"
  shows "is_lsb n k"
proof -
  have kp: "0 < k" and d1: "2 ^ (k - 1) dvd n mod 2 ^ m" and d2: "\<not> 2 ^ k dvd n mod 2 ^ m"
    using k nz by (auto simp: is_lsb_def)
  have "2 ^ (k - 1) \<le> n mod 2 ^ m" using d1 nz by (simp add: dvd_imp_le)
  also have "n mod 2 ^ m < 2 ^ m" by simp
  finally have "k - 1 < m" by simp
  then have km: "(2::nat) ^ k dvd 2 ^ m" and km1: "(2::nat) ^ (k - 1) dvd 2 ^ m"
    using kp by (auto intro!: le_imp_power_dvd)
  have "2 ^ (k - 1) dvd n" using d1 km1 by (simp add: dvd_mod_iff)
  moreover have "\<not> 2 ^ k dvd n" using d2 km by (simp add: dvd_mod_iff)
  moreover have "n \<noteq> 0" using nz by (metis mod_0)
  ultimately show ?thesis using kp by (simp add: is_lsb_def)
qed

section \<open>The masks of the source as ranges\<close>

lemma u32_masks:
  "(0xffff0000 :: u32) = NOT (mask 16)" "(0xff000000 :: u32) = NOT (mask 24)"
  "(0x0000ff00 :: u32) = mask 16 AND NOT (mask 8)" "(0xffff :: u32) = mask 16"
  "(0xff :: u32) = mask 8" "(0xff0000 :: u32) = mask 24 AND NOT (mask 16)"
  by (simp_all add: mask_eq_exp_minus_1)

lemma and_mask_self: "unat (w :: 'a::len word) < 2 ^ n \<Longrightarrow> w AND mask n = w"
  by (simp add: word_unat_eq_iff unat_and_mask_mod)

lemma fls32_cases:
  "fls32 v =
     (if 2 ^ 24 \<le> unat v then 24 + bytemsb ! (unat v div 2 ^ 24)
      else if 2 ^ 16 \<le> unat v then 16 + bytemsb ! (unat v div 2 ^ 16)
      else if 2 ^ 8 \<le> unat v then 8 + bytemsb ! (unat v div 2 ^ 8)
      else bytemsb ! unat v)"
proof -
  have a: "v AND 0xffff0000 \<noteq> 0 \<longleftrightarrow> 2 ^ 16 \<le> unat v" "v AND 0xff000000 \<noteq> 0 \<longleftrightarrow> 2 ^ 24 \<le> unat v"
    by (simp_all only: u32_masks and_not_mask_eq_0_iff not_less)
  have b: "v AND 0x0000ff00 \<noteq> 0 \<longleftrightarrow> 2 ^ 8 \<le> unat v" if "\<not> 2 ^ 16 \<le> unat v"
  proof -
    have "v AND 0x0000ff00 = (v AND mask 16) AND NOT (mask 8)"
      by (simp only: u32_masks and.assoc)
    also have "\<dots> = v AND NOT (mask 8)" using that by (simp add: and_mask_self)
    finally show ?thesis by (simp only: and_not_mask_eq_0_iff not_less)
  qed
  have "(2::nat) ^ 16 \<le> 2 ^ 24" by simp
  then show ?thesis
    unfolding fls32_def a using b by (auto simp only: unat_drop_bit_div if_True if_False split: if_split)
qed

lemma fls32_is_msb: "is_msb (unat v) (fls32 v)"
proof -
  have step: "is_msb (unat v) (s + bytemsb ! (unat v div 2 ^ s))"
    if "2 ^ s \<le> unat v" "unat v < 2 ^ (s + 8)" for s
  proof (rule is_msb_shift)
    have "unat v div 2 ^ s < 256"
      using that(2) by (simp add: div_less_iff_less_mult power_add mult.commute)
    then show "is_msb (unat v div 2 ^ s) (bytemsb ! (unat v div 2 ^ s))"
      by (rule bytemsb_is_msb)
    show "0 < unat v div 2 ^ s" using that(1) by (simp add: div_greater_zero_iff)
  qed
  have "unat v < 2 ^ (24 + 8)" using unsigned_less [of v] by simp
  then show ?thesis
    using step [of 24] step [of 16] step [of 8] bytemsb_is_msb [of "unat v"]
    by (simp add: fls32_cases)
qed

lemma fls64_is_msb: "is_msb (unat v) (fls64 v)"
proof (cases "(ucast (drop_bit 32 v) :: u32) = 0")
  case True
  have "unat v div 2 ^ 32 < 2 ^ 32"
    using unsigned_less [of v] by (simp add: div_less_iff_less_mult)
  with True have "unat v < 2 ^ 32"
    by (simp add: word_unat_eq_iff unsigned_ucast_eq take_bit_nat_eq_self unat_drop_bit_div
        div_eq_0_iff)
  then have "unat (ucast v :: u32) = unat v"
    by (simp add: unsigned_ucast_eq take_bit_nat_eq_self)
  with True show ?thesis using fls32_is_msb [of "ucast v"] by (simp add: fls64_def)
next
  case False
  have "unat v div 2 ^ 32 < 2 ^ 32"
    using unsigned_less [of v] by (simp add: div_less_iff_less_mult)
  then have u: "unat (ucast (drop_bit 32 v) :: u32) = unat v div 2 ^ 32"
    by (simp add: unsigned_ucast_eq take_bit_nat_eq_self unat_drop_bit_div)
  with False have "0 < unat v div 2 ^ 32"
    by (metis gr0I unsigned_0 word_unat_eq_iff)
  then have "is_msb (unat v) (32 + fls32 (ucast (drop_bit 32 v)))"
    using fls32_is_msb [of "ucast (drop_bit 32 v)"] by (intro is_msb_shift) (simp_all add: u)
  with False show ?thesis by (simp add: fls64_def)
qed

lemma unat_minus_1: "(v :: 'a::len word) \<noteq> 0 \<Longrightarrow> unat (v - 1) = unat v - 1"
  by (rule unat_minus_one)

text \<open>
  The ceiling of the binary logarithm, for the value a caller gets from \<open>fls (v - 1)\<close>: the least
  exponent whose power reaches \<open>v\<close>.
\<close>

lemma is_msb_pred_ceiling:
  assumes "is_msb (n - 1) k" and "0 < n"
  shows "n \<le> 2 ^ j \<longleftrightarrow> k \<le> j"
proof
  assume "k \<le> j"
  then have "(2::nat) ^ k \<le> 2 ^ j" by (simp add: power_increasing)
  moreover have "n \<le> 2 ^ k" using assms by (auto simp: is_msb_def)
  ultimately show "n \<le> 2 ^ j" by (rule order_trans [rotated])
next
  assume n: "n \<le> 2 ^ j"
  show "k \<le> j"
  proof (rule ccontr)
    assume "\<not> k \<le> j"
    then have "j \<le> k - 1" and "k \<noteq> 0" by auto
    then have "(2::nat) ^ j \<le> 2 ^ (k - 1)" by (simp add: power_increasing)
    also have "\<dots> \<le> n - 1" using assms \<open>k \<noteq> 0\<close> by (simp add: is_msb_def)
    finally show False using n assms(2) by simp
  qed
qed

lemma log2c64_ceiling:
  "v \<noteq> 0 \<Longrightarrow> log2c64 v = int k \<Longrightarrow> unat v \<le> 2 ^ j \<longleftrightarrow> k \<le> j"
  using is_msb_pred_ceiling [of "unat v" k j] fls64_is_msb [of "v - 1"]
  by (simp add: log2c64_def unat_minus_1 unat_gt_0)

lemma log2c32_ceiling:
  "v \<noteq> 0 \<Longrightarrow> log2c32 v = int k \<Longrightarrow> unat v \<le> 2 ^ j \<longleftrightarrow> k \<le> j"
  using is_msb_pred_ceiling [of "unat v" k j] fls32_is_msb [of "v - 1"]
  by (simp add: log2c32_def unat_minus_1 unat_gt_0)

text \<open>A power of two has its exponent as its logarithm.\<close>

lemma log2c64_exact: "n < 64 \<Longrightarrow> log2c64 (2 ^ n) = int n"
proof -
  assume n: "n < 64"
  have u: "unat (2 ^ n :: u64) = 2 ^ n" using n by (simp add: unat_pow2)
  then have nz: "(2 ^ n :: u64) \<noteq> 0" by (metis power_not_zero unsigned_0 zero_neq_numeral)
  obtain k where k: "log2c64 (2 ^ n) = int k" using nz by (simp add: log2c64_def)
  have "k \<le> j \<longleftrightarrow> n \<le> j" for j
    using log2c64_ceiling [OF nz k, of j] by (simp add: u)
  then have "k = n" by (meson order_antisym order_refl)
  with k show ?thesis by simp
qed

section \<open>The lowest set bit\<close>

lemma lsb_byte:
  assumes low: "n mod 2 ^ s = 0" and byte: "n mod 2 ^ (s + 8) \<noteq> 0"
  shows "is_lsb n (s + bytelsb ! (n div 2 ^ s mod 2 ^ 8))"
proof -
  have "n mod 2 ^ (s + 8) = 2 ^ s * (n div 2 ^ s mod 2 ^ 8) + n mod 2 ^ s"
    by (simp only: power_add mod_mult2_eq)
  with low byte have nz: "n div 2 ^ s mod 2 ^ 8 \<noteq> 0" by (metis add_0_right mult_0_right)
  have "is_lsb (n div 2 ^ s) (bytelsb ! (n div 2 ^ s mod 2 ^ 8))"
    by (rule is_lsb_mod [OF bytelsb_is_lsb nz]) simp
  moreover have "n \<noteq> 0" using byte by (metis mod_0)
  ultimately show ?thesis using low by (intro is_lsb_shift) auto
qed

lemma ffs32_cases:
  "ffs32 v =
     (if unat v mod 2 ^ 16 \<noteq> 0 then
        (if unat v mod 2 ^ 8 \<noteq> 0 then bytelsb ! (unat v mod 2 ^ 8)
         else 8 + bytelsb ! (unat v div 2 ^ 8 mod 2 ^ 8))
      else if unat v mod 2 ^ 24 \<noteq> 0 then 16 + bytelsb ! (unat v div 2 ^ 16 mod 2 ^ 8)
      else if unat v \<noteq> 0 then 24 + bytelsb ! (unat v div 2 ^ 24 mod 2 ^ 8)
      else 0)"
proof -
  have m: "v AND mask n \<noteq> 0 \<longleftrightarrow> unat v mod 2 ^ n \<noteq> 0" for n
    by (simp only: word_unat_eq_iff unat_and_mask_mod unsigned_0)
  have third: "v AND 0xff0000 = v AND mask 24" if "\<not> unat v mod 2 ^ 16 \<noteq> 0"
  proof -
    have "v AND mask 16 = 0" using that m [of 16] by blast
    then have z: "\<not> bit (v AND mask 16) n" for n by simp
    have "\<not> bit v n" if "n < 16" for n
      using z [of n] that by (simp add: bit_simps)
    then show ?thesis
      unfolding u32_masks by (auto simp: bit_eq_iff bit_simps)
  qed
  have idx: "unat v mod 2 ^ 24 div 2 ^ 16 = unat v div 2 ^ 16 mod 2 ^ 8"
    using drop_bit_take_bit [of 16 24 "unat v"]
    by (simp add: drop_bit_eq_div take_bit_eq_mod)
  have nz: "v \<noteq> 0 \<longleftrightarrow> unat v \<noteq> 0" by (simp add: unat_eq_0)
  have m8: "(0xff :: u32) = mask 8" and m16: "(0xffff :: u32) = mask 16"
    by (simp_all add: mask_eq_exp_minus_1)
  show ?thesis
  proof (cases "unat v mod 2 ^ 16 \<noteq> 0")
    case True
    then show ?thesis
      unfolding ffs32_def Let_def m8 m16
      by (simp only: m unat_and_mask_mod unat_drop_bit_div if_True not_False_eq_True)
  next
    case False
    then show ?thesis
      unfolding ffs32_def Let_def m8 m16 third [OF False]
      by (simp only: m nz unat_and_mask_mod unat_drop_bit_div idx if_False)
  qed
qed

lemma ffs32_is_lsb: "is_lsb (unat v) (ffs32 v)"
proof -
  let ?n = "unat v"
  have "?n < 2 ^ (24 + 8)" by simp
  then have "?n mod 2 ^ (24 + 8) = ?n" by (rule mod_less)
  then have "?n mod 2 ^ 24 = 0 \<Longrightarrow> ?n \<noteq> 0 \<Longrightarrow> is_lsb ?n (24 + bytelsb ! (?n div 2 ^ 24 mod 2 ^ 8))"
    by (intro lsb_byte) simp_all
  moreover have "is_lsb 0 0" by (simp add: is_lsb_def)
  ultimately show ?thesis
    using lsb_byte [of ?n 0] lsb_byte [of ?n 8] lsb_byte [of ?n 16]
    by (simp add: ffs32_cases)
qed

text \<open>
  \<open>ffs64\<close> calls \<open>fls32\<close> on the lower half that is not zero, so it names the highest set bit of
  that half. It still names a set bit, which is all its caller \<open>bbfree::findbit\<close> needs.
\<close>

lemma is_msb_bit: "is_msb (unat (w :: 'a::len word)) k \<Longrightarrow> w \<noteq> 0 \<Longrightarrow> bit w (k - 1)"
proof -
  assume k: "is_msb (unat w) k" and nz: "w \<noteq> 0"
  then have kp: "0 < k" using is_msb_pos by (metis gr0I unat_eq_0)
  then have "unat w < 2 * 2 ^ (k - 1)" and "2 ^ (k - 1) \<le> unat w"
    using k by (cases k; auto simp: is_msb_def)+
  then have "unat w div 2 ^ (k - 1) = 1"
    by (metis Suc_1 div_nat_eqI mult.commute mult_1 One_nat_def)
  then have "odd (unat w div 2 ^ (k - 1))" by simp
  then have "bit (unat w) (k - 1)" by (simp add: bit_iff_odd)
  then show ?thesis by (simp add: bit_unsigned_iff)
qed

lemma unat_half:
  "unat (ucast (v AND 0xffffffff) :: u32) = unat v mod 2 ^ 32"
  "unat (ucast (drop_bit 32 v) :: u32) = unat v div 2 ^ 32" for v :: u64
proof -
  have "(0xffffffff :: u64) = mask 32" by (simp add: mask_eq_exp_minus_1)
  then have "unat (v AND 0xffffffff) = unat v mod 2 ^ 32" by (simp only: unat_and_mask_mod)
  then show "unat (ucast (v AND 0xffffffff) :: u32) = unat v mod 2 ^ 32"
    by (simp add: unsigned_ucast_eq take_bit_eq_mod)
  have "unat v div 2 ^ 32 < 2 ^ 32" by (simp add: div_less_iff_less_mult)
  then show "unat (ucast (drop_bit 32 v) :: u32) = unat v div 2 ^ 32"
    by (simp add: unsigned_ucast_eq unat_drop_bit_div take_bit_nat_eq_self)
qed

lemma ffs64_cases:
  assumes "v \<noteq> 0"
  shows "(\<exists>l :: u32. l \<noteq> 0 \<and> unat l = unat v mod 2 ^ 32 \<and> ffs64 v = fls32 l) \<or>
         (\<exists>h :: u32. h \<noteq> 0 \<and> unat h = unat v div 2 ^ 32 \<and> ffs64 v = 32 + fls32 h)"
proof (cases "(ucast (v AND 0xffffffff) :: u32) = 0")
  case False
  then show ?thesis using unat_half(1) [of v] by (auto simp: ffs64_def Let_def)
next
  case True
  then have "unat v mod 2 ^ 32 = 0" using unat_half(1) [of v] by simp
  moreover have "unat v \<noteq> 0" using assms by (simp add: unat_eq_0)
  ultimately have "unat v div 2 ^ 32 \<noteq> 0" by (metis div_mult_mod_eq add_0_right mult_0)
  then have "(ucast (drop_bit 32 v) :: u32) \<noteq> 0" using unat_half(2) [of v] by auto
  with True show ?thesis using unat_half(2) [of v] by (auto simp: ffs64_def Let_def)
qed

lemma is_msb_le: "is_msb n k \<Longrightarrow> n < 2 ^ m \<Longrightarrow> k \<le> m"
proof (rule ccontr)
  assume k: "is_msb n k" and n: "n < 2 ^ m" and "\<not> k \<le> m"
  then have "m \<le> k - 1" and "k \<noteq> 0" by auto
  then have "(2::nat) ^ m \<le> 2 ^ (k - 1)" by (simp add: power_increasing)
  also have "\<dots> \<le> n" using k \<open>k \<noteq> 0\<close> by (simp add: is_msb_def)
  finally show False using n by simp
qed

lemma fls32_bounds: "w \<noteq> 0 \<Longrightarrow> 0 < fls32 w" "fls32 w \<le> 32"
  using is_msb_pos [OF fls32_is_msb [of w]] is_msb_le [OF fls32_is_msb [of w], of 32]
  by (auto simp: unat_gt_0)

lemma ffs64_bit:
  assumes nz: "v \<noteq> 0"
  shows "0 < ffs64 v" and "ffs64 v \<le> 64" and "bit v (ffs64 v - 1)"
proof -
  have lo: "0 < ffs64 v \<and> ffs64 v \<le> 64 \<and> bit v (ffs64 v - 1)"
    if l: "l \<noteq> 0" "unat l = unat v mod 2 ^ 32" "ffs64 v = fls32 l" for l :: u32
  proof -
    have "bit l (fls32 l - 1)" by (rule is_msb_bit [OF fls32_is_msb l(1)])
    then have "bit (unat l) (fls32 l - 1)" by (simp add: bit_unsigned_iff)
    then have "bit (unat v mod 2 ^ 32) (fls32 l - 1)" by (simp only: l(2))
    then have "bit v (fls32 l - 1)"
      by (simp only: take_bit_eq_mod [symmetric] bit_take_bit_iff bit_unsigned_iff)
    with l fls32_bounds [of l] show ?thesis by simp
  qed
  have hi: "0 < ffs64 v \<and> ffs64 v \<le> 64 \<and> bit v (ffs64 v - 1)"
    if h: "h \<noteq> 0" "unat h = unat v div 2 ^ 32" "ffs64 v = 32 + fls32 h" for h :: u32
  proof -
    have "bit h (fls32 h - 1)" by (rule is_msb_bit [OF fls32_is_msb h(1)])
    then have "bit (unat h) (fls32 h - 1)" by (simp add: bit_unsigned_iff)
    then have "bit (unat v div 2 ^ 32) (fls32 h - 1)" by (simp only: h(2))
    then have "bit v (32 + (fls32 h - 1))"
      by (simp only: drop_bit_eq_div [symmetric] bit_drop_bit_eq o_apply bit_unsigned_iff)
    with h fls32_bounds [of h] show ?thesis by simp
  qed
  from ffs64_cases [OF nz] lo hi
  show "0 < ffs64 v" "ffs64 v \<le> 64" "bit v (ffs64 v - 1)" by blast+
qed

section \<open>Properties\<close>

text \<open>
  \<open>log2c64\<close> is the ceiling of the binary logarithm: for a nonzero argument it is the least
  exponent \<open>k\<close> with \<open>v \<le> 2 ^ k\<close>, as its comment says.
\<close>

theorem log2c64_spec:
  assumes "v \<noteq> 0"
  shows "\<exists>k. log2c64 v = int k \<and> k \<le> 64 \<and> (\<forall>j. unat v \<le> 2 ^ j \<longleftrightarrow> k \<le> j)"
proof -
  obtain k where k: "log2c64 v = int k" using assms by (simp add: log2c64_def)
  have "k \<le> 64" using log2c64_ceiling [OF assms k, of 64] unat_bounds(3) [of v] by simp
  with k log2c64_ceiling [OF assms k] show ?thesis by blast
qed

theorem log2c64_spec_witness:
  "(5 :: u64) \<noteq> 0 \<and>
   (\<exists>k. log2c64 5 = int k \<and> k \<le> 64 \<and> (\<forall>j. unat (5 :: u64) \<le> 2 ^ j \<longleftrightarrow> k \<le> j))"
  using log2c64_spec [of 5] by simp

text \<open>
  \<open>ffs64\<close>, documented as finding the least significant set bit, does name a set bit of every
  nonzero word, but for the word 6 (binary 110) it names bit 3 where the least significant set bit
  is bit 2: it calls \<open>fls32\<close> where \<open>ffs32\<close> was meant.
\<close>

theorem ffs64_set_but_not_least:
  "(v \<noteq> 0 \<longrightarrow> 0 < ffs64 v \<and> ffs64 v \<le> 64 \<and> bit v (ffs64 v - 1)) \<and>
   ffs64 6 = 3 \<and> is_lsb (unat (6 :: u64)) 2 \<and> ffs32 6 = 2"
proof -
  have "ffs64 6 = 3" by (simp add: ffs64_def fls32_def bytemsb_def)
  moreover have "ffs32 6 = 2" by (simp add: ffs32_def bytelsb_def)
  moreover have "is_lsb (unat (6 :: u64)) 2" by (simp add: is_lsb_def)
  ultimately show ?thesis using ffs64_bit [of v] by blast
qed

theorem ffs64_set_but_not_least_witness:
  "(6 :: u64) \<noteq> 0 \<and> bit (6 :: u64) (ffs64 6 - 1)"
  using ffs64_set_but_not_least [of 6] by simp

end
