(* ===== verification/Serial.thy ===== *)
theory Serial
  imports Prelude
begin

text \<open>
  The serialisation helpers of \<open>async/serial.h\<close>: the big-endian stores and loads of 16-, 32- and
  64-bit integers and the base-16 decoder. A store yields the bytes it writes; a load takes the
  memory from its pointer on and is a fault when that memory is too short.
\<close>

section \<open>Big-endian integers\<close>

definition putshort :: "u16 \<Rightarrow> u8 list" where
  "putshort val = [ucast (drop_bit 8 val), ucast val]"

fun getshort :: "u8 list \<Rightarrow> u16 res" where
  "getshort (d0 # d1 # _) = Inr (push_bit 8 (ucast d0) OR ucast d1)"
| "getshort _ = Inl OutOfRange"

definition putint :: "u32 \<Rightarrow> u8 list" where
  "putint val = [ucast (drop_bit 24 val), ucast (drop_bit 16 val), ucast (drop_bit 8 val), ucast val]"

fun getint :: "u8 list \<Rightarrow> u32 res" where
  "getint (d0 # d1 # d2 # d3 # _) =
     Inr (push_bit 24 (ucast d0) OR push_bit 16 (ucast d1) OR push_bit 8 (ucast d2) OR ucast d3)"
| "getint _ = Inl OutOfRange"

definition puthyper :: "u64 \<Rightarrow> u8 list" where
  "puthyper val =
     [ucast (drop_bit 56 val), ucast (drop_bit 48 val), ucast (drop_bit 40 val),
      ucast (drop_bit 32 val), ucast (drop_bit 24 val), ucast (drop_bit 16 val),
      ucast (drop_bit 8 val), ucast val]"

fun gethyper :: "u8 list \<Rightarrow> u64 res" where
  "gethyper (d0 # d1 # d2 # d3 # dp4) =
     bindR (getint dp4) (\<lambda>l.
       Inr (push_bit 56 (ucast d0) OR push_bit 48 (ucast d1) OR push_bit 40 (ucast d2)
            OR push_bit 32 (ucast d3) OR ucast l))"
| "gethyper _ = Inl OutOfRange"

section \<open>Base 16\<close>

definition hexconv :: "char \<Rightarrow> int option" where
  "hexconv c =
     (let v = int (of_char c)
      in if int (of_char (CHR ''0'')) \<le> v \<and> v \<le> int (of_char (CHR ''9''))
         then Some (v - int (of_char (CHR ''0'')))
         else if int (of_char (CHR ''a'')) \<le> v \<and> v \<le> int (of_char (CHR ''f''))
         then Some (v - (int (of_char (CHR ''a'')) - 10))
         else if int (of_char (CHR ''A'')) \<le> v \<and> v \<le> int (of_char (CHR ''F''))
         then Some (v - (int (of_char (CHR ''A'')) - 10))
         else None)"

text \<open>The loop of \<open>hex2bytes\<close>: two characters a byte, \<open>None\<close> for the \<open>NULL\<close> of a bad digit.\<close>

fun hex2bytes_loop :: "string \<Rightarrow> u8 list option" where
  "hex2bytes_loop (p0 # p1 # ps) =
     (case hexconv p0 of
        None \<Rightarrow> None
      | Some h \<Rightarrow>
          (case hexconv p1 of
             None \<Rightarrow> None
           | Some l \<Rightarrow> map_option (Cons (word_of_int (push_bit 4 h OR l))) (hex2bytes_loop ps)))"
| "hex2bytes_loop _ = Some []"

definition hex2bytes :: "string \<Rightarrow> u8 list option" where
  "hex2bytes asc = (if odd (length asc) then None else hex2bytes_loop asc)"

text \<open>The \<open>hexdump\<close> of \<open>str.h\<close>: each byte printed with the format \<open>%02x\<close>.\<close>

definition hexdigits :: string where
  "hexdigits = ''0123456789abcdef''"

fun hexdump :: "u8 list \<Rightarrow> string" where
  "hexdump [] = []"
| "hexdump (p # ps) = [hexdigits ! (unat p div 16), hexdigits ! (unat p mod 16)] @ hexdump ps"

section \<open>Facts\<close>

lemma length_put [simp]:
  "length (putshort a) = 2" "length (putint b) = 4" "length (puthyper c) = 8"
  by (simp_all add: putshort_def putint_def puthyper_def)

lemma putint_of_getint: "length bs = 4 \<Longrightarrow> \<exists>x. getint (bs @ r) = Inr x \<and> putint x = bs"
proof -
  assume "length bs = 4"
  then obtain a b c d where bs: "bs = [a, b, c, d]" by (auto simp: numeral_eq_Suc length_Suc_conv)
  have "\<not> bit (x :: u8) (8 + n)" "\<not> bit (x :: u8) (16 + n)" "\<not> bit (x :: u8) (24 + n)" for x n
    using bit_imp_le_length [of x] by fastforce+
  then show ?thesis by (auto simp: bs putint_def intro!: bit_eqI simp: bit_simps)
qed

lemma getshort_putshort [simp]: "getshort (putshort v @ rest) = Inr v"
  by (simp add: putshort_def ucast_ucast_u8 push_take_join take_bit_word_self)

lemma getint_putint [simp]: "getint (putint v @ rest) = Inr v"
  by (simp add: putint_def ucast_ucast_u8 push_take_join take_bit_word_self)

lemma getint_putint_exact [simp]: "getint (putint v) = Inr v"
  using getint_putint [of v "[]"] by simp

lemma gethyper_puthyper: "gethyper (puthyper v @ rest) = Inr v"
proof -
  have byte: "(ucast (drop_bit n v) :: u8) = ucast (drop_bit n (ucast v :: u32))" if "n + 8 \<le> 32" for n
    by (rule bit_eqI) (use that in \<open>auto simp: bit_simps\<close>)
  have "puthyper v = [ucast (drop_bit 56 v), ucast (drop_bit 48 v), ucast (drop_bit 40 v),
      ucast (drop_bit 32 v)] @ putint (ucast v)"
    using byte [of 0] byte [of 8] byte [of 16] byte [of 24] by (simp add: puthyper_def putint_def)
  moreover have "(ucast (ucast v :: u32) :: u64) = take_bit 32 v"
    by (rule bit_eqI) (auto simp: bit_simps)
  ultimately show ?thesis
    by (simp add: ucast_ucast_u8 push_take_join take_bit_word_self)
qed

lemma putint_bytes:
  "putint (push_bit 24 (ucast d0) OR push_bit 16 (ucast d1) OR push_bit 8 (ucast d2) OR ucast d3)
   = [d0, d1, d2, d3]"
  by (auto simp: putint_def bit_eq_iff bit_simps dest: bit_imp_le_length)

lemma getint_ok_iff: "(\<exists>v. getint ds = Inr v) \<longleftrightarrow> 4 \<le> length ds"
  by (cases ds rule: getint.cases) auto

lemma putint_getint: "getint ds = Inr v \<Longrightarrow> putint v = take 4 ds"
  by (cases ds rule: getint.cases) (auto simp: putint_bytes)

lemma getint_append: "4 \<le> length ds \<Longrightarrow> getint (ds @ rest) = getint ds"
  by (cases ds rule: getint.cases) auto

lemma hexconv_hexdigits: "i < 16 \<Longrightarrow> hexconv (hexdigits ! i) = Some (int i)"
proof (rule table_ok0D [where P = "\<lambda>i c. hexconv c = Some (int i)"])
  show "table_ok (\<lambda>i c. hexconv c = Some (int i)) 0 hexdigits"
    by (simp add: hexdigits_def hexconv_def)
qed (simp add: hexdigits_def)

lemma nibbles_join: "word_of_int (push_bit 4 (int (unat p div 16)) OR int (unat p mod 16)) = (p :: u8)"
proof -
  have "int (unat p div 16) = drop_bit 4 (uint p)" and "int (unat p mod 16) = take_bit 4 (uint p)"
    by (simp_all add: drop_bit_eq_div take_bit_eq_mod zdiv_int zmod_int)
  then have "word_of_int (push_bit 4 (int (unat p div 16)) OR int (unat p mod 16)) =
      (word_of_int (push_bit 4 (drop_bit 4 (uint p)) OR take_bit 4 (uint p)) :: u8)"
    by simp
  also have "push_bit 4 (drop_bit 4 (uint p)) OR take_bit 4 (uint p) = uint p"
    by (rule bit_eqI) (auto simp: bit_simps)
  finally show ?thesis by simp
qed

lemma hex2bytes_loop_hexdump: "hex2bytes_loop (hexdump bs) = Some bs"
proof (induction bs)
  case (Cons p bs)
  have "unat p div 16 < 16" "unat p mod 16 < 16" by (simp_all add: div_less_iff_less_mult)
  then show ?case
    using Cons.IH nibbles_join [of p]
    by (simp only: hexdump.simps append.simps hex2bytes_loop.simps hexconv_hexdigits option.case
        option.map)
qed simp

section \<open>Properties\<close>

text \<open>
  Every store of \<open>serial.h\<close> is undone by its load, whatever bytes follow, and \<open>hex2bytes\<close> undoes
  \<open>hexdump\<close>.
\<close>

theorem serial_roundtrip:
  "getshort (putshort a @ rest) = Inr a \<and> getint (putint b @ rest) = Inr b \<and>
   gethyper (puthyper c @ rest) = Inr c \<and> hex2bytes (hexdump bs) = Some bs"
proof -
  have "even (length (hexdump bs))" by (induction bs) simp_all
  then show ?thesis
    by (simp add: gethyper_puthyper hex2bytes_def hex2bytes_loop_hexdump)
qed

end
