(* ===== verification/Xdr.thy ===== *)
theory Xdr
  imports Serial
begin

text \<open>
  The XDR marshalling of \<open>arpc/xdrmisc.h\<close> and \<open>arpc/rpctypes.h\<close>: the functions \<open>rpc_traverse\<close> for the base types and the
  containers that the protocol compiler puts together. A type is a value of \<open>xty\<close> and an object of it a value of \<open>xval\<close>;
  the template functions are one function on types. The two instances for an encoding and for a decoding \<open>XDR\<close> are \<open>enc\<close>
  and \<open>dec\<close>. The table of operations of an \<open>XDR\<close> is an argument: \<open>xout\<close> for one that encodes, which puts
  bytes held at some place of type \<open>'b\<close>, and \<open>xin\<close> for one that decodes. A \<open>long\<close> has 64 bits. Objects own
  their elements (\<open>nofree\<close> is false).
\<close>

section \<open>Definitions\<close>

datatype xty =
    TU32 | TBool | TU64
  | TOpaque nat      \<comment> \<open>\<open>rpc_opaque<n>\<close>\<close>
  | TBytes nat       \<comment> \<open>\<open>rpc_bytes<max>\<close>\<close>
  | TStr nat         \<comment> \<open>\<open>rpc_str<max>\<close>\<close>
  | TString          \<comment> \<open>\<open>str\<close>\<close>
  | TArray xty nat   \<comment> \<open>\<open>array<R, n>\<close>\<close>
  | TVec xty nat     \<comment> \<open>\<open>rpc_vec<R, max>\<close>\<close>
  | TPtr xty         \<comment> \<open>\<open>rpc_ptr<R>\<close>\<close>

datatype 'b xval =
    VU32 u32 | VBool bool | VU64 u64
  | VBytes 'b
  | VStr "'b option"
  | VList "'b xval list"
  | VPtr "'b xval option"

record ('s, 'b) xout =
  x_putlong :: "u64 \<Rightarrow> 's \<Rightarrow> (bool \<times> 's) res"
  x_putbytes :: "'b \<Rightarrow> 's \<Rightarrow> (bool \<times> 's) res"
  blen :: "'b \<Rightarrow> nat"
  zero_bytes :: "nat \<Rightarrow> 'b"     \<comment> \<open>the first bytes of \<open>__xdr_zero_bytes\<close>\<close>

record 'i xin =
  x_getlong :: "'i \<Rightarrow> (u64 \<times> 'i) option"
  x_getbytes :: "nat \<Rightarrow> 'i \<Rightarrow> (u8 list \<times> 'i) option"
  x_inline :: "nat \<Rightarrow> 'i \<Rightarrow> (u8 list \<times> 'i) option"

text \<open>\<open>a && b\<close> for operations on the stream.\<close>

definition andB :: "(bool \<times> 's) res \<Rightarrow> ('s \<Rightarrow> (bool \<times> 's) res) \<Rightarrow> (bool \<times> 's) res" where
  "andB m f = bindR m (\<lambda>(b, s). if b then f s else Inr (False, s))"

definition xdr_putint :: "('s, 'b) xout \<Rightarrow> u32 \<Rightarrow> 's \<Rightarrow> (bool \<times> 's) res" where
  "xdr_putint O' val s = x_putlong O' (ucast val) s"

definition xdr_getint :: "'i xin \<Rightarrow> 'i \<Rightarrow> (u32 \<times> 'i) option" where
  "xdr_getint I' i = (case x_getlong I' i of None \<Rightarrow> None | Some (l, i) \<Rightarrow> Some (ucast l, i))"

definition xdr_puthyper :: "('s, 'b) xout \<Rightarrow> u64 \<Rightarrow> 's \<Rightarrow> (bool \<times> 's) res" where
  "xdr_puthyper O' val s = andB (x_putlong O' (drop_bit 32 val) s) (x_putlong O' (val AND 0xffffffff))"

definition xdr_gethyper :: "'i xin \<Rightarrow> 'i \<Rightarrow> (u64 \<times> 'i) option" where
  "xdr_gethyper I' i =
     (case x_getlong I' i of
        None \<Rightarrow> None
      | Some (h, i) \<Rightarrow> (case x_getlong I' i of None \<Rightarrow> None | Some (l, i) \<Rightarrow> Some (push_bit 32 h OR l, i)))"

text \<open>\<open>-n & 3\<close>\<close>

definition padlen :: "nat \<Rightarrow> nat" where
  "padlen n = nat (- int n mod 4)"

definition xdr_putpadbytes :: "('s, 'b) xout \<Rightarrow> 'b \<Rightarrow> 's \<Rightarrow> (bool \<times> 's) res" where
  "xdr_putpadbytes O' b s =
     (let n = blen O' b
      in if n \<noteq> 0
         then andB (x_putbytes O' b s) (\<lambda>s.
                let nn = padlen n in if nn \<noteq> 0 then x_putbytes O' (zero_bytes O' nn) s else Inr (True, s))
         else Inr (True, s))"

definition xdr_getpadbytes :: "'i xin \<Rightarrow> nat \<Rightarrow> 'i \<Rightarrow> (u8 list \<times> 'i) option" where
  "xdr_getpadbytes I' n i =
     (case x_getbytes I' n i of
        None \<Rightarrow> None
      | Some (bs, i) \<Rightarrow>
          let nn = padlen n
          in if nn \<noteq> 0 then (case x_getbytes I' nn i of None \<Rightarrow> None | Some (_, i) \<Rightarrow> Some (bs, i)) else Some (bs, i))"

section \<open>Encoding\<close>

fun enc_list :: "('v \<Rightarrow> 's \<Rightarrow> (bool \<times> 's) res) \<Rightarrow> 'v list \<Rightarrow> 's \<Rightarrow> (bool \<times> 's) res" where
  "enc_list f [] s = Inr (True, s)"
| "enc_list f (v # vs) s = andB (f v s) (enc_list f vs)"

text \<open>An object of another type than the template's is \<open>Undefined\<close>: the compiler excludes it.\<close>

fun enc :: "xty \<Rightarrow> ('s, 'b) xout \<Rightarrow> 'b xval \<Rightarrow> 's \<Rightarrow> (bool \<times> 's) res" where
  "enc TU32 O' v s = (case v of VU32 x \<Rightarrow> xdr_putint O' x s | _ \<Rightarrow> Inl Undefined)"
| "enc TBool O' v s = (case v of VBool b \<Rightarrow> xdr_putint O' (if b then 1 else 0) s | _ \<Rightarrow> Inl Undefined)"
| "enc TU64 O' v s =
     (case v of VU64 x \<Rightarrow> andB (xdr_putint O' (ucast (drop_bit 32 x)) s) (xdr_putint O' (ucast x)) | _ \<Rightarrow> Inl Undefined)"
| "enc (TOpaque n) O' v s = (case v of VBytes b \<Rightarrow> xdr_putpadbytes O' b s | _ \<Rightarrow> Inl Undefined)"
| "enc (TBytes m) O' v s =
     (case v of VBytes b \<Rightarrow> andB (xdr_putint O' (of_nat (blen O' b)) s) (xdr_putpadbytes O' b) | _ \<Rightarrow> Inl Undefined)"
| "enc (TStr m) O' v s =
     (case v of
        VStr None \<Rightarrow> Inr (False, s)
      | VStr (Some b) \<Rightarrow> andB (xdr_putint O' (of_nat (blen O' b)) s) (xdr_putpadbytes O' b)
      | _ \<Rightarrow> Inl Undefined)"
| "enc TString O' v s =
     (case v of
        VStr None \<Rightarrow> Inr (False, s)
      | VStr (Some b) \<Rightarrow> andB (xdr_putint O' (of_nat (blen O' b)) s) (xdr_putpadbytes O' b)
      | _ \<Rightarrow> Inl Undefined)"
| "enc (TArray ty n) O' v s = (case v of VList vs \<Rightarrow> enc_list (\<lambda>v s. enc ty O' v s) vs s | _ \<Rightarrow> Inl Undefined)"
| "enc (TVec ty m) O' v s =
     (case v of
        VList vs \<Rightarrow>
          let len = (of_nat (length vs) :: u32)
          in andB (xdr_putint O' len s) (\<lambda>s.
             if unat len > m then Inr (False, s) else enc_list (\<lambda>v s. enc ty O' v s) (take (unat len) vs) s)
      | _ \<Rightarrow> Inl Undefined)"
| "enc (TPtr ty) O' v s =
     (case v of
        VPtr p \<Rightarrow>
          andB (xdr_putint O' (if p \<noteq> None then 1 else 0) s) (\<lambda>s.
            case p of None \<Rightarrow> Inr (True, s) | Some w \<Rightarrow> enc ty O' w s)
      | _ \<Rightarrow> Inl Undefined)"

section \<open>Decoding\<close>

type_synonym ('v, 'i) dres = "(bool \<times> 'v \<times> 'i) res"

text \<open>A new object, as the default constructors make it. A new number is not initialised in the code; it is 0 here.\<close>

fun dflt :: "xty \<Rightarrow> u8 list xval" where
  "dflt TU32 = VU32 0"
| "dflt TBool = VBool False"
| "dflt TU64 = VU64 0"
| "dflt (TOpaque n) = VBytes (replicate n 0)"
| "dflt (TBytes m) = VBytes []"
| "dflt (TStr m) = VStr (Some [])"
| "dflt TString = VStr None"
| "dflt (TArray ty n) = VList (replicate n (dflt ty))"
| "dflt (TVec ty m) = VList []"
| "dflt (TPtr ty) = VPtr None"

text \<open>The two loops over elements: those there are, and those to be appended.\<close>

fun dec_list :: "('v \<Rightarrow> 'i \<Rightarrow> ('v, 'i) dres) \<Rightarrow> 'v list \<Rightarrow> 'i \<Rightarrow> ('v list, 'i) dres" where
  "dec_list f [] i = Inr (True, [], i)"
| "dec_list f (v # vs) i =
     bindR (f v i) (\<lambda>(b, v, i).
       if b then bindR (dec_list f vs i) (\<lambda>(b, vs, i). Inr (b, v # vs, i)) else Inr (False, v # vs, i))"

fun dec_more :: "('v \<Rightarrow> 'i \<Rightarrow> ('v, 'i) dres) \<Rightarrow> 'v \<Rightarrow> nat \<Rightarrow> nat \<Rightarrow> 'v list \<Rightarrow> 'i \<Rightarrow> ('v list, 'i) dres" where
  "dec_more f d m 0 vs i = Inr (True, vs, i)"
| "dec_more f d m (Suc n) vs i =
     bindR (guardR AssertFail (length vs + 1 \<le> m)) (\<lambda>_.
     bindR (f d i) (\<lambda>(b, v, i). if b then dec_more f d m n (vs @ [v]) i else Inr (False, vs @ [v], i)))"

definition dec_vec :: "('v \<Rightarrow> 'i \<Rightarrow> ('v, 'i) dres) \<Rightarrow> 'v \<Rightarrow> nat \<Rightarrow> nat \<Rightarrow> nat \<Rightarrow> 'v list \<Rightarrow> 'i \<Rightarrow> ('v list, 'i) dres" where
  "dec_vec f d elsize m len vs i =
     bindR (if len < length vs
            then bindR (guardR AssertFail (len \<le> m)) (\<lambda>_. Inr (take len vs))
            else
              let maxreserve = min (0x10000 div elsize) len
              in if length vs < maxreserve
                 then bindR (guardR AssertFail (length vs + (maxreserve - length vs) \<le> m)) (\<lambda>_. Inr vs)
                 else Inr vs) (\<lambda>vs.
     bindR (dec_list f vs i) (\<lambda>(b, vs, i).
       if b then dec_more f d m (len - length vs) vs i else Inr (False, vs, i)))"

text \<open>\<open>setbuf\<close> of an \<open>rpc_str\<close>, with the assertions of \<open>check\<close>.\<close>

definition str_check :: "nat \<Rightarrow> u8 list \<Rightarrow> unit res" where
  "str_check m bs = bindR (guardR AssertFail (length bs = length (takeWhile (\<lambda>c. c \<noteq> 0) bs))) (\<lambda>_. guardR AssertFail (length bs \<le> m))"

definition inline_len :: "u32 \<Rightarrow> nat" where
  "inline_len len = unat ((len + 3) AND NOT 3)"

fun dec :: "xty \<Rightarrow> (xty \<Rightarrow> nat) \<Rightarrow> 'i xin \<Rightarrow> u8 list xval \<Rightarrow> 'i \<Rightarrow> (u8 list xval, 'i) dres" where
  "dec TU32 sz I' v i = (case xdr_getint I' i of None \<Rightarrow> Inr (False, v, i) | Some (x, i) \<Rightarrow> Inr (True, VU32 x, i))"
| "dec TBool sz I' v i = (case xdr_getint I' i of None \<Rightarrow> Inr (False, v, i) | Some (x, i) \<Rightarrow> Inr (True, VBool (x \<noteq> 0), i))"
| "dec TU64 sz I' v i =
     (case xdr_getint I' i of
        None \<Rightarrow> Inr (False, v, i)
      | Some (hi, i) \<Rightarrow>
          (case xdr_getint I' i of
             None \<Rightarrow> Inr (False, v, i)
           | Some (lo, i) \<Rightarrow> Inr (True, VU64 (push_bit 32 (ucast hi) OR ucast lo), i)))"
| "dec (TOpaque n) sz I' v i =
     (case xdr_getpadbytes I' n i of None \<Rightarrow> Inr (False, v, i) | Some (bs, i) \<Rightarrow> Inr (True, VBytes bs, i))"
| "dec (TBytes m) sz I' v i =
     (case xdr_getint I' i of
        None \<Rightarrow> Inr (False, v, i)
      | Some (len, i) \<Rightarrow>
          if unat len > m then Inr (False, v, i)
          else (case x_inline I' (inline_len len) i of
                  None \<Rightarrow> Inr (False, v, i)
                | Some (dp, i) \<Rightarrow>
                    bindR (guardR AssertFail (unat len \<le> m)) (\<lambda>_.
                    bindR (guardR OutOfRange (unat len \<le> length dp)) (\<lambda>_. Inr (True, VBytes (take (unat len) dp), i)))))"
| "dec (TStr m) sz I' v i =
     (case xdr_getint I' i of
        None \<Rightarrow> Inr (False, v, i)
      | Some (len, i) \<Rightarrow>
          if unat len > m then Inr (False, v, i)
          else (case x_inline I' (inline_len len) i of
                  None \<Rightarrow> Inr (False, v, i)
                | Some (dp, i) \<Rightarrow>
                    bindR (guardR OutOfRange (unat len \<le> length dp)) (\<lambda>_.
                    let bs = take (unat len) dp
                    in if 0 \<in> set bs then Inr (False, v, i)
                       else bindR (str_check m bs) (\<lambda>_. Inr (True, VStr (Some bs), i)))))"
| "dec TString sz I' v i =
     (case xdr_getint I' i of
        None \<Rightarrow> Inr (False, v, i)
      | Some (len, i) \<Rightarrow>
          (case xdr_getpadbytes I' (unat len) i of
             None \<Rightarrow> Inr (False, v, i)
           | Some (bs, i) \<Rightarrow> if 0 \<in> set bs then Inr (False, v, i) else Inr (True, VStr (Some bs), i)))"
| "dec (TArray ty n) sz I' v i =
     (case v of
        VList vs \<Rightarrow> bindR (dec_list (\<lambda>v i. dec ty sz I' v i) vs i) (\<lambda>(b, vs, i). Inr (b, VList vs, i))
      | _ \<Rightarrow> Inl Undefined)"
| "dec (TVec ty m) sz I' v i =
     (case v of
        VList vs \<Rightarrow>
          (case xdr_getint I' i of
             None \<Rightarrow> Inr (False, v, i)
           | Some (len, i) \<Rightarrow>
               if unat len > m then Inr (False, v, i)
               else bindR (dec_vec (\<lambda>v i. dec ty sz I' v i) (dflt ty) (sz ty) m (unat len) vs i) (\<lambda>(b, vs, i). Inr (b, VList vs, i)))
      | _ \<Rightarrow> Inl Undefined)"
| "dec (TPtr ty) sz I' v i =
     (case v of
        VPtr p \<Rightarrow>
          (case xdr_getint I' i of
             None \<Rightarrow> Inr (False, v, i)
           | Some (nonnil, i) \<Rightarrow>
               if nonnil \<noteq> 0
               then bindR (dec ty sz I' (case p of Some w \<Rightarrow> w | None \<Rightarrow> dflt ty) i) (\<lambda>(b, w, i). Inr (b, VPtr (Some w), i))
               else Inr (True, VPtr None, i))
      | _ \<Rightarrow> Inl Undefined)"

section \<open>Clearing\<close>

text \<open>\<open>rpc_clear\<close>; for \<open>str\<close> there is no instance.\<close>

fun rpc_clear :: "xty \<Rightarrow> u8 list xval \<Rightarrow> u8 list xval" where
  "rpc_clear TU32 v = VU32 0"
| "rpc_clear TBool v = VBool False"
| "rpc_clear TU64 v = VU64 0"
| "rpc_clear (TOpaque n) v = VBytes (replicate n 0)"
| "rpc_clear (TBytes m) v = VBytes []"
| "rpc_clear (TStr m) v = VStr (Some [])"
| "rpc_clear TString v = v"
| "rpc_clear (TArray ty n) v = (case v of VList vs \<Rightarrow> VList (map (\<lambda>v. rpc_clear ty v) vs) | _ \<Rightarrow> v)"
| "rpc_clear (TVec ty m) v = VList []"
| "rpc_clear (TPtr ty) v = VPtr None"

text \<open>Whether there is a \<open>str\<close> in an object of the type that \<open>rpc_clear\<close> would reach.\<close>

fun has_str :: "xty \<Rightarrow> bool" where
  "has_str TString \<longleftrightarrow> True"
| "has_str (TArray ty n) \<longleftrightarrow> has_str ty"
| "has_str _ \<longleftrightarrow> False"

section \<open>Types and the standard encoding\<close>

fun wt :: "xty \<Rightarrow> u8 list xval \<Rightarrow> bool" where
  "wt TU32 v = (case v of VU32 x \<Rightarrow> True | _ \<Rightarrow> False)"
| "wt TBool v = (case v of VBool x \<Rightarrow> True | _ \<Rightarrow> False)"
| "wt TU64 v = (case v of VU64 x \<Rightarrow> True | _ \<Rightarrow> False)"
| "wt (TOpaque n) v = (case v of VBytes bs \<Rightarrow> length bs = n | _ \<Rightarrow> False)"
| "wt (TBytes m) v = (case v of VBytes bs \<Rightarrow> length bs \<le> m | _ \<Rightarrow> False)"
| "wt (TStr m) v = (case v of VStr None \<Rightarrow> True | VStr (Some bs) \<Rightarrow> length bs \<le> m \<and> 0 \<notin> set bs | _ \<Rightarrow> False)"
| "wt TString v = (case v of VStr None \<Rightarrow> True | VStr (Some bs) \<Rightarrow> length bs < 2 ^ 32 \<and> 0 \<notin> set bs | _ \<Rightarrow> False)"
| "wt (TArray ty n) v = (case v of VList vs \<Rightarrow> length vs = n \<and> list_all (\<lambda>v. wt ty v) vs | _ \<Rightarrow> False)"
| "wt (TVec ty m) v = (case v of VList vs \<Rightarrow> length vs \<le> m \<and> list_all (\<lambda>v. wt ty v) vs | _ \<Rightarrow> False)"
| "wt (TPtr ty) v = (case v of VPtr None \<Rightarrow> True | VPtr (Some w) \<Rightarrow> wt ty w | _ \<Rightarrow> False)"

text \<open>The bounds of a type are at most \<open>RPC_INFINITY\<close>, and no string of an object to be encoded is \<open>NULL\<close>.\<close>

fun ty_ok :: "xty \<Rightarrow> bool" where
  "ty_ok (TBytes m) \<longleftrightarrow> m \<le> 0x7fffffff"
| "ty_ok (TStr m) \<longleftrightarrow> m \<le> 0x7fffffff"
| "ty_ok (TVec ty m) \<longleftrightarrow> m \<le> 0x7fffffff \<and> ty_ok ty"
| "ty_ok (TArray ty n) \<longleftrightarrow> ty_ok ty"
| "ty_ok (TPtr ty) \<longleftrightarrow> ty_ok ty"
| "ty_ok _ \<longleftrightarrow> True"

fun nonnull :: "'b xval \<Rightarrow> bool" where
  "nonnull (VStr p) \<longleftrightarrow> p \<noteq> None"
| "nonnull (VList vs) \<longleftrightarrow> list_all (\<lambda>v. nonnull v) vs"
| "nonnull (VPtr p) \<longleftrightarrow> (case p of None \<Rightarrow> True | Some w \<Rightarrow> nonnull w)"
| "nonnull _ \<longleftrightarrow> True"

text \<open>The encoding of RFC 1832: big-endian integers, counted strings, everything filled up to a multiple of four bytes.\<close>

definition pad4 :: "u8 list \<Rightarrow> u8 list" where
  "pad4 bs = bs @ replicate (padlen (length bs)) 0"

fun xbytes :: "xty \<Rightarrow> u8 list xval \<Rightarrow> u8 list" where
  "xbytes TU32 v = (case v of VU32 x \<Rightarrow> putint x | _ \<Rightarrow> [])"
| "xbytes TBool v = (case v of VBool b \<Rightarrow> putint (if b then 1 else 0) | _ \<Rightarrow> [])"
| "xbytes TU64 v = (case v of VU64 x \<Rightarrow> puthyper x | _ \<Rightarrow> [])"
| "xbytes (TOpaque n) v = (case v of VBytes bs \<Rightarrow> pad4 bs | _ \<Rightarrow> [])"
| "xbytes (TBytes m) v = (case v of VBytes bs \<Rightarrow> putint (of_nat (length bs)) @ pad4 bs | _ \<Rightarrow> [])"
| "xbytes (TStr m) v = (case v of VStr (Some bs) \<Rightarrow> putint (of_nat (length bs)) @ pad4 bs | _ \<Rightarrow> [])"
| "xbytes TString v = (case v of VStr (Some bs) \<Rightarrow> putint (of_nat (length bs)) @ pad4 bs | _ \<Rightarrow> [])"
| "xbytes (TArray ty n) v = (case v of VList vs \<Rightarrow> concat (map (\<lambda>v. xbytes ty v) vs) | _ \<Rightarrow> [])"
| "xbytes (TVec ty m) v = (case v of VList vs \<Rightarrow> putint (of_nat (length vs)) @ concat (map (\<lambda>v. xbytes ty v) vs) | _ \<Rightarrow> [])"
| "xbytes (TPtr ty) v = (case v of VPtr None \<Rightarrow> putint 0 | VPtr (Some w) \<Rightarrow> putint 1 @ xbytes ty w | _ \<Rightarrow> [])"

lemma padlen_simps: "padlen n < 4" "(n + padlen n) mod 4 = 0"
proof -
  show "padlen n < 4" unfolding padlen_def by (simp add: nat_less_iff)
  have "(int n + int (padlen n)) mod 4 = 0" unfolding padlen_def by (simp add: mod_add_right_eq)
  then show "(n + padlen n) mod 4 = 0" by (metis of_nat_add of_nat_eq_0_iff of_nat_mod of_nat_numeral)
qed

lemma and_not_3: "unat ((x :: u32) AND NOT 3) = unat x div 4 * 4"
proof -
  have "x AND NOT 3 = push_bit 2 (drop_bit 2 x)"
  proof (rule bit_word_eqI)
    fix n assume n: "n < LENGTH(32)"
    have "bit (3 :: u32) n \<longleftrightarrow> n < 2" using n bit_mask_iff [of 2 n, where 'a = u32] by (auto simp: mask_eq_exp_minus_1 simp del: bit_numeral_iff)
    moreover have "2 \<le> n \<Longrightarrow> Suc (Suc (n - 2)) = n" by linarith
    ultimately show "bit (x AND NOT 3) n = bit (push_bit 2 (drop_bit 2 x)) n" using n by (auto simp: bit_simps simp del: not_numeral_eq)
  qed
  moreover have "unat x div 4 * 4 < 4294967296" using unat_bounds(2) [of x] by linarith
  then have "unat (push_bit 2 (drop_bit 2 x)) = unat (drop_bit 2 x) * 4"
    by (simp add: push_bit_eq_mult unat_word_ariths unat_drop_bit_div)
  ultimately show ?thesis by (simp add: unat_drop_bit_div)
qed

lemma inline_len:
  assumes "unat n \<le> 0x7fffffff"
  shows "inline_len n = unat n + padlen (unat n)"
proof -
  have "unat (n + 3) = unat n + 3" using assms by (simp add: unat_word_ariths)
  then have "inline_len n = (unat n + 3) div 4 * 4" by (simp only: inline_len_def and_not_3)
  moreover have "(unat n + 3) div 4 * 4 = unat n + padlen (unat n)" using padlen_simps [of "unat n"] by presburger
  ultimately show ?thesis by simp
qed

lemma length_pad4: "length (pad4 bs) = length bs + padlen (length bs)"
  by (simp add: pad4_def)

lemma putint_puthyper: "putint (ucast (drop_bit 32 (x :: u64))) @ putint (ucast x) = puthyper x"
  by (auto simp: putint_def puthyper_def intro!: bit_eqI simp: bit_simps)

lemma hyper_join: "push_bit 32 (ucast (ucast (drop_bit 32 (x :: u64)) :: u32)) OR ucast (ucast x :: u32) = x"
  by (rule bit_eqI) (auto simp: bit_simps)

lemma ucast_up_down: "(ucast (ucast (x :: u32) :: u64) :: u32) = x"
  by (rule bit_eqI) (auto simp: bit_simps)

lemma length_putint [simp]: "length (putint v) = 4"
  by (simp add: putint_def)

lemma unat_len: "n < 2 ^ 32 \<Longrightarrow> unat (of_nat n :: u32) = n"
  by (simp add: unsigned_of_nat take_bit_nat_eq_self)

section \<open>The contract of an encoding stream\<close>

text \<open>Bytes are appended to the stream, and the buffers of the objects keep their contents.\<close>

definition grown :: "('s \<Rightarrow> bool) \<Rightarrow> ('s \<Rightarrow> u8 list) \<Rightarrow> ('s \<Rightarrow> 'b \<Rightarrow> bool) \<Rightarrow> ('s \<Rightarrow> 'b \<Rightarrow> u8 list) \<Rightarrow> 's \<Rightarrow> 's \<Rightarrow> u8 list \<Rightarrow> bool" where
  "grown sinv bytes_of okb bufc s s' bs \<longleftrightarrow>
     sinv s' \<and> bytes_of s' = bytes_of s @ bs \<and> (\<forall>b. okb s b \<longrightarrow> okb s' b \<and> bufc s' b = bufc s b)"

locale xdr_out =
  fixes out :: "('s, 'b) xout" and sinv :: "'s \<Rightarrow> bool" and bytes_of :: "'s \<Rightarrow> u8 list"
    and okb :: "'s \<Rightarrow> 'b \<Rightarrow> bool" and bufc :: "'s \<Rightarrow> 'b \<Rightarrow> u8 list"
  assumes putlong: "sinv s \<Longrightarrow> \<exists>s'. x_putlong out v s = Inr (True, s') \<and> grown sinv bytes_of okb bufc s s' (putint (ucast v))"
    and putbytes: "sinv s \<Longrightarrow> okb s b \<Longrightarrow> \<exists>s'. x_putbytes out b s = Inr (True, s') \<and> grown sinv bytes_of okb bufc s s' (bufc s b)"
    and zero: "sinv s \<Longrightarrow> n < 4 \<Longrightarrow> okb s (zero_bytes out n) \<and> bufc s (zero_bytes out n) = replicate n 0"
    and blen: "okb s b \<Longrightarrow> blen out b = length (bufc s b)"
begin

abbreviation ex where "ex \<equiv> grown sinv bytes_of okb bufc"

lemmas ex_def = grown_def [of sinv bytes_of okb bufc]

definition puts :: "(bool \<times> 's) res \<Rightarrow> 's \<Rightarrow> u8 list \<Rightarrow> bool" where
  "puts m s bs \<longleftrightarrow> (\<exists>s'. m = Inr (True, s') \<and> ex s s' bs)"

lemma puts_nil: "sinv s \<Longrightarrow> puts (Inr (True, s)) s []"
  by (simp add: puts_def ex_def)

lemma puts_and: "puts m s bs \<Longrightarrow> (\<And>s'. ex s s' bs \<Longrightarrow> puts (f s') s' cs) \<Longrightarrow> puts (andB m f) s (bs @ cs)"
  unfolding puts_def andB_def by (fastforce simp: ex_def)

lemma puts_int: "sinv s \<Longrightarrow> puts (xdr_putint out v s) s (putint v)"
  using putlong [of s "ucast v"] by (simp add: puts_def xdr_putint_def ucast_up_down)

lemma puts_pad:
  assumes "sinv s" "okb s b"
  shows "puts (xdr_putpadbytes out b s) s (pad4 (bufc s b))"
proof (cases "bufc s b = []")
  case True
  then show ?thesis using assms blen puts_nil by (simp add: xdr_putpadbytes_def pad4_def padlen_def)
next
  case False
  let ?nn = "padlen (length (bufc s b))"
  have "puts (if ?nn \<noteq> 0 then x_putbytes out (zero_bytes out ?nn) s' else Inr (True, s')) s' (replicate ?nn 0)" if "ex s s' (bufc s b)" for s'
    using that puts_nil [of s'] zero [of s' ?nn] putbytes [of s' "zero_bytes out ?nn"] padlen_simps(1) [of "length (bufc s b)"]
    by (auto simp: puts_def ex_def)
  moreover have "puts (x_putbytes out b s) s (bufc s b)" using putbytes [OF assms] by (simp add: puts_def)
  ultimately have "puts (andB (x_putbytes out b s) (\<lambda>s. if ?nn \<noteq> 0 then x_putbytes out (zero_bytes out ?nn) s else Inr (True, s))) s (bufc s b @ replicate ?nn 0)"
    by (rule puts_and [rotated])
  then show ?thesis using False blen [OF assms(2)] by (simp add: xdr_putpadbytes_def Let_def pad4_def)
qed

lemma puts_counted:
  assumes "sinv s" "okb s b"
  shows "puts (andB (xdr_putint out (of_nat (blen out b)) s) (xdr_putpadbytes out b)) s (putint (of_nat (length (bufc s b))) @ pad4 (bufc s b))"
proof (rule puts_and)
  show "puts (xdr_putint out (of_nat (blen out b)) s) s (putint (of_nat (length (bufc s b))))"
    using puts_int [OF assms(1)] blen [OF assms(2)] by simp
  fix s' assume "ex s s' (putint (of_nat (length (bufc s b))))"
  then show "puts (xdr_putpadbytes out b s') s' (pad4 (bufc s b))" using puts_pad [of s' b] assms by (simp add: ex_def)
qed

definition okv :: "'s \<Rightarrow> 'b xval \<Rightarrow> bool" where
  "okv s v \<longleftrightarrow> (\<forall>b\<in>set_xval v. okb s b)"

lemma okv_ext: "okv s v \<Longrightarrow> ex s s' bs \<Longrightarrow> okv s' v \<and> map_xval (bufc s') v = map_xval (bufc s) v"
  by (auto simp: okv_def ex_def intro: xval.map_cong)

lemma puts_list:
  assumes f: "\<And>v s. v \<in> set vs \<Longrightarrow> sinv s \<Longrightarrow> okv s v \<Longrightarrow> wt ty (map_xval (bufc s) v) \<Longrightarrow> puts (f v s) s (xbytes ty (map_xval (bufc s) v))"
    and "sinv s" "\<forall>v\<in>set vs. okv s v \<and> wt ty (map_xval (bufc s) v)"
  shows "puts (enc_list f vs s) s (concat (map (\<lambda>v. xbytes ty (map_xval (bufc s) v)) vs))"
  using assms
proof (induction vs arbitrary: s)
  case Nil
  then show ?case using puts_nil by simp
next
  case (Cons v vs)
  have "puts (enc_list f vs s') s' (concat (map (\<lambda>v. xbytes ty (map_xval (bufc s) v)) vs))" if e: "ex s s' (xbytes ty (map_xval (bufc s) v))" for s'
  proof -
    have c: "okv s' u \<and> map_xval (bufc s') u = map_xval (bufc s) u" if "u \<in> set vs" for u using okv_ext [OF _ e] Cons.prems(3) that by simp
    have "puts (enc_list f vs s') s' (concat (map (\<lambda>v. xbytes ty (map_xval (bufc s') v)) vs))"
      by (rule Cons.IH) (use Cons.prems e c in \<open>auto simp: ex_def\<close>)
    moreover have "map (\<lambda>v. xbytes ty (map_xval (bufc s') v)) vs = map (\<lambda>v. xbytes ty (map_xval (bufc s) v)) vs" using c by simp
    ultimately show ?thesis by simp
  qed
  moreover have "puts (f v s) s (xbytes ty (map_xval (bufc s) v))" using Cons.prems by simp
  ultimately show ?case using puts_and by simp
qed

lemma enc_ok:
  assumes "sinv s" "ty_ok ty" "nonnull v" "okv s v" "wt ty (map_xval (bufc s) v)"
  shows "puts (enc ty out v s) s (xbytes ty (map_xval (bufc s) v))"
  using assms
proof (induction ty arbitrary: v s)
  case (TArray ty n)
  then obtain vs where v: "v = VList vs" by (cases v) auto
  have "puts (enc_list (\<lambda>v s. enc ty out v s) vs s) s (concat (map (\<lambda>v. xbytes ty (map_xval (bufc s) v)) vs))"
    by (rule puts_list) (use TArray v in \<open>auto simp: list_all_iff okv_def\<close>)
  then show ?case using v by (simp add: comp_def)
next
  case (TVec ty m)
  then obtain vs where v: "v = VList vs" by (cases v) auto
  have l: "length vs \<le> m" "unat (of_nat (length vs) :: u32) = length vs" using TVec.prems v unat_len [of "length vs"] by auto
  have "puts (andB (xdr_putint out (of_nat (length vs)) s) (enc_list (\<lambda>v s. enc ty out v s) vs)) s
      (putint (of_nat (length vs)) @ concat (map (\<lambda>v. xbytes ty (map_xval (bufc s) v)) vs))"
  proof (rule puts_and [OF puts_int [OF TVec.prems(1)]])
    fix s' assume e: "ex s s' (putint (of_nat (length vs)))"
    have c: "okv s' u \<and> map_xval (bufc s') u = map_xval (bufc s) u" if "u \<in> set vs" for u
      using okv_ext [OF _ e, of u] TVec.prems(4) v that by (auto simp: okv_def)
    have "puts (enc_list (\<lambda>v s. enc ty out v s) vs s') s' (concat (map (\<lambda>v. xbytes ty (map_xval (bufc s') v)) vs))"
      by (rule puts_list) (use TVec e v c in \<open>auto simp: list_all_iff okv_def ex_def\<close>)
    moreover have "map (\<lambda>v. xbytes ty (map_xval (bufc s') v)) vs = map (\<lambda>v. xbytes ty (map_xval (bufc s) v)) vs" using c by simp
    ultimately show "puts (enc_list (\<lambda>v s. enc ty out v s) vs s') s' (concat (map (\<lambda>v. xbytes ty (map_xval (bufc s) v)) vs))" by simp
  qed
  then show ?case using v l by (simp add: comp_def Let_def)
next
  case (TPtr ty)
  then obtain p where v: "v = VPtr p" by (cases v) auto
  show ?case
  proof (cases p)
    case None
    then show ?thesis using v puts_and [OF puts_int [OF TPtr.prems(1), of 0], of "\<lambda>s. Inr (True, s)" "[]"] puts_nil by (simp add: ex_def)
  next
    case (Some w)
    have "puts (andB (xdr_putint out 1 s) (enc ty out w)) s (putint 1 @ xbytes ty (map_xval (bufc s) w))"
    proof (rule puts_and [OF puts_int [OF TPtr.prems(1)]])
      fix s' assume e: "ex s s' (putint 1)"
      have "okv s' w \<and> map_xval (bufc s') w = map_xval (bufc s) w" using okv_ext [OF _ e] TPtr.prems(4) v Some by (simp add: okv_def)
      then show "puts (enc ty out w s') s' (xbytes ty (map_xval (bufc s) w))" using TPtr.IH [of s' w] TPtr.prems v Some e by (simp add: ex_def)
    qed
    then show ?thesis using v Some by simp
  qed
next
  case TU64
  then obtain x where v: "v = VU64 x" by (cases v) auto
  show ?case using puts_and [OF puts_int [OF TU64.prems(1), of "ucast (drop_bit 32 x)"], of "xdr_putint out (ucast x)" "putint (ucast x)"] puts_int v
    by (simp add: ex_def putint_puthyper)
qed (auto split: xval.splits option.splits simp: okv_def puts_int puts_pad puts_counted)

end

section \<open>The contract of a decoding stream\<close>

text \<open>What is relied on of the stream over a buffer that the C library provides: \<open>x_getlong\<close> takes four bytes, \<open>x_getbytes\<close> and \<open>x_inline\<close>
  as many as asked for, or they fail.\<close>

locale xdr_in =
  fixes inp :: "'i xin" and rest :: "'i \<Rightarrow> u8 list"
  assumes getlong_short: "length (rest i) < 4 \<Longrightarrow> x_getlong inp i = None"
    and getlong: "rest i = bs @ r \<Longrightarrow> length bs = 4 \<Longrightarrow> \<exists>l i'. x_getlong inp i = Some (l, i') \<and> putint (ucast l) = bs \<and> rest i' = r"
    and getbytes_short: "length (rest i) < n \<Longrightarrow> x_getbytes inp n i = None"
    and getbytes: "rest i = bs @ r \<Longrightarrow> length bs = n \<Longrightarrow> \<exists>i'. x_getbytes inp n i = Some (bs, i') \<and> rest i' = r"
    and inline_short: "length (rest i) < n \<Longrightarrow> x_inline inp n i = None"
    and inline: "rest i = bs @ r \<Longrightarrow> length bs = n \<Longrightarrow> \<exists>i'. x_inline inp n i = Some (bs, i') \<and> rest i' = r"
begin

lemma getint_ok: "rest i = putint v @ r \<Longrightarrow> \<exists>i'. xdr_getint inp i = Some (v, i') \<and> rest i' = r"
proof -
  assume "rest i = putint v @ r"
  then obtain l i' where l: "x_getlong inp i = Some (l, i')" "putint (ucast l) = putint v" "rest i' = r" using getlong [of i "putint v" r] by auto
  have "ucast l = v" using l(2) getint_putint_exact [of v] getint_putint_exact [of "ucast l"] by simp
  then show ?thesis using l by (simp add: xdr_getint_def)
qed

text \<open>On any input a read gives bytes of the length asked for, and leaves a rest of the input.\<close>

lemma getint_any: "xdr_getint inp i = Some (v, i') \<Longrightarrow> rest i = putint v @ rest i'"
proof -
  assume a: "xdr_getint inp i = Some (v, i')"
  then have "4 \<le> length (rest i)" using getlong_short [of i] by (auto simp: xdr_getint_def split: option.splits intro: leI)
  then obtain l i2 where "x_getlong inp i = Some (l, i2)" "putint (ucast l) = take 4 (rest i)" "rest i2 = drop 4 (rest i)"
    using getlong [of i "take 4 (rest i)" "drop 4 (rest i)"] by auto
  then show ?thesis using a append_take_drop_id [of 4 "rest i"] by (simp add: xdr_getint_def)
qed

lemma getbytes_any: "x_getbytes inp n i = Some (bs, i') \<Longrightarrow> length bs = n \<and> rest i = bs @ rest i'"
proof -
  assume a: "x_getbytes inp n i = Some (bs, i')"
  then have "n \<le> length (rest i)" using getbytes_short [of i n] by (auto intro: leI)
  then show ?thesis using getbytes [of i "take n (rest i)" "drop n (rest i)" n] a by auto
qed

lemma inline_any: "x_inline inp n i = Some (bs, i') \<Longrightarrow> length bs = n \<and> rest i = bs @ rest i'"
proof -
  assume a: "x_inline inp n i = Some (bs, i')"
  then have "n \<le> length (rest i)" using inline_short [of i n] by (auto intro: leI)
  then show ?thesis using inline [of i "take n (rest i)" "drop n (rest i)" n] a by auto
qed

lemma getpad:
  assumes "rest i = pad4 bs @ r"
  shows "\<exists>i'. xdr_getpadbytes inp (length bs) i = Some (bs, i') \<and> rest i' = r"
proof -
  obtain i1 where i1: "x_getbytes inp (length bs) i = Some (bs, i1)" "rest i1 = replicate (padlen (length bs)) 0 @ r"
    using getbytes [of i bs] assms by (auto simp: pad4_def)
  then show ?thesis using getbytes [OF i1(2)] by (auto simp: xdr_getpadbytes_def Let_def)
qed

lemma getpad_any: "xdr_getpadbytes inp n i = Some (bs, i') \<Longrightarrow> length bs = n \<and> (\<exists>us. rest i = us @ rest i')"
  unfolding xdr_getpadbytes_def Let_def
  by (auto split: option.splits if_splits dest!: getbytes_any)

text \<open>Any input: the result is an object of the type, and what is left is an end of the input.\<close>

definition gives :: "('v \<Rightarrow> bool) \<Rightarrow> 'i \<Rightarrow> ('v, 'i) dres \<Rightarrow> bool" where
  "gives P i m \<longleftrightarrow> (\<exists>b v i' us. m = Inr (b, v, i') \<and> P v \<and> rest i = us @ rest i')"

lemma givesI: "P v \<Longrightarrow> rest i = us @ rest i' \<Longrightarrow> gives P i (Inr (b, v, i'))"
  unfolding gives_def by blast

lemma gives_bind:
  assumes "gives P i m" "\<And>b v i'. P v \<Longrightarrow> gives Q i' (f (b, v, i'))"
  shows "gives Q i (bindR m f)"
proof -
  obtain b v i' us where m: "m = Inr (b, v, i')" "P v" "rest i = us @ rest i'" using assms(1) unfolding gives_def by blast
  obtain b2 w i2 vs where "f (b, v, i') = Inr (b2, w, i2)" "Q w" "rest i' = vs @ rest i2" using assms(2) [OF m(2)] unfolding gives_def by blast
  then show ?thesis using m unfolding gives_def by (intro exI [of _ b2] exI [of _ w] exI [of _ i2] exI [of _ "us @ vs"]) simp
qed

lemma gives_later: "rest i = us @ rest i' \<Longrightarrow> gives P i' m \<Longrightarrow> gives P i m"
  unfolding gives_def by (metis append.assoc)

lemma gives_same: "P v \<Longrightarrow> gives P i (Inr (b, v, i))"
  by (rule givesI [where us = "[]"]) simp_all

lemma dec_list_any:
  assumes "\<And>v i. P v \<Longrightarrow> gives P i (f v i)"
  shows "list_all P vs \<Longrightarrow> gives (\<lambda>ws. length ws = length vs \<and> list_all P ws) i (dec_list f vs i)"
proof (induction vs arbitrary: i)
  case (Cons v vs)
  have "gives P i (f v i)" using assms Cons.prems by simp
  then show ?case unfolding dec_list.simps
  proof (rule gives_bind, unfold split_conv)
    fix b w i' assume w: "P w"
    show "gives (\<lambda>ws. length ws = length (v # vs) \<and> list_all P ws) i'
        (if b then bindR (dec_list f vs i') (\<lambda>(b, vs, i). Inr (b, w # vs, i)) else Inr (False, w # vs, i'))"
      using w Cons.prems by (auto intro!: gives_same gives_bind [OF Cons.IH])
  qed
qed (simp add: gives_same)

lemma dec_more_any:
  assumes "\<And>v i. P v \<Longrightarrow> gives P i (f v i)" "P d"
  shows "list_all P vs \<Longrightarrow> length vs + n \<le> m \<Longrightarrow> gives (\<lambda>ws. length ws \<le> m \<and> list_all P ws) i (dec_more f d m n vs i)"
proof (induction n arbitrary: vs i)
  case (Suc n)
  have "gives P i (f d i)" using assms by simp
  then have "gives (\<lambda>ws. length ws \<le> m \<and> list_all P ws) i
      (bindR (f d i) (\<lambda>(b, v, i). if b then dec_more f d m n (vs @ [v]) i else Inr (False, vs @ [v], i)))"
    by (rule gives_bind, unfold split_conv) (use Suc in \<open>auto intro: gives_same\<close>)
  then show ?case using Suc.prems by simp
qed (simp add: gives_same)

lemma dec_vec_any:
  assumes "\<And>v i. P v \<Longrightarrow> gives P i (f v i)" "P d" "list_all P vs" "length vs \<le> m" "n \<le> m"
  shows "gives (\<lambda>ws. length ws \<le> m \<and> list_all P ws) i (dec_vec f d es m n vs i)"
proof -
  let ?vs = "if n < length vs then take n vs else vs"
  have vs: "list_all P ?vs" "length ?vs \<le> n" "length ?vs \<le> m" using assms by (auto simp: list_all_iff dest: in_set_takeD)
  have "dec_vec f d es m n vs i = bindR (dec_list f ?vs i) (\<lambda>(b, vs, i). if b then dec_more f d m (n - length vs) vs i else Inr (False, vs, i))"
    using assms(5) by (simp add: dec_vec_def Let_def)
  moreover have "gives (\<lambda>ws. length ws \<le> m \<and> list_all P ws) i
      (bindR (dec_list f ?vs i) (\<lambda>(b, vs, i). if b then dec_more f d m (n - length vs) vs i else Inr (False, vs, i)))"
    by (rule gives_bind [OF dec_list_any [of P f, OF assms(1) vs(1)]])
      (use vs assms(5) dec_more_any [of P f d, OF assms(1,2)] in \<open>auto intro: gives_same\<close>)
  ultimately show ?thesis by simp
qed

end

lemma wt_dflt: "wt ty (dflt ty)"
  by (induction ty) (auto simp: list_all_iff)

lemma rpc_clear_dflt: "wt ty v \<Longrightarrow> \<not> has_str ty \<Longrightarrow> rpc_clear ty v = dflt ty"
proof (induction ty arbitrary: v)
  case (TArray ty n)
  then obtain vs where "v = VList vs" "length vs = n" "list_all (wt ty) vs" by (cases v) auto
  then show ?case using TArray by (auto simp: list_all_iff intro!: replicate_eqI)
qed auto

lemma str_check_ok: "0 \<notin> set bs \<Longrightarrow> length bs \<le> m \<Longrightarrow> str_check m bs = Inr ()"
proof -
  assume a: "0 \<notin> set bs" "length bs \<le> m"
  have "takeWhile (\<lambda>c. c \<noteq> 0) bs = bs" by (rule takeWhile_eq_all_conv [THEN iffD2]) (use a in auto)
  then have "length bs = length (takeWhile (\<lambda>c. c \<noteq> 0) bs)" by (simp only:)
  then show ?thesis using a(2) unfolding str_check_def by (simp del: takeWhile_eq_all_conv)
qed

lemma unat_u32_less: "unat (x :: u32) < 2 ^ 32"
  using unat_bounds(2) [of x] by simp

context xdr_in
begin

definition typed :: "xty \<Rightarrow> 'i \<Rightarrow> (u8 list xval, 'i) dres \<Rightarrow> bool" where
  "typed ty i m \<longleftrightarrow> gives (\<lambda>v. wt ty v) i m"

lemma typedI: "wt ty v \<Longrightarrow> rest i = us @ rest i' \<Longrightarrow> typed ty i (Inr (b, v, i'))"
  unfolding typed_def by (rule givesI)

lemma typed_same: "wt ty v \<Longrightarrow> typed ty i (Inr (b, v, i))"
  unfolding typed_def by (rule gives_same)

lemma typed_later: "rest i = us @ rest i' \<Longrightarrow> typed ty i' m \<Longrightarrow> typed ty i m"
  unfolding typed_def by (rule gives_later)

lemma typed_bind: "gives P i m \<Longrightarrow> (\<And>b v i'. P v \<Longrightarrow> typed ty i' (f (b, v, i'))) \<Longrightarrow> typed ty i (bindR m f)"
  unfolding typed_def by (rule gives_bind)

lemma dec_any:
  assumes "ty_ok ty" "wt ty v"
  shows "typed ty i (dec ty sz inp v i)"
  using assms
proof (induction ty arbitrary: v i)
  case (TBytes m)
  show ?case
  proof (cases "xdr_getint inp i")
    case (Some p)
    obtain n i1 where p: "p = (n, i1)" by fastforce
    have r: "rest i = putint n @ rest i1" using getint_any Some p by simp
    show ?thesis
    proof (cases "unat n > m \<or> x_inline inp (inline_len n) i1 = None")
      case True
      then show ?thesis using Some p TBytes.prems typedI [of "TBytes m" v i "putint n" i1] r by auto
    next
      case False
      then obtain dp i2 where d: "x_inline inp (inline_len n) i1 = Some (dp, i2)" "unat n \<le> m" by auto
      have l: "length dp = unat n + padlen (unat n)" "rest i1 = dp @ rest i2" using inline_any [OF d(1)] inline_len [of n] d(2) TBytes.prems by auto
      then show ?thesis using Some p d typedI [of "TBytes m" "VBytes (take (unat n) dp)" i "putint n @ dp" i2 True] r by simp
    qed
  qed (use TBytes.prems in \<open>simp add: typed_same\<close>)
next
  case (TStr m)
  show ?case
  proof (cases "xdr_getint inp i")
    case (Some p)
    obtain n i1 where p: "p = (n, i1)" by fastforce
    have r: "rest i = putint n @ rest i1" using getint_any Some p by simp
    show ?thesis
    proof (cases "unat n > m \<or> x_inline inp (inline_len n) i1 = None")
      case True
      then show ?thesis using Some p TStr.prems typedI [of "TStr m" v i "putint n" i1] r by auto
    next
      case False
      then obtain dp i2 where d: "x_inline inp (inline_len n) i1 = Some (dp, i2)" "unat n \<le> m" by auto
      have l: "length dp = unat n + padlen (unat n)" "rest i1 = dp @ rest i2" using inline_any [OF d(1)] inline_len [of n] d(2) TStr.prems by auto
      let ?bs = "take (unat n) dp"
      show ?thesis
      proof (cases "0 \<in> set ?bs")
        case True
        then show ?thesis using Some p d l typedI [of "TStr m" v i "putint n @ dp" i2 False] r TStr.prems by simp
      next
        case False
        then show ?thesis using Some p d l typedI [of "TStr m" "VStr (Some ?bs)" i "putint n @ dp" i2 True] r str_check_ok [of ?bs m]
          by (simp add: Let_def)
      qed
    qed
  qed (use TStr.prems in \<open>simp add: typed_same\<close>)
next
  case TString
  show ?case
  proof (cases "xdr_getint inp i")
    case (Some p)
    obtain n i1 where p: "p = (n, i1)" by fastforce
    have r: "rest i = putint n @ rest i1" using getint_any Some p by simp
    show ?thesis
    proof (cases "xdr_getpadbytes inp (unat n) i1")
      case None
      then show ?thesis using Some p TString.prems typedI [of "TString" v i "putint n" i1] r by auto
    next
      case (Some q)
      obtain bs i2 where q: "q = (bs, i2)" by fastforce
      obtain us where l: "length bs = unat n" "rest i1 = us @ rest i2" using getpad_any Some q by blast
      then have "wt TString (VStr (Some bs))" if "0 \<notin> set bs" using that unat_u32_less [of n] by simp
      then show ?thesis using \<open>xdr_getint inp i = Some p\<close> p Some q TString.prems typedI [of "TString" v i "putint n @ us" i2 False]
          typedI [of "TString" "VStr (Some bs)" i "putint n @ us" i2 True] r l(2) by auto
    qed
  qed (use TString.prems in \<open>simp add: typed_same\<close>)
next
  case (TOpaque n)
  show ?case using TOpaque.prems typed_same [of "TOpaque n" v i False]
    by (auto split: option.splits dest!: getpad_any intro!: typedI)
next
  case (TArray ty n)
  then obtain vs where v: "v = VList vs" "length vs = n" "list_all (\<lambda>v. wt ty v) vs" by (cases v) auto
  have "gives (\<lambda>ws. length ws = length vs \<and> list_all (wt ty) ws) i (dec_list (\<lambda>v i. dec ty sz inp v i) vs i)"
    by (rule dec_list_any) (use TArray v in \<open>auto simp: typed_def\<close>)
  then have "typed (TArray ty n) i (bindR (dec_list (\<lambda>v i. dec ty sz inp v i) vs i) (\<lambda>(b, vs, i). Inr (b, VList vs, i)))"
    by (rule typed_bind) (use v in \<open>auto intro: typed_same\<close>)
  then show ?case using v by simp
next
  case (TVec ty m)
  then obtain vs where v: "v = VList vs" "length vs \<le> m" "list_all (\<lambda>v. wt ty v) vs" by (cases v) auto
  show ?case
  proof (cases "xdr_getint inp i")
    case (Some p)
    obtain n i1 where p: "p = (n, i1)" by fastforce
    have r: "rest i = putint n @ rest i1" using getint_any Some p by simp
    show ?thesis
    proof (cases "unat n > m")
      case True
      then show ?thesis using Some p v typedI [of "TVec ty m" v i "putint n" i1] r by simp
    next
      case False
      have "gives (\<lambda>ws. length ws \<le> m \<and> list_all (wt ty) ws) i1 (dec_vec (\<lambda>v i. dec ty sz inp v i) (dflt ty) (sz ty) m (unat n) vs i1)"
        by (rule dec_vec_any) (use TVec v False wt_dflt in \<open>auto simp: typed_def\<close>)
      then have "typed (TVec ty m) i1 (bindR (dec_vec (\<lambda>v i. dec ty sz inp v i) (dflt ty) (sz ty) m (unat n) vs i1) (\<lambda>(b, vs, i). Inr (b, VList vs, i)))"
        by (rule typed_bind) (auto intro: typed_same)
      then show ?thesis using typed_later [OF r] Some p v False by simp
    qed
  qed (use TVec.prems v in \<open>simp add: typed_same\<close>)
next
  case (TPtr ty)
  then obtain q where v: "v = VPtr q" "wt ty (case q of Some w \<Rightarrow> w | None \<Rightarrow> dflt ty)"
    using wt_dflt by (cases v) (auto split: option.splits)
  show ?case
  proof (cases "xdr_getint inp i")
    case (Some p)
    obtain n i1 where p: "p = (n, i1)" by fastforce
    have r: "rest i = putint n @ rest i1" using getint_any Some p by simp
    have "typed ty i1 (dec ty sz inp (case q of Some w \<Rightarrow> w | None \<Rightarrow> dflt ty) i1)" using TPtr v by simp
    then have "typed (TPtr ty) i1 (bindR (dec ty sz inp (case q of Some w \<Rightarrow> w | None \<Rightarrow> dflt ty) i1) (\<lambda>(b, w, i). Inr (b, VPtr (Some w), i)))"
      unfolding typed_def [of ty] by (rule typed_bind) (auto intro: typed_same)
    then show ?thesis using typed_later [OF r] Some p v typed_same [of "TPtr ty" "VPtr None" i1 True] by simp
  qed (use TPtr.prems v in \<open>simp add: typed_same\<close>)
next
  case TU64
  show ?case
  proof (cases "xdr_getint inp i")
    case (Some p)
    obtain n i1 where p: "p = (n, i1)" by fastforce
    have r: "rest i = putint n @ rest i1" using getint_any Some p by simp
    have "typed TU64 i1 (case xdr_getint inp i1 of None \<Rightarrow> Inr (False, v, i1)
        | Some (lo, i) \<Rightarrow> Inr (True, VU64 (push_bit 32 (ucast n) OR ucast lo), i))"
      using TU64.prems typed_same [of "TU64" v i1 False] by (auto split: option.splits dest!: getint_any intro!: typedI)
    then show ?thesis using typed_later [OF r] Some p by simp
  qed (use TU64.prems in \<open>simp add: typed_same\<close>)
qed (auto split: option.splits dest!: getint_any intro!: typedI intro: typed_same)

end

context xdr_in
begin

text \<open>On an encoding: the object that was encoded, and the rest of the input.\<close>

definition yields :: "('v, 'i) dres \<Rightarrow> 'v \<Rightarrow> u8 list \<Rightarrow> bool" where
  "yields m v r \<longleftrightarrow> (\<exists>i'. m = Inr (True, v, i') \<and> rest i' = r)"

lemma yieldsI: "rest i = r \<Longrightarrow> yields (Inr (True, v, i)) v r"
  by (simp add: yields_def)

lemma yields_bind: "yields m v r \<Longrightarrow> (\<And>i'. rest i' = r \<Longrightarrow> yields (f (True, v, i')) w r') \<Longrightarrow> yields (bindR m f) w r'"
  by (auto simp: yields_def)

lemma dec_list_ok:
  assumes "\<And>u v i r. u \<in> set us \<Longrightarrow> v \<in> set vs \<Longrightarrow> rest i = x v @ r \<Longrightarrow> yields (f u i) v r" "length us = length vs"
    "rest i = concat (map x vs) @ r"
  shows "yields (dec_list f us i) vs r"
  using assms(2,1,3)
proof (induction us vs arbitrary: i rule: list_induct2)
  case (Cons u us v vs)
  have "yields (f u i) v (concat (map x vs) @ r)" using Cons.prems by simp
  then show ?case unfolding dec_list.simps
  proof (rule yields_bind, unfold split_conv if_True)
    fix i' assume "rest i' = concat (map x vs) @ r"
    then have "yields (dec_list f us i') vs r" using Cons.IH Cons.prems(1) by simp
    then show "yields (bindR (dec_list f us i') (\<lambda>(b, vs, i). Inr (b, v # vs, i))) (v # vs) r"
      by (rule yields_bind) (simp add: yieldsI)
  qed
qed (simp add: yieldsI)

lemma dec_more_ok:
  assumes "\<And>v i r. v \<in> set vs \<Longrightarrow> rest i = x v @ r \<Longrightarrow> yields (f d i) v r" "length us + length vs \<le> m"
    "rest i = concat (map x vs) @ r"
  shows "yields (dec_more f d m (length vs) us i) (us @ vs) r"
  using assms
proof (induction vs arbitrary: us i)
  case (Cons v vs)
  have "yields (f d i) v (concat (map x vs) @ r)" using Cons.prems by simp
  then have "yields (bindR (f d i) (\<lambda>(b, v, i). if b then dec_more f d m (length vs) (us @ [v]) i else Inr (False, us @ [v], i))) (us @ v # vs) r"
  proof (rule yields_bind, unfold split_conv if_True)
    fix i' assume "rest i' = concat (map x vs) @ r"
    then show "yields (dec_more f d m (length vs) (us @ [v]) i') (us @ v # vs) r" using Cons.IH [of "us @ [v]" i'] Cons.prems by simp
  qed
  then show ?case using Cons.prems(2) by simp
qed (simp add: yieldsI)

lemma dec_vec_ok:
  assumes f: "\<And>u v i r. u \<in> insert d (set us) \<Longrightarrow> v \<in> set vs \<Longrightarrow> rest i = x v @ r \<Longrightarrow> yields (f u i) v r"
    and l: "length vs \<le> m" "rest i = concat (map x vs) @ r"
  shows "yields (dec_vec f d es m (length vs) us i) vs r"
proof -
  let ?us = "take (length vs) us"
  let ?n = "length ?us"
  have "dec_vec f d es m (length vs) us i = bindR (dec_list f ?us i) (\<lambda>(b, ws, i). if b then dec_more f d m (length vs - length ws) ws i else Inr (False, ws, i))"
    using l(1) by (simp add: dec_vec_def Let_def)
  moreover have r: "concat (map x vs) @ r = concat (map x (take ?n vs)) @ concat (map x (drop ?n vs)) @ r"
    by (metis append.assoc append_take_drop_id concat_append map_append)
  have "yields (dec_list f ?us i) (take ?n vs) (concat (map x (drop ?n vs)) @ r)"
  proof (rule dec_list_ok [where x = x])
    show "yields (f u j) v r'" if "u \<in> set ?us" "v \<in> set (take ?n vs)" "rest j = x v @ r'" for u v j r'
      using f [of u v j r'] that by (auto dest: in_set_takeD)
  qed (use l(2) r in auto)
  then have "yields (bindR (dec_list f ?us i) (\<lambda>(b, ws, i). if b then dec_more f d m (length vs - length ws) ws i else Inr (False, ws, i))) vs r"
  proof (rule yields_bind, unfold split_conv if_True)
    fix i' assume i': "rest i' = concat (map x (drop ?n vs)) @ r"
    have "yields (dec_more f d m (length (drop ?n vs)) (take ?n vs) i') (take ?n vs @ drop ?n vs) r"
    proof (rule dec_more_ok [where x = x])
      show "yields (f d j) v r'" if "v \<in> set (drop ?n vs)" "rest j = x v @ r'" for v j r'
        using f [of d v j r'] that by (auto dest: in_set_dropD)
    qed (use l i' in auto)
    then show "yields (dec_more f d m (length vs - length (take ?n vs)) (take ?n vs) i') vs r" by simp
  qed
  ultimately show ?thesis by simp
qed

lemma counted_ok:
  assumes "rest i = (putint (of_nat (length bs)) @ pad4 bs) @ r" "length bs \<le> 0x7fffffff"
  obtains i1 dp i2 where "xdr_getint inp i = Some (of_nat (length bs), i1)" "unat (of_nat (length bs) :: u32) = length bs"
    "x_inline inp (inline_len (of_nat (length bs))) i1 = Some (dp, i2)" "take (length bs) dp = bs" "length bs \<le> length dp" "rest i2 = r"
proof -
  have u: "unat (of_nat (length bs) :: u32) = length bs" using unat_len [of "length bs"] assms(2) by simp
  obtain i1 where i1: "xdr_getint inp i = Some (of_nat (length bs), i1)" "rest i1 = pad4 bs @ r" using getint_ok [of i "of_nat (length bs)" "pad4 bs @ r"] assms(1) by auto
  have "length (pad4 bs) = inline_len (of_nat (length bs))" using inline_len [of "of_nat (length bs)"] u assms(2) by (simp add: length_pad4)
  then obtain i2 where "x_inline inp (inline_len (of_nat (length bs))) i1 = Some (pad4 bs, i2)" "rest i2 = r" using inline [OF i1(2)] by blast
  then show thesis using i1 u by (intro that [of i1 "pad4 bs" i2]) (auto simp: pad4_def)
qed

lemma string_ok:
  assumes "rest i = (putint (of_nat (length bs)) @ pad4 bs) @ r" "length bs < 2 ^ 32"
  obtains i1 i2 where "xdr_getint inp i = Some (of_nat (length bs), i1)"
    "xdr_getpadbytes inp (unat (of_nat (length bs) :: u32)) i1 = Some (bs, i2)" "rest i2 = r"
proof -
  obtain i1 where i1: "xdr_getint inp i = Some (of_nat (length bs), i1)" "rest i1 = pad4 bs @ r" using getint_ok [of i "of_nat (length bs)" "pad4 bs @ r"] assms(1) by auto
  obtain i2 where "xdr_getpadbytes inp (length bs) i1 = Some (bs, i2)" "rest i2 = r" using getpad [OF i1(2)] by blast
  then show thesis using that [of i1 i2] i1(1) unat_len [OF assms(2)] by simp
qed

lemma dec_ok:
  assumes "ty_ok ty" "nonnull v" "wt ty v" "wt ty u" "rest i = xbytes ty v @ r"
  shows "yields (dec ty sz inp u i) v r"
  using assms
proof (induction ty arbitrary: v u i r)
  case (TBytes m)
  then obtain bs where v: "v = VBytes bs" by (cases v) auto
  obtain i1 dp i2 where d: "xdr_getint inp i = Some (of_nat (length bs), i1)" "unat (of_nat (length bs) :: u32) = length bs"
    "x_inline inp (inline_len (of_nat (length bs))) i1 = Some (dp, i2)" "take (length bs) dp = bs" "length bs \<le> length dp" "rest i2 = r"
    by (rule counted_ok [of i bs r]) (use TBytes.prems v in auto)
  then show ?case using TBytes.prems v by (simp add: yieldsI)
next
  case (TStr m)
  then obtain bs where v: "v = VStr (Some bs)" by (cases v) auto
  obtain i1 dp i2 where d: "xdr_getint inp i = Some (of_nat (length bs), i1)" "unat (of_nat (length bs) :: u32) = length bs"
    "x_inline inp (inline_len (of_nat (length bs))) i1 = Some (dp, i2)" "take (length bs) dp = bs" "length bs \<le> length dp" "rest i2 = r"
    by (rule counted_ok [of i bs r]) (use TStr.prems v in auto)
  then show ?case using TStr.prems v str_check_ok [of bs m] by (simp add: Let_def yieldsI)
next
  case TString
  then obtain bs where v: "v = VStr (Some bs)" by (cases v) auto
  obtain i1 i2 where d: "xdr_getint inp i = Some (of_nat (length bs), i1)"
    "xdr_getpadbytes inp (unat (of_nat (length bs) :: u32)) i1 = Some (bs, i2)" "rest i2 = r"
    by (rule string_ok [of i bs r]) (use TString.prems v in auto)
  then show ?case using TString.prems v by (simp add: yieldsI)
next
  case (TOpaque n)
  then obtain bs where v: "v = VBytes bs" by (cases v) auto
  show ?case using getpad [of i bs r] TOpaque.prems v by (auto intro: yieldsI)
next
  case (TArray ty n)
  then obtain us vs where v: "v = VList vs" "u = VList us" by (cases v; cases u) auto
  have "yields (dec_list (\<lambda>v i. dec ty sz inp v i) us i) vs r"
    by (rule dec_list_ok [where x = "xbytes ty"]) (use TArray v in \<open>auto simp: list_all_iff\<close>)
  then have "yields (bindR (dec_list (\<lambda>v i. dec ty sz inp v i) us i) (\<lambda>(b, vs, i). Inr (b, VList vs, i))) (VList vs) r"
    by (rule yields_bind) (simp add: yieldsI)
  then show ?case using v by simp
next
  case (TVec ty m)
  then obtain us vs where v: "v = VList vs" "u = VList us" by (cases v; cases u) auto
  have l: "length vs \<le> m" "unat (of_nat (length vs) :: u32) = length vs" using TVec.prems v unat_len [of "length vs"] by auto
  obtain i1 where i1: "xdr_getint inp i = Some (of_nat (length vs), i1)" "rest i1 = concat (map (xbytes ty) vs) @ r"
    using getint_ok [of i "of_nat (length vs)" "concat (map (xbytes ty) vs) @ r"] TVec.prems v by auto
  have "yields (dec_vec (\<lambda>v i. dec ty sz inp v i) (dflt ty) (sz ty) m (length vs) us i1) vs r"
    by (rule dec_vec_ok [where x = "xbytes ty"]) (use TVec v i1 l wt_dflt in \<open>auto simp: list_all_iff\<close>)
  then have "yields (bindR (dec_vec (\<lambda>v i. dec ty sz inp v i) (dflt ty) (sz ty) m (length vs) us i1) (\<lambda>(b, vs, i). Inr (b, VList vs, i))) (VList vs) r"
    by (rule yields_bind) (simp add: yieldsI)
  then show ?case using v l i1 by simp
next
  case (TPtr ty)
  then obtain p q where v: "v = VPtr p" "u = VPtr q" "wt ty (case q of Some w \<Rightarrow> w | None \<Rightarrow> dflt ty)"
    using wt_dflt by (cases v; cases u) (auto split: option.splits)
  show ?case
  proof (cases p)
    case None
    then show ?thesis using v TPtr.prems getint_ok [of i 0 r] by (auto intro: yieldsI)
  next
    case (Some w)
    obtain i1 where i1: "xdr_getint inp i = Some (1, i1)" "rest i1 = xbytes ty w @ r" using getint_ok [of i 1 "xbytes ty w @ r"] TPtr.prems v Some by auto
    have "yields (dec ty sz inp (case q of Some w \<Rightarrow> w | None \<Rightarrow> dflt ty) i1) w r" using TPtr.IH TPtr.prems v Some i1(2) by simp
    then have "yields (bindR (dec ty sz inp (case q of Some w \<Rightarrow> w | None \<Rightarrow> dflt ty) i1) (\<lambda>(b, w, i). Inr (b, VPtr (Some w), i))) (VPtr (Some w)) r"
      by (rule yields_bind) (simp add: yieldsI)
    then show ?thesis using v Some i1 by simp
  qed
next
  case TU64
  then obtain x where v: "v = VU64 x" by (cases v) auto
  obtain i1 where i1: "xdr_getint inp i = Some (ucast (drop_bit 32 x), i1)" "rest i1 = putint (ucast x) @ r"
    using getint_ok [of i "ucast (drop_bit 32 x)" "putint (ucast x) @ r"] TU64.prems v putint_puthyper [of x] by auto
  then show ?case using getint_ok [OF i1(2)] v by (auto simp: hyper_join intro: yieldsI)
next
  case TBool
  then obtain b where v: "v = VBool b" by (cases v) auto
  show ?case using getint_ok [of i "if b then 1 else 0" r] TBool.prems v by (auto intro: yieldsI)
next
  case TU32
  then obtain x where v: "v = VU32 x" by (cases v) auto
  show ?case using getint_ok [of i x r] TU32.prems v by (auto intro: yieldsI)
qed

end

end
