(* ===== verification/Suio.thy ===== *)
theory Suio
  imports Prelude
begin

text \<open>
  The scatter/gather queue \<open>suio\<close> of \<open>async/suio++.h\<close> and \<open>async/suio++.C\<close>, and the cursor \<open>iovmgr\<close>
  over a vector of buffers.

  Memory is flat: an address is a natural number, 0 is \<open>NULL\<close>, and the \<open>world\<close> holds the bytes in
  memory, the blocks the allocator has given out and the user callbacks made so far. An \<open>iovec\<close> is an
  address and a length, so that queueing without copying, the merging of adjacent pieces in \<open>pushiov\<close>
  and the reuse of the scratch buffer are what they are in the source. The allocator is an argument
  \<open>al\<close>: malloc is not part of the repository; \<open>alloc_ok\<close> says what is relied on, that a block given out
  does not overlap a live one. Byte counters are natural numbers. The result of each
  \<open>writev\<close> is an argument, and the bytes handed to the kernel are a result.
\<close>

section \<open>Memory\<close>

type_synonym addr = nat

datatype uiocb =
    Dealloc addr nat    \<comment> \<open>\<open>wrap (deallocator, buf, size)\<close>\<close>
  | UserCb nat          \<comment> \<open>a callback of the user\<close>

record world =
  mem :: "addr \<Rightarrow> u8"
  heap :: "(addr \<times> nat) list"
  fired :: "nat list"

definition region :: "(addr \<Rightarrow> u8) \<Rightarrow> addr \<Rightarrow> nat \<Rightarrow> u8 list" where
  "region m a n = map m [a..<a + n]"

definition memwrite :: "addr \<Rightarrow> u8 list \<Rightarrow> (addr \<Rightarrow> u8) \<Rightarrow> addr \<Rightarrow> u8" where
  "memwrite a bs m = (\<lambda>x. if a \<le> x \<and> x < a + length bs then bs ! (x - a) else m x)"

definition runcb :: "uiocb \<Rightarrow> world \<Rightarrow> world" where
  "runcb cb w =
     (case cb of
        Dealloc a n \<Rightarrow> w\<lparr>heap := remove1 (a, n) (heap w)\<rparr>
      | UserCb i \<Rightarrow> w\<lparr>fired := fired w @ [i]\<rparr>)"

section \<open>Vectors of buffers\<close>

fun iovsize :: "u8 list list \<Rightarrow> nat" where
  "iovsize [] = 0"
| "iovsize (v # iov) = length v + iovsize iov"

text \<open>\<open>iovmgr\<close>: the buffer being read and the ones after it.\<close>

record iovmgr =
  cur_iov :: "u8 list"
  rest_iov :: "u8 list list"

definition iovmgr_new :: "u8 list list \<Rightarrow> iovmgr" where
  "iovmgr_new iov = (case iov of v # vs \<Rightarrow> \<lparr>cur_iov = v, rest_iov = vs\<rparr> | [] \<Rightarrow> \<lparr>cur_iov = [], rest_iov = []\<rparr>)"

fun skip_whole :: "nat \<Rightarrow> u8 list list \<Rightarrow> nat \<times> u8 list list" where
  "skip_whole n [] = (n, [])"
| "skip_whole n (v # iov) = (if length v \<le> n then skip_whole (n - length v) iov else (n, v # iov))"

definition iovmgr_skip :: "nat \<Rightarrow> iovmgr \<Rightarrow> iovmgr res" where
  "iovmgr_skip n iom =
     (if n < length (cur_iov iom) then Inr (iom\<lparr>cur_iov := drop n (cur_iov iom)\<rparr>)
      else case skip_whole (n - length (cur_iov iom)) (rest_iov iom) of
             (n, iov) \<Rightarrow>
               if n \<noteq> 0 then
                 (case iov of
                    [] \<Rightarrow> Inl PanicCall
                  | v # vs \<Rightarrow> if length v < n then Inl PanicCall
                              else Inr \<lparr>cur_iov = drop n v, rest_iov = vs\<rparr>)
               else Inr \<lparr>cur_iov = [], rest_iov = iov\<rparr>)"

fun copy_whole :: "nat \<Rightarrow> u8 list list \<Rightarrow> u8 list \<times> nat \<times> u8 list list" where
  "copy_whole room [] = ([], room, [])"
| "copy_whole room (v # iov) =
     (if length v \<le> room then
        (case copy_whole (room - length v) iov of (bs, room', iov') \<Rightarrow> (v @ bs, room', iov'))
      else ([], room, v # iov))"

text \<open>\<open>iovmgr::copyout\<close>: the bytes written to the buffer of \<open>len\<close> bytes, and the cursor after them.\<close>

definition iovmgr_copyout :: "nat \<Rightarrow> iovmgr \<Rightarrow> u8 list \<times> iovmgr" where
  "iovmgr_copyout len iom =
     (if len < length (cur_iov iom) then (take len (cur_iov iom), iom\<lparr>cur_iov := drop len (cur_iov iom)\<rparr>)
      else case copy_whole (len - length (cur_iov iom)) (rest_iov iom) of
             (bs, room, iov) \<Rightarrow>
               (case iov of
                  [] \<Rightarrow> (cur_iov iom @ bs, \<lparr>cur_iov = [], rest_iov = []\<rparr>)
                | v # vs \<Rightarrow>
                    if 0 < room then (cur_iov iom @ bs @ take room v, \<lparr>cur_iov = drop room v, rest_iov = vs\<rparr>)
                    else (cur_iov iom @ bs, \<lparr>cur_iov = v, rest_iov = vs\<rparr>)))"

definition iovmgr_size :: "iovmgr \<Rightarrow> nat" where
  "iovmgr_size iom = length (cur_iov iom) + iovsize (rest_iov iom)"

section \<open>The queue\<close>

definition smallbufsize :: nat where "smallbufsize = 0x80"
definition blocksize :: nat where "blocksize = 0x2000"

record suio =
  iovs :: "(addr \<times> nat) list"
  uiocbs :: "(nat \<times> uiocb) list"
  uiobytes :: nat
  nrembytes :: nat
  nremiov :: nat
  lastiovend :: addr
  scratch_buf :: addr
  scratch_pos :: addr
  scratch_lim :: addr
  defbuf :: addr

type_synonym sst = "world \<times> suio"

definition suio_new :: "addr \<Rightarrow> suio" where
  "suio_new db =
     \<lparr>iovs = [], uiocbs = [], uiobytes = 0, nrembytes = 0, nremiov = 0, lastiovend = 0,
      scratch_buf = db, scratch_pos = db, scratch_lim = db + smallbufsize, defbuf = db\<rparr>"

type_synonym allocator = "world \<Rightarrow> nat \<Rightarrow> addr"

definition resid :: "suio \<Rightarrow> nat" where "resid s = uiobytes s"
definition iovcnt :: "suio \<Rightarrow> nat" where "iovcnt s = length (iovs s)"
definition iovno :: "suio \<Rightarrow> nat" where "iovno s = nremiov s"
definition byteno :: "suio \<Rightarrow> nat" where "byteno s = nrembytes s"
definition fastspace :: "suio \<Rightarrow> nat" where "fastspace s = scratch_lim s - scratch_pos s"

definition breakiov :: "suio \<Rightarrow> suio" where
  "breakiov s = s\<lparr>lastiovend := 0\<rparr>"

definition iovcb :: "uiocb \<Rightarrow> sst \<Rightarrow> sst" where
  "iovcb cb ws =
     (case ws of (w, s) \<Rightarrow>
        if uiobytes s \<noteq> 0
        then (w, s\<lparr>uiocbs := uiocbs s @ [(nrembytes s + uiobytes s, cb)]\<rparr>)
        else (runcb cb w, s))"

text \<open>\<open>pushiov\<close>: \<open>iovs.back ()\<close> of an empty vector is an access outside it.\<close>

definition pushiov :: "addr \<Rightarrow> nat \<Rightarrow> suio \<Rightarrow> suio res" where
  "pushiov base len s =
     bindR (if base = lastiovend s
            then (if iovs s = [] then Inl OutOfRange
                  else case last (iovs s) of (a, l) \<Rightarrow>
                    Inr (s\<lparr>lastiovend := lastiovend s + len, iovs := butlast (iovs s) @ [(a, l + len)]\<rparr>))
            else if len \<noteq> 0
            then Inr (s\<lparr>iovs := iovs s @ [(base, len)], lastiovend := base + len\<rparr>)
            else Inr s) (\<lambda>s.
       let s = s\<lparr>uiobytes := uiobytes s + len\<rparr>
       in Inr (if base = scratch_pos s then s\<lparr>scratch_pos := scratch_pos s + len\<rparr> else s))"

definition pushiov_ws :: "addr \<Rightarrow> nat \<Rightarrow> sst \<Rightarrow> sst res" where
  "pushiov_ws base len ws = (case ws of (w, s) \<Rightarrow> bindR (pushiov base len s) (\<lambda>s. Inr (w, s)))"

fun makeuiocbs_loop :: "nat \<Rightarrow> (nat \<times> uiocb) list \<Rightarrow> world \<Rightarrow> world \<times> (nat \<times> uiocb) list" where
  "makeuiocbs_loop nrem [] w = (w, [])"
| "makeuiocbs_loop nrem ((nb, cb) # cbs) w =
     (if nb \<le> nrem then makeuiocbs_loop nrem cbs (runcb cb w) else (w, (nb, cb) # cbs))"

definition makeuiocbs :: "sst \<Rightarrow> sst" where
  "makeuiocbs ws =
     (case ws of (w, s) \<Rightarrow>
        case makeuiocbs_loop (nrembytes s) (uiocbs s) w of
          (w', cbs) \<Rightarrow> (w', s\<lparr>uiocbs := cbs\<rparr>))"

fun rem_whole :: "nat \<Rightarrow> (addr \<times> nat) list \<Rightarrow> nat \<times> nat \<times> (addr \<times> nat) list" where
  "rem_whole n [] = (n, 0, [])"
| "rem_whole n ((a, l) # iov) =
     (if l \<le> n then (case rem_whole (n - l) iov of (n', k, iov') \<Rightarrow> (n', Suc k, iov'))
      else (n, 0, (a, l) # iov))"

definition rembytes :: "nat \<Rightarrow> sst \<Rightarrow> sst res" where
  "rembytes n ws =
     (case ws of (w, s) \<Rightarrow>
        bindR (guardR AssertFail (n \<le> uiobytes s)) (\<lambda>_.
          let s = s\<lparr>uiobytes := uiobytes s - n, nrembytes := nrembytes s + n\<rparr>
          in case rem_whole n (iovs s) of
               (n, niov, iov) \<Rightarrow>
                 bindR (if n > 0
                        then (case iov of
                                [] \<Rightarrow> Inl AssertFail
                              | (a, l) # vs \<Rightarrow> Inr ((a + n, l - n) # vs))
                        else Inr iov) (\<lambda>iov.
                   let s = s\<lparr>iovs := iov, nremiov := nremiov s + niov\<rparr>;
                       s = (if iov = [] then s\<lparr>scratch_pos := scratch_buf s, lastiovend := 0\<rparr> else s)
                   in Inr (makeuiocbs (w, s)))))"

definition suio_clear :: "sst \<Rightarrow> sst res" where
  "suio_clear ws =
     bindR (rembytes (resid (snd ws)) ws) (\<lambda>(w, s).
       let w = (if scratch_buf s \<noteq> defbuf s
                then runcb (Dealloc (scratch_buf s) (scratch_lim s - scratch_buf s)) w else w);
           s = (if scratch_buf s \<noteq> defbuf s
                then s\<lparr>scratch_buf := defbuf s, scratch_lim := defbuf s + smallbufsize\<rparr> else s)
       in Inr (w, s\<lparr>scratch_pos := defbuf s, iovs := [], uiocbs := []\<rparr>))"

definition condemn_scratch :: "sst \<Rightarrow> sst" where
  "condemn_scratch ws =
     (case ws of (w, s) \<Rightarrow>
        if scratch_buf s \<noteq> defbuf s
        then iovcb (Dealloc (scratch_buf s) (scratch_lim s - scratch_buf s)) (w, s)
        else (w, s))"

text \<open>The room \<open>morescratch\<close> asks for: whole blocks, less what malloc keeps for itself.\<close>

definition mallocresv :: nat where "mallocresv = 16"

definition scratch_size :: "nat \<Rightarrow> nat" where
  "scratch_size sz = (sz + mallocresv + (blocksize - 1)) div blocksize * blocksize - mallocresv"

definition do_alloc :: "allocator \<Rightarrow> nat \<Rightarrow> world \<Rightarrow> world \<times> addr" where
  "do_alloc al n w = (let p = al w n in (w\<lparr>heap := (p, n) # heap w\<rparr>, p))"

definition morescratch :: "allocator \<Rightarrow> nat \<Rightarrow> sst \<Rightarrow> sst" where
  "morescratch al n ws =
     (let sz = scratch_size n
      in case condemn_scratch ws of
           (w, s) \<Rightarrow>
             (case do_alloc al sz w of
                (w, p) \<Rightarrow> (w, s\<lparr>scratch_buf := p, scratch_pos := p, scratch_lim := p + sz\<rparr>)))"

definition getspace :: "allocator \<Rightarrow> nat \<Rightarrow> sst \<Rightarrow> addr \<times> sst" where
  "getspace al n ws =
     (let ws = (if n \<le> scratch_lim (snd ws) - scratch_pos (snd ws) then ws else morescratch al n ws)
      in (scratch_pos (snd ws), ws))"

text \<open>
  \<open>memcpy (scratch_pos, buf, len); pushiov (scratch_pos, len)\<close>, which most of the operations end
  with. Bytes written past \<open>scratch_lim\<close> are outside the object.
\<close>

definition put_scratch :: "u8 list \<Rightarrow> sst \<Rightarrow> sst res" where
  "put_scratch bs ws =
     (case ws of (w, s) \<Rightarrow>
        bindR (guardR OutOfRange (scratch_pos s + length bs \<le> scratch_lim s)) (\<lambda>_.
          pushiov_ws (scratch_pos s) (length bs)
            (w\<lparr>mem := memwrite (scratch_pos s) bs (mem w)\<rparr>, s)))"

definition slowcopy :: "allocator \<Rightarrow> u8 list \<Rightarrow> sst \<Rightarrow> sst res" where
  "slowcopy al buf ws =
     (let n = scratch_lim (snd ws) - scratch_pos (snd ws)
      in if length buf \<le> n then put_scratch buf ws
         else bindR (if smallbufsize \<le> n \<or> scratch_pos (snd ws) = lastiovend (snd ws)
                     then bindR (put_scratch (take n buf) ws) (\<lambda>ws. Inr (drop n buf, ws))
                     else Inr (buf, ws)) (\<lambda>(buf, ws).
                put_scratch buf (morescratch al (length buf) ws)))"

definition suio_copy :: "allocator \<Rightarrow> u8 list \<Rightarrow> sst \<Rightarrow> sst res" where
  "suio_copy al buf ws =
     (if length buf \<le> scratch_lim (snd ws) - scratch_pos (snd ws)
      then put_scratch buf ws else slowcopy al buf ws)"

definition slowfill :: "allocator \<Rightarrow> u8 \<Rightarrow> nat \<Rightarrow> sst \<Rightarrow> sst res" where
  "slowfill al c len ws =
     (let n = scratch_lim (snd ws) - scratch_pos (snd ws)
      in if len \<le> n then put_scratch (replicate len c) ws
         else bindR (if smallbufsize \<le> n \<or> scratch_pos (snd ws) = lastiovend (snd ws)
                     then bindR (put_scratch (replicate n c) ws) (\<lambda>ws. Inr (len - n, ws))
                     else Inr (len, ws)) (\<lambda>(len, ws).
                put_scratch (replicate len c) (morescratch al len ws)))"

definition suio_fill :: "allocator \<Rightarrow> u8 \<Rightarrow> int \<Rightarrow> sst \<Rightarrow> sst res" where
  "suio_fill al c n ws =
     (if n \<le> 0 then Inr ws
      else if n \<le> int (scratch_lim (snd ws)) - int (scratch_pos (snd ws))
      then put_scratch (replicate (nat n) c) ws
      else slowfill al c (nat n) ws)"

definition suio_copyv :: "allocator \<Rightarrow> u8 list list \<Rightarrow> nat \<Rightarrow> sst \<Rightarrow> sst res" where
  "suio_copyv al iov skip ws =
     bindR (iovmgr_skip skip (iovmgr_new iov)) (\<lambda>iom.
       let n = scratch_lim (snd ws) - scratch_pos (snd ws)
       in bindR (if scratch_pos (snd ws) = lastiovend (snd ws) \<or> smallbufsize \<le> n
                 then case iovmgr_copyout n iom of
                        (bs, iom) \<Rightarrow>
                          bindR (if 0 < length bs then put_scratch bs ws else Inr ws) (\<lambda>ws. Inr (iom, ws))
                 else Inr (iom, ws)) (\<lambda>(iom, ws).
            let n = iovmgr_size iom
            in if 0 < n
               then put_scratch (fst (iovmgr_copyout n iom)) (morescratch al n ws)
               else Inr ws))"

text \<open>\<open>print\<close> queues a buffer in place, or a copy of it when it is small.\<close>

definition suio_print :: "allocator \<Rightarrow> addr \<Rightarrow> nat \<Rightarrow> sst \<Rightarrow> sst res" where
  "suio_print al buf len ws =
     (if len \<le> smallbufsize \<and> buf \<noteq> scratch_pos (snd ws)
      then suio_copy al (region (mem (fst ws)) buf len) ws
      else pushiov_ws buf len ws)"

text \<open>The loop shared by \<open>take\<close> and \<open>borrow_data\<close>: pieces inside the other queue's \<open>defbuf\<close> are copied.\<close>

fun take_iovs :: "allocator \<Rightarrow> addr \<Rightarrow> (addr \<times> nat) list \<Rightarrow> sst \<Rightarrow> sst res" where
  "take_iovs al db [] ws = Inr ws"
| "take_iovs al db ((a, l) # iov) ws =
     bindR (if db \<le> a \<and> a < db + smallbufsize
            then suio_copy al (region (mem (fst ws)) a l) ws
            else pushiov_ws a l ws) (take_iovs al db iov)"

definition borrow_data :: "allocator \<Rightarrow> suio \<Rightarrow> sst \<Rightarrow> sst res" where
  "borrow_data al from ws = take_iovs al (defbuf from) (iovs from) ws"

definition suio_take :: "allocator \<Rightarrow> suio \<Rightarrow> sst \<Rightarrow> (suio \<times> sst) res" where
  "suio_take al uio ws =
     (let bdiff = int (nrembytes (snd ws) + uiobytes (snd ws)) - int (nrembytes uio)
      in case condemn_scratch (fst ws, uio) of
           (w, uio) \<Rightarrow>
             let uio = uio\<lparr>nrembytes := nrembytes uio + uiobytes uio,
                           nremiov := nremiov uio + length (iovs uio), uiobytes := 0\<rparr>
             in bindR (take_iovs al (defbuf uio) (iovs uio) (w, snd ws)) (\<lambda>(w, s).
                  let s = s\<lparr>uiocbs := uiocbs s @
                              map (\<lambda>(nb, cb). (nat ((int nb + bdiff) mod 2 ^ 64), cb)) (uiocbs uio)\<rparr>
                  in Inr (uio\<lparr>iovs := [], uiocbs := [], scratch_buf := defbuf uio,
                              scratch_pos := defbuf uio, scratch_lim := defbuf uio + smallbufsize\<rparr>,
                          (w, s))))"

text \<open>The bytes in the queue.\<close>

definition contents :: "sst \<Rightarrow> u8 list" where
  "contents ws = concat (map (\<lambda>(a, l). region (mem (fst ws)) a l) (iovs (snd ws)))"

fun copyout_loop :: "(addr \<Rightarrow> u8) \<Rightarrow> nat \<Rightarrow> (addr \<times> nat) list \<Rightarrow> u8 list" where
  "copyout_loop m len [] = []"
| "copyout_loop m len ((a, l) # iov) =
     (if l \<le> len then region m a l @ copyout_loop m (len - l) iov else region m a len)"

definition suio_copyout :: "nat \<Rightarrow> sst \<Rightarrow> u8 list" where
  "suio_copyout len ws = copyout_loop (mem (fst ws)) len (iovs (snd ws))"

definition suio_flatten :: "sst \<Rightarrow> u8 list" where
  "suio_flatten ws = copyout_loop (mem (fst ws)) (2 ^ 64 - 1) (iovs (snd ws))"

fun linelen_loop :: "(addr \<Rightarrow> u8) \<Rightarrow> nat \<Rightarrow> (addr \<times> nat) list \<Rightarrow> nat" where
  "linelen_loop m n [] = 0"
| "linelen_loop m n ((a, l) # iov) =
     (case find (\<lambda>i. m (a + i) = 10) [0..<l] of
        Some i \<Rightarrow> n + i + 1
      | None \<Rightarrow> linelen_loop m (n + l) iov)"

definition linelen :: "sst \<Rightarrow> nat" where
  "linelen ws = linelen_loop (mem (fst ws)) 0 (iovs (snd ws))"

text \<open>
  What a \<open>writev\<close> returns: the number of bytes the kernel is ready to take, of which it takes at most
  those it is offered, from the front; or -1 with an errno. A script that has run out stands for
  \<open>EAGAIN\<close>.
\<close>

datatype wres = Wrote nat | WAgain | WError

definition uio_maxiov :: nat where "uio_maxiov = 16"

fun output_loop ::
  "(suio \<Rightarrow> bool) \<Rightarrow> (suio \<Rightarrow> nat) \<Rightarrow> wres list \<Rightarrow> sst \<Rightarrow> u8 list \<Rightarrow>
   (wres \<times> wres list \<times> sst \<times> u8 list) res" where
  "output_loop cont cnt script ws out =
     (if \<not> cont (snd ws) then Inr (Wrote 0, script, ws, out)
      else case script of
             [] \<Rightarrow> Inr (WAgain, [], ws, out)
           | Wrote n # script' \<Rightarrow>
               let n = min n (sum_list (map snd (take (cnt (snd ws)) (iovs (snd ws)))))
               in if n = 0 then Inr (Wrote 0, script', ws, out)
                  else bindR (rembytes n ws) (\<lambda>ws'.
                    output_loop cont cnt script' ws' (out @ take n (contents ws)))
           | r # script' \<Rightarrow> Inr (r, script', ws, out))"

text \<open>\<open>output\<close>: -1 on an error, else whether bytes went out; with the rest of the script and the bytes.\<close>

definition suio_output ::
  "int \<Rightarrow> wres list \<Rightarrow> sst \<Rightarrow> (int \<times> wres list \<times> sst \<times> u8 list) res" where
  "suio_output cnt script ws =
     (let startpos = nrembytes (snd ws)
      in bindR (if cnt < 0
                then output_loop (\<lambda>s. iovs s \<noteq> []) (\<lambda>s. min (iovcnt s) uio_maxiov) script ws []
                else bindR (guardR AssertFail (nat cnt \<le> length (iovs (snd ws)))) (\<lambda>_.
                  let maxiovno = nremiov (snd ws) + nat cnt
                  in output_loop (\<lambda>s. nremiov s < maxiovno)
                       (\<lambda>s. min (maxiovno - nremiov s) uio_maxiov) script ws []))
           (\<lambda>(n, script', ws', out).
              Inr (if n = WError then -1 else if startpos < nrembytes (snd ws') then 1 else 0,
                   script', ws', out)))"

text \<open>
  What a \<open>read\<close> or \<open>readv\<close> of at most \<open>len\<close> bytes returns: the bytes, none at the end of the file, or -1.
\<close>

datatype rres = RdBytes "u8 list" | RdError

definition suio_input :: "allocator \<Rightarrow> nat \<Rightarrow> rres \<Rightarrow> sst \<Rightarrow> (int \<times> sst) res" where
  "suio_input al len r ws =
     (let space = scratch_lim (snd ws) - scratch_pos (snd ws)
      in if len \<le> space \<or> space = 0
         then case getspace al len ws of
                (buf, (w, s)) \<Rightarrow>
                  (case r of
                     RdError \<Rightarrow> Inr (-1, (w, s))
                   | RdBytes bs \<Rightarrow>
                       bindR (guardR OutOfRange (length bs \<le> len)) (\<lambda>_.
                       let w = w\<lparr>mem := memwrite buf bs (mem w)\<rparr>
                       in bindR (if 0 < length bs then pushiov_ws buf (length bs) (w, s) else Inr (w, s))
                            (\<lambda>ws. Inr (int (length bs), ws))))
         else
           let sz = scratch_size (len - space)
           in case do_alloc al sz (fst ws) of
                (w, buf) \<Rightarrow>
                  let s = snd ws
                  in case r of
                       RdError \<Rightarrow> Inr (-1, (runcb (Dealloc buf sz) w, s))
                     | RdBytes bs \<Rightarrow>
                         bindR (guardR OutOfRange (length bs \<le> len)) (\<lambda>_.
                         let w = w\<lparr>mem := memwrite buf (drop space bs)
                                            (memwrite (scratch_pos s) (take space bs) (mem w))\<rparr>
                         in bindR
                              (if space < length bs
                               then bindR (pushiov_ws (scratch_pos s) space (w, s)) (\<lambda>(w, s).
                                    bindR (guardR AssertFail (scratch_pos s = scratch_lim s)) (\<lambda>_.
                                      case condemn_scratch (w, s) of
                                        (w, s) \<Rightarrow>
                                          pushiov_ws buf (length bs - space)
                                            (w, s\<lparr>scratch_pos := buf, scratch_buf := buf,
                                                  scratch_lim := buf + sz\<rparr>)))
                               else bindR (if 0 < length bs then pushiov_ws (scratch_pos s) (length bs) (w, s)
                                           else Inr (w, s)) (\<lambda>(w, s).
                                    Inr (runcb (Dealloc buf sz) w, s)))
                              (\<lambda>ws. Inr (int (length bs), ws))))"

section \<open>The invariant\<close>

text \<open>The addresses of the queued bytes, in order.\<close>

definition addrs :: "(addr \<times> nat) list \<Rightarrow> addr list" where
  "addrs iov = concat (map (\<lambda>(a, l). [a..<a + l]) iov)"

definition blk :: "addr \<times> nat \<Rightarrow> addr set" where
  "blk b = {fst b..<fst b + snd b}"

definition live :: "world \<Rightarrow> addr set" where
  "live w = \<Union> (blk ` set (heap w))"

definition heap_ok :: "world \<Rightarrow> bool" where
  "heap_ok w \<longleftrightarrow> list_all (\<lambda>(a, n). 0 < a \<and> 0 < n) (heap w) \<and>
                 sorted_wrt (\<lambda>b c. blk b \<inter> blk c = {}) (heap w)"

text \<open>What is relied on of \<open>malloc\<close>: a new block is not \<open>NULL\<close> and overlaps no live block.\<close>

definition alloc_ok :: "allocator \<Rightarrow> bool" where
  "alloc_ok al \<longleftrightarrow>
     (\<forall>w n. heap_ok w \<longrightarrow> 0 < n \<longrightarrow> 0 < al w n \<and> blk (al w n, n) \<inter> live w = {})"

fun dealloc_of :: "nat \<times> uiocb \<Rightarrow> (nat \<times> addr \<times> nat) list" where
  "dealloc_of (p, Dealloc a n) = [(p, a, n)]"
| "dealloc_of (p, UserCb i) = []"

text \<open>The blocks that wait to be freed, with the stream positions they wait for.\<close>

definition pending :: "(nat \<times> uiocb) list \<Rightarrow> (nat \<times> addr \<times> nat) list" where
  "pending cbs = concat (map dealloc_of cbs)"

definition scratch :: "suio \<Rightarrow> addr \<times> nat" where
  "scratch s = (scratch_buf s, scratch_lim s - scratch_buf s)"

definition iovs_ok :: "suio \<Rightarrow> bool" where
  "iovs_ok s \<longleftrightarrow>
     uiobytes s = length (addrs (iovs s)) \<and> list_all (\<lambda>(a, l). 0 < a \<and> 0 < l) (iovs s) \<and>
     (lastiovend s \<noteq> 0 \<longrightarrow>
        iovs s \<noteq> [] \<and> lastiovend s = fst (last (iovs s)) + snd (last (iovs s))) \<and>
     list_all (\<lambda>(p, cb). p \<le> nrembytes s + uiobytes s) (uiocbs s)"

definition scratch_ok :: "world \<Rightarrow> suio \<Rightarrow> bool" where
  "scratch_ok w s \<longleftrightarrow>
     scratch_buf s \<le> scratch_pos s \<and> scratch_pos s \<le> scratch_lim s \<and>
     scratch s \<in> set (heap w) \<and> (defbuf s, smallbufsize) \<in> set (heap w) \<and>
     set (addrs (iovs s)) \<inter> {scratch_pos s..<scratch_lim s} = {} \<and> set (addrs (iovs s)) \<subseteq> live w"

definition pending_ok :: "world \<Rightarrow> suio \<Rightarrow> bool" where
  "pending_ok w s \<longleftrightarrow>
     distinct (map snd (pending (uiocbs s))) \<and>
     list_all (\<lambda>(p, b). b \<in> set (heap w) \<and> b \<noteq> scratch s \<and> b \<noteq> (defbuf s, smallbufsize) \<and>
                        set (drop (p - nrembytes s) (addrs (iovs s))) \<inter> blk b = {})
       (pending (uiocbs s))"

definition suio_inv :: "sst \<Rightarrow> bool" where
  "suio_inv ws \<longleftrightarrow>
     heap_ok (fst ws) \<and> iovs_ok (snd ws) \<and> scratch_ok (fst ws) (snd ws) \<and> pending_ok (fst ws) (snd ws)"

section \<open>Addresses and memory\<close>

lemma addrs_simps [simp]:
  "addrs [] = []" "addrs ((a, l) # iov) = [a..<a + l] @ addrs iov"
  "addrs (xs @ ys) = addrs xs @ addrs ys"
  by (simp_all add: addrs_def)

lemma pending_simps [simp]:
  "pending [] = []" "pending (c # cbs) = dealloc_of c @ pending cbs"
  "pending (xs @ ys) = pending xs @ pending ys"
  by (simp_all add: pending_def)

lemma contents_addrs: "contents ws = map (mem (fst ws)) (addrs (iovs (snd ws)))"
  by (simp add: contents_def addrs_def map_concat region_def case_prod_beta' comp_def)

lemma length_region [simp]: "length (region m a n) = n"
  by (simp add: region_def)

lemma map_memwrite_disjoint:
  "set as \<inter> {p..<p + length bs} = {} \<Longrightarrow> map (memwrite p bs m) as = map m as"
  by (auto simp: memwrite_def)

lemma map_memwrite_same: "map (memwrite p bs m) [p..<p + length bs] = bs"
  by (rule nth_equalityI) (auto simp: memwrite_def)

lemma heap_disjoint:
  assumes "heap_ok w" "b \<in> set (heap w)" "c \<in> set (heap w)" "b \<noteq> c"
  shows "blk b \<inter> blk c = {}"
proof -
  obtain i j where "i < length (heap w)" "j < length (heap w)" "b = heap w ! i" "c = heap w ! j"
    using assms(2,3) by (auto simp: in_set_conv_nth)
  moreover from this have "i \<noteq> j" using assms(4) by auto
  ultimately show ?thesis
    using assms(1) sorted_wrt_nth_less [of "\<lambda>b c. blk b \<inter> blk c = {}" "heap w" i j]
      sorted_wrt_nth_less [of "\<lambda>b c. blk b \<inter> blk c = {}" "heap w" j i]
    by (cases "i < j") (auto simp: heap_ok_def Int_commute)
qed

lemma heap_same_start:
  assumes "heap_ok w" "(a, n) \<in> set (heap w)" "(a, m) \<in> set (heap w)"
  shows "n = m"
proof (rule ccontr)
  assume "n \<noteq> m"
  then have "blk (a, n) \<inter> blk (a, m) = {}" using assms heap_disjoint by blast
  moreover have "0 < n" "0 < m" using assms by (auto simp: heap_ok_def list_all_iff)
  ultimately show False by (auto simp: blk_def)
qed

lemma heap_distinct: "heap_ok w \<Longrightarrow> distinct (heap w)"
proof -
  have "sorted_wrt (\<lambda>b c. blk b \<inter> blk c = {}) bs \<Longrightarrow> list_all (\<lambda>(a, n). 0 < a \<and> 0 < n) bs \<Longrightarrow> distinct bs"
    for bs by (induction bs) (fastforce simp: blk_def)+
  then show "heap_ok w \<Longrightarrow> distinct (heap w)" by (simp add: heap_ok_def)
qed

lemma heap_ok_alloc:
  assumes "alloc_ok al" "heap_ok w" "0 < n" "do_alloc al n w = (w', p)"
  shows "heap_ok w'" "(p, n) \<in> set (heap w')" "set (heap w) \<subseteq> set (heap w')" "0 < p"
    "blk (p, n) \<inter> live w = {}" "mem w' = mem w" "live w \<subseteq> live w'" "fired w' = fired w"
    "(p, n) \<notin> set (heap w)"
proof -
  have p: "p = al w n" and w': "w' = w\<lparr>heap := (p, n) # heap w\<rparr>"
    using assms(4) by (auto simp: do_alloc_def Let_def)
  have al: "0 < p" "blk (p, n) \<inter> live w = {}"
    using assms(1-3) p by (auto simp: alloc_ok_def)
  then have fresh: "blk (p, n) \<inter> blk c = {}" if "c \<in> set (heap w)" for c
    using that by (auto simp: live_def)
  have "p \<in> blk (p, n)" using assms(3) by (simp add: blk_def)
  then show "(p, n) \<notin> set (heap w)" using fresh by blast
  show "heap_ok w'" using assms(2,3) al(1) fresh by (simp add: heap_ok_def w')
  show "live w \<subseteq> live w'" by (auto simp: live_def w')
qed (use assms in \<open>auto simp: do_alloc_def alloc_ok_def Let_def\<close>)

lemma sorted_wrt_remove1: "sorted_wrt P xs \<Longrightarrow> sorted_wrt P (remove1 x xs)"
  by (induction xs) (auto dest: set_remove1_subset [THEN subsetD])

lemma heap_ok_dealloc:
  assumes "heap_ok w"
  shows "heap_ok (w\<lparr>heap := remove1 b (heap w)\<rparr>)"
    "set (remove1 b (heap w)) = set (heap w) - {b}"
proof -
  show "set (remove1 b (heap w)) = set (heap w) - {b}"
    using heap_distinct [OF assms] by simp
  then show "heap_ok (w\<lparr>heap := remove1 b (heap w)\<rparr>)"
    using assms by (simp add: heap_ok_def list_all_iff sorted_wrt_remove1)
qed

lemma live_dealloc:
  assumes "heap_ok w" "as \<subseteq> live w" "as \<inter> blk b = {}"
  shows "as \<subseteq> live (w\<lparr>heap := remove1 b (heap w)\<rparr>)"
proof
  fix x assume "x \<in> as"
  then obtain c where "c \<in> set (heap w)" "x \<in> blk c" using assms(2) by (auto simp: live_def)
  moreover have "c \<noteq> b" using \<open>x \<in> as\<close> \<open>x \<in> blk c\<close> assms(3) by blast
  ultimately show "x \<in> live (w\<lparr>heap := remove1 b (heap w)\<rparr>)"
    using heap_ok_dealloc(2) [OF assms(1)] by (auto simp: live_def)
qed

lemma scratch_size_ge: "n \<le> scratch_size n" "0 < scratch_size n"
proof -
  have "8192 * ((n + 8207) div 8192) + (n + 8207) mod 8192 = n + 8207" "(n + 8207) mod 8192 < 8192"
    by simp_all
  moreover have "scratch_size n = 8192 * ((n + 8207) div 8192) - 16"
    by (simp add: scratch_size_def mallocresv_def blocksize_def ac_simps)
  moreover have "1 \<le> (n + 8207) div 8192" by (simp add: Suc_leI div_greater_zero_iff)
  ultimately show "n \<le> scratch_size n" "0 < scratch_size n" by linarith+
qed

section \<open>Queueing\<close>

lemma addrs_bump:
  assumes "iov \<noteq> []" "last iov = (a, l)"
  shows "addrs (butlast iov @ [(a, l + n)]) = addrs iov @ [a + l..<a + l + n]"
proof -
  have "addrs iov = addrs (butlast iov @ [(a, l)])"
    using assms append_butlast_last_id [of iov] by simp
  moreover have "[a..<a + l + n] = [a..<a + l] @ [a + l..<a + l + n]"
    by (rule upt_add_eq_append) simp
  ultimately show ?thesis by (simp add: add.assoc)
qed

text \<open>A buffer that may be queued: live, not condemned, and outside the unused scratch space.\<close>

definition queueable :: "sst \<Rightarrow> addr \<Rightarrow> nat \<Rightarrow> bool" where
  "queueable ws a n \<longleftrightarrow>
     0 < a \<and> {a..<a + n} \<subseteq> live (fst ws) \<and>
     list_all (\<lambda>(p, b). {a..<a + n} \<inter> blk b = {}) (pending (uiocbs (snd ws))) \<and>
     (if a = scratch_pos (snd ws) then a + n \<le> scratch_lim (snd ws)
      else {a..<a + n} \<inter> {scratch_pos (snd ws)..<scratch_lim (snd ws)} = {})"

lemma pushiov_spec:
  assumes "iovs_ok s" "0 < a"
  shows "\<exists>s'. pushiov a n s = Inr s' \<and> iovs_ok s' \<and> addrs (iovs s') = addrs (iovs s) @ [a..<a + n] \<and>
    scratch_pos s' = (if a = scratch_pos s then scratch_pos s + n else scratch_pos s) \<and>
    scratch_buf s' = scratch_buf s \<and> scratch_lim s' = scratch_lim s \<and> defbuf s' = defbuf s \<and>
    uiocbs s' = uiocbs s \<and> nrembytes s' = nrembytes s"
proof (cases "a = lastiovend s")
  case True
  obtain b l where l: "last (iovs s) = (b, l)" by fastforce
  with True assms have "iovs s \<noteq> []" "a = b + l" by (auto simp: iovs_ok_def)
  moreover have "list_all (\<lambda>(a, l). 0 < a \<and> 0 < l) (butlast (iovs s))" "0 < b" "0 < l"
    using assms(1) \<open>iovs s \<noteq> []\<close> l last_in_set [of "iovs s"]
    by (auto simp: iovs_ok_def list_all_iff dest: in_set_butlastD)
  ultimately show ?thesis
    using True assms l addrs_bump [of "iovs s" b l n]
    by (auto simp: pushiov_def iovs_ok_def Let_def list_all_iff)
next
  case False
  with assms show ?thesis by (auto simp: pushiov_def iovs_ok_def Let_def list_all_iff)
qed

lemma pushiov_ws_spec:
  assumes inv: "suio_inv (w, s)" and q: "queueable (w, s) a n"
  shows "\<exists>s'. pushiov_ws a n (w, s) = Inr (w, s') \<and> suio_inv (w, s') \<and>
    contents (w, s') = contents (w, s) @ region (mem w) a n"
proof -
  obtain s' where s': "pushiov a n s = Inr s'" "iovs_ok s'" "addrs (iovs s') = addrs (iovs s) @ [a..<a + n]"
    "scratch_pos s' = (if a = scratch_pos s then scratch_pos s + n else scratch_pos s)"
    "scratch_buf s' = scratch_buf s" "scratch_lim s' = scratch_lim s" "defbuf s' = defbuf s"
    "uiocbs s' = uiocbs s" "nrembytes s' = nrembytes s"
    using pushiov_spec [of s a n] inv q by (auto simp: suio_inv_def queueable_def)
  have "scratch_ok w s'"
    using inv q s' by (auto simp: suio_inv_def scratch_ok_def queueable_def scratch_def split: if_splits)
  moreover have "pending_ok w s'"
    unfolding pending_ok_def s'(8) list_all_iff
  proof (intro conjI ballI)
    show "distinct (map snd (pending (uiocbs s)))"
      using inv by (simp add: suio_inv_def pending_ok_def)
    fix x assume x: "x \<in> set (pending (uiocbs s))"
    obtain p b where xb: "x = (p, b)" by (cases x)
    have "{a..<a + n} \<inter> blk b = {}" using q x xb by (auto simp: queueable_def list_all_iff)
    moreover have "set (drop k [a..<a + n]) \<subseteq> {a..<a + n}" for k by (auto dest: in_set_dropD)
    ultimately have "set (drop k [a..<a + n]) \<inter> blk b = {}" for k by blast
    then show "case x of (p, b) \<Rightarrow> b \<in> set (heap w) \<and> b \<noteq> scratch s' \<and> b \<noteq> (defbuf s', smallbufsize) \<and>
                 set (drop (p - nrembytes s') (addrs (iovs s'))) \<inter> blk b = {}"
      using inv x xb s' by (auto simp: suio_inv_def pending_ok_def list_all_iff scratch_def Int_Un_distrib2)
  qed
  ultimately show ?thesis
    using s' inv by (auto simp: pushiov_ws_def suio_inv_def contents_addrs region_def)
qed

lemma suio_inv_memwrite:
  "suio_inv (w, s) \<Longrightarrow> suio_inv (w\<lparr>mem := m\<rparr>, s)"
  by (simp add: suio_inv_def heap_ok_def scratch_ok_def pending_ok_def live_def)

lemma contents_memwrite:
  assumes "suio_inv (w, s)" "set (addrs (iovs s)) \<inter> {p..<p + length bs} = {}"
  shows "contents (w\<lparr>mem := memwrite p bs (mem w)\<rparr>, s) = contents (w, s)"
  using assms(2) by (simp add: contents_addrs map_memwrite_disjoint)

lemma scratch_queueable:
  assumes "suio_inv (w, s)" "scratch_pos s + n \<le> scratch_lim s"
  shows "queueable (w, s) (scratch_pos s) n"
proof -
  have sub: "{scratch_pos s..<scratch_pos s + n} \<subseteq> blk (scratch s)"
    using assms by (auto simp: suio_inv_def scratch_ok_def blk_def scratch_def)
  have "scratch s \<in> set (heap (w))" "heap_ok w" using assms by (auto simp: suio_inv_def scratch_ok_def)
  moreover have "list_all (\<lambda>(p, b). b \<in> set (heap w) \<and> b \<noteq> scratch s) (pending (uiocbs s))"
    using assms by (auto simp: suio_inv_def pending_ok_def list_all_iff)
  ultimately have "list_all (\<lambda>(p, b). {scratch_pos s..<scratch_pos s + n} \<inter> blk b = {}) (pending (uiocbs s))"
    using sub heap_disjoint [of w "scratch s"] by (fastforce simp: list_all_iff)
  moreover have "0 < scratch_pos s"
    using assms by (auto simp: suio_inv_def scratch_ok_def scratch_def heap_ok_def list_all_iff)
  ultimately show ?thesis
    using sub assms \<open>scratch s \<in> _\<close> by (auto simp: queueable_def live_def)
qed

lemma put_scratch_spec:
  assumes "suio_inv ws" "scratch_pos (snd ws) + length bs \<le> scratch_lim (snd ws)"
  shows "\<exists>ws'. put_scratch bs ws = Inr ws' \<and> suio_inv ws' \<and> contents ws' = contents ws @ bs"
proof -
  obtain w s where ws: "ws = (w, s)" by fastforce
  define w' where "w' = w\<lparr>mem := memwrite (scratch_pos s) bs (mem w)\<rparr>"
  have inv': "suio_inv (w', s)" using assms suio_inv_memwrite by (simp add: ws w'_def)
  have "set (addrs (iovs s)) \<inter> {scratch_pos s..<scratch_pos s + length bs} = {}"
    using assms by (auto simp: ws suio_inv_def scratch_ok_def)
  then have "contents (w', s) = contents (w, s)"
    using assms(1) contents_memwrite by (simp add: ws w'_def)
  moreover have "region (mem w') (scratch_pos s) (length bs) = bs"
    by (simp add: w'_def region_def map_memwrite_same)
  ultimately show ?thesis
    using pushiov_ws_spec [OF inv' scratch_queueable [OF inv', of "length bs"]] assms(2)
    by (auto simp: put_scratch_def ws w'_def)
qed

text \<open>Running a deferred deallocation whose block holds no queued byte.\<close>

lemma scratch_defbuf:
  "suio_inv (w, s) \<Longrightarrow> scratch_buf s = defbuf s \<Longrightarrow> scratch s = (defbuf s, smallbufsize)"
  using heap_same_start [of w "defbuf s" "scratch_lim s - scratch_buf s" smallbufsize]
  by (auto simp: suio_inv_def scratch_ok_def scratch_def)

lemma condemn_scratch_eq:
  "condemn_scratch (w, s) =
     (if scratch_buf s = defbuf s then (w, s)
      else if uiobytes s \<noteq> 0
      then (w, s\<lparr>uiocbs := uiocbs s @ [(nrembytes s + uiobytes s, Dealloc (fst (scratch s)) (snd (scratch s)))]\<rparr>)
      else (w\<lparr>heap := remove1 (scratch s) (heap w)\<rparr>, s))"
  by (simp add: condemn_scratch_def iovcb_def runcb_def scratch_def)

lemma condemn_scratch_cases:
  assumes "condemn_scratch (w, s) = (w1, s1)"
  obtains (keep) "scratch_buf s = defbuf s" "w1 = w" "s1 = s"
  | (later) "scratch_buf s \<noteq> defbuf s" "w1 = w"
      "s1 = s\<lparr>uiocbs := uiocbs s @ [(nrembytes s + uiobytes s, Dealloc (fst (scratch s)) (snd (scratch s)))]\<rparr>"
  | (now) "scratch_buf s \<noteq> defbuf s" "uiobytes s = 0" "w1 = w\<lparr>heap := remove1 (scratch s) (heap w)\<rparr>" "s1 = s"
  using assms that unfolding condemn_scratch_eq by (metis prod.inject)

lemma condemn_scratch_world:
  assumes "condemn_scratch (w, s) = (w1, s1)" "heap_ok w"
  shows "heap_ok w1" "mem w1 = mem w" "set (heap w1) \<subseteq> set (heap w)"
    "set (heap w) \<subseteq> insert (scratch s) (set (heap w1))"
proof -
  have "heap_ok w1 \<and> mem w1 = mem w \<and> set (heap w1) \<subseteq> set (heap w) \<and>
        set (heap w) \<subseteq> insert (scratch s) (set (heap w1))"
    using assms(1)
  proof (cases rule: condemn_scratch_cases)
    case now
    show ?thesis
      using heap_ok_dealloc [OF assms(2), of "scratch s"] unfolding now(3) by auto
  qed (use assms(2) in auto)
  then show "heap_ok w1" "mem w1 = mem w" "set (heap w1) \<subseteq> set (heap w)"
    "set (heap w) \<subseteq> insert (scratch s) (set (heap w1))" by simp_all
qed

lemma new_scratch_spec:
  assumes inv: "suio_inv (w, s)" and c: "condemn_scratch (w, s) = (w1, s1)"
    and h: "heap_ok w2" "set (heap w2) = insert (p, n) (set (heap w1))" "mem w2 = mem w"
      "(p, n) \<notin> set (heap w1)" "0 < p" "0 < n"
    and s2: "s2 = s1\<lparr>scratch_buf := p, scratch_pos := p, scratch_lim := p + n\<rparr>"
  shows "suio_inv (w2, s2)" "contents (w2, s2) = contents (w, s)"
proof -
  have iov: "iovs s2 = iovs s" "uiobytes s2 = uiobytes s" "lastiovend s2 = lastiovend s"
    "nrembytes s2 = nrembytes s" "defbuf s2 = defbuf s" "scratch s2 = (p, n)" "scratch_pos s2 = p"
      "scratch_lim s2 = p + n" "scratch_buf s2 = p"
    using c by (auto simp: s2 condemn_scratch_def iovcb_def scratch_def split: if_splits)
  then show "contents (w2, s2) = contents (w, s)" using h by (simp add: contents_addrs)
  have k: "scratch_buf s \<noteq> defbuf s \<Longrightarrow> scratch s \<noteq> (defbuf s, smallbufsize)" by (simp add: scratch_def)
  have d: "set (remove1 (scratch s) (heap w)) = set (heap w) - {scratch s}"
    using inv heap_ok_dealloc(2) [of w "scratch s"] by (simp add: suio_inv_def)
  note cs = condemn_scratch_cases [OF c]
  have heap1: "set (heap w1) \<subseteq> set (heap w)" "set (heap w) \<subseteq> insert (scratch s) (set (heap w1))"
      "(defbuf s, smallbufsize) \<in> set (heap w1)" "set (addrs (iovs s)) \<subseteq> live w1"
      "list_all (\<lambda>(q, b). b \<in> set (heap w1)) (pending (uiocbs s))"
    using inv k d by (cases rule: cs; auto simp: suio_inv_def scratch_ok_def pending_ok_def list_all_iff live_def iovs_ok_def)+
  then have ne: "(p, n) \<noteq> (defbuf s, smallbufsize)"
    "list_all (\<lambda>(q, b). b \<noteq> (p, n)) (pending (uiocbs s))" using h(4) by (auto simp: list_all_iff)
  have fresh: "blk (p, n) \<inter> set (addrs (iovs s)) = {}"
  proof -
    have "blk (p, n) \<inter> blk b = {}" if "b \<in> set (heap w1)" for b
      using heap_disjoint [OF h(1), of "(p, n)" b] that h(2,4) by auto
    then show ?thesis using heap1(4) unfolding live_def by blast
  qed
  have "list_all (\<lambda>(p, cb). p \<le> nrembytes s + uiobytes s) (uiocbs s2)"
    using inv s2 by (cases rule: cs) (auto simp: iovs_ok_def suio_inv_def list_all_iff)
  then have "iovs_ok s2" using inv iov by (simp add: iovs_ok_def suio_inv_def)
  moreover have "scratch_ok w2 s2"
    using fresh heap1(3,4) h(2) unfolding scratch_ok_def iov
    by (auto simp: blk_def live_def)
  moreover have "pending_ok w2 s2"
    using c
  proof (cases rule: condemn_scratch_cases)
    case later
    have "set (drop (uiobytes s) (addrs (iovs s))) = {}" using inv by (simp add: suio_inv_def iovs_ok_def)
    moreover have "scratch s \<noteq> (p, n)" "scratch s \<in> set (heap w)" using later h(4) inv by (auto simp: suio_inv_def scratch_ok_def)
    moreover have "scratch s \<notin> snd ` set (pending (uiocbs s))" "pending_ok w s"
      using inv by (auto simp: suio_inv_def pending_ok_def list_all_iff)
    moreover have u: "uiocbs s2 = uiocbs s @ [(nrembytes s + uiobytes s, Dealloc (fst (scratch s)) (snd (scratch s)))]"
      by (simp add: s2 later(3))
    ultimately show ?thesis
      using later(2) h(2) ne k [OF later(1)] unfolding pending_ok_def iov u list_all_iff
      by auto
  next
    case keep
    then have u: "uiocbs s2 = uiocbs s" by (simp add: s2)
    show ?thesis
      using inv ne heap1(5) h(2) unfolding suio_inv_def pending_ok_def iov u list_all_iff by auto
  next
    case now
    then have u: "uiocbs s2 = uiocbs s" by (simp add: s2)
    show ?thesis
      using inv ne heap1(5) h(2) unfolding suio_inv_def pending_ok_def iov u list_all_iff by auto
  qed
  ultimately show "suio_inv (w2, s2)" using h(1) by (simp add: suio_inv_def)
qed

lemma morescratch_spec:
  assumes al: "alloc_ok al" and inv: "suio_inv ws"
  shows "suio_inv (morescratch al n ws)" "contents (morescratch al n ws) = contents ws"
    "scratch_pos (snd (morescratch al n ws)) + n \<le> scratch_lim (snd (morescratch al n ws))"
proof -
  obtain w s where ws: "ws = (w, s)" by fastforce
  obtain w1 s1 where c: "condemn_scratch (w, s) = (w1, s1)" by fastforce
  obtain w2 p where d: "do_alloc al (scratch_size n) w1 = (w2, p)" by fastforce
  note ok1 = condemn_scratch_world [OF c]
  have hw: "heap_ok w" using inv by (simp add: suio_inv_def ws)
  note a = heap_ok_alloc [OF al ok1(1) [OF hw] scratch_size_ge(2) d]
  have eq: "morescratch al n ws =
    (w2, s1\<lparr>scratch_buf := p, scratch_pos := p, scratch_lim := p + scratch_size n\<rparr>)"
    using c d by (simp add: morescratch_def ws Let_def)
  have set2: "set (heap w2) = insert (p, scratch_size n) (set (heap w1))"
    using d by (auto simp: do_alloc_def Let_def)
  show "scratch_pos (snd (morescratch al n ws)) + n \<le> scratch_lim (snd (morescratch al n ws))"
    using scratch_size_ge by (simp add: eq)
  show "suio_inv (morescratch al n ws)" "contents (morescratch al n ws) = contents ws"
    unfolding eq unfolding ws
    using new_scratch_spec [OF inv [unfolded ws] c a(1) set2 _ a(9,4) scratch_size_ge(2) refl] a(6) ok1(2) [OF hw]
    by simp_all
qed

definition appends :: "sst res \<Rightarrow> sst \<Rightarrow> u8 list \<Rightarrow> bool" where
  "appends r ws bs \<longleftrightarrow> (\<exists>ws'. r = Inr ws' \<and> suio_inv ws' \<and> contents ws' = contents ws @ bs)"

lemma appendsI: "r = Inr ws' \<Longrightarrow> suio_inv ws' \<Longrightarrow> contents ws' = contents ws @ bs \<Longrightarrow> appends r ws bs"
  by (auto simp: appends_def)

lemma appends_bind:
  assumes "appends r ws bs" "\<And>ws'. suio_inv ws' \<Longrightarrow> appends (f ws') ws' cs"
  shows "appends (bindR r f) ws (bs @ cs)"
  using assms by (fastforce simp: appends_def)

lemma put_scratch_appends:
  "suio_inv ws \<Longrightarrow> length bs \<le> scratch_lim (snd ws) - scratch_pos (snd ws) \<Longrightarrow> appends (put_scratch bs ws) ws bs"
  using put_scratch_spec [of ws bs]
  by (cases "bs = []") (auto simp: appends_def suio_inv_def scratch_ok_def)

lemma morescratch_appends:
  assumes "alloc_ok al" "suio_inv ws" "length bs \<le> n"
  shows "appends (put_scratch bs (morescratch al n ws)) ws bs"
  using put_scratch_spec [of "morescratch al n ws" bs] morescratch_spec [OF assms(1,2), of n] assms(3)
  by (auto simp: appends_def)

lemma slowcopy_appends:
  assumes "alloc_ok al" "suio_inv ws"
  shows "appends (slowcopy al bs ws) ws bs"
proof -
  define n where "n = scratch_lim (snd ws) - scratch_pos (snd ws)"
  have "appends (bindR (put_scratch (take n bs) ws) (\<lambda>ws. put_scratch (drop n bs) (morescratch al (length bs - n) ws)))
          ws (take n bs @ drop n bs)"
    using assms
    by (intro appends_bind put_scratch_appends morescratch_appends) (auto simp: n_def)
  moreover have "bindR (bindR r (\<lambda>ws. Inr (drop n bs, ws))) (\<lambda>(buf, ws). f buf ws) = bindR r (f (drop n bs))"
    for r and f :: "u8 list \<Rightarrow> sst \<Rightarrow> sst res" by (cases r) auto
  ultimately show ?thesis
    using assms put_scratch_appends [of ws bs] morescratch_appends [of al ws bs "length bs"]
    unfolding slowcopy_def Let_def n_def [symmetric] by simp
qed

lemma suio_copy_appends:
  "alloc_ok al \<Longrightarrow> suio_inv ws \<Longrightarrow> appends (suio_copy al bs ws) ws bs"
  using slowcopy_appends put_scratch_appends by (simp add: suio_copy_def)

text \<open>\<open>fill\<close> is \<open>copy\<close> of a run of one byte.\<close>

lemma slowfill_slowcopy: "slowfill al c len ws = slowcopy al (replicate len c) ws"
  by (simp add: slowfill_def slowcopy_def Let_def bindR_assoc)

lemma suio_fill_appends:
  assumes "alloc_ok al" "suio_inv ws"
  shows "appends (suio_fill al c n ws) ws (replicate (nat n) c)"
proof (cases "n \<le> 0")
  case True
  then show ?thesis using assms by (simp add: suio_fill_def appends_def)
next
  case False
  then show ?thesis
    using slowcopy_appends [OF assms] put_scratch_appends [OF assms(2), of "replicate (nat n) c"]
    by (simp add: suio_fill_def slowfill_slowcopy)
qed

section \<open>Vectors\<close>

definition iovbytes :: "iovmgr \<Rightarrow> u8 list" where
  "iovbytes iom = cur_iov iom @ concat (rest_iov iom)"

lemma iovbytes_new [simp]: "iovbytes (iovmgr_new iov) = concat iov"
  by (simp add: iovbytes_def iovmgr_new_def split: list.split)

lemma iovsize_concat [simp]: "iovsize iov = length (concat iov)"
  by (induction iov) simp_all

lemma iovmgr_size [simp]: "iovmgr_size iom = length (iovbytes iom)"
  by (simp add: iovmgr_size_def iovbytes_def)

lemma skip_whole_spec:
  "skip_whole n iov = (n', iov') \<Longrightarrow>
     drop n (concat iov) = drop n' (concat iov') \<and> (iov' = [] \<or> n' < length (hd iov')) \<and>
     (length (concat iov) < n \<longleftrightarrow> iov' = [] \<and> 0 < n')"
  by (induction n iov rule: skip_whole.induct) (auto split: if_splits)

lemma iovmgr_skip_spec:
  "n \<le> length (iovbytes iom) \<Longrightarrow> \<exists>i. iovmgr_skip n iom = Inr i"
  "length (iovbytes iom) < n \<Longrightarrow> iovmgr_skip n iom = Inl PanicCall"
  "iovmgr_skip n iom = Inr iom' \<Longrightarrow> iovbytes iom' = drop n (iovbytes iom)"
proof -
  obtain n' iov' where w: "skip_whole (n - length (cur_iov iom)) (rest_iov iom) = (n', iov')" by fastforce
  note sp = skip_whole_spec [OF w]
  show "n \<le> length (iovbytes iom) \<Longrightarrow> \<exists>i. iovmgr_skip n iom = Inr i"
    "length (iovbytes iom) < n \<Longrightarrow> iovmgr_skip n iom = Inl PanicCall"
    using w sp by (cases iov'; auto simp: iovmgr_skip_def iovbytes_def)+
  show "iovmgr_skip n iom = Inr iom' \<Longrightarrow> iovbytes iom' = drop n (iovbytes iom)"
    using w sp by (cases iov') (auto simp: iovmgr_skip_def iovbytes_def split: if_splits)
qed

lemma copy_whole_spec:
  "copy_whole room iov = (bs, room', iov') \<Longrightarrow>
     bs @ take room' (concat iov') = take room (concat iov) \<and>
     drop room' (concat iov') = drop room (concat iov) \<and> (iov' = [] \<or> room' < length (hd iov'))"
  by (induction room iov arbitrary: bs rule: copy_whole.induct) (auto split: if_splits prod.splits)

lemma iovmgr_copyout_spec:
  assumes "iovmgr_copyout len iom = (bs, iom')"
  shows "bs = take len (iovbytes iom)" "iovbytes iom' = drop len (iovbytes iom)"
proof -
  obtain cs room iov' where w: "copy_whole (len - length (cur_iov iom)) (rest_iov iom) = (cs, room, iov')"
    by (metis prod_cases3)
  note sp = copy_whole_spec [OF w]
  show "bs = take len (iovbytes iom)" "iovbytes iom' = drop len (iovbytes iom)"
    using assms w sp
    by (cases iov'; auto simp: iovmgr_copyout_def iovbytes_def split: if_splits)+
qed

lemma suio_copyv_appends:
  assumes "alloc_ok al" "suio_inv ws" "k \<le> length (concat iov)"
  shows "appends (suio_copyv al iov k ws) ws (drop k (concat iov))"
proof -
  define n where "n = scratch_lim (snd ws) - scratch_pos (snd ws)"
  obtain iom where iom: "iovmgr_skip k (iovmgr_new iov) = Inr iom"
    using iovmgr_skip_spec(1) [of k "iovmgr_new iov"] assms(3) by auto
  then have ib: "iovbytes iom = drop k (concat iov)" using iovmgr_skip_spec(3) by fastforce
  obtain bs iom' where c: "iovmgr_copyout n iom = (bs, iom')" by fastforce
  note sp = iovmgr_copyout_spec [OF c]
  have rest: "appends (if 0 < iovmgr_size i then put_scratch (fst (iovmgr_copyout (iovmgr_size i) i))
                (morescratch al (iovmgr_size i) ws') else Inr ws') ws' (iovbytes i)"
    if "suio_inv ws'" for ws' i
    using morescratch_appends [OF assms(1) that, of "iovbytes i" "iovmgr_size i"] that
      iovmgr_copyout_spec(1) [of "iovmgr_size i" i]
    by (cases "iovmgr_copyout (iovmgr_size i) i"; cases ws'; cases "iovbytes i = []") (simp_all add: appends_def)
  have "appends (if 0 < length bs then put_scratch bs ws else Inr ws) ws bs"
    using put_scratch_appends [OF assms(2), of bs] assms(2) sp(1)
    by (cases "bs = []"; cases ws) (simp_all add: appends_def n_def)
  note two = appends_bind [OF this rest [where i = iom']]
  have "bs @ iovbytes iom' = drop k (concat iov)" by (simp only: sp ib append_take_drop_id)
  with two rest [OF assms(2), of iom, unfolded ib] show ?thesis
    unfolding suio_copyv_def iom bindR_Inr Let_def n_def [symmetric] c prod.case
    by (cases "scratch_pos (snd ws) = lastiovend (snd ws) \<or> smallbufsize \<le> n")
       (simp_all only: if_True if_False bindR_assoc bindR_Inr prod.case)
qed

lemma suio_copyv_panic:
  "length (concat iov) < k \<Longrightarrow> suio_copyv al iov k ws = Inl PanicCall"
  using iovmgr_skip_spec(2) [of "iovmgr_new iov" k] by (simp add: suio_copyv_def)

lemma suio_print_appends:
  assumes "alloc_ok al" "suio_inv (w, s)" "queueable (w, s) a n"
  shows "appends (suio_print al a n (w, s)) (w, s) (region (mem w) a n)"
proof (cases "n \<le> smallbufsize \<and> a \<noteq> scratch_pos s")
  case True
  then show ?thesis using suio_copy_appends [OF assms(1,2)] by (simp add: suio_print_def)
next
  case False
  then show ?thesis
    using pushiov_ws_spec [OF assms(2,3)] unfolding suio_print_def appends_def by auto
qed

section \<open>Removing\<close>

lemma rem_whole_spec:
  "rem_whole n iov = (n', k, iov') \<Longrightarrow>
     drop n (addrs iov) = drop n' (addrs iov') \<and> (iov' = [] \<or> n' < snd (hd iov')) \<and>
     (length (addrs iov) < n \<longleftrightarrow> iov' = [] \<and> 0 < n') \<and> iov' = drop k iov"
  by (induction n iov arbitrary: k rule: rem_whole.induct) (auto split: if_splits prod.splits)

text \<open>The callbacks \<open>makeuiocbs\<close> runs free only blocks that hold no queued byte.\<close>

lemma runcb_inv:
  assumes "suio_inv (w, s)" "uiocbs s = (p, cb) # cbs" "p \<le> nrembytes s"
  shows "suio_inv (runcb cb w, s\<lparr>uiocbs := cbs\<rparr>)" "mem (runcb cb w) = mem w"
proof -
  show "mem (runcb cb w) = mem w" by (simp add: runcb_def split: uiocb.split)
  show "suio_inv (runcb cb w, s\<lparr>uiocbs := cbs\<rparr>)"
  proof (cases cb)
    case (Dealloc a n)
    let ?w = "w\<lparr>heap := remove1 (a, n) (heap w)\<rparr>"
    have hw: "heap_ok w" using assms(1) by (simp add: suio_inv_def)
    note d = heap_ok_dealloc [OF hw, of "(a, n)"]
    have pend: "(a, n) \<in> set (heap w)" "(a, n) \<noteq> scratch s" "(a, n) \<noteq> (defbuf s, smallbufsize)"
      "set (addrs (iovs s)) \<inter> blk (a, n) = {}" "(a, n) \<notin> snd ` set (pending cbs)"
      using assms Dealloc by (auto simp: suio_inv_def pending_ok_def list_all_iff)
    have "set (addrs (iovs s)) \<subseteq> live ?w"
      using live_dealloc [OF hw _ pend(4)] assms(1) by (simp add: suio_inv_def scratch_ok_def)
    then have "scratch_ok ?w (s\<lparr>uiocbs := cbs\<rparr>)"
      using assms(1) pend(2,3) d(2) by (auto simp: suio_inv_def scratch_ok_def scratch_def)
    moreover have "pending_ok ?w (s\<lparr>uiocbs := cbs\<rparr>)"
    proof -
      have "distinct (map snd (pending cbs))" and
        old: "\<And>q b. (q, b) \<in> set (pending cbs) \<Longrightarrow> b \<in> set (heap w) \<and> b \<noteq> scratch s \<and>
          b \<noteq> (defbuf s, smallbufsize) \<and> set (drop (q - nrembytes s) (addrs (iovs s))) \<inter> blk b = {}"
        using assms(1,2) Dealloc by (auto simp: suio_inv_def pending_ok_def list_all_iff)
      moreover have "b \<noteq> (a, n)" if "(q, b) \<in> set (pending cbs)" for q b using pend(5) that by force
      ultimately show ?thesis using d(2) by (simp add: pending_ok_def list_all_iff scratch_def) blast
    qed
    ultimately show ?thesis
      using d(1) assms(1,2) Dealloc by (auto simp: suio_inv_def runcb_def iovs_ok_def)
  next
    case (UserCb i)
    then show ?thesis
      using assms by (auto simp: suio_inv_def runcb_def iovs_ok_def heap_ok_def scratch_ok_def
        pending_ok_def live_def scratch_def)
  qed
qed

lemma makeuiocbs_inv:
  "suio_inv (w, s) \<Longrightarrow> makeuiocbs_loop (nrembytes s) (uiocbs s) w = (w', cbs) \<Longrightarrow>
     suio_inv (w', s\<lparr>uiocbs := cbs\<rparr>) \<and> mem w' = mem w"
proof (induction "uiocbs s" arbitrary: s w)
  case Nil
  then have "w' = w" "cbs = uiocbs s" by (simp_all add: Nil.hyps [symmetric])
  then show ?case using Nil.prems(1) by simp
next
  case (Cons c cbs')
  obtain nb cb where c: "c = (nb, cb)" by fastforce
  note u = Cons.hyps(2) [symmetric, unfolded c]
  show ?case
  proof (cases "nb \<le> nrembytes s")
    case True
    note r = runcb_inv [OF Cons.prems(1) u True]
    show ?thesis
      using Cons.hyps(1) [of "s\<lparr>uiocbs := cbs'\<rparr>" "runcb cb w"] True r Cons.prems(2) by (simp add: u)
  next
    case False
    then have "w' = w" "cbs = uiocbs s" using Cons.prems(2) by (simp_all add: u)
    then show ?thesis using Cons.prems(1) by simp
  qed
qed

lemma rembytes_spec:
  assumes inv: "suio_inv ws" and n: "n \<le> length (contents ws)"
  shows "\<exists>ws'. rembytes n ws = Inr ws' \<and> suio_inv ws' \<and> contents ws' = drop n (contents ws) \<and>
    nrembytes (snd ws') = nrembytes (snd ws) + n \<and> defbuf (snd ws') = defbuf (snd ws) \<and>
    makeuiocbs_loop (nrembytes (snd ws) + n) (uiocbs (snd ws)) (fst ws) = (fst ws', uiocbs (snd ws'))"
proof -
  obtain w s where ws: "ws = (w, s)" by fastforce
  obtain n' k iov' where r: "rem_whole n (iovs s) = (n', k, iov')" by (metis prod_cases3)
  have sp: "drop n (addrs (iovs s)) = drop n' (addrs iov')" "iov' = [] \<or> n' < snd (hd iov')"
    "length (addrs (iovs s)) < n \<longleftrightarrow> iov' = [] \<and> 0 < n'" and dk: "iov' = drop k (iovs s)"
    using rem_whole_spec [OF r] by (blast | simp)+
  have nb: "n \<le> length (addrs (iovs s))" "uiobytes s = length (addrs (iovs s))"
    using n inv by (simp_all add: ws contents_addrs suio_inv_def iovs_ok_def)
  define iov where "iov = (if n' > 0 then (case iov' of [] \<Rightarrow> [] | (a, l) # vs \<Rightarrow> (a + n', l - n') # vs) else iov')"
  define s1 where "s1 = s\<lparr>uiobytes := uiobytes s - n, nrembytes := nrembytes s + n, iovs := iov, nremiov := nremiov s + k\<rparr>"
  define s2 where "s2 = (if iov = [] then s1\<lparr>scratch_pos := scratch_buf s, lastiovend := 0\<rparr> else s1)"
  have ad: "addrs iov = drop n (addrs (iovs s))"
    using sp nb by (auto simp: iov_def split: list.splits)
  have eq: "rembytes n ws = Inr (makeuiocbs (w, s2))"
    using r sp nb unfolding rembytes_def ws
    by (cases iov') (auto simp: s2_def s1_def iov_def Let_def)
  have s2: "iovs s2 = iov" "uiobytes s2 = uiobytes s - n" "nrembytes s2 = nrembytes s + n" "uiocbs s2 = uiocbs s"
    "scratch_buf s2 = scratch_buf s" "scratch_lim s2 = scratch_lim s" "defbuf s2 = defbuf s"
    "scratch_pos s2 = (if iov = [] then scratch_buf s else scratch_pos s)"
    "lastiovend s2 = (if iov = [] then 0 else lastiovend s)"
    by (auto simp: s2_def s1_def)
  have "list_all (\<lambda>(a, l). 0 < a \<and> 0 < l) iov' \<and> (iov' \<noteq> [] \<longrightarrow> last iov' = last (iovs s))"
    using inv unfolding dk by (auto simp: ws suio_inv_def iovs_ok_def list_all_iff dest: in_set_dropD)
  then have "list_all (\<lambda>(a, l). 0 < a \<and> 0 < l) iov"
    "iov \<noteq> [] \<longrightarrow> fst (last iov) + snd (last iov) = fst (last (iovs s)) + snd (last (iovs s))"
    using sp(2) by (cases "last (iovs s)"; auto simp: iov_def split: list.splits if_splits)+
  moreover have "uiobytes s - n = length (addrs iov)" using nb by (simp add: ad)
  moreover have "nrembytes s + n + (uiobytes s - n) = nrembytes s + uiobytes s" using nb by simp
  ultimately have "iovs_ok s2"
    using inv unfolding iovs_ok_def s2 suio_inv_def ws by (auto simp: add.assoc)
  moreover have "scratch_ok w s2"
    using inv ad unfolding scratch_ok_def s2 suio_inv_def ws
    by (auto simp: scratch_def s2 dest: in_set_dropD)
  moreover have "pending_ok w s2"
  proof -
    have "set (drop (p - (nrembytes s + n)) (drop n xs)) \<subseteq> set (drop (p - nrembytes s) xs)" for p and xs :: "addr list"
      by (simp add: set_drop_subset_set_drop)
    then show ?thesis
      using inv unfolding pending_ok_def s2 suio_inv_def ws ad
      by (fastforce simp: scratch_def s2 list_all_iff)
  qed
  ultimately have inv2: "suio_inv (w, s2)" using inv by (simp add: suio_inv_def ws)
  obtain w' cbs where m: "makeuiocbs_loop (nrembytes s2) (uiocbs s2) w = (w', cbs)" by fastforce
  show ?thesis
    using makeuiocbs_inv [OF inv2 m] m ad s2
    by (simp add: eq [unfolded ws] makeuiocbs_def contents_addrs ws drop_map)
qed

lemma rembytes_too_many: "iovs_ok s \<Longrightarrow> length (contents (w, s)) < n \<Longrightarrow> rembytes n (w, s) = Inl AssertFail"
  by (simp add: rembytes_def contents_addrs iovs_ok_def guardR_def)

section \<open>Output\<close>

lemma sum_lens: "sum_list (map snd iov) = length (addrs iov)"
  by (induction iov) auto

lemma sum_lens_take: "sum_list (map snd (take k iov)) \<le> length (addrs iov)"
proof -
  have "length (addrs iov) = length (addrs (take k iov)) + length (addrs (drop k iov))"
    by (metis append_take_drop_id addrs_simps(3) length_append)
  then show ?thesis by (simp add: sum_lens)
qed

lemma output_loop_spec:
  "suio_inv ws \<Longrightarrow>
     \<exists>r script' ws' sent. output_loop cont cnt script ws out = Inr (r, script', ws', out @ sent) \<and>
       suio_inv ws' \<and> contents ws = sent @ contents ws' \<and>
       nrembytes (snd ws') = nrembytes (snd ws) + length sent"
proof (induction script arbitrary: ws out)
  case Nil
  then show ?case by (cases ws) auto
next
  case (Cons r script)
  show ?case
  proof (cases "\<exists>n. r = Wrote n \<and> cont (snd ws)")
    case True
    then obtain n0 where r: "r = Wrote n0" and c: "cont (snd ws)" by blast
    define n where "n = min n0 (sum_list (map snd (take (cnt (snd ws)) (iovs (snd ws)))))"
    have n: "n \<le> length (contents ws)"
      using sum_lens_take [of "cnt (snd ws)" "iovs (snd ws)"] by (simp add: n_def contents_addrs)
    show ?thesis
    proof (cases "n = 0")
      case True
      then show ?thesis using Cons.prems c by (cases ws) (simp add: r n_def Let_def)
    next
      case False
      obtain ws1 where ws1: "rembytes n ws = Inr ws1" "suio_inv ws1" "contents ws1 = drop n (contents ws)"
        "nrembytes (snd ws1) = nrembytes (snd ws) + n"
        using rembytes_spec [OF Cons.prems n] by blast
      obtain r' script' ws' sent where
        "output_loop cont cnt script ws1 (out @ take n (contents ws)) = Inr (r', script', ws', (out @ take n (contents ws)) @ sent)"
        "suio_inv ws'" "contents ws1 = sent @ contents ws'" "nrembytes (snd ws') = nrembytes (snd ws1) + length sent"
        using Cons.IH [OF ws1(2)] by blast
      moreover from this have "contents ws = (take n (contents ws) @ sent) @ contents ws'"
        using ws1(3) by (metis append.assoc append_take_drop_id)
      ultimately show ?thesis
        using c False ws1 n
        by (intro exI [of _ r'] exI [of _ script'] exI [of _ ws'] exI [of _ "take n (contents ws) @ sent"])
           (simp add: r n_def [symmetric] Let_def)
    qed
  next
    case False
    then show ?thesis using Cons.prems by (cases r; cases ws) auto
  qed
qed

lemma output_loop_script:
  "output_loop cont cnt script ws out = Inr (r, script', ws', out') \<Longrightarrow>
     length script' \<le> length script \<and> (ws' = ws \<or> length script' < length script)"
proof (induction script arbitrary: ws out)
  case Nil
  then show ?case by (simp split: if_splits)
next
  case (Cons a script)
  show ?case
  proof (cases "\<exists>n. a = Wrote n")
    case True
    then obtain n0 where a: "a = Wrote n0" by blast
    let ?n = "min n0 (sum_list (map snd (take (cnt (snd ws)) (iovs (snd ws)))))"
    consider "r = Wrote 0 \<and> ws' = ws \<and> length script' \<le> Suc (length script)"
      | ws1 where "output_loop cont cnt script ws1 (out @ take ?n (contents ws)) = Inr (r, script', ws', out')"
      using Cons.prems unfolding a
      by (subst (asm) output_loop.simps)
         (auto simp: Let_def bindR_eq_Inr split: if_splits simp del: output_loop.simps)
    then show ?thesis using Cons.IH by cases fastforce+
  next
    case False
    then show ?thesis using Cons.prems by (cases a) (auto split: if_splits)
  qed
qed

lemma suio_output_script:
  assumes "suio_output cnt script ws = Inr (n, script', ws', sent)" "0 < n"
  shows "length script' < length script"
proof -
  have "length script' < length script"
    if h: "bindR (output_loop cont k script ws []) (\<lambda>(n, script', ws', out).
          Inr (if n = WError then -1 else if nrembytes (snd ws) < nrembytes (snd ws') then 1 else 0, script', ws', out))
        = Inr (n, script', ws', sent)" for cont k
  proof -
    obtain r where "output_loop cont k script ws [] = Inr (r, script', ws', sent)"
      "n = (if r = WError then -1 else if nrembytes (snd ws) < nrembytes (snd ws') then 1 else 0)"
      using h by (auto simp: bindR_eq_Inr simp del: output_loop.simps)
    then show ?thesis
      using output_loop_script [of cont k script ws "[]" r script' ws' sent] assms(2)
      by (auto split: if_splits simp del: output_loop.simps)
  qed
  then show ?thesis
    using assms(1) unfolding suio_output_def Let_def
    by (cases "cnt < 0"; cases "nat cnt \<le> length (iovs (snd ws))")
       (simp_all add: guardR_def del: output_loop.simps)
qed

lemma suio_output_spec:
  assumes "suio_inv ws" "cnt \<le> int (length (iovs (snd ws)))"
  shows "\<exists>r script' ws' sent. suio_output cnt script ws = Inr (r, script', ws', sent) \<and>
    suio_inv ws' \<and> contents ws = sent @ contents ws' \<and> (r = 1 \<longrightarrow> sent \<noteq> []) \<and> (r = 0 \<longrightarrow> sent = [])"
proof -
  have "\<exists>r script' ws' sent. bindR (output_loop c k script ws []) (\<lambda>(n, script', ws', out).
          Inr (if n = WError then -1 else if nrembytes (snd ws) < nrembytes (snd ws') then 1 else 0, script', ws', out))
        = Inr (r :: int, script', ws', sent) \<and>
     suio_inv ws' \<and> contents ws = sent @ contents ws' \<and> (r = 1 \<longrightarrow> sent \<noteq> []) \<and> (r = 0 \<longrightarrow> sent = [])" for c k
    using output_loop_spec [OF assms(1), of c k script "[]"] by fastforce
  moreover have "nat cnt \<le> length (iovs (snd ws))" using assms(2) by simp
  ultimately show ?thesis
    unfolding suio_output_def Let_def by (cases "cnt < 0") (simp_all only: if_True if_False guardR_True bindR_Inr)
qed

lemma empty_iovs: "iovs_ok s \<Longrightarrow> addrs (iovs s) = [] \<Longrightarrow> iovs s = [] \<and> lastiovend s = 0"
  by (cases "iovs s") (auto simp: iovs_ok_def)

lemma makeuiocbs_loop_all:
  "list_all (\<lambda>(p, cb). p \<le> n) cbs \<Longrightarrow> makeuiocbs_loop n cbs w = (foldl (\<lambda>w c. runcb (snd c) w) w cbs, [])"
  by (induction cbs arbitrary: w) auto


lemma copyout_loop_spec: "copyout_loop m len iov = map m (take len (addrs iov))"
  by (induction m len iov rule: copyout_loop.induct) (auto simp: region_def take_map)

lemma suio_copyout_spec: "suio_copyout len ws = take len (contents ws)"
  by (simp add: suio_copyout_def copyout_loop_spec contents_addrs take_map)

lemma suio_flatten_spec: "length (contents ws) < 2 ^ 64 \<Longrightarrow> suio_flatten ws = contents ws"
  by (simp add: suio_flatten_def copyout_loop_spec contents_addrs take_map)

lemma suio_clear_spec:
  assumes "suio_inv ws"
  shows "\<exists>ws'. suio_clear ws = Inr ws' \<and> suio_inv ws' \<and> contents ws' = [] \<and> uiocbs (snd ws') = [] \<and>
    fired (fst ws') = fired (foldl (\<lambda>w c. runcb (snd c) w) (fst ws) (uiocbs (snd ws)))"
proof -
  have res: "resid (snd ws) = length (contents ws)"
    using assms by (simp add: resid_def contents_addrs suio_inv_def iovs_ok_def)
  obtain w1 s1 where 1: "rembytes (resid (snd ws)) ws = Inr (w1, s1)" "suio_inv (w1, s1)" "contents (w1, s1) = []"
    "makeuiocbs_loop (nrembytes (snd ws) + resid (snd ws)) (uiocbs (snd ws)) (fst ws) = (w1, uiocbs s1)"
    using rembytes_spec [OF assms, of "resid (snd ws)"] by (auto simp: res)
  have "list_all (\<lambda>(p, cb). p \<le> nrembytes (snd ws) + resid (snd ws)) (uiocbs (snd ws))"
    using assms by (auto simp: suio_inv_def iovs_ok_def resid_def)
  then have u: "uiocbs s1 = []" "w1 = foldl (\<lambda>w c. runcb (snd c) w) (fst ws) (uiocbs (snd ws))"
    using 1(4) makeuiocbs_loop_all by simp_all
  have e: "iovs s1 = []" "lastiovend s1 = 0"
    using 1(2,3) empty_iovs by (simp_all add: suio_inv_def contents_addrs)
  have hw: "heap_ok w1" "(defbuf s1, smallbufsize) \<in> set (heap w1)"
    using 1(2) by (simp_all add: suio_inv_def scratch_ok_def)
  let ?s = "s1\<lparr>scratch_buf := defbuf s1, scratch_lim := defbuf s1 + smallbufsize, scratch_pos := defbuf s1, iovs := [], uiocbs := []\<rparr>"
  have reset: "suio_inv (w, ?s)" if "heap_ok w" "(defbuf s1, smallbufsize) \<in> set (heap w)" for w
    using that 1(2) e by (simp add: suio_inv_def iovs_ok_def scratch_ok_def pending_ok_def scratch_def)
  show ?thesis
  proof (cases "scratch_buf s1 = defbuf s1")
    case True
    then have "scratch_lim s1 = defbuf s1 + smallbufsize"
      using scratch_defbuf [OF 1(2)] 1(2) by (auto simp: scratch_def suio_inv_def scratch_ok_def)
    then have "s1\<lparr>scratch_pos := defbuf s1, iovs := [], uiocbs := []\<rparr> = ?s" using True by simp
    then show ?thesis
      using reset [OF hw] u True by (simp add: suio_clear_def 1(1) contents_addrs)
  next
    case False
    note d = heap_ok_dealloc [OF hw(1), of "scratch s1"]
    have "heap_ok (runcb (Dealloc (fst (scratch s1)) (snd (scratch s1))) w1)"
      "(defbuf s1, smallbufsize) \<in> set (heap (runcb (Dealloc (fst (scratch s1)) (snd (scratch s1))) w1))"
      using d hw(2) False by (simp_all add: runcb_def scratch_def)
    from reset [OF this] show ?thesis
      using u False by (simp add: suio_clear_def 1(1) contents_addrs scratch_def runcb_def)
  qed
qed

section \<open>The contract of a byte queue\<close>

text \<open>A run of a queue: payloads pushed in, drains that yield bytes.\<close>

fun qrun :: "('p \<Rightarrow> 'q \<Rightarrow> 'q res) \<Rightarrow> ('k \<Rightarrow> 'q \<Rightarrow> ('q \<times> u8 list) res) \<Rightarrow> ('p + 'k) list \<Rightarrow> 'q \<Rightarrow> ('q \<times> u8 list) res" where
  "qrun push drain [] q = Inr (q, [])"
| "qrun push drain (Inl p # ops) q = bindR (push p q) (qrun push drain ops)"
| "qrun push drain (Inr k # ops) q =
     bindR (drain k q) (\<lambda>(q, out). bindR (qrun push drain ops q) (\<lambda>(q, out'). Inr (q, out @ out')))"

fun pushed :: "('p \<Rightarrow> u8 list) \<Rightarrow> ('p + 'k) list \<Rightarrow> u8 list" where
  "pushed payload [] = []"
| "pushed payload (Inl p # ops) = payload p @ pushed payload ops"
| "pushed payload (Inr k # ops) = pushed payload ops"

locale byte_queue =
  fixes inv :: "'q \<Rightarrow> bool" and bytes :: "'q \<Rightarrow> u8 list"
    and push :: "'p \<Rightarrow> 'q \<Rightarrow> 'q res" and payload :: "'p \<Rightarrow> u8 list" and ok :: "'p \<Rightarrow> bool"
    and drain :: "'k \<Rightarrow> 'q \<Rightarrow> ('q \<times> u8 list) res"
  assumes push_law: "inv q \<Longrightarrow> ok p \<Longrightarrow> \<exists>q'. push p q = Inr q' \<and> inv q' \<and> bytes q' = bytes q @ payload p"
    and drain_law: "inv q \<Longrightarrow> \<exists>q' out. drain k q = Inr (q', out) \<and> inv q' \<and> bytes q = out @ bytes q'"
begin

text \<open>Whatever the interleaving, the bytes that came out and the bytes still queued are, in order, the
  bytes put in.\<close>

lemma run_fifo:
  "inv q \<Longrightarrow> list_all (case_sum ok (\<lambda>_. True)) ops \<Longrightarrow>
     \<exists>q' out. qrun push drain ops q = Inr (q', out) \<and> inv q' \<and> bytes q @ pushed payload ops = out @ bytes q'"
proof (induction ops arbitrary: q)
  case (Cons op ops)
  show ?case
  proof (cases op)
    case (Inl p)
    then obtain q1 where 1: "push p q = Inr q1" "inv q1" "bytes q1 = bytes q @ payload p"
      using push_law [of q p] Cons.prems by auto
    then show ?thesis using Cons.IH [of q1] Cons.prems Inl by auto
  next
    case (Inr k)
    obtain q1 out1 where 1: "drain k q = Inr (q1, out1)" "inv q1" "bytes q = out1 @ bytes q1"
      using drain_law Cons.prems by blast
    then show ?thesis using Cons.IH [of q1] Cons.prems Inr by fastforce
  qed
qed simp

end

text \<open>The operations that queue bytes, for the instance.\<close>

datatype pushop = PCopy "u8 list" | PFill u8 int | PCopyv "u8 list list" nat

fun do_push :: "allocator \<Rightarrow> pushop \<Rightarrow> sst \<Rightarrow> sst res" where
  "do_push al (PCopy bs) ws = suio_copy al bs ws"
| "do_push al (PFill c n) ws = suio_fill al c n ws"
| "do_push al (PCopyv iov k) ws = suio_copyv al iov k ws"

fun push_bytes :: "pushop \<Rightarrow> u8 list" where
  "push_bytes (PCopy bs) = bs"
| "push_bytes (PFill c n) = replicate (nat n) c"
| "push_bytes (PCopyv iov k) = drop k (concat iov)"

fun push_ok :: "pushop \<Rightarrow> bool" where
  "push_ok (PCopyv iov k) = (k \<le> length (concat iov))"
| "push_ok _ = True"

definition do_drain :: "wres list + nat \<Rightarrow> sst \<Rightarrow> (sst \<times> u8 list) res" where
  "do_drain k ws =
     (case k of
        Inl script \<Rightarrow> bindR (suio_output (-1) script ws) (\<lambda>(r, script, ws, out). Inr (ws, out))
      | Inr n \<Rightarrow> (let n = min n (resid (snd ws)) in bindR (rembytes n ws) (\<lambda>ws'. Inr (ws', suio_copyout n ws))))"

lemma do_push_appends:
  assumes "alloc_ok al" "suio_inv ws" "push_ok p"
  shows "appends (do_push al p ws) ws (push_bytes p)"
  using assms suio_copy_appends suio_fill_appends suio_copyv_appends
  by (cases p) simp_all

lemma do_drain_spec:
  assumes "suio_inv ws"
  shows "\<exists>ws' out. do_drain k ws = Inr (ws', out) \<and> suio_inv ws' \<and> contents ws = out @ contents ws'"
proof (cases k)
  case (Inl script)
  obtain r script' ws' sent where "suio_output (-1) script ws = Inr (r, script', ws', sent)" "suio_inv ws'"
    "contents ws = sent @ contents ws'"
    using suio_output_spec [OF assms, of "-1" script] by auto
  then show ?thesis by (simp add: do_drain_def Inl)
next
  case (Inr n)
  have "resid (snd ws) = length (contents ws)"
    using assms by (simp add: resid_def contents_addrs suio_inv_def iovs_ok_def)
  then show ?thesis
    using rembytes_spec [OF assms, of "min n (resid (snd ws))"]
    by (auto simp: do_drain_def Inr Let_def suio_copyout_spec)
qed

interpretation suioq: byte_queue "\<lambda>ws. alloc_ok al \<and> suio_inv ws" contents "do_push al" push_bytes push_ok do_drain
  for al
  using do_push_appends do_drain_spec by unfold_locales (auto simp: appends_def)

lemma suio_new_inv:
  assumes "heap_ok w" "(db, smallbufsize) \<in> set (heap w)"
  shows "suio_inv (w, suio_new db)"
  using assms by (auto simp: suio_inv_def suio_new_def iovs_ok_def scratch_ok_def pending_ok_def scratch_def smallbufsize_def)

text \<open>A bump allocator, which puts each block past every live one.\<close>

definition bump_alloc :: allocator where
  "bump_alloc w n = Suc (foldr (\<lambda>(a, l) m. max (a + l) m) (heap w) 0)"

lemma bump_alloc_ok: "alloc_ok bump_alloc"
proof -
  have "x \<in> blk b \<Longrightarrow> b \<in> set bs \<Longrightarrow> x < Suc (foldr (\<lambda>(a, l) m. max (a + l) m) bs 0)" for x b bs
    by (induction bs) (auto simp: blk_def less_max_iff_disj less_Suc_eq_le le_max_iff_disj)
  then show ?thesis
    by (fastforce simp: alloc_ok_def bump_alloc_def live_def blk_def)
qed

definition world0 :: world where
  "world0 = \<lparr>mem = (\<lambda>_. 0), heap = [(1000, 128)], fired = []\<rparr>"

lemma world0_inv: "suio_inv (world0, suio_new 1000)"
  by (rule suio_new_inv) (auto simp: world0_def heap_ok_def smallbufsize_def)



text \<open>
  C21. Queueing a buffer in place. \<open>print\<close> of a buffer that is live, not condemned and outside the unused
  scratch space appends its bytes and keeps the invariant, whether the buffer is copied, merged with the
  piece before it or queued by reference; no queued byte is ever in the space later copies write to.
\<close>

theorem print_appends:
  assumes "alloc_ok al" "suio_inv (w, s)" "queueable (w, s) a n"
  shows "\<exists>w' s'. suio_print al a n (w, s) = Inr (w', s') \<and> suio_inv (w', s') \<and>
    contents (w', s') = contents (w, s) @ region (mem w) a n \<and>
    set (addrs (iovs s')) \<inter> {scratch_pos s'..<scratch_lim s'} = {}"
  using suio_print_appends [OF assms] by (auto simp: appends_def suio_inv_def scratch_ok_def)

definition world1 :: world where
  "world1 = world0\<lparr>heap := [(1000, 128), (5000, 300)]\<rparr>"

lemma world1_inv: "suio_inv (world1, suio_new 1000)"
  by (rule suio_new_inv) (auto simp: world1_def world0_def heap_ok_def smallbufsize_def blk_def)

lemma world1_queueable: "queueable (world1, suio_new 1000) 5000 300"
  by (auto simp: queueable_def world1_def world0_def suio_new_def live_def blk_def smallbufsize_def)

theorem print_appends_witness:
  "\<exists>w' s'. suio_print bump_alloc 5000 300 (world1, suio_new 1000) = Inr (w', s') \<and> suio_inv (w', s') \<and>
    contents (w', s') = contents (world1, suio_new 1000) @ region (mem world1) 5000 300 \<and>
    set (addrs (iovs s')) \<inter> {scratch_pos s'..<scratch_lim s'} = {}"
  by (rule print_appends [OF bump_alloc_ok world1_inv world1_queueable])

text \<open>
  C22. Deferred callbacks. \<open>rembytes n\<close> fails its assertion exactly when fewer than \<open>n\<close> bytes are queued;
  otherwise it drops the first \<open>n\<close> bytes and runs, in order, the leading callbacks whose position has been
  reached and no other, so memory is freed only when none of it is queued; and \<open>clear\<close> empties the queue
  and runs every callback.
\<close>

theorem rembytes_callbacks:
  assumes "suio_inv (w, s)"
  shows "(if n \<le> length (contents (w, s))
          then \<exists>w' s'. rembytes n (w, s) = Inr (w', s') \<and> suio_inv (w', s') \<and>
                 contents (w', s') = drop n (contents (w, s)) \<and>
                 uiocbs s' = dropWhile (\<lambda>(p, cb). p \<le> nrembytes s + n) (uiocbs s) \<and>
                 w' = foldl (\<lambda>w c. runcb (snd c) w) w (takeWhile (\<lambda>(p, cb). p \<le> nrembytes s + n) (uiocbs s))
          else rembytes n (w, s) = Inl AssertFail) \<and>
         (\<exists>w' s'. suio_clear (w, s) = Inr (w', s') \<and> suio_inv (w', s') \<and> contents (w', s') = [] \<and>
            uiocbs s' = [] \<and> fired w' = fired (foldl (\<lambda>w c. runcb (snd c) w) w (uiocbs s)))"
proof -
  have loop: "makeuiocbs_loop k cbs w =
      (foldl (\<lambda>w c. runcb (snd c) w) w (takeWhile (\<lambda>(p, cb). p \<le> k) cbs), dropWhile (\<lambda>(p, cb). p \<le> k) cbs)"
    for k cbs w by (induction k cbs w rule: makeuiocbs_loop.induct) auto
  show ?thesis
    using rembytes_spec [OF assms, of n] rembytes_too_many [of s w n] suio_clear_spec [OF assms] assms
    by (auto simp: loop suio_inv_def)
qed

theorem rembytes_callbacks_witness:
  "(\<exists>w' s'. rembytes 0 (world1, suio_new 1000) = Inr (w', s') \<and> contents (w', s') = []) \<and>
   rembytes 1 (world1, suio_new 1000) = Inl AssertFail"
proof -
  have e: "contents (world1, suio_new 1000) = []" by (simp add: contents_addrs suio_new_def)
  show ?thesis
    using rembytes_callbacks [OF world1_inv, of 0] rembytes_callbacks [OF world1_inv, of 1]
    by (auto simp: e)
qed

text \<open>
  C23. A defect of \<open>take\<close>. It empties the source queue but leaves \<open>lastiovend\<close> pointing at the end of the
  last piece it gave away: queueing a buffer that starts there makes \<open>pushiov\<close> extend the last piece of an
  empty vector, an access outside it.
\<close>

theorem take_stale_lastiovend:
  assumes "suio_take al uio ws = Inr (uio', ws')" "lastiovend uio \<noteq> 0"
  shows "iovs uio' = [] \<and> resid uio' = 0 \<and> pushiov (lastiovend uio) n uio' = Inl OutOfRange"
proof -
  obtain w1 u1 where c: "condemn_scratch (fst ws, uio) = (w1, u1)" by fastforce
  then have "lastiovend u1 = lastiovend uio"
    by (cases rule: condemn_scratch_cases) simp_all
  moreover have "lastiovend uio' = lastiovend u1 \<and> iovs uio' = [] \<and> uiobytes uio' = 0"
    using assms(1) unfolding suio_take_def Let_def c prod.case bindR_eq_Inr
    by (elim exE conjE) (simp add: case_prod_beta', clarsimp)
  ultimately show ?thesis by (simp add: pushiov_def resid_def)
qed

theorem take_stale_lastiovend_witness:
  "\<exists>uio' ws'. suio_take bump_alloc ((suio_new 1000)\<lparr>iovs := [(5000, 150)], uiobytes := 150, lastiovend := 5150\<rparr>)
      (world1, suio_new 2000) = Inr (uio', ws') \<and>
     iovs uio' = [] \<and> resid uio' = 0 \<and> pushiov 5150 150 uio' = Inl OutOfRange"
proof -
  define uio where "uio = (suio_new 1000)\<lparr>iovs := [(5000, 150)], uiobytes := 150, lastiovend := 5150\<rparr>"
  obtain r where r: "suio_take bump_alloc uio (world1, suio_new 2000) = Inr r"
    by (simp add: suio_take_def uio_def condemn_scratch_eq suio_new_def pushiov_ws_def pushiov_def smallbufsize_def Let_def)
  moreover have "lastiovend uio = 5150" by (simp add: uio_def)
  ultimately show ?thesis
    using take_stale_lastiovend [of bump_alloc uio "(world1, suio_new 2000)" "fst r" "snd r" 150]
    unfolding uio_def by (metis prod.collapse zero_neq_numeral)
qed

end
