(* ===== verification/Xdr_Suio.thy ===== *)
theory Xdr_Suio
  imports Xdr Suio
begin

text \<open>
  Marshalling into a queue of buffers, \<open>arpc/xdr_suio.h\<close>: the operations of an encoding \<open>XDR\<close> over the \<open>suio\<close> of
  \<open>Suio\<close>, as an instance of the contract of \<open>Xdr\<close>; the stream over a buffer, as an instance of the other one; and what
  marshalling and unmarshalling give together. A buffer of an object is an address and a length.
\<close>

section \<open>Marshalling into a queue\<close>

text \<open>\<open>getspace_aligned\<close> moves \<open>scratch_pos\<close> to a multiple of four; a pointer past the end of the buffer is out of range.\<close>

definition getspace_aligned :: "allocator \<Rightarrow> nat \<Rightarrow> sst \<Rightarrow> (addr \<times> sst) res" where
  "getspace_aligned al n ws =
     (case ws of (w, s) \<Rightarrow>
        let s = s\<lparr>scratch_pos := scratch_pos s + padlen (scratch_pos s)\<rparr>
        in bindR (guardR OutOfRange (scratch_pos s \<le> scratch_lim s)) (\<lambda>_. Inr (getspace al n (w, s))))"

definition xdrsuio_inline :: "allocator \<Rightarrow> nat \<Rightarrow> sst \<Rightarrow> (addr \<times> sst) res" where
  "xdrsuio_inline al count ws =
     bindR (guardR AssertFail (count mod 4 = 0)) (\<lambda>_.
     bindR (getspace_aligned al count ws) (\<lambda>(space, ws).
     bindR (suio_print al space count ws) (\<lambda>ws.
     bindR (guardR AssertFail (space mod 4 = 0)) (\<lambda>_. Inr (space, ws)))))"

definition xdrsuio_putlong :: "allocator \<Rightarrow> u64 \<Rightarrow> sst \<Rightarrow> (bool \<times> sst) res" where
  "xdrsuio_putlong al l ws =
     bindR (xdrsuio_inline al 4 ws) (\<lambda>(space, w, s). Inr (True, w\<lparr>mem := memwrite space (putint (ucast l)) (mem w)\<rparr>, s))"

text \<open>The length is an \<open>u_int\<close>.\<close>

definition xdrsuio_putbytes :: "allocator \<Rightarrow> addr \<times> nat \<Rightarrow> sst \<Rightarrow> (bool \<times> sst) res" where
  "xdrsuio_putbytes al b ws = (case b of (a, n) \<Rightarrow> bindR (suio_print al a (n mod 2 ^ 32) ws) (\<lambda>ws. Inr (True, ws)))"

definition xdrsuio_ops :: "allocator \<Rightarrow> addr \<Rightarrow> (sst, addr \<times> nat) xout" where
  "xdrsuio_ops al zb =
     \<lparr>x_putlong = xdrsuio_putlong al, x_putbytes = xdrsuio_putbytes al, blen = snd, zero_bytes = (\<lambda>n. (zb, n))\<rparr>"

definition xdr2str :: "xty \<Rightarrow> allocator \<Rightarrow> addr \<Rightarrow> (addr \<times> nat) xval \<Rightarrow> sst \<Rightarrow> (u8 list option \<times> sst) res" where
  "xdr2str ty al zb v ws =
     bindR (enc ty (xdrsuio_ops al zb) v ws) (\<lambda>(b, ws).
       Inr (if b then Some (suio_copyout (2 ^ 64 - 1) ws) else None, ws))"

definition xdr2bytes :: "xty \<Rightarrow> allocator \<Rightarrow> addr \<Rightarrow> nat \<Rightarrow> (addr \<times> nat) xval \<Rightarrow> sst \<Rightarrow> (u8 list option \<times> sst) res" where
  "xdr2bytes ty al zb n v ws =
     bindR (enc ty (xdrsuio_ops al zb) v ws) (\<lambda>(b, ws).
       if \<not> b \<or> resid (snd ws) > n then Inr (None, ws)
       else Inr (Some (suio_copyout (2 ^ 64 - 1) ws), ws))"

section \<open>What the queue leaves alone\<close>

text \<open>Blocks that belong neither to the queue nor to its deferred deallocations, and do not start where its scratch space ends.\<close>

definition foreign :: "sst \<Rightarrow> addr \<times> nat \<Rightarrow> bool" where
  "foreign ws b \<longleftrightarrow>
     b \<in> set (heap (fst ws)) \<and> b \<noteq> scratch (snd ws) \<and> b \<noteq> (defbuf (snd ws), smallbufsize) \<and>
     b \<notin> snd ` set (pending (uiocbs (snd ws))) \<and> scratch_lim (snd ws) \<notin> blk b"

definition spares :: "sst \<Rightarrow> sst \<Rightarrow> bool" where
  "spares ws ws' \<longleftrightarrow>
     suio_inv ws' \<and> (4 dvd scratch_lim (snd ws) \<longrightarrow> 4 dvd scratch_lim (snd ws')) \<and>
     (\<forall>b. foreign ws b \<longrightarrow> foreign ws' b \<and> (\<forall>x\<in>blk b. mem (fst ws') x = mem (fst ws) x))"

text \<open>What is relied on of \<open>malloc\<close>: blocks are aligned, and no block starts right where another one ends.\<close>

definition alloc_apart :: "allocator \<Rightarrow> bool" where
  "alloc_apart al \<longleftrightarrow> alloc_ok al \<and> (\<forall>w n. heap_ok w \<longrightarrow> 0 < n \<longrightarrow> 4 dvd al w n \<and> al w n + n \<notin> live w)"

lemma spares_refl: "suio_inv ws \<Longrightarrow> spares ws ws"
  by (simp add: spares_def)

lemma spares_trans: "spares ws ws' \<Longrightarrow> spares ws' ws'' \<Longrightarrow> spares ws ws''"
  unfolding spares_def by metis

lemma spares_inv: "spares ws ws' \<Longrightarrow> suio_inv ws'"
  by (simp add: spares_def)

lemma sparesD: "spares ws ws' \<Longrightarrow> foreign ws b \<Longrightarrow> foreign ws' b \<and> (\<forall>x\<in>blk b. mem (fst ws') x = mem (fst ws) x)"
  unfolding spares_def by blast

lemma pushiov_spares:
  assumes "suio_inv (w, s)" "queueable (w, s) a n"
  shows "post (spares (w, s)) (pushiov_ws a n (w, s))"
proof -
  obtain s' where s': "pushiov a n s = Inr s'" "scratch_buf s' = scratch_buf s" "scratch_lim s' = scratch_lim s" "defbuf s' = defbuf s"
    "uiocbs s' = uiocbs s" using pushiov_spec [of s a n] assms by (auto simp: suio_inv_def queueable_def)
  moreover have "suio_inv (w, s')" using pushiov_ws_spec [OF assms] s'(1) by (auto simp: pushiov_ws_def)
  ultimately show ?thesis by (simp add: pushiov_ws_def spares_def foreign_def scratch_def)
qed

text \<open>Writes into the scratch buffer.\<close>

lemma spares_write:
  assumes "suio_inv (w, s)" "\<And>x. x \<notin> blk (scratch s) \<Longrightarrow> m x = mem w x"
  shows "spares (w, s) (w\<lparr>mem := m\<rparr>, s)"
proof -
  have "m x = mem w x" if "foreign (w, s) b" "x \<in> blk b" for b x
    using heap_disjoint [of w b "scratch s"] that assms by (auto simp: foreign_def suio_inv_def scratch_ok_def)
  then show ?thesis using suio_inv_memwrite [OF assms(1)] by (simp add: spares_def foreign_def)
qed

lemma memwrite_outside: "x < a \<or> a + length bs \<le> x \<Longrightarrow> memwrite a bs m x = m x"
  by (auto simp: memwrite_def)

lemma put_scratch_spares:
  assumes "suio_inv ws"
  shows "post (spares ws) (put_scratch bs ws)"
proof (cases ws)
  case (Pair w s)
  define w' where "w' = w\<lparr>mem := memwrite (scratch_pos s) bs (mem w)\<rparr>"
  show ?thesis
  proof (cases "scratch_pos s + length bs \<le> scratch_lim s")
    case True
    have "spares (w, s) (w', s)" unfolding w'_def
      by (rule spares_write) (use assms Pair True in \<open>auto simp: blk_def scratch_def suio_inv_def scratch_ok_def memwrite_def\<close>)
    moreover from this have "post (spares (w', s)) (pushiov_ws (scratch_pos s) (length bs) (w', s))"
      using pushiov_spares scratch_queueable [of w' s "length bs"] True by (simp add: spares_def)
    ultimately show ?thesis using Pair True spares_trans by (auto simp: put_scratch_def w'_def post_def split: sum.splits)
  qed (simp add: put_scratch_def Pair guardR_False)
qed

lemma scratch_size_dvd: "4 dvd scratch_size n"
proof -
  have "scratch_size n = 8192 * ((n + 8207) div 8192) - 16" by (simp add: scratch_size_def mallocresv_def blocksize_def ac_simps)
  moreover have "4 dvd 8192 * ((n + 8207) div 8192) - 16" by (rule dvd_diff_nat) (simp_all add: dvd_mult2)
  ultimately show ?thesis by simp
qed

lemma morescratch_spares:
  assumes al: "alloc_apart al" and inv: "suio_inv ws"
  shows "spares ws (morescratch al n ws)" "4 dvd scratch_pos (snd (morescratch al n ws))"
proof -
  obtain w s where ws: "ws = (w, s)" by fastforce
  obtain w1 s1 where c: "condemn_scratch (w, s) = (w1, s1)" by fastforce
  obtain w2 p where d: "do_alloc al (scratch_size n) w1 = (w2, p)" by fastforce
  note ok1 = condemn_scratch_world [OF c]
  have hw: "heap_ok w" using inv by (simp add: suio_inv_def ws)
  note a = heap_ok_alloc [OF _ ok1(1) [OF hw] scratch_size_ge(2) d]
  have al': "alloc_ok al" "4 dvd p" "p + scratch_size n \<notin> live w1"
    using al ok1(1) [OF hw] scratch_size_ge(2) d by (auto simp: alloc_apart_def do_alloc_def Let_def)
  have eq: "morescratch al n ws = (w2, s1\<lparr>scratch_buf := p, scratch_pos := p, scratch_lim := p + scratch_size n\<rparr>)"
    using c d by (simp add: morescratch_def ws Let_def)
  show "4 dvd scratch_pos (snd (morescratch al n ws))" using al'(2) by (simp add: eq)
  have f: "b \<in> set (heap w1)" "b \<notin> snd ` set (pending (uiocbs s1))" if "foreign (w, s) b" for b
    using c that ok1(4) [OF hw] by (cases rule: condemn_scratch_cases; auto simp: foreign_def)+
  have db: "defbuf s1 = defbuf s" using c by (auto simp: condemn_scratch_eq split: if_splits)
  have "foreign (morescratch al n ws) b" if b: "foreign (w, s) b" for b
  proof -
    have "b \<noteq> (p, scratch_size n)" using f(1) [OF b] a(9) al'(1) by auto
    moreover have "p + scratch_size n \<notin> blk b" using f(1) [OF b] al'(3) by (auto simp: live_def)
    ultimately show ?thesis using b f [OF b] a(3) [OF al'(1)] db by (auto simp: eq foreign_def scratch_def)
  qed
  moreover have "mem w2 = mem w" using a(6) [OF al'(1)] ok1(2) [OF hw] by simp
  ultimately show "spares ws (morescratch al n ws)"
    using morescratch_spec(1) [OF al'(1) inv, of n] al'(2) scratch_size_dvd [of n] unfolding eq spares_def unfolding ws by simp
qed

lemma spares_later: "spares ws ws' \<Longrightarrow> post (spares ws') m \<Longrightarrow> post (spares ws) m"
  by (cases m) (auto intro: spares_trans)

lemma spares_bind:
  assumes "post (spares ws) m" "\<And>ws'. suio_inv ws' \<Longrightarrow> post (spares ws') (f ws')"
  shows "post (spares ws) (bindR m f)"
proof (cases m)
  case (Inr ws')
  then show ?thesis using assms spares_later [of ws ws' "f ws'"] by (simp add: spares_def)
qed simp

lemma more_put_spares:
  assumes "alloc_apart al" "suio_inv ws"
  shows "post (spares ws) (put_scratch bs (morescratch al n ws))"
  by (rule spares_later [OF morescratch_spares(1) [OF assms] put_scratch_spares [OF spares_inv [OF morescratch_spares(1) [OF assms]]]])

lemma suio_copy_spares:
  assumes "alloc_apart al" "suio_inv ws"
  shows "post (spares ws) (suio_copy al bs ws)"
proof -
  have "post (spares ws) (bindR (put_scratch (take k bs) ws) (\<lambda>ws. put_scratch (drop k bs) (morescratch al (length bs - k) ws)))" for k
    by (rule spares_bind) (use assms put_scratch_spares more_put_spares in auto)
  then show ?thesis using assms put_scratch_spares more_put_spares
    by (simp add: suio_copy_def slowcopy_def Let_def bindR_assoc)
qed

lemma suio_print_spares:
  assumes "alloc_apart al" "suio_inv (w, s)" "queueable (w, s) a n"
  shows "post (spares (w, s)) (suio_print al a n (w, s))"
  using suio_copy_spares [OF assms(1,2)] pushiov_spares [OF assms(2,3)] by (simp add: suio_print_def)

lemma nonnull_map: "nonnull v \<Longrightarrow> nonnull (map_xval f v)"
  by (induction v) (auto simp: list_all_iff split: option.splits)

text \<open>A buffer of an object, the state of the stream, and what a buffer holds.\<close>

definition user_buf :: "sst \<Rightarrow> addr \<times> nat \<Rightarrow> bool" where
  "user_buf ws b \<longleftrightarrow> snd b < 2 ^ 32 \<and> (snd b = 0 \<or> (\<exists>c\<in>set (heap (fst ws)). foreign ws c \<and> blk b \<subseteq> blk c))"

definition buf_bytes :: "sst \<Rightarrow> addr \<times> nat \<Rightarrow> u8 list" where
  "buf_bytes ws b = region (mem (fst ws)) (fst b) (snd b)"

definition xdrsuio_ok :: "allocator \<Rightarrow> addr \<Rightarrow> sst \<Rightarrow> bool" where
  "xdrsuio_ok al zb ws \<longleftrightarrow>
     alloc_apart al \<and> suio_inv ws \<and> 4 dvd scratch_lim (snd ws) \<and> user_buf ws (zb, 4) \<and> buf_bytes ws (zb, 4) = replicate 4 0"

lemma user_buf_spares:
  assumes "spares ws ws'" "user_buf ws b"
  shows "user_buf ws' b \<and> buf_bytes ws' b = buf_bytes ws b"
proof (cases "snd b = 0")
  case True
  then show ?thesis using assms(2) by (simp add: user_buf_def buf_bytes_def region_def)
next
  case False
  then obtain c where c: "c \<in> set (heap (fst ws))" "foreign ws c" "blk b \<subseteq> blk c" using assms(2) by (auto simp: user_buf_def)
  then have k: "foreign ws' c" "\<forall>x\<in>blk c. mem (fst ws') x = mem (fst ws) x" using sparesD [OF assms(1)] by blast+
  then have "c \<in> set (heap (fst ws'))" by (simp add: foreign_def)
  moreover have "region (mem (fst ws')) (fst b) (snd b) = region (mem (fst ws)) (fst b) (snd b)"
    using k(2) c(3) by (auto simp: region_def blk_def)
  ultimately show ?thesis using assms(2) k(1) c(3) by (auto simp: user_buf_def buf_bytes_def)
qed

lemma grown_spares:
  assumes "xdrsuio_ok al zb ws" "spares ws ws'" "contents ws' = contents ws @ bs"
  shows "grown (xdrsuio_ok al zb) contents user_buf buf_bytes ws ws' bs"
  using assms user_buf_spares [OF assms(2)] by (simp add: grown_def xdrsuio_ok_def spares_def)

lemma user_buf_queueable:
  assumes "suio_inv (w, s)" "user_buf (w, s) (a, n)" "0 < n"
  shows "queueable (w, s) a n"
proof -
  obtain c where c: "c \<in> set (heap w)" "foreign (w, s) c" "{a..<a + n} \<subseteq> blk c" using assms by (auto simp: user_buf_def blk_def)
  have h: "heap_ok w" "scratch s \<in> set (heap w)" "scratch_pos s \<le> scratch_lim s" "scratch_buf s \<le> scratch_pos s"
    using assms(1) by (auto simp: suio_inv_def scratch_ok_def)
  have d: "blk c \<inter> blk (scratch s) = {}" using heap_disjoint [OF h(1) c(1) h(2)] c(2) by (auto simp: foreign_def)
  have pend: "blk c \<inter> blk b = {}" if "(p, b) \<in> set (pending (uiocbs s))" for p b
  proof -
    have "b \<in> set (heap w)" "b \<noteq> c" using that assms(1) c(2) by (force simp: suio_inv_def pending_ok_def list_all_iff foreign_def)+
    then show ?thesis using heap_disjoint [OF h(1) c(1)] by auto
  qed
  have a: "a \<in> blk c" using c(3) assms(3) by auto
  have "0 < fst c" using c(1) h(1) by (auto simp: heap_ok_def list_all_iff)
  then have "0 < a" using a by (simp add: blk_def)
  moreover have "a \<noteq> scratch_pos s"
  proof (cases "scratch_pos s = scratch_lim s")
    case True
    then show ?thesis using a c(2) by (auto simp: foreign_def)
  next
    case False
    then have "scratch_pos s \<in> blk (scratch s)" using h by (simp add: blk_def scratch_def)
    then show ?thesis using a d by auto
  qed
  moreover have "{scratch_pos s..<scratch_lim s} \<subseteq> blk (scratch s)" using h by (auto simp: blk_def scratch_def)
  moreover have "list_all (\<lambda>(p, b). {a..<a + n} \<inter> blk b = {}) (pending (uiocbs s))" using pend c(3) by (fastforce simp: list_all_iff)
  moreover have "{a..<a + n} \<subseteq> live w" using c(1,3) by (auto simp: live_def)
  ultimately show ?thesis using c(3) d unfolding queueable_def fst_conv snd_conv by (simp only: if_False) blast
qed

lemma putbytes_ok:
  assumes ok: "xdrsuio_ok al zb ws" and b: "user_buf ws b"
  shows "\<exists>ws'. xdrsuio_putbytes al b ws = Inr (True, ws') \<and> grown (xdrsuio_ok al zb) contents user_buf buf_bytes ws ws' (buf_bytes ws b)"
proof -
  obtain w s a n where ws: "ws = (w, s)" "b = (a, n)" by fastforce
  have al: "alloc_apart al" "alloc_ok al" "suio_inv (w, s)" using ok ws by (auto simp: xdrsuio_ok_def alloc_apart_def)
  have "appends (suio_print al a n (w, s)) (w, s) (region (mem w) a n) \<and> post (spares (w, s)) (suio_print al a n (w, s))"
  proof (cases "0 < n \<or> a = scratch_pos s")
    case True
    then have "queueable (w, s) a n" using user_buf_queueable [OF al(3)] scratch_queueable [OF al(3), of 0] b ws al(3)
      by (cases "0 < n") (auto simp: suio_inv_def scratch_ok_def)
    then show ?thesis using suio_print_appends suio_print_spares al by blast
  next
    case False
    then show ?thesis using suio_copy_appends [OF al(2,3)] suio_copy_spares [OF al(1,3)] by (simp add: suio_print_def)
  qed
  then obtain ws' where "suio_print al a n (w, s) = Inr ws'" "contents ws' = contents (w, s) @ region (mem w) a n" "spares (w, s) ws'"
    unfolding appends_def by force
  moreover have "n mod 2 ^ 32 = n" using b ws by (simp add: user_buf_def)
  ultimately have "xdrsuio_putbytes al b ws = Inr (True, ws')" "grown (xdrsuio_ok al zb) contents user_buf buf_bytes ws ws' (buf_bytes ws b)"
    using grown_spares [OF ok, of ws'] by (simp_all add: xdrsuio_putbytes_def ws buf_bytes_def)
  then show ?thesis by blast
qed

lemma getspace_aligned_ok:
  assumes "alloc_apart al" "suio_inv (w, s)" "4 dvd scratch_lim s"
  obtains w' s' where "getspace_aligned al n (w, s) = Inr (scratch_pos s', w', s')" "spares (w, s) (w', s')" "contents (w', s') = contents (w, s)"
    "4 dvd scratch_pos s'" "scratch_pos s' + n \<le> scratch_lim s'"
proof -
  define s1 where "s1 = s\<lparr>scratch_pos := scratch_pos s + padlen (scratch_pos s)\<rparr>"
  have "scratch_pos s \<le> scratch_lim s" using assms(2) by (simp add: suio_inv_def scratch_ok_def)
  then have p: "scratch_pos s1 \<le> scratch_lim s1" "4 dvd scratch_pos s1"
  proof -
    have m: "(scratch_pos s + padlen (scratch_pos s)) mod 4 = 0" "padlen (scratch_pos s) < 4" by (rule padlen_simps)+
    show "4 dvd scratch_pos s1" using m(1) by (simp add: s1_def dvd_eq_mod_eq_0)
    obtain k l where "scratch_lim s = 4 * k" "scratch_pos s + padlen (scratch_pos s) = 4 * l" using assms(3) m(1) by (meson dvdE mod_0_imp_dvd)
    then show "scratch_pos s1 \<le> scratch_lim s1" using m(2) \<open>scratch_pos s \<le> scratch_lim s\<close> by (simp add: s1_def)
  qed
  have "iovs s1 = iovs s" "scratch_lim s1 = scratch_lim s" "scratch_buf s1 = scratch_buf s" "scratch s1 = scratch s" "defbuf s1 = defbuf s"
    "uiocbs s1 = uiocbs s" "nrembytes s1 = nrembytes s" "uiobytes s1 = uiobytes s" "lastiovend s1 = lastiovend s" "scratch_pos s \<le> scratch_pos s1"
    by (simp_all add: s1_def scratch_def)
  note f = this
  have "{scratch_pos s1..<scratch_lim s} \<subseteq> {scratch_pos s..<scratch_lim s}" using f(10) by simp
  then have "scratch_ok w s1" using assms(2) p(1) f(10) unfolding suio_inv_def scratch_ok_def fst_conv snd_conv f by (meson disjoint_iff le_trans subsetD)
  then have inv: "suio_inv (w, s1)" using assms(2) unfolding suio_inv_def iovs_ok_def pending_ok_def fst_conv snd_conv f by blast
  have k: "spares (w, s) (w, s1)" "contents (w, s1) = contents (w, s)" using inv by (auto simp: spares_def foreign_def scratch_def s1_def contents_def)
  show thesis
  proof (cases "n \<le> scratch_lim s1 - scratch_pos s1")
    case True
    show ?thesis
      by (rule that [of s1 w]) (use True p k s1_def in \<open>auto simp: getspace_aligned_def getspace_def Let_def\<close>)
  next
    case False
    obtain w2 s2 where m: "morescratch al n (w, s1) = (w2, s2)" by fastforce
    note spec = morescratch_spec [OF _ inv, of al n, unfolded m] morescratch_spares [OF assms(1) inv, of n, unfolded m]
    show ?thesis
      by (rule that [of s2 w2])
        (use False p k spec assms(1) m spares_trans [OF k(1)] s1_def in \<open>auto simp: getspace_aligned_def getspace_def Let_def alloc_apart_def\<close>)
  qed
qed

lemma getspace_aligned_iovs: "getspace_aligned al n (w, s) = Inr (a, w', s') \<Longrightarrow> addrs (iovs s') = addrs (iovs s)"
  by (auto simp: getspace_aligned_def getspace_def Let_def res_simps morescratch_def do_alloc_def condemn_scratch_eq split: if_splits)

lemma xdrsuio_inline_ok:
  assumes ok: "xdrsuio_ok al zb ws" and n: "4 dvd n"
  obtains a w' s' where "xdrsuio_inline al n ws = Inr (a, w', s')" "spares ws (w', s')"
    "addrs (iovs s') = addrs (iovs (snd ws)) @ [a..<a + n]" "contents (w', s') = contents ws @ region (mem w') a n"
    "set (addrs (iovs (snd ws))) \<inter> {a..<a + n} = {}" "{a..<a + n} \<subseteq> blk (scratch s')"
proof -
  obtain w s where ws: "ws = (w, s)" by fastforce
  have al: "alloc_apart al" "suio_inv (w, s)" "4 dvd scratch_lim s" using ok ws by (auto simp: xdrsuio_ok_def)
  obtain w1 s1 where g: "getspace_aligned al n (w, s) = Inr (scratch_pos s1, w1, s1)" "spares (w, s) (w1, s1)" "contents (w1, s1) = contents (w, s)"
    "4 dvd scratch_pos s1" "scratch_pos s1 + n \<le> scratch_lim s1" by (rule getspace_aligned_ok [OF al])
  have inv: "suio_inv (w1, s1)" using spares_inv [OF g(2)] .
  note q = scratch_queueable [OF inv g(5)]
  obtain s2 where s2: "pushiov (scratch_pos s1) n s1 = Inr s2" "addrs (iovs s2) = addrs (iovs s1) @ [scratch_pos s1..<scratch_pos s1 + n]"
    "scratch_buf s2 = scratch_buf s1" "scratch_lim s2 = scratch_lim s1"
    using pushiov_spec [of s1 "scratch_pos s1" n] inv q by (auto simp: suio_inv_def queueable_def)
  have pr: "suio_print al (scratch_pos s1) n (w1, s1) = Inr (w1, s2)" by (simp add: suio_print_def pushiov_ws_def s2(1))
  have c2: "contents (w1, s2) = contents (w, s) @ region (mem w1) (scratch_pos s1) n" using pushiov_ws_spec [OF inv q] g(3) s2(1) by (simp add: pushiov_ws_def)
  have sub: "{scratch_pos s1..<scratch_pos s1 + n} \<subseteq> blk (scratch s2)" "set (addrs (iovs s1)) \<inter> {scratch_pos s1..<scratch_pos s1 + n} = {}"
    using inv g(5) s2(3,4) by (auto simp: suio_inv_def scratch_ok_def blk_def scratch_def)
  have ea: "addrs (iovs s1) = addrs (iovs s)" by (rule getspace_aligned_iovs [OF g(1)])
  show thesis
  proof (rule that [of "scratch_pos s1" w1 s2])
    show "xdrsuio_inline al n ws = Inr (scratch_pos s1, w1, s2)" using g(1,4) n pr by (simp add: xdrsuio_inline_def ws dvd_eq_mod_eq_0)
    show "spares ws (w1, s2)" using spares_trans [OF g(2)] pushiov_spares [OF inv q] s2(1) by (simp add: pushiov_ws_def ws)
  qed (use s2(2) ea c2 sub in \<open>simp_all add: ws\<close>)
qed

lemma putlong_ok:
  assumes ok: "xdrsuio_ok al zb ws"
  shows "\<exists>ws'. xdrsuio_putlong al v ws = Inr (True, ws') \<and> grown (xdrsuio_ok al zb) contents user_buf buf_bytes ws ws' (putint (ucast v))"
proof -
  let ?b = "putint (ucast v)"
  obtain a w' s' where i: "xdrsuio_inline al 4 ws = Inr (a, w', s')" "spares ws (w', s')"
    "addrs (iovs s') = addrs (iovs (snd ws)) @ [a..<a + 4]" "contents (w', s') = contents ws @ region (mem w') a 4"
    "set (addrs (iovs (snd ws))) \<inter> {a..<a + 4} = {}" "{a..<a + 4} \<subseteq> blk (scratch s')"
    using xdrsuio_inline_ok [OF ok, of 4] by auto
  let ?w = "w'\<lparr>mem := memwrite a ?b (mem w')\<rparr>"
  have "spares (w', s') (?w, s')" by (rule spares_write [OF spares_inv [OF i(2)]]) (use i(6) in \<open>auto simp: memwrite_def\<close>)
  then have k: "spares ws (?w, s')" using spares_trans i(2) by blast
  have "contents ws = map (mem w') (addrs (iovs (snd ws)))" using i(3,4) by (simp add: contents_addrs region_def)
  then have "contents (?w, s') = contents ws @ ?b"
    using i(3) map_memwrite_disjoint [of "addrs (iovs (snd ws))" a ?b "mem w'"] map_memwrite_same [of a ?b "mem w'"] i(5) by (simp add: contents_addrs)
  then show ?thesis using grown_spares [OF ok k] i(1) by (simp add: xdrsuio_putlong_def)
qed

interpretation xs: xdr_out "xdrsuio_ops al zb" "xdrsuio_ok al zb" contents user_buf buf_bytes
proof
  fix s :: sst and n :: nat assume s: "xdrsuio_ok al zb s" and "n < 4"
  then have "user_buf s (zb, n)" "take n (buf_bytes s (zb, 4)) = replicate n 0"
    by (fastforce simp: xdrsuio_ok_def user_buf_def blk_def)+
  moreover have "take n (buf_bytes s (zb, 4)) = buf_bytes s (zb, n)" using \<open>n < 4\<close> by (simp add: buf_bytes_def region_def take_map)
  ultimately show "user_buf s (zero_bytes (xdrsuio_ops al zb) n) \<and> buf_bytes s (zero_bytes (xdrsuio_ops al zb) n) = replicate n 0"
    by (simp add: xdrsuio_ops_def)
qed (simp_all only: xdrsuio_ops_def xout.select_convs putlong_ok putbytes_ok, simp only: buf_bytes_def length_region)

section \<open>The stream over a buffer\<close>

text \<open>\<open>xdrmem\<close> of the C library, over the bytes that are left. A \<open>long\<close> is the sign extension of the 32 bits read.\<close>

definition mem_in :: "u8 list xin" where
  "mem_in =
     \<lparr>x_getlong = (\<lambda>bs. case getint bs of Inl _ \<Rightarrow> None | Inr x \<Rightarrow> Some (scast x, drop 4 bs)),
      x_getbytes = (\<lambda>n bs. if n \<le> length bs then Some (take n bs, drop n bs) else None),
      x_inline = (\<lambda>n bs. if n \<le> length bs then Some (take n bs, drop n bs) else None)\<rparr>"

definition str2xdr :: "xty \<Rightarrow> (xty \<Rightarrow> nat) \<Rightarrow> u8 list xval \<Rightarrow> u8 list \<Rightarrow> (bool \<times> u8 list xval) res" where
  "str2xdr ty sz v bs = bindR (dec ty sz mem_in v bs) (\<lambda>(b, v, _). Inr (b, v))"

lemma ucast_scast: "(ucast (scast (x :: u32) :: u64) :: u32) = x"
  by (rule bit_eqI) (auto simp: bit_simps)

lemma getint_short: "length bs < 4 \<Longrightarrow> \<exists>e. getint bs = Inl e"
  by (cases bs rule: getint.cases) auto

interpretation xm: xdr_in mem_in "\<lambda>bs. bs"
proof
  fix i :: "u8 list" assume "length i < 4"
  then show "x_getlong mem_in i = None" using getint_short [of i] by (auto simp: mem_in_def)
next
  fix i bs r :: "u8 list" assume "i = bs @ r" "length bs = 4"
  then show "\<exists>l i'. x_getlong mem_in i = Some (l, i') \<and> putint (ucast l) = bs \<and> i' = r"
    using putint_of_getint [of bs r] by (auto simp: mem_in_def ucast_scast)
qed (auto simp: mem_in_def)

section \<open>Properties\<close>

lemma xdr2str_ok:
  assumes "xdrsuio_ok al zb ws" "contents ws = []" "ty_ok ty" "nonnull v" "\<forall>b\<in>set_xval v. user_buf ws b"
    "wt ty (map_xval (buf_bytes ws) v)" "length (xbytes ty (map_xval (buf_bytes ws) v)) < 2 ^ 64"
  shows "\<exists>ws'. xdr2str ty al zb v ws = Inr (Some (xbytes ty (map_xval (buf_bytes ws) v)), ws') \<and>
    contents ws' = xbytes ty (map_xval (buf_bytes ws) v)"
proof -
  have "xs.okv ws v" using assms(5) by (simp add: xs.okv_def)
  then obtain ws' where "enc ty (xdrsuio_ops al zb) v ws = Inr (True, ws')" "contents ws' = xbytes ty (map_xval (buf_bytes ws) v)"
    using xs.enc_ok [of al zb ws ty v] assms by (auto simp: xs.puts_def xs.ex_def)
  moreover from this(2) have "suio_copyout (2 ^ 64 - 1) ws' = contents ws'" using assms(7) by (simp add: suio_copyout_spec)
  ultimately show ?thesis by (simp add: xdr2str_def)
qed

text \<open>
  C8. What is marshalled comes back. For every type built from integers, booleans, opaque data, strings, arrays, vectors and optional
  data, marshalling a well-typed object without a \<open>NULL\<close> string into an empty queue succeeds and gives the encoding of RFC
  1832, and unmarshalling those bytes over any object \<open>u\<close> of the type succeeds and makes \<open>u\<close> equal to the object: nothing of
  what was in \<open>u\<close> remains.
\<close>

theorem xdr_roundtrip:
  assumes "xdrsuio_ok al zb ws" "contents ws = []" "ty_ok ty" "nonnull v" "\<forall>b\<in>set_xval v. user_buf ws b"
    and "wt ty (map_xval (buf_bytes ws) v)" "length (xbytes ty (map_xval (buf_bytes ws) v)) < 2 ^ 64" "wt ty u"
  shows "\<exists>bs ws'. xdr2str ty al zb v ws = Inr (Some bs, ws') \<and> bs = xbytes ty (map_xval (buf_bytes ws) v) \<and>
    str2xdr ty sz u bs = Inr (True, map_xval (buf_bytes ws) v)"
proof -
  have n: "nonnull (map_xval (buf_bytes ws) v)" using assms(4) by (rule nonnull_map)
  have "xm.yields (dec ty sz mem_in u (xbytes ty (map_xval (buf_bytes ws) v))) (map_xval (buf_bytes ws) v) []"
    by (rule xm.dec_ok) (use assms(3,6,8) n in auto)
  then have "str2xdr ty sz u (xbytes ty (map_xval (buf_bytes ws) v)) = Inr (True, map_xval (buf_bytes ws) v)"
    by (auto simp: str2xdr_def xm.yields_def)
  then show ?thesis using xdr2str_ok [OF assms(1-7)] by blast
qed

definition align_alloc :: allocator where
  "align_alloc w n = (foldr (\<lambda>(a, l) m. max (a + l) m) (heap w) 0 div 4 + 2) * 4"

lemma align_alloc_apart: "alloc_apart align_alloc"
proof -
  have b: "x < Suc (foldr (\<lambda>(a, l) m. max (a + l) m) bs 0)" if "x \<in> blk b" "b \<in> set bs" for x b bs
    using that by (induction bs) (auto simp: blk_def less_max_iff_disj less_Suc_eq_le le_max_iff_disj)
  have l: "x < align_alloc w n" if "x \<in> live w" for x w n
  proof -
    have "m \<le> (m div 4 + 2) * 4" for m :: nat by presburger
    moreover obtain c where "c \<in> set (heap w)" "x \<in> blk c" using \<open>x \<in> live w\<close> by (auto simp: live_def)
    then have "x < Suc (foldr (\<lambda>(a, l) m. max (a + l) m) (heap w) 0)" using b by blast
    moreover have "m < (m div 4 + 2) * 4" for m :: nat by presburger
    ultimately show ?thesis unfolding align_alloc_def by (meson less_Suc_eq_le order_le_less_trans)
  qed
  have "alloc_ok align_alloc" unfolding alloc_ok_def
  proof (intro allI impI conjI)
    fix w n
    show "0 < align_alloc w n" by (simp add: align_alloc_def)
    show "blk (align_alloc w n, n) \<inter> live w = {}" by (auto simp: blk_def dest!: l [where n = n])
  qed
  moreover have "4 dvd align_alloc w n" for w n by (simp add: align_alloc_def)
  moreover have "align_alloc w n + n \<notin> live w" for w n using l by fastforce
  ultimately show ?thesis by (simp add: alloc_apart_def)
qed

definition world2 :: world where
  "world2 = \<lparr>mem = (\<lambda>x. if 3000 \<le> x then 7 else 0), heap = [(1000, 128), (2000, 4), (3000, 5)], fired = []\<rparr>"

lemma world2_ok: "xdrsuio_ok align_alloc 2000 (world2, suio_new 1000)" "user_buf (world2, suio_new 1000) (3000, 5)"
proof -
  have "suio_inv (world2, suio_new 1000)"
    by (rule suio_new_inv) (auto simp: world2_def heap_ok_def smallbufsize_def blk_def)
  have f: "foreign (world2, suio_new 1000) (2000, 4)" "foreign (world2, suio_new 1000) (3000, 5)"
    by (auto simp: foreign_def world2_def suio_new_def scratch_def smallbufsize_def blk_def pending_def)
  have u: "user_buf (world2, suio_new 1000) (2000, 4)" using f(1) by (auto simp: user_buf_def world2_def)
  have "buf_bytes (world2, suio_new 1000) (2000, 4) = replicate 4 0" by code_simp
  moreover have "4 dvd scratch_lim (suio_new 1000)" by (simp add: suio_new_def smallbufsize_def)
  ultimately show "xdrsuio_ok align_alloc 2000 (world2, suio_new 1000)"
    using align_alloc_apart u \<open>suio_inv _\<close> by (simp add: xdrsuio_ok_def)
  show "user_buf (world2, suio_new 1000) (3000, 5)" using f(2) by (auto simp: user_buf_def world2_def)
qed

theorem xdr_roundtrip_witness:
  "\<exists>bs ws'. xdr2str (TVec (TPtr TString) 3) align_alloc 2000 (VList [VPtr (Some (VStr (Some (3000, 5)))), VPtr None]) (world2, suio_new 1000) =
      Inr (Some bs, ws') \<and>
    bs = [0, 0, 0, 2, 0, 0, 0, 1, 0, 0, 0, 5, 7, 7, 7, 7, 7, 0, 0, 0, 0, 0, 0, 0] \<and>
    str2xdr (TVec (TPtr TString) 3) (\<lambda>_. 8) (VList [VPtr None]) bs = Inr (True, VList [VPtr (Some (VStr (Some [7, 7, 7, 7, 7]))), VPtr None])"
proof -
  let ?v = "VList [VPtr (Some (VStr (Some (3000, 5)))), VPtr None]"
  have m: "map_xval (buf_bytes (world2, suio_new 1000)) ?v = VList [VPtr (Some (VStr (Some [7, 7, 7, 7, 7]))), VPtr None]"
    by (simp add: buf_bytes_def region_def world2_def upt_rec)
  have x: "xbytes (TVec (TPtr TString) 3) (VList [VPtr (Some (VStr (Some [7, 7, 7, 7, 7]))), VPtr None]) =
      [0, 0, 0, 2, 0, 0, 0, 1, 0, 0, 0, 5, 7, 7, 7, 7, 7, 0, 0, 0, 0, 0, 0, 0]"
    by code_simp
  show ?thesis
    using xdr_roundtrip [OF world2_ok(1), of "TVec (TPtr TString) 3" ?v "VList [VPtr None]" "\<lambda>_. 8"] world2_ok(2)
    unfolding m x by (simp add: contents_addrs suio_new_def)
qed

text \<open>
  C9. Unmarshalling is type safe. Whatever bytes arrive, unmarshalling them into an object of the type ends without a failed assertion
  or an access outside the buffer, whether it succeeds or not, and leaves an object of the type: bounds on lengths are met, strings hold
  no zero byte, and arrays have their size.
\<close>

theorem xdr_decode_typed:
  assumes "ty_ok ty" "wt ty u"
  shows "\<exists>b v. str2xdr ty sz u bs = Inr (b, v) \<and> wt ty v"
proof -
  obtain b v r where "dec ty sz mem_in u bs = Inr (b, v, r)" "wt ty v"
    using xm.dec_any [OF assms] unfolding xm.typed_def xm.gives_def by blast
  then show ?thesis by (simp add: str2xdr_def)
qed

theorem xdr_decode_typed_witness:
  "\<exists>b v. str2xdr (TVec TString 2) (\<lambda>_. 8) (VList [VStr None]) [0, 0, 0, 2, 0, 0, 0, 9, 1] = Inr (b, v) \<and> wt (TVec TString 2) v"
  by (rule xdr_decode_typed) simp_all

text \<open>\<open>xdr_gethyper\<close> joins the halves without clearing the sign extension of the lower one.\<close>

lemma gethyper_sign:
  "xdr_gethyper mem_in (puthyper v @ r) = Some (if bit v 31 then v OR 0xffffffff00000000 else v, r)"
proof -
  have p: "puthyper v = putint (ucast (drop_bit 32 v)) @ putint (ucast v)" by (simp add: putint_puthyper)
  have "xdr_gethyper mem_in (puthyper v @ r) = Some (push_bit 32 (scast (ucast (drop_bit 32 v) :: u32)) OR scast (ucast v :: u32), r)"
    by (simp add: p xdr_gethyper_def mem_in_def getint_putint)
  moreover have "push_bit 32 (scast (ucast (drop_bit 32 v) :: u32)) OR (scast (ucast v :: u32) :: u64) = (if bit v 31 then v OR NOT (mask 32) else v)"
  proof (rule bit_word_eqI)
    fix n assume "n < LENGTH(64)"
    then have "n < 31 \<or> n = 31 \<or> (\<exists>k < 31. n = 32 + k) \<or> n = 63" by (auto simp: le_iff_add [of 32 n, symmetric] intro: exI [of _ "n - 32"])
    then consider "n < 31" | "n = 31" | k where "n = 32 + k" "k < 31" | "n = 63" by blast
    then show "bit (push_bit 32 (scast (ucast (drop_bit 32 v) :: u32)) OR (scast (ucast v :: u32) :: u64)) n = bit (if bit v 31 then v OR NOT (mask 32) else v) n"
      by cases (auto simp: bit_simps min_def)
  qed
  moreover have "NOT (mask 32) = (0xffffffff00000000 :: u64)" by (simp add: mask_eq_exp_minus_1)
  ultimately show ?thesis by simp
qed

end
