(* ===== verification/Armor.thy ===== *)
theory Armor
  imports Serial
begin

text \<open>
  The armouring of binary data as text, \<open>async/armor.C\<close> with its inline wrappers of
  \<open>async/serial.h\<close>: base 32 in two alphabets and base 64 in three. Binary data is a list of bytes,
  text a string. A decoder that takes a \<open>const char *\<close> gets the memory from that pointer on, as a
  string: reading past its end is a fault, and \<open>NULL\<close> is \<open>None\<close>. An output buffer is an \<open>mstr\<close> of a
  computed length; the closing assertions on that length are kept, and so is the room it has.

  The names \<open>_armor32\<close>, \<open>_dearmor32\<close> and so on of the source, which start with an underscore, carry the
  suffix \<open>_gen\<close> here; the overloads on \<open>str\<close> carry the suffix \<open>_str\<close>.
\<close>

section \<open>Alphabets and their inverse tables\<close>

definition b2a32 :: string where
  "b2a32 = ''abcdefghijkmnpqrstuvwxyz23456789''"

definition b2a32_rfc :: string where
  "b2a32_rfc = ''abcdefghijklmnopqrstuvwxyz234567''"

definition a2b32 :: "int list" where
  "a2b32 = [
   -1, -1, -1, -1, -1, -1, -1, -1, -1, -1, -1, -1, -1, -1, -1, -1,
   -1, -1, -1, -1, -1, -1, -1, -1, -1, -1, -1, -1, -1, -1, -1, -1,
   -1, -1, -1, -1, -1, -1, -1, -1, -1, -1, -1, -1, -1, -1, -1, -1,
   -1, -1, 24, 25, 26, 27, 28, 29, 30, 31, -1, -1, -1, -1, -1, -1,
   -1, -1, -1, -1, -1, -1, -1, -1, -1, -1, -1, -1, -1, -1, -1, -1,
   -1, -1, -1, -1, -1, -1, -1, -1, -1, -1, -1, -1, -1, -1, -1, -1,
   -1, 0, 1, 2, 3, 4, 5, 6, 7, 8, 9, 10, -1, 11, 12, -1,
   13, 14, 15, 16, 17, 18, 19, 20, 21, 22, 23, -1, -1, -1, -1, -1,
   -1, -1, -1, -1, -1, -1, -1, -1, -1, -1, -1, -1, -1, -1, -1, -1,
   -1, -1, -1, -1, -1, -1, -1, -1, -1, -1, -1, -1, -1, -1, -1, -1,
   -1, -1, -1, -1, -1, -1, -1, -1, -1, -1, -1, -1, -1, -1, -1, -1,
   -1, -1, -1, -1, -1, -1, -1, -1, -1, -1, -1, -1, -1, -1, -1, -1,
   -1, -1, -1, -1, -1, -1, -1, -1, -1, -1, -1, -1, -1, -1, -1, -1,
   -1, -1, -1, -1, -1, -1, -1, -1, -1, -1, -1, -1, -1, -1, -1, -1,
   -1, -1, -1, -1, -1, -1, -1, -1, -1, -1, -1, -1, -1, -1, -1, -1,
   -1, -1, -1, -1, -1, -1, -1, -1, -1, -1, -1, -1, -1, -1, -1, -1]"

definition a2b32_rfc :: "int list" where
  "a2b32_rfc = [
   -1, -1, -1, -1, -1, -1, -1, -1, -1, -1, -1, -1, -1, -1, -1, -1,
   -1, -1, -1, -1, -1, -1, -1, -1, -1, -1, -1, -1, -1, -1, -1, -1,
   -1, -1, -1, -1, -1, -1, -1, -1, -1, -1, -1, -1, -1, -1, -1, -1,
   -1, -1, 26, 27, 28, 29, 30, 31, -1, -1, -1, -1, -1, -1, -1, -1,
   -1, -1, -1, -1, -1, -1, -1, -1, -1, -1, -1, -1, -1, -1, -1, -1,
   -1, -1, -1, -1, -1, -1, -1, -1, -1, -1, -1, -1, -1, -1, -1, -1,
   -1, 0, 1, 2, 3, 4, 5, 6, 7, 8, 9, 10, 11, 12, 13, 14,
   15, 16, 17, 18, 19, 20, 21, 22, 23, 24, 25, -1, -1, -1, -1, -1,
   -1, -1, -1, -1, -1, -1, -1, -1, -1, -1, -1, -1, -1, -1, -1, -1,
   -1, -1, -1, -1, -1, -1, -1, -1, -1, -1, -1, -1, -1, -1, -1, -1,
   -1, -1, -1, -1, -1, -1, -1, -1, -1, -1, -1, -1, -1, -1, -1, -1,
   -1, -1, -1, -1, -1, -1, -1, -1, -1, -1, -1, -1, -1, -1, -1, -1,
   -1, -1, -1, -1, -1, -1, -1, -1, -1, -1, -1, -1, -1, -1, -1, -1,
   -1, -1, -1, -1, -1, -1, -1, -1, -1, -1, -1, -1, -1, -1, -1, -1,
   -1, -1, -1, -1, -1, -1, -1, -1, -1, -1, -1, -1, -1, -1, -1, -1,
   -1, -1, -1, -1, -1, -1, -1, -1, -1, -1, -1, -1, -1, -1, -1, -1]"

definition b2a32rem :: "nat list" where
  "b2a32rem = [0, 2, 4, 5, 7]"

definition a2b32rem :: "int list" where
  "a2b32rem = [0, -1, 1, -1, 2, 3, -1, 4]"

definition b2a64 :: string where
  "b2a64 = ''ABCDEFGHIJKLMNOPQRSTUVWXYZabcdefghijklmnopqrstuvwxyz0123456789+/''"

definition a2b64 :: "int list" where
  "a2b64 = [
   -1, -1, -1, -1, -1, -1, -1, -1, -1, -1, -1, -1, -1, -1, -1, -1,
   -1, -1, -1, -1, -1, -1, -1, -1, -1, -1, -1, -1, -1, -1, -1, -1,
   -1, -1, -1, -1, -1, -1, -1, -1, -1, -1, -1, 62, -1, -1, -1, 63,
   52, 53, 54, 55, 56, 57, 58, 59, 60, 61, -1, -1, -1, -1, -1, -1,
   -1, 0, 1, 2, 3, 4, 5, 6, 7, 8, 9, 10, 11, 12, 13, 14,
   15, 16, 17, 18, 19, 20, 21, 22, 23, 24, 25, -1, -1, -1, -1, -1,
   -1, 26, 27, 28, 29, 30, 31, 32, 33, 34, 35, 36, 37, 38, 39, 40,
   41, 42, 43, 44, 45, 46, 47, 48, 49, 50, 51, -1, -1, -1, -1, -1,
   -1, -1, -1, -1, -1, -1, -1, -1, -1, -1, -1, -1, -1, -1, -1, -1,
   -1, -1, -1, -1, -1, -1, -1, -1, -1, -1, -1, -1, -1, -1, -1, -1,
   -1, -1, -1, -1, -1, -1, -1, -1, -1, -1, -1, -1, -1, -1, -1, -1,
   -1, -1, -1, -1, -1, -1, -1, -1, -1, -1, -1, -1, -1, -1, -1, -1,
   -1, -1, -1, -1, -1, -1, -1, -1, -1, -1, -1, -1, -1, -1, -1, -1,
   -1, -1, -1, -1, -1, -1, -1, -1, -1, -1, -1, -1, -1, -1, -1, -1,
   -1, -1, -1, -1, -1, -1, -1, -1, -1, -1, -1, -1, -1, -1, -1, -1,
   -1, -1, -1, -1, -1, -1, -1, -1, -1, -1, -1, -1, -1, -1, -1, -1]"

definition b2a64A :: string where
  "b2a64A = ''ABCDEFGHIJKLMNOPQRSTUVWXYZabcdefghijklmnopqrstuvwxyz0123456789+-''"

definition a2b64A :: "int list" where
  "a2b64A = [
   -1, -1, -1, -1, -1, -1, -1, -1, -1, -1, -1, -1, -1, -1, -1, -1,
   -1, -1, -1, -1, -1, -1, -1, -1, -1, -1, -1, -1, -1, -1, -1, -1,
   -1, -1, -1, -1, -1, -1, -1, -1, -1, -1, -1, 62, -1, 63, -1, -1,
   52, 53, 54, 55, 56, 57, 58, 59, 60, 61, -1, -1, -1, -1, -1, -1,
   -1, 0, 1, 2, 3, 4, 5, 6, 7, 8, 9, 10, 11, 12, 13, 14,
   15, 16, 17, 18, 19, 20, 21, 22, 23, 24, 25, -1, -1, -1, -1, -1,
   -1, 26, 27, 28, 29, 30, 31, 32, 33, 34, 35, 36, 37, 38, 39, 40,
   41, 42, 43, 44, 45, 46, 47, 48, 49, 50, 51, -1, -1, -1, -1, -1,
   -1, -1, -1, -1, -1, -1, -1, -1, -1, -1, -1, -1, -1, -1, -1, -1,
   -1, -1, -1, -1, -1, -1, -1, -1, -1, -1, -1, -1, -1, -1, -1, -1,
   -1, -1, -1, -1, -1, -1, -1, -1, -1, -1, -1, -1, -1, -1, -1, -1,
   -1, -1, -1, -1, -1, -1, -1, -1, -1, -1, -1, -1, -1, -1, -1, -1,
   -1, -1, -1, -1, -1, -1, -1, -1, -1, -1, -1, -1, -1, -1, -1, -1,
   -1, -1, -1, -1, -1, -1, -1, -1, -1, -1, -1, -1, -1, -1, -1, -1,
   -1, -1, -1, -1, -1, -1, -1, -1, -1, -1, -1, -1, -1, -1, -1, -1,
   -1, -1, -1, -1, -1, -1, -1, -1, -1, -1, -1, -1, -1, -1, -1, -1]"

definition b2a64X :: string where
  "b2a64X = ''ABCDEFGHIJKLMNOPQRSTUVWXYZabcdefghijklmnopqrstuvwxyz0123456789@_''"

definition a2b64X :: "int list" where
  "a2b64X = [
   -1, -1, -1, -1, -1, -1, -1, -1, -1, -1, -1, -1, -1, -1, -1, -1,
   -1, -1, -1, -1, -1, -1, -1, -1, -1, -1, -1, -1, -1, -1, -1, -1,
   -1, -1, -1, -1, -1, -1, -1, -1, -1, -1, -1, -1, -1, -1, -1, -1,
   52, 53, 54, 55, 56, 57, 58, 59, 60, 61, -1, -1, -1, -1, -1, -1,
   62, 0, 1, 2, 3, 4, 5, 6, 7, 8, 9, 10, 11, 12, 13, 14,
   15, 16, 17, 18, 19, 20, 21, 22, 23, 24, 25, -1, -1, -1, -1, 63,
   -1, 26, 27, 28, 29, 30, 31, 32, 33, 34, 35, 36, 37, 38, 39, 40,
   41, 42, 43, 44, 45, 46, 47, 48, 49, 50, 51, -1, -1, -1, -1, -1,
   -1, -1, -1, -1, -1, -1, -1, -1, -1, -1, -1, -1, -1, -1, -1, -1,
   -1, -1, -1, -1, -1, -1, -1, -1, -1, -1, -1, -1, -1, -1, -1, -1,
   -1, -1, -1, -1, -1, -1, -1, -1, -1, -1, -1, -1, -1, -1, -1, -1,
   -1, -1, -1, -1, -1, -1, -1, -1, -1, -1, -1, -1, -1, -1, -1, -1,
   -1, -1, -1, -1, -1, -1, -1, -1, -1, -1, -1, -1, -1, -1, -1, -1,
   -1, -1, -1, -1, -1, -1, -1, -1, -1, -1, -1, -1, -1, -1, -1, -1,
   -1, -1, -1, -1, -1, -1, -1, -1, -1, -1, -1, -1, -1, -1, -1, -1,
   -1, -1, -1, -1, -1, -1, -1, -1, -1, -1, -1, -1, -1, -1, -1, -1]"

text \<open>The symbol of a value, and the value of a symbol (\<open>tab[*p]\<close> on an \<open>u_char\<close>).\<close>

abbreviation sym :: "string \<Rightarrow> u8 \<Rightarrow> char" where
  "sym tab v \<equiv> tab ! unat v"

abbreviation symval :: "int list \<Rightarrow> char \<Rightarrow> int" where
  "symval tab c \<equiv> tab ! of_char c"

section \<open>Base 32\<close>

fun armor32_loop :: "string \<Rightarrow> u8 list \<Rightarrow> string" where
  "armor32_loop tab (p0 # p1 # p2 # p3 # p4 # p) =
     [sym tab (drop_bit 3 p0),
      sym tab (push_bit 2 (p0 AND 0x7) OR drop_bit 6 p1),
      sym tab (drop_bit 1 p1 AND 0x1f),
      sym tab (push_bit 4 (p1 AND 0x1) OR drop_bit 4 p2),
      sym tab (push_bit 1 (p2 AND 0xf) OR drop_bit 7 p3),
      sym tab (drop_bit 2 p3 AND 0x1f),
      sym tab (push_bit 3 (p3 AND 0x3) OR drop_bit 5 p4),
      sym tab (p4 AND 0x1f)] @ armor32_loop tab p"
| "armor32_loop tab [p0, p1, p2, p3] =
     [sym tab (drop_bit 3 p0),
      sym tab (push_bit 2 (p0 AND 0x7) OR drop_bit 6 p1),
      sym tab (drop_bit 1 p1 AND 0x1f),
      sym tab (push_bit 4 (p1 AND 0x1) OR drop_bit 4 p2),
      sym tab (push_bit 1 (p2 AND 0xf) OR drop_bit 7 p3),
      sym tab (drop_bit 2 p3 AND 0x1f),
      sym tab (push_bit 3 (p3 AND 0x3))]"
| "armor32_loop tab [p0, p1, p2] =
     [sym tab (drop_bit 3 p0),
      sym tab (push_bit 2 (p0 AND 0x7) OR drop_bit 6 p1),
      sym tab (drop_bit 1 p1 AND 0x1f),
      sym tab (push_bit 4 (p1 AND 0x1) OR drop_bit 4 p2),
      sym tab (push_bit 1 (p2 AND 0xf))]"
| "armor32_loop tab [p0, p1] =
     [sym tab (drop_bit 3 p0),
      sym tab (push_bit 2 (p0 AND 0x7) OR drop_bit 6 p1),
      sym tab (drop_bit 1 p1 AND 0x1f),
      sym tab (push_bit 4 (p1 AND 0x1))]"
| "armor32_loop tab [p0] =
     [sym tab (drop_bit 3 p0),
      sym tab (push_bit 2 (p0 AND 0x7))]"
| "armor32_loop tab [] = []"

definition armor32_gen :: "u8 list \<Rightarrow> string \<Rightarrow> string res" where
  "armor32_gen dp tab =
     (let dl = length dp;
          rem = dl mod 5;
          reslen = dl div 5 * 8 + b2a32rem ! rem;
          d = armor32_loop tab dp
      in bindR (guardR AssertFail (length d = reslen)) (\<lambda>_. Inr d))"

fun armor32len_gen :: "string \<Rightarrow> int list \<Rightarrow> nat res" where
  "armor32len_gen [] tab = Inl OutOfRange"
| "armor32len_gen (p # s) tab =
     (if symval tab p \<ge> 0 then bindR (armor32len_gen s tab) (\<lambda>n. Inr (Suc n)) else Inr 0)"

text \<open>The bytes of eight, seven, five, four or two symbol values, as \<open>int\<close> expressions cut to a byte.\<close>

fun dearmor32_loop :: "int list \<Rightarrow> string \<Rightarrow> u8 list" where
  "dearmor32_loop tab (s0 # s1 # s2 # s3 # s4 # s5 # s6 # s7 # s) =
     [word_of_int (push_bit 3 (symval tab s0) OR drop_bit 2 (symval tab s1)),
      word_of_int (push_bit 6 (symval tab s1) OR push_bit 1 (symval tab s2) OR drop_bit 4 (symval tab s3)),
      word_of_int (push_bit 4 (symval tab s3) OR drop_bit 1 (symval tab s4)),
      word_of_int (push_bit 7 (symval tab s4) OR push_bit 2 (symval tab s5) OR drop_bit 3 (symval tab s6)),
      word_of_int (push_bit 5 (symval tab s6) OR symval tab s7)] @ dearmor32_loop tab s"
| "dearmor32_loop tab [s0, s1, s2, s3, s4, s5, s6] =
     [word_of_int (push_bit 3 (symval tab s0) OR drop_bit 2 (symval tab s1)),
      word_of_int (push_bit 6 (symval tab s1) OR push_bit 1 (symval tab s2) OR drop_bit 4 (symval tab s3)),
      word_of_int (push_bit 4 (symval tab s3) OR drop_bit 1 (symval tab s4)),
      word_of_int (push_bit 7 (symval tab s4) OR push_bit 2 (symval tab s5) OR drop_bit 3 (symval tab s6))]"
| "dearmor32_loop tab [s0, s1, s2, s3, s4] =
     [word_of_int (push_bit 3 (symval tab s0) OR drop_bit 2 (symval tab s1)),
      word_of_int (push_bit 6 (symval tab s1) OR push_bit 1 (symval tab s2) OR drop_bit 4 (symval tab s3)),
      word_of_int (push_bit 4 (symval tab s3) OR drop_bit 1 (symval tab s4))]"
| "dearmor32_loop tab [s0, s1, s2, s3] =
     [word_of_int (push_bit 3 (symval tab s0) OR drop_bit 2 (symval tab s1)),
      word_of_int (push_bit 6 (symval tab s1) OR push_bit 1 (symval tab s2) OR drop_bit 4 (symval tab s3))]"
| "dearmor32_loop tab [s0, s1] =
     [word_of_int (push_bit 3 (symval tab s0) OR drop_bit 2 (symval tab s1))]"
| "dearmor32_loop tab _ = []"

definition armor32len :: "string \<Rightarrow> nat res" where
  "armor32len s = armor32len_gen s a2b32"

text \<open>
  The length is found with \<open>armor32len\<close>, whatever the table: the source calls the exported function
  and not \<open>_armor32len\<close> with its own table.
\<close>

definition dearmor32_gen :: "string \<Rightarrow> int \<Rightarrow> int list \<Rightarrow> u8 list option res" where
  "dearmor32_gen s len tab =
     bindR (if len < 0 then armor32len s else Inr (nat len)) (\<lambda>len.
       let rem = a2b32rem ! (len mod 8)
       in if rem < 0 then Inr None
          else if len = 0 then Inr (Some [])
          else bindR (guardR OutOfRange (len \<le> length s)) (\<lambda>_.
            let binlen = len div 8 * 5 + nat rem;
                d = dearmor32_loop tab (take len s)
            in bindR (guardR AssertFail (length d = binlen)) (\<lambda>_. Inr (Some d))))"

definition armor32 :: "u8 list \<Rightarrow> string res" where
  "armor32 dp = armor32_gen dp b2a32"

definition dearmor32 :: "string \<Rightarrow> int \<Rightarrow> u8 list option res" where
  "dearmor32 s len = dearmor32_gen s len a2b32"

definition armor32_rfc :: "u8 list \<Rightarrow> string res" where
  "armor32_rfc dp = armor32_gen dp b2a32_rfc"

definition armor32len_rfc :: "string \<Rightarrow> nat res" where
  "armor32len_rfc s = armor32len_gen s a2b32_rfc"

definition dearmor32_rfc :: "string \<Rightarrow> int \<Rightarrow> u8 list option res" where
  "dearmor32_rfc s len = dearmor32_gen s len a2b32_rfc"

text \<open>A \<open>str\<close> is stored with a terminating NUL; the \<open>str\<close> overloads pass that memory on.\<close>

abbreviation cstr :: "string \<Rightarrow> string" where
  "cstr s \<equiv> s @ [CHR 0x00]"

definition dearmor32_str :: "string \<Rightarrow> u8 list option res" where
  "dearmor32_str asc =
     bindR (armor32len (cstr asc)) (\<lambda>n.
       if n \<noteq> length asc then Inr None else dearmor32 (cstr asc) (int (length asc)))"

definition dearmor32_rfc_str :: "string \<Rightarrow> u8 list option res" where
  "dearmor32_rfc_str asc =
     bindR (armor32len_rfc (cstr asc)) (\<lambda>n.
       if n \<noteq> length asc then Inr None else dearmor32_rfc (cstr asc) (int (length asc)))"

section \<open>Base 64\<close>

fun armor64_loop :: "string \<Rightarrow> u8 list \<Rightarrow> string" where
  "armor64_loop b2a (p0 # p1 # p2 # p) =
     [sym b2a (drop_bit 2 p0),
      sym b2a (push_bit 4 (p0 AND 0x3) OR drop_bit 4 p1),
      sym b2a (push_bit 2 (p1 AND 0xf) OR drop_bit 6 p2),
      sym b2a (p2 AND 0x3f)] @ armor64_loop b2a p"
| "armor64_loop b2a [p0] =
     [sym b2a (drop_bit 2 p0), sym b2a (push_bit 4 (p0 AND 0x3)), CHR ''='', CHR ''='']"
| "armor64_loop b2a [p0, p1] =
     [sym b2a (drop_bit 2 p0),
      sym b2a (push_bit 4 (p0 AND 0x3) OR drop_bit 4 p1),
      sym b2a (push_bit 2 (p1 AND 0xf)), CHR ''='']"
| "armor64_loop b2a [] = []"

definition armor64_gen :: "string \<Rightarrow> bool \<Rightarrow> u8 list \<Rightarrow> string res" where
  "armor64_gen b2a endpad dp =
     (let len = length dp;
          rem = len mod 3;
          reslen = (len + 2) div 3 * 4;
          d = armor64_loop b2a dp
      in bindR (guardR AssertFail (length d = reslen)) (\<lambda>_.
           Inr (if \<not> endpad \<and> rem \<noteq> 0 then take (reslen + rem - 3) d else d)))"

definition armor64 :: "u8 list \<Rightarrow> string res" where
  "armor64 s = armor64_gen b2a64 True s"

text \<open>
  The loop of \<open>_dearmor64\<close>: \<open>left\<close> is \<open>e - s\<close>, the distance to the last group of four; the result is the
  bytes written and the memory from the last group on.
\<close>

fun dearmor64_loop :: "int list \<Rightarrow> string \<Rightarrow> int \<Rightarrow> (u8 list \<times> string) res" where
  "dearmor64_loop a2b (s0 # s1 # s2 # s3 # s) left =
     (if 0 < left then
        bindR (dearmor64_loop a2b s (left - 4)) (\<lambda>(d, s').
          Inr ([word_of_int (push_bit 2 (symval a2b s0) OR drop_bit 4 (symval a2b s1)),
                word_of_int (push_bit 4 (symval a2b s1) OR drop_bit 2 (symval a2b s2)),
                word_of_int (push_bit 6 (symval a2b s2) OR symval a2b s3)] @ d, s'))
      else Inr ([], s0 # s1 # s2 # s3 # s))"
| "dearmor64_loop a2b s left = (if 0 < left then Inl OutOfRange else Inr ([], s))"

text \<open>The last group: the third and the fourth character are read only while they are symbols.\<close>

definition dearmor64_last :: "int list \<Rightarrow> string \<Rightarrow> u8 list res" where
  "dearmor64_last a2b s =
     bindR (rd s 0) (\<lambda>s0. bindR (rd s 1) (\<lambda>s1.
       let c0 = symval a2b s0; c1 = symval a2b s1;
           d0 = word_of_int (push_bit 2 c0 OR drop_bit 4 c1)
       in bindR (rd s 2) (\<lambda>s2.
         let c2 = symval a2b s2
         in if c2 \<ge> 0 then
              bindR (rd s 3) (\<lambda>s3.
                let d1 = word_of_int (push_bit 4 c1 OR drop_bit 2 c2); c3 = symval a2b s3
                in Inr (if c3 \<ge> 0 then [d0, d1, word_of_int (push_bit 6 c2 OR c3)] else [d0, d1]))
            else Inr [d0])))"

text \<open>
  The buffer has room for its length and a terminating NUL; \<open>setlen\<close> asserts that it only shrinks.
\<close>

definition dearmor64_gen :: "int list \<Rightarrow> string \<Rightarrow> int \<Rightarrow> u8 list res" where
  "dearmor64_gen a2b s len =
     (if len = 0 then Inr []
      else let binlen = nat (len - drop_bit 2 len)
           in bindR (dearmor64_loop a2b s (len - 4)) (\<lambda>(d, s').
              bindR (dearmor64_last a2b s') (\<lambda>d'.
              bindR (guardR OutOfRange (length (d @ d') \<le> binlen + 1)) (\<lambda>_.
              bindR (guardR AssertFail (length (d @ d') \<le> binlen)) (\<lambda>_. Inr (d @ d'))))))"

definition armor64len_gen :: "int list \<Rightarrow> bool \<Rightarrow> string \<Rightarrow> nat res" where
  "armor64len_gen a2b pad s =
     bindR (armor32len_gen s a2b) (\<lambda>p.
       if pad then
         bindR (rd s p) (\<lambda>c.
           let p = (if c = CHR ''='' then p + 1 else p)
           in bindR (rd s p) (\<lambda>c. Inr (if c = CHR ''='' then p + 1 else p)))
       else Inr p)"

definition armor64len :: "string \<Rightarrow> nat res" where
  "armor64len s = armor64len_gen a2b64 True s"

definition dearmor64 :: "string \<Rightarrow> int \<Rightarrow> u8 list option res" where
  "dearmor64 s len =
     bindR (if len < 0 then bindR (armor64len s) (\<lambda>n. Inr (int n)) else Inr len) (\<lambda>len.
       if len AND 3 \<noteq> 0 then Inr None
       else bindR (dearmor64_gen a2b64 s len) (\<lambda>b. Inr (Some b)))"

definition armor64A :: "u8 list \<Rightarrow> string res" where
  "armor64A s = armor64_gen b2a64A False s"

definition armor64X :: "u8 list \<Rightarrow> string res" where
  "armor64X s = armor64_gen b2a64X True s"

definition armor64Alen :: "string \<Rightarrow> nat res" where
  "armor64Alen s = armor64len_gen a2b64A False s"

definition armor64Xlen :: "string \<Rightarrow> nat res" where
  "armor64Xlen s = armor64len_gen a2b64X True s"

definition dearmor64A :: "string \<Rightarrow> int \<Rightarrow> u8 list option res" where
  "dearmor64A s len =
     bindR (if len < 0 then bindR (armor64Alen s) (\<lambda>n. Inr (int n)) else Inr len) (\<lambda>len.
       bindR (dearmor64_gen a2b64A s len) (\<lambda>b. Inr (Some b)))"

definition dearmor64X :: "string \<Rightarrow> int \<Rightarrow> u8 list option res" where
  "dearmor64X s len =
     bindR (if len < 0 then bindR (armor64Xlen s) (\<lambda>n. Inr (int n)) else Inr len) (\<lambda>len.
       if len AND 3 \<noteq> 0 then Inr None
       else bindR (dearmor64_gen a2b64X s len) (\<lambda>b. Inr (Some b)))"

definition dearmor64_str :: "string \<Rightarrow> u8 list option res" where
  "dearmor64_str asc =
     bindR (armor64len (cstr asc)) (\<lambda>n.
       if n \<noteq> length asc then Inr None else dearmor64 (cstr asc) (int (length asc)))"

definition dearmor64A_str :: "string \<Rightarrow> u8 list option res" where
  "dearmor64A_str asc =
     bindR (armor64Alen (cstr asc)) (\<lambda>n.
       if n \<noteq> length asc then Inr None else dearmor64A (cstr asc) (int (length asc)))"

definition dearmor64X_str :: "string \<Rightarrow> u8 list option res" where
  "dearmor64X_str asc =
     bindR (armor64Xlen (cstr asc)) (\<lambda>n.
       if n \<noteq> length asc then Inr None else dearmor64X (cstr asc) (int (length asc)))"

section \<open>Bit facts of the groups\<close>

lemma u8_masks:
  "(0x1 :: u8) = mask 1" "(0x3 :: u8) = mask 2" "(0x7 :: u8) = mask 3" "(0xf :: u8) = mask 4"
  "(0x1f :: u8) = mask 5" "(0x3f :: u8) = mask 6"
  by (simp_all add: mask_eq_exp_minus_1)

lemma bit_u8: "bit (w :: u8) n \<Longrightarrow> n < 8"
  using bit_imp_le_length [of w n] by simp

lemma bit_u8_ge: "8 \<le> n \<Longrightarrow> \<not> bit (w :: u8) n"
  using bit_u8 [of w n] by linarith

lemma all_less_8:
  "(\<forall>n < (8::nat). P n) \<longleftrightarrow> P 0 \<and> P 1 \<and> P 2 \<and> P 3 \<and> P 4 \<and> P 5 \<and> P 6 \<and> P 7"
  by (simp add: numeral_eq_Suc All_less_Suc conj_ac)

lemma u8_eq_iff:
  "(p :: u8) = q \<longleftrightarrow>
     bit p 0 = bit q 0 \<and> bit p 1 = bit q 1 \<and> bit p 2 = bit q 2 \<and> bit p 3 = bit q 3 \<and>
     bit p 4 = bit q 4 \<and> bit p 5 = bit q 5 \<and> bit p 6 = bit q 6 \<and> bit p 7 = bit q 7"
proof -
  have "p = q \<longleftrightarrow> (\<forall>n < 8. bit p n = bit q n)"
    using bit_u8 [of p] bit_u8 [of q] by (auto simp: bit_eq_iff)
  then show ?thesis by (simp only: all_less_8)
qed

lemmas word_bit_iffs =
  bit_or_iff bit_and_iff bit_push_bit_iff bit_drop_bit_eq o_apply bit_mask_iff bit_not_iff bit_0_eq
  bot_apply bot_bool_def

lemmas u8_bitwise = u8_eq_iff word_bit_iffs

lemma u8_index_bounds:
  "unat w < 32 \<longleftrightarrow> (w :: u8) AND NOT (mask 5) = 0"
  "unat w < 64 \<longleftrightarrow> (w :: u8) AND NOT (mask 6) = 0"
  by (simp_all add: and_not_mask_eq_0_iff)

lemma index32_bounds:
  "unat (drop_bit 3 p) < 32"
  "unat (push_bit 2 (p AND 0x7) OR drop_bit 6 q) < 32"
  "unat (drop_bit 1 p AND 0x1f) < 32"
  "unat (push_bit 4 (p AND 0x1) OR drop_bit 4 q) < 32"
  "unat (push_bit 1 (p AND 0xf) OR drop_bit 7 q) < 32"
  "unat (drop_bit 2 p AND 0x1f) < 32"
  "unat (push_bit 3 (p AND 0x3) OR drop_bit 5 q) < 32"
  "unat (p AND 0x1f) < 32"
  "unat (push_bit 2 (p AND 0x7)) < 32"
  "unat (push_bit 4 (p AND 0x1)) < 32"
  "unat (push_bit 1 (p AND 0xf)) < 32"
  "unat (push_bit 3 (p AND 0x3)) < 32" for p q :: u8
  unfolding u8_masks u8_index_bounds
  by (simp_all only: u8_bitwise) (simp_all add: bit_u8_ge possible_bit_word One_nat_def [symmetric] del: One_nat_def)

lemma index64_bounds:
  "unat (drop_bit 2 p) < 64"
  "unat (push_bit 4 (p AND 0x3) OR drop_bit 4 q) < 64"
  "unat (push_bit 2 (p AND 0xf) OR drop_bit 6 q) < 64"
  "unat (p AND 0x3f) < 64"
  "unat (push_bit 4 (p AND 0x3)) < 64"
  "unat (push_bit 2 (p AND 0xf)) < 64" for p q :: u8
  unfolding u8_masks u8_index_bounds
  by (simp_all only: u8_bitwise) (simp_all add: bit_u8_ge possible_bit_word One_nat_def [symmetric] del: One_nat_def)

lemma group32_bits:
  "push_bit 3 (drop_bit 3 p) OR drop_bit 2 (push_bit 2 (p AND 0x7) OR drop_bit 6 q) = p"
  "push_bit 3 (drop_bit 3 p) OR drop_bit 2 (push_bit 2 (p AND 0x7)) = p"
  "push_bit 6 (push_bit 2 (p AND 0x7) OR drop_bit 6 q) OR
   push_bit 1 (drop_bit 1 q AND 0x1f) OR drop_bit 4 (push_bit 4 (q AND 0x1) OR drop_bit 4 r) = q"
  "push_bit 6 (push_bit 2 (p AND 0x7) OR drop_bit 6 q) OR
   push_bit 1 (drop_bit 1 q AND 0x1f) OR drop_bit 4 (push_bit 4 (q AND 0x1)) = q"
  "push_bit 4 (push_bit 4 (p AND 0x1) OR drop_bit 4 q) OR
   drop_bit 1 (push_bit 1 (q AND 0xf) OR drop_bit 7 r) = q"
  "push_bit 4 (push_bit 4 (p AND 0x1) OR drop_bit 4 q) OR
   drop_bit 1 (push_bit 1 (q AND 0xf)) = q"
  "push_bit 7 (push_bit 1 (p AND 0xf) OR drop_bit 7 q) OR push_bit 2 (drop_bit 2 q AND 0x1f) OR
   drop_bit 3 (push_bit 3 (q AND 0x3) OR drop_bit 5 r) = q"
  "push_bit 7 (push_bit 1 (p AND 0xf) OR drop_bit 7 q) OR push_bit 2 (drop_bit 2 q AND 0x1f) OR
   drop_bit 3 (push_bit 3 (q AND 0x3)) = q"
  "push_bit 5 (push_bit 3 (p AND 0x3) OR drop_bit 5 q) OR (q AND 0x1f) = q"
  for p q r :: u8
  unfolding u8_masks
  by (simp_all only: u8_bitwise) (simp_all add: bit_u8_ge possible_bit_word One_nat_def [symmetric] del: One_nat_def)

lemma group64_bits:
  "push_bit 2 (drop_bit 2 p) OR drop_bit 4 (push_bit 4 (p AND 0x3) OR drop_bit 4 q) = p"
  "push_bit 2 (drop_bit 2 p) OR drop_bit 4 (push_bit 4 (p AND 0x3)) = p"
  "push_bit 4 (push_bit 4 (p AND 0x3) OR drop_bit 4 q) OR
   drop_bit 2 (push_bit 2 (q AND 0xf) OR drop_bit 6 r) = q"
  "push_bit 4 (push_bit 4 (p AND 0x3) OR drop_bit 4 q) OR
   drop_bit 2 (push_bit 2 (q AND 0xf)) = q"
  "push_bit 6 (push_bit 2 (p AND 0xf) OR drop_bit 6 q) OR (q AND 0x3f) = q"
  for p q r :: u8
  unfolding u8_masks
  by (simp_all only: u8_bitwise) (simp_all add: bit_u8_ge possible_bit_word One_nat_def [symmetric] del: One_nat_def)

lemma word_of_int_bits:
  "word_of_int (push_bit n (uint w)) = push_bit n (w :: 'a::len word)"
  "word_of_int (drop_bit n (uint w)) = drop_bit n (w :: 'a::len word)"
  by (rule bit_eqI, auto simp: bit_simps)+

lemmas group_decode = of_int_or_eq word_of_int_bits word_of_int_uint


text \<open>Induction over the groups of five and of three bytes the encoders take.\<close>

lemmas group5_induct = armor32_loop.induct [where P = "\<lambda>_ p. Q p" and ?a0.0 = "[]" for Q]
lemmas group3_induct = armor64_loop.induct [where P = "\<lambda>_ p. Q p" and ?a0.0 = "[]" for Q]

section \<open>What the codecs need of an alphabet\<close>

text \<open>
  The contract between the tables and the coders: every symbol of the alphabet is taken back to its
  value by the inverse table, and neither NUL nor the padding character is a symbol.
\<close>

locale armor_alphabet =
  fixes b2a :: string
    and a2b :: "int list"
    and size :: nat
  assumes symbol_value: "i < size \<Longrightarrow> a2b ! of_char (b2a ! i) = int i"
    and nul_no_symbol: "a2b ! of_char (CHR 0x00) < 0"
    and pad_no_symbol: "a2b ! of_char (CHR ''='') < 0"
begin

lemma symval_sym: "unat w < size \<Longrightarrow> symval a2b (sym b2a w) = uint w"
  by (simp add: symbol_value)

lemma symval_sym_nonneg: "unat w < size \<Longrightarrow> 0 \<le> symval a2b (sym b2a w)"
  by (simp add: symbol_value)

lemma scan_symbols:
  "\<forall>c \<in> set s. 0 \<le> symval a2b c \<Longrightarrow> symval a2b t < 0 \<Longrightarrow>
   armor32len_gen (s @ t # rest) a2b = Inr (length s)"
  by (induction s) auto

end

text \<open>Base 32: an alphabet of 32 symbols.\<close>

locale armor_alphabet32 = armor_alphabet b2a a2b 32
  for b2a :: string and a2b :: "int list"
begin

lemmas sym32 = symval_sym [OF index32_bounds(1)] symval_sym [OF index32_bounds(2)]
  symval_sym [OF index32_bounds(3)] symval_sym [OF index32_bounds(4)]
  symval_sym [OF index32_bounds(5)] symval_sym [OF index32_bounds(6)]
  symval_sym [OF index32_bounds(7)] symval_sym [OF index32_bounds(8)]
  symval_sym [OF index32_bounds(9)] symval_sym [OF index32_bounds(10)]
  symval_sym [OF index32_bounds(11)] symval_sym [OF index32_bounds(12)]

lemma loop_roundtrip32: "dearmor32_loop a2b (armor32_loop b2a bs) = bs"
  by (induction bs rule: group5_induct)
    (simp_all only: armor32_loop.simps append.simps dearmor32_loop.simps sym32 group_decode
      group32_bits)

lemma loop_symbols32: "list_all (\<lambda>c. 0 \<le> symval a2b c) (armor32_loop b2a bs)"
  by (induction bs rule: group5_induct)
    (simp_all only: armor32_loop.simps append.simps list.pred_inject sym32 unsigned_greater_eq
      simp_thms)

lemma scan32: "armor32len_gen (armor32_loop b2a bs @ CHR 0x00 # rest) a2b = Inr (length (armor32_loop b2a bs))"
  using loop_symbols32 [of bs] nul_no_symbol by (intro scan_symbols) (auto simp: list_all_iff)

end

lemma length_armor32_loop:
  "length (armor32_loop tab bs) = length bs div 5 * 8 + b2a32rem ! (length bs mod 5)"
  by (induction bs rule: group5_induct) (simp_all add: b2a32rem_def div_add_self1)

lemma armor32_gen_ok: "armor32_gen bs tab = Inr (armor32_loop tab bs)"
  by (simp add: armor32_gen_def Let_def length_armor32_loop)

lemma length_dearmor32_loop:
  "0 \<le> a2b32rem ! (length s mod 8) \<Longrightarrow>
   length (dearmor32_loop tab s) = length s div 8 * 5 + nat (a2b32rem ! (length s mod 8))"
  by (induction tab s rule: dearmor32_loop.induct) (simp_all add: a2b32rem_def div_add_self1)

lemma a2b32rem_b2a32rem:
  assumes "n < 5"
  shows "a2b32rem ! (b2a32rem ! n mod 8) = int n"
proof -
  have "n = 0 \<or> n = 1 \<or> n = 2 \<or> n = 3 \<or> n = 4" using assms by linarith
  then show ?thesis by (auto simp: a2b32rem_def b2a32rem_def)
qed

context armor_alphabet32
begin

lemma gen_roundtrip32:
  "dearmor32_gen (armor32_loop b2a bs @ rest) (int (length (armor32_loop b2a bs))) a2b = Inr (Some bs)"
proof -
  let ?l = "length (armor32_loop b2a bs)"
  have r: "a2b32rem ! (?l mod 8) = int (length bs mod 5)"
    by (simp add: length_armor32_loop a2b32rem_b2a32rem)
  have "length (dearmor32_loop a2b (armor32_loop b2a bs)) = ?l div 8 * 5 + nat (a2b32rem ! (?l mod 8))"
    by (rule length_dearmor32_loop) (simp add: r)
  then show ?thesis
    using loop_roundtrip32 [of bs] r
    by (auto simp: dearmor32_gen_def Let_def)
qed

end

text \<open>The text a base 64 encoder makes, with and without padding, as a recursion on the bytes.\<close>

fun enc64 :: "string \<Rightarrow> bool \<Rightarrow> u8 list \<Rightarrow> string" where
  "enc64 b2a pad (p0 # p1 # p2 # p) =
     [sym b2a (drop_bit 2 p0),
      sym b2a (push_bit 4 (p0 AND 0x3) OR drop_bit 4 p1),
      sym b2a (push_bit 2 (p1 AND 0xf) OR drop_bit 6 p2),
      sym b2a (p2 AND 0x3f)] @ enc64 b2a pad p"
| "enc64 b2a pad [p0] =
     [sym b2a (drop_bit 2 p0), sym b2a (push_bit 4 (p0 AND 0x3))] @
     (if pad then ''=='' else [])"
| "enc64 b2a pad [p0, p1] =
     [sym b2a (drop_bit 2 p0),
      sym b2a (push_bit 4 (p0 AND 0x3) OR drop_bit 4 p1),
      sym b2a (push_bit 2 (p1 AND 0xf))] @ (if pad then ''='' else [])"
| "enc64 b2a pad [] = []"

lemma length_armor64_loop: "length (armor64_loop b2a bs) = (length bs + 2) div 3 * 4"
proof (induction bs rule: group3_induct)
  case (1 _ p0 p1 p2 p)
  have "(length p + 3 + 2) div 3 = (length p + 2) div 3 + 1" by presburger
  with 1 show ?case by (simp add: add.commute)
qed simp_all

lemma armor64_loop_enc64:
  "armor64_loop b2a bs =
   enc64 b2a False bs @ replicate (if length bs mod 3 = 0 then 0 else 3 - length bs mod 3) (CHR ''='')"
  by (induction bs rule: group3_induct) (simp_all add: numeral_2_eq_2)

lemma armor64_gen_enc64: "armor64_gen b2a pad bs = Inr (enc64 b2a pad bs)"
proof -
  have pad: "enc64 b2a True bs = armor64_loop b2a bs"
    by (induction bs rule: group3_induct) simp_all
  let ?k = "if length bs mod 3 = 0 then 0 else 3 - length bs mod 3"
  have "length (armor64_loop b2a bs) = length (enc64 b2a False bs) + ?k"
    by (subst armor64_loop_enc64) simp
  moreover have "length bs mod 3 < 3" by simp
  ultimately have "length bs mod 3 \<noteq> 0 \<Longrightarrow>
      (length bs + 2) div 3 * 4 + length bs mod 3 - 3 = length (enc64 b2a False bs)"
    unfolding length_armor64_loop by auto
  then have "length bs mod 3 \<noteq> 0 \<Longrightarrow>
      take ((length bs + 2) div 3 * 4 + length bs mod 3 - 3) (armor64_loop b2a bs) = enc64 b2a False bs"
    by (subst armor64_loop_enc64) simp
  moreover have "length bs mod 3 = 0 \<Longrightarrow> armor64_loop b2a bs = enc64 b2a False bs"
    by (subst armor64_loop_enc64) simp
  ultimately show ?thesis
    by (cases pad; simp add: armor64_gen_def Let_def length_armor64_loop pad)
qed

lemma enc64_eq_Nil [simp]: "enc64 b2a pad bs = [] \<longleftrightarrow> bs = []"
  by (induction bs rule: group3_induct) simp_all

lemma length_enc64_pad: "length (enc64 b2a True bs) mod 4 = 0"
  by (induction bs rule: group3_induct) simp_all

lemma dearmor64_loop_stop [simp]: "left \<le> 0 \<Longrightarrow> dearmor64_loop a2b s left = Inr ([], s)"
  by (cases "(a2b, s, left)" rule: dearmor64_loop.cases) auto

lemma dearmor64_loop_step:
  "int (length s) - 4 = l \<Longrightarrow> 0 < length s \<Longrightarrow> dearmor64_loop a2b (s @ t) l = Inr (d, s') \<Longrightarrow>
   dearmor64_loop a2b (s0 # s1 # s2 # s3 # s @ t) (int (length (s0 # s1 # s2 # s3 # s)) - 4) =
   Inr (word_of_int (push_bit 2 (symval a2b s0) OR drop_bit 4 (symval a2b s1)) #
        word_of_int (push_bit 4 (symval a2b s1) OR drop_bit 2 (symval a2b s2)) #
        word_of_int (push_bit 6 (symval a2b s2) OR symval a2b s3) # d, s')"
  by simp

lemma dearmor64_last_1:
  "symval a2b s2 < 0 \<Longrightarrow>
   dearmor64_last a2b (s0 # s1 # s2 # s) =
   Inr [word_of_int (push_bit 2 (symval a2b s0) OR drop_bit 4 (symval a2b s1))]"
  by (simp add: dearmor64_last_def Let_def)

lemma dearmor64_last_2:
  "0 \<le> symval a2b s2 \<Longrightarrow> symval a2b s3 < 0 \<Longrightarrow>
   dearmor64_last a2b (s0 # s1 # s2 # s3 # s) =
   Inr [word_of_int (push_bit 2 (symval a2b s0) OR drop_bit 4 (symval a2b s1)),
        word_of_int (push_bit 4 (symval a2b s1) OR drop_bit 2 (symval a2b s2))]"
  by (simp add: dearmor64_last_def Let_def)

lemma dearmor64_last_3:
  "0 \<le> symval a2b s2 \<Longrightarrow> 0 \<le> symval a2b s3 \<Longrightarrow>
   dearmor64_last a2b (s0 # s1 # s2 # s3 # s) =
   Inr [word_of_int (push_bit 2 (symval a2b s0) OR drop_bit 4 (symval a2b s1)),
        word_of_int (push_bit 4 (symval a2b s1) OR drop_bit 2 (symval a2b s2)),
        word_of_int (push_bit 6 (symval a2b s2) OR symval a2b s3)]"
  by (simp add: dearmor64_last_def Let_def)

lemmas dearmor64_last_cases = dearmor64_last_1 dearmor64_last_2 dearmor64_last_3

locale armor_alphabet64 = armor_alphabet b2a a2b 64
  for b2a :: string and a2b :: "int list"
begin

lemmas sym64 = symval_sym [OF index64_bounds(1)] symval_sym [OF index64_bounds(2)]
  symval_sym [OF index64_bounds(3)] symval_sym [OF index64_bounds(4)]
  symval_sym [OF index64_bounds(5)] symval_sym [OF index64_bounds(6)]

lemma last_roundtrip64:
  "dearmor64_last a2b (enc64 b2a pad [p0] @ CHR 0x00 # rest) = Inr [p0]"
  "dearmor64_last a2b (enc64 b2a pad [p0, p1] @ CHR 0x00 # rest) = Inr [p0, p1]"
  "dearmor64_last a2b (enc64 b2a pad [p0, p1, p2] @ rest) = Inr [p0, p1, p2]"
  using nul_no_symbol pad_no_symbol
  by (cases pad;
      simp only: enc64.simps append.simps if_True if_False dearmor64_last_cases sym64
        unsigned_greater_eq group_decode group64_bits)+

text \<open>Decoding the encoded text, group by group, up to the last group.\<close>

lemma loop_roundtrip64:
  "bs \<noteq> [] \<Longrightarrow>
   \<exists>d d' s'. dearmor64_loop a2b (enc64 b2a pad bs @ CHR 0x00 # rest)
               (int (length (enc64 b2a pad bs)) - 4) = Inr (d, s') \<and>
             dearmor64_last a2b s' = Inr d' \<and> bs = d @ d'"
proof (induction bs rule: group3_induct)
  case (1 _ p0 p1 p2 p)
  show ?case
  proof (cases "p = []")
    case True
    then show ?thesis
      using last_roundtrip64(3) [of pad p0 p1 p2 "CHR 0x00 # rest"] by simp
  next
    case False
    with 1 obtain d d' s' where
      IH: "dearmor64_loop a2b (enc64 b2a pad p @ CHR 0x00 # rest)
             (int (length (enc64 b2a pad p)) - 4) = Inr (d, s')"
          "dearmor64_last a2b s' = Inr d'" "p = d @ d'" by blast
    have "0 < length (enc64 b2a pad p)" using False by simp
    from dearmor64_loop_step [OF refl this IH(1)]
    have "dearmor64_loop a2b (enc64 b2a pad (p0 # p1 # p2 # p) @ CHR 0x00 # rest)
            (int (length (enc64 b2a pad (p0 # p1 # p2 # p))) - 4) = Inr ([p0, p1, p2] @ d, s')"
      by (simp only: enc64.simps append.simps sym64 group_decode group64_bits)
    with IH show ?thesis by auto
  qed
next
  case (2 _ p0)
  then show ?case using last_roundtrip64(1) [of pad p0 rest] by (cases pad) simp_all
next
  case (3 _ p0 p1)
  then show ?case using last_roundtrip64(2) [of pad p0 p1 rest] by (cases pad) simp_all
qed simp


lemma enc64_room: "length bs \<le> length (enc64 b2a pad bs) - length (enc64 b2a pad bs) div 4"
proof (induction bs rule: group3_induct)
  case (1 _ p0 p1 p2 p)
  then show ?case by simp
qed simp_all

lemma gen_roundtrip64:
  "dearmor64_gen a2b (enc64 b2a pad bs @ CHR 0x00 # rest) (int (length (enc64 b2a pad bs))) = Inr bs"
proof (cases "bs = []")
  case False
  obtain d d' s' where
    "dearmor64_loop a2b (enc64 b2a pad bs @ CHR 0x00 # rest)
       (int (length (enc64 b2a pad bs)) - 4) = Inr (d, s')"
    "dearmor64_last a2b s' = Inr d'" "bs = d @ d'"
    using loop_roundtrip64 [OF False] by blast
  moreover have "nat (int (length (enc64 b2a pad bs)) - drop_bit 2 (int (length (enc64 b2a pad bs)))) =
      length (enc64 b2a pad bs) - length (enc64 b2a pad bs) div 4"
    by (simp add: drop_bit_eq_div nat_diff_distrib nat_div_distrib)
  ultimately show ?thesis
    using False enc64_room [of bs pad] by (simp add: dearmor64_gen_def Let_def)
qed (simp add: dearmor64_gen_def)

lemma enc64_symbols: "list_all (\<lambda>c. 0 \<le> symval a2b c) (enc64 b2a False bs)"
  by (induction bs rule: group3_induct)
    (simp_all only: enc64.simps append.simps append_Nil2 if_False list.pred_inject sym64
      unsigned_greater_eq simp_thms)

lemma scan64:
  "armor64len_gen a2b pad (enc64 b2a pad bs @ CHR 0x00 # rest) = Inr (length (enc64 b2a pad bs))"
proof -
  let ?e = "enc64 b2a False bs"
  have sy: "\<forall>c \<in> set ?e. 0 \<le> symval a2b c"
    using enc64_symbols [of bs] by (simp add: list_all_iff)
  have scan: "armor32len_gen (?e @ t # r) a2b = Inr (length ?e)" if "t = CHR 0x00 \<or> t = CHR ''=''" for t r
    using that nul_no_symbol pad_no_symbol by (intro scan_symbols [OF sy]) auto
  have "enc64 b2a True bs = ?e \<or> enc64 b2a True bs = ?e @ ''='' \<or> enc64 b2a True bs = ?e @ ''==''"
    by (induction bs rule: group3_induct) auto
  then show ?thesis
    using scan [of "CHR 0x00"] scan [of "CHR ''=''"]
    by (cases pad) (auto simp: armor64len_gen_def Let_def rd_def nth_append)
qed

end


section \<open>The five alphabets of the source\<close>

lemma alphabet_tables:
  "table_ok (\<lambda>i c. a2b32 ! of_char c = int i) 0 b2a32"
  "table_ok (\<lambda>i c. a2b32_rfc ! of_char c = int i) 0 b2a32_rfc"
  "table_ok (\<lambda>i c. a2b64 ! of_char c = int i) 0 b2a64"
  "table_ok (\<lambda>i c. a2b64A ! of_char c = int i) 0 b2a64A"
  "table_ok (\<lambda>i c. a2b64X ! of_char c = int i) 0 b2a64X"
  by (simp_all add: b2a32_def b2a32_rfc_def b2a64_def b2a64A_def b2a64X_def
      a2b32_def a2b32_rfc_def a2b64_def a2b64A_def a2b64X_def)

lemma alphabet_sizes:
  "length b2a32 = 32" "length b2a32_rfc = 32" "length b2a64 = 64" "length b2a64A = 64"
  "length b2a64X = 64"
  by (simp_all add: b2a32_def b2a32_rfc_def b2a64_def b2a64A_def b2a64X_def)

interpretation a32: armor_alphabet32 b2a32 a2b32
  by unfold_locales (use table_ok0D [OF alphabet_tables(1)] in \<open>auto simp: alphabet_sizes a2b32_def\<close>)

interpretation a32rfc: armor_alphabet32 b2a32_rfc a2b32_rfc
  by unfold_locales (use table_ok0D [OF alphabet_tables(2)] in \<open>auto simp: alphabet_sizes a2b32_rfc_def\<close>)

interpretation a64: armor_alphabet64 b2a64 a2b64
  by unfold_locales (use table_ok0D [OF alphabet_tables(3)] in \<open>auto simp: alphabet_sizes a2b64_def\<close>)

interpretation a64A: armor_alphabet64 b2a64A a2b64A
  by unfold_locales (use table_ok0D [OF alphabet_tables(4)] in \<open>auto simp: alphabet_sizes a2b64A_def\<close>)

interpretation a64X: armor_alphabet64 b2a64X a2b64X
  by unfold_locales (use table_ok0D [OF alphabet_tables(5)] in \<open>auto simp: alphabet_sizes a2b64X_def\<close>)

section \<open>Decoding arbitrary text\<close>

lemma scan_stops: "\<exists>n \<le> length s. armor32len_gen (cstr s) tab = Inr n" if "symval tab (CHR 0x00) < 0"
  using that by (induction s) auto

lemma dearmor32_gen_total:
  assumes "0 \<le> len" and "nat len \<le> length s"
  shows "\<exists>r. dearmor32_gen s len tab = Inr r"
  using assms length_dearmor32_loop [of "take (nat len) s" tab]
  by (auto simp: dearmor32_gen_def Let_def)

lemma four_elements: "4 \<le> length s \<Longrightarrow> \<exists>s0 s1 s2 s3 t. s = s0 # s1 # s2 # s3 # t"
  by (auto simp: numeral_eq_Suc Suc_le_length_iff)

lemma dearmor64_loop_drop:
  "4 * k \<le> length s \<Longrightarrow> 4 * int k - 4 < left \<Longrightarrow> left \<le> 4 * int k \<Longrightarrow>
   \<exists>d. dearmor64_loop a2b s left = Inr (d, drop (4 * k) s) \<and> length d = 3 * k"
proof (induction k arbitrary: s left)
  case (Suc k)
  then obtain s0 s1 s2 s3 t where s: "s = s0 # s1 # s2 # s3 # t"
    using four_elements [of s] by auto
  from Suc.prems obtain d where
    "dearmor64_loop a2b t (left - 4) = Inr (d, drop (4 * k) t)" "length d = 3 * k"
    using Suc.IH [of t "left - 4"] by (auto simp: s)
  with Suc.prems show ?case by (simp add: s numeral_eq_Suc)
qed simp

lemma dearmor64_last_total: "4 \<le> length s \<Longrightarrow> \<exists>d. dearmor64_last a2b s = Inr d \<and> length d \<le> 3"
  using four_elements [of s] by (auto simp: dearmor64_last_def Let_def)

lemma dearmor64_gen_total:
  assumes "4 * k \<le> length s"
  shows "\<exists>r. dearmor64_gen a2b s (4 * int k) = Inr r"
proof (cases k)
  case (Suc j)
  obtain d where d: "dearmor64_loop a2b s (4 * int k - 4) = Inr (d, drop (4 * j) s)" "length d = 3 * j"
    using dearmor64_loop_drop [of j s "4 * int k - 4" a2b] assms Suc by auto
  obtain d' where d': "dearmor64_last a2b (drop (4 * j) s) = Inr d'" "length d' \<le> 3"
  proof -
    have "4 \<le> length (drop (4 * j) s)" using assms Suc by simp
    from dearmor64_last_total [OF this] that show ?thesis by blast
  qed
  have "drop_bit 2 (4 * int k) = int k" by (simp add: drop_bit_eq_div)
  then show ?thesis
    using d d' Suc by (simp add: dearmor64_gen_def Let_def)
qed (simp add: dearmor64_gen_def)

lemma armor64len_gen_total:
  assumes "symval a2b (CHR 0x00) < 0"
  shows "\<exists>n. armor64len_gen a2b True (cstr s) = Inr n"
proof -
  obtain n where n: "n \<le> length s" "armor32len_gen (cstr s) a2b = Inr n"
    using scan_stops [OF assms, of s] by blast
  then show ?thesis
    by (cases "n < length s")
      (auto simp: armor64len_gen_def Let_def nth_append rd_def)
qed

lemma length_and_3: "int n AND 3 = 0 \<Longrightarrow> \<exists>k. n = 4 * k"
proof -
  assume "int n AND 3 = 0"
  moreover have "(3::int) = mask 2" by (simp add: mask_eq_exp_minus_1)
  ultimately have "int n mod 4 = 0" by (simp add: take_bit_eq_mask [symmetric] take_bit_eq_mod)
  then show ?thesis by presburger
qed

lemma dearmor64_str_gen_total:
  assumes "symval a2b (CHR 0x00) < 0"
  shows "\<exists>r. bindR (armor64len_gen a2b True (cstr asc)) (\<lambda>n.
           if n \<noteq> length asc then Inr None
           else if int (length asc) AND 3 \<noteq> 0 then Inr None
           else bindR (dearmor64_gen a2b (cstr asc) (int (length asc))) (\<lambda>b. Inr (Some b))) = Inr r"
proof -
  obtain n where n: "armor64len_gen a2b True (cstr asc) = Inr n"
    using armor64len_gen_total [OF assms] by blast
  have "\<exists>b. dearmor64_gen a2b (cstr asc) (int (length asc)) = Inr b" if m: "int (length asc) AND 3 = 0"
  proof -
    obtain k where "length asc = 4 * k" using length_and_3 [OF m] by blast
    then show ?thesis using dearmor64_gen_total [of k "cstr asc" a2b] by simp
  qed
  with n show ?thesis by auto
qed

section \<open>Properties\<close>

text \<open>
  C15. Base 32, in the SFS alphabet and in the RFC alphabet: encoding never trips its length assertion,
  and decoding the encoded \<open>str\<close> gives back the data.
\<close>

theorem armor32_roundtrip:
  "(\<exists>a. armor32 bs = Inr a \<and> dearmor32_str a = Inr (Some bs)) \<and>
   (\<exists>a. armor32_rfc bs = Inr a \<and> dearmor32_rfc_str a = Inr (Some bs))"
  using a32.gen_roundtrip32 [of bs "[CHR 0x00]"] a32rfc.gen_roundtrip32 [of bs "[CHR 0x00]"]
    a32.scan32 [of bs "[]"] a32rfc.scan32 [of bs "[]"]
  by (simp add: armor32_def armor32_rfc_def armor32_gen_ok dearmor32_str_def dearmor32_rfc_str_def
      armor32len_def armor32len_rfc_def dearmor32_def dearmor32_rfc_def)

text \<open>
  C18. Base 64, in the RFC 1521 alphabet, the padless file name alphabet A and the alphabet X:
  encoding never trips its assertion, and decoding the encoded \<open>str\<close> gives back the data.
\<close>

theorem armor64_roundtrip:
  "(\<exists>a. armor64 bs = Inr a \<and> dearmor64_str a = Inr (Some bs)) \<and>
   (\<exists>a. armor64A bs = Inr a \<and> dearmor64A_str a = Inr (Some bs)) \<and>
   (\<exists>a. armor64X bs = Inr a \<and> dearmor64X_str a = Inr (Some bs))"
proof -
  have and3: "int (length (enc64 b2a True bs)) AND 3 = 0" for b2a
  proof -
    have "int (length (enc64 b2a True bs)) AND mask 2 = int (length (enc64 b2a True bs) mod 4)"
      by (simp add: take_bit_eq_mask [symmetric] take_bit_eq_mod zmod_int)
    then show ?thesis by (simp add: length_enc64_pad mask_eq_exp_minus_1)
  qed
  show ?thesis
    using a64.gen_roundtrip64 [of True bs "[]"] a64A.gen_roundtrip64 [of False bs "[]"]
      a64X.gen_roundtrip64 [of True bs "[]"]
      a64.scan64 [of True bs "[]"] a64A.scan64 [of False bs "[]"] a64X.scan64 [of True bs "[]"] and3
    by (simp add: armor64_def armor64A_def armor64X_def armor64_gen_enc64 dearmor64_str_def
        dearmor64A_str_def dearmor64X_str_def armor64len_def armor64Alen_def armor64Xlen_def
        dearmor64_def dearmor64A_def dearmor64X_def)
qed


text \<open>
  C20. \<open>dearmor64A\<close> does no such length check: any \<open>str\<close> of alphabet A symbols whose length is one
  more than a multiple of four makes it read past the terminating NUL.
\<close>

theorem dearmor64A_overread:
  assumes "list_all (\<lambda>c. 0 \<le> symval a2b64A c) asc" and "length asc mod 4 = 1"
  shows "dearmor64A_str asc = Inl OutOfRange"
proof -
  obtain k where k: "length asc = 4 * k + 1" using assms(2) by (metis mult_div_mod_eq)
  have scan: "armor64Alen (cstr asc) = Inr (length asc)"
    using a64A.scan_symbols [OF _ a64A.nul_no_symbol, of asc "[]"] assms(1)
    by (simp add: armor64Alen_def armor64len_gen_def list_all_iff)
  obtain d where "dearmor64_loop a2b64A (cstr asc) (int (length asc) - 4) = Inr (d, drop (4 * k) (cstr asc))"
    using dearmor64_loop_drop [of k "cstr asc" "int (length asc) - 4" a2b64A] k by auto
  moreover have "dearmor64_last a2b64A (drop (4 * k) (cstr asc)) = Inl OutOfRange"
    using k by (simp add: dearmor64_last_def rd_def Let_def)
  ultimately show ?thesis
    using k by (simp add: dearmor64A_str_def scan dearmor64A_def dearmor64_gen_def Let_def)
qed

theorem dearmor64A_overread_witness:
  "list_all (\<lambda>c. 0 \<le> symval a2b64A c) ''AAAAA'' \<and> length ''AAAAA'' mod 4 = 1 \<and>
   dearmor64A_str ''AAAAA'' = Inl OutOfRange"
proof -
  have h: "list_all (\<lambda>c. 0 \<le> symval a2b64A c) ''AAAAA''" by (simp add: a2b64A_def)
  moreover have l: "length ''AAAAA'' mod 4 = 1" by simp
  ultimately show ?thesis using dearmor64A_overread [OF h l] by blast
qed

text \<open>
  With the default length argument \<open>-1\<close>, \<open>dearmor32\<close> finds the end of the encoded text itself and
  decodes it, but \<open>dearmor32_rfc\<close> measures it with the table of the other alphabet, which has no
  \<open>l\<close> and no \<open>o\<close>: the encoding \<open>la\<close> of the byte 88 is decoded to no bytes at all.
\<close>

lemma dearmor32_default_length:
  "(\<exists>a. armor32 bs = Inr a \<and> dearmor32 (cstr a) (-1) = Inr (Some bs)) \<and>
   armor32_rfc [88] = Inr ''la'' \<and> dearmor32_rfc (cstr ''la'') (-1) = Inr (Some []) \<and>
   dearmor32_rfc (cstr ''la'') 2 = Inr (Some [88])"
proof -
  have "dearmor32_gen (cstr (armor32_loop b2a32 bs)) (-1) a2b32 = Inr (Some bs)"
    using a32.gen_roundtrip32 [of bs "[CHR 0x00]"] a32.scan32 [of bs "[]"]
    by (simp add: dearmor32_gen_def armor32len_def)
  then have "\<exists>a. armor32 bs = Inr a \<and> dearmor32 (cstr a) (-1) = Inr (Some bs)"
    by (simp add: armor32_def armor32_gen_ok dearmor32_def)
  moreover have "armor32_rfc [88] = Inr ''la''"
    by (simp add: armor32_rfc_def armor32_gen_ok b2a32_rfc_def)
  moreover have "dearmor32_rfc (cstr ''la'') (-1) = Inr (Some [])"
    by (simp add: dearmor32_rfc_def dearmor32_gen_def armor32len_def a2b32_def a2b32rem_def)
  moreover have "dearmor32_rfc (cstr ''la'') 2 = Inr (Some [88])"
    by (simp add: dearmor32_rfc_def dearmor32_gen_def a2b32_rfc_def a2b32rem_def)
  ultimately show ?thesis by blast
qed

end
