(* ===== verification/Axprt_Pipe.thy ===== *)
theory Axprt_Pipe
  imports Serial Suio
begin

text \<open>
  The packet transport over a pair of pipes, \<open>axprt_pipe\<close> of \<open>arpc/axprt.h\<close> and \<open>arpc/axprt_pipe.C\<close>:
  record marking over a byte stream, with a receive buffer and an output queue, and \<open>axprt_stream\<close> on
  top of it.

  The state is the world of \<open>Suio\<close> and the record of the object. Two of its fields are observations and
  not memory of the object: \<open>wire\<close>, the bytes the kernel has taken, and \<open>delivered\<close>, the calls of the
  receive callback. The callback is an argument \<open>k\<close> of every operation that can reach it: it may change
  the object through its public operations, so it is a function of the whole state that can end in a
  fault. What \<open>read\<close> and \<open>writev\<close> return is an argument; \<open>close\<close>, \<open>fcntl\<close> and the event loop's
  \<open>fdcb\<close> are reduced to the flags \<open>rcbset\<close> and \<open>wcbset\<close> and the descriptor fields.
\<close>

section \<open>State\<close>

datatype recv = Pkt "u8 list" | Eof

record axprt_pipe =
  destroyed :: bool
  ingetpkt :: bool
  syncpts :: "nat list"
  pktsize :: nat
  bufsize :: nat
  fdread :: int
  fdwrite :: int
  cb :: bool                      \<comment> \<open>whether a receive callback is set\<close>
  pktlen :: nat
  pktbuf :: "u8 list option"
  outq :: suio
  wcbset :: bool
  rcbset :: bool                  \<comment> \<open>whether the event loop watches \<open>fdread\<close>\<close>
  foosp :: bool
  raw_bytes_sent :: nat
  bytes_sent :: nat
  bytes_recv :: nat
  suio_clear_interval :: nat      \<comment> \<open>\<open>sfs_const::axprt_suio_clear_interval\<close>\<close>
  wire :: "u8 list"
  delivered :: "recv list"

type_synonym pst = "world \<times> axprt_pipe"
type_synonym client = "recv \<Rightarrow> pst \<Rightarrow> pst res"

definition axprt_pipe_new :: "int \<Rightarrow> int \<Rightarrow> nat \<Rightarrow> nat \<Rightarrow> nat \<Rightarrow> addr \<Rightarrow> axprt_pipe" where
  "axprt_pipe_new rfd wfd ps bs ci db =
     \<lparr>destroyed = False, ingetpkt = False, syncpts = [], pktsize = ps,
      bufsize = (if bs \<noteq> 0 then bs else ps + 4), fdread = rfd, fdwrite = wfd, cb = False, pktlen = 0,
      pktbuf = None, outq = suio_new db, wcbset = False, rcbset = False, foosp = False,
      raw_bytes_sent = 0, bytes_sent = 0, bytes_recv = 0, suio_clear_interval = ci, wire = [],
      delivered = []\<rparr>"

definition ateof :: "axprt_pipe \<Rightarrow> bool" where "ateof p \<longleftrightarrow> fdread p < 0"
definition outlen :: "axprt_pipe \<Rightarrow> nat" where "outlen p = resid (outq p)"

definition set_fail_on_oversized_packet :: "bool \<Rightarrow> axprt_pipe \<Rightarrow> axprt_pipe" where
  "set_fail_on_oversized_packet b p = p\<lparr>foosp := b\<rparr>"

text \<open>\<open>(*cb) (pkt, len, NULL)\<close>\<close>

definition callcb :: "client \<Rightarrow> recv \<Rightarrow> pst \<Rightarrow> pst res" where
  "callcb k ev st = (case st of (w, p) \<Rightarrow> k ev (w, p\<lparr>delivered := delivered p @ [ev]\<rparr>))"

text \<open>An operation of the queue lifted to the transport.\<close>

definition on_out :: "(sst \<Rightarrow> sst res) \<Rightarrow> pst \<Rightarrow> pst res" where
  "on_out f st = (case st of (w, p) \<Rightarrow> bindR (f (w, outq p)) (\<lambda>(w, s). Inr (w, p\<lparr>outq := s\<rparr>)))"

section \<open>Failure\<close>

definition fail :: "client \<Rightarrow> pst \<Rightarrow> pst res" where
  "fail k st =
     (case st of (w, p) \<Rightarrow>
        let p = (if fdread p \<ge> 0 then p\<lparr>rcbset := False\<rparr> else p);
            p = (if fdwrite p \<ge> 0 then p\<lparr>wcbset := False\<rparr> else p);
            p = p\<lparr>fdread := -1, fdwrite := -1\<rparr>
        in if \<not> destroyed p
           then bindR (if cb p \<and> \<not> ingetpkt p then callcb k Eof (w, p) else Inr (w, p)) (on_out suio_clear)
           else Inr (w, p))"

definition recvbreak :: "client \<Rightarrow> pst \<Rightarrow> pst res" where
  "recvbreak k st = fail k st"

definition reclaim :: "client \<Rightarrow> pst \<Rightarrow> ((int \<times> int) \<times> pst) res" where
  "reclaim k st =
     (case st of (w, p) \<Rightarrow>
        let p = (if fdread p \<ge> 0 then p\<lparr>rcbset := False\<rparr> else p);
            p = (if fdwrite p \<ge> 0 then p\<lparr>wcbset := False\<rparr> else p);
            r = (fdread p, fdwrite p)
        in bindR (fail k (w, p\<lparr>fdread := -1, fdwrite := -1\<rparr>)) (\<lambda>st. Inr (r, st)))"

text \<open>\<open>axprt_stream::reclaim\<close>\<close>

definition stream_reclaim :: "client \<Rightarrow> pst \<Rightarrow> (int \<times> pst) res" where
  "stream_reclaim k st =
     bindR (reclaim k st) (\<lambda>((r, w), st). bindR (guardR AssertFail (r = w)) (\<lambda>_. Inr (r, st)))"

section \<open>Output\<close>

definition wrsync :: "axprt_pipe \<Rightarrow> axprt_pipe" where
  "wrsync p =
     (let n = iovno (outq p) + iovcnt (outq p)
      in if syncpts p \<noteq> [] \<and> last (syncpts p) = n then p
         else p\<lparr>syncpts := syncpts p @ [n], outq := breakiov (outq p)\<rparr>)"

definition dowritev :: "int \<Rightarrow> wres list \<Rightarrow> pst \<Rightarrow> (int \<times> wres list \<times> pst) res" where
  "dowritev cnt script st =
     (case st of (w, p) \<Rightarrow>
        bindR (suio_output cnt script (w, outq p)) (\<lambda>(n, script, (w, s), sent).
          Inr (n, script, (w, p\<lparr>outq := s, wire := wire p @ sent\<rparr>))))"

lemma dowritev_script:
  assumes "dowritev cnt script st = Inr (n, script', st')" "0 < n"
  shows "length script' < length script"
proof -
  obtain w p where "st = (w, p)" by fastforce
  with assms show ?thesis
    using suio_output_script by (auto simp: dowritev_def bindR_eq_Inr)
qed

text \<open>The loop of \<open>output\<close>: write up to the next synchronisation point until nothing more goes out.\<close>

function output_sync :: "wres list \<Rightarrow> pst \<Rightarrow> (int \<times> pst) res" where
  "output_sync script st =
     (case st of (w, p) \<Rightarrow>
        let p = p\<lparr>syncpts := dropWhile (\<lambda>n. n \<le> iovno (outq p)) (syncpts p)\<rparr>;
            cnt = (if syncpts p = [] then -1 else int (hd (syncpts p)) - int (iovno (outq p)))
        in bindR (dowritev cnt script (w, p)) (\<lambda>(n, script', st').
             if 0 < n then output_sync script' st' else Inr (n, st')))"
  by pat_completeness auto
termination
  by (relation "measure (length \<circ> fst)") (auto dest: dowritev_script)

definition axprt_output :: "client \<Rightarrow> wres list \<Rightarrow> pst \<Rightarrow> pst res" where
  "axprt_output k script st =
     bindR (output_sync script st) (\<lambda>(n, (w, p)).
     bindR (if n < 0 then fail k (w, p)
            else if resid (outq p) \<noteq> 0 \<and> \<not> wcbset p then Inr (w, p\<lparr>wcbset := True\<rparr>)
            else if resid (outq p) = 0 \<and> wcbset p then Inr (w, p\<lparr>wcbset := False\<rparr>)
            else Inr (w, p)) (\<lambda>(w, p).
       if resid (outq p) = 0 \<and> suio_clear_interval p \<noteq> 0 then on_out suio_clear (w, p) else Inr (w, p)))"

definition setwcb :: "nat \<Rightarrow> pst \<Rightarrow> pst res" where
  "setwcb c st =
     (case st of (w, p) \<Rightarrow>
        bindR (guardR AssertFail (\<not> destroyed p)) (\<lambda>_.
          if resid (outq p) \<noteq> 0 then on_out (\<lambda>ws. Inr (iovcb (UserCb c) ws)) (w, p)
          else Inr (runcb (UserCb c) w, p)))"

text \<open>\<open>sendbreak\<close>: four zero bytes, which \<open>print\<close> copies because they are few.\<close>

definition sendbreak :: "allocator \<Rightarrow> client \<Rightarrow> nat option \<Rightarrow> wres list \<Rightarrow> pst \<Rightarrow> pst res" where
  "sendbreak al k c script st =
     bindR (on_out (suio_copy al [0, 0, 0, 0]) st) (\<lambda>st.
     bindR (case c of None \<Rightarrow> Inr st | Some i \<Rightarrow> on_out (\<lambda>ws. Inr (iovcb (UserCb i) ws)) st) (\<lambda>(w, p).
       axprt_output k script (w, wrsync p)))"

text \<open>The header word of a packet of \<open>len\<close> bytes.\<close>

definition rechdr :: "u32 \<Rightarrow> u8 list" where
  "rechdr len = putint (0x80000000 OR len)"

definition sendv :: "allocator \<Rightarrow> client \<Rightarrow> u8 list list \<Rightarrow> wres list \<Rightarrow> pst \<Rightarrow> (bool \<times> pst) res" where
  "sendv al k iov script st =
     (case st of (w, p) \<Rightarrow>
        bindR (guardR AssertFail (\<not> destroyed p)) (\<lambda>_.
        let len = (word_of_nat (iovsize iov) :: u32) in
        bindR (guardR PanicCall (0 \<le> fdwrite p)) (\<lambda>_.
        if pktsize p < unat len
        then bindR (if foosp p then fail k (w, p) else Inr (w, p)) (\<lambda>st. Inr (False, st))
        else
          let p = p\<lparr>bytes_sent := bytes_sent p + unat len, raw_bytes_sent := raw_bytes_sent p + unat len + 4\<rparr>;
              hdr = rechdr len
          in if resid (outq p) = 0 \<and> length iov < min 16 uio_maxiov
             then let niov = hdr # iov
                  in case script of
                       WError # script \<Rightarrow> bindR (fail k (w, p)) (\<lambda>st. Inr (False, st))
                     | _ \<Rightarrow>
                         let skip = (case script of Wrote n # _ \<Rightarrow> min n (iovsize niov) | _ \<Rightarrow> 0);
                             p = p\<lparr>wire := wire p @ take skip (concat niov)\<rparr>
                         in bindR (on_out (suio_copyv al niov skip) (w, p)) (\<lambda>st.
                            bindR (axprt_output k (drop 1 script) st) (\<lambda>st. Inr (True, st)))
             else bindR (on_out (suio_copy al hdr) (w, p)) (\<lambda>st.
                  bindR (on_out (suio_copyv al iov 0) st) (\<lambda>st.
                  bindR (axprt_output k script st) (\<lambda>st. Inr (True, st)))))))"

section \<open>Input\<close>

definition checklen :: "client \<Rightarrow> u32 \<Rightarrow> pst \<Rightarrow> (u32 option \<times> pst) res" where
  "checklen k len st =
     (if len AND 0x80000000 = 0 then bindR (fail k st) (\<lambda>st. Inr (None, st))
      else
        let len = len AND 0x7fffffff
        in if pktsize (snd st) < unat len then bindR (fail k st) (\<lambda>st. Inr (None, st))
           else Inr (Some len, st))"

text \<open>\<open>getpkt\<close>: whether to go on, and the offset in the buffer reached. \<open>cp\<close> and \<open>eom\<close> are offsets.\<close>

definition getpkt :: "client \<Rightarrow> nat \<Rightarrow> nat \<Rightarrow> pst \<Rightarrow> (bool \<times> nat \<times> pst) res" where
  "getpkt k cp eom st =
     (if \<not> cb (snd st) \<or> eom - cp < 4 then Inr (False, cp, st)
      else
        bindR (case pktbuf (snd st) of None \<Rightarrow> Inl OutOfRange | Some b \<Rightarrow> Inr b) (\<lambda>buf.
        bindR (getint (drop cp buf)) (\<lambda>len.
          let cp' = cp + 4
          in if len = 0 then bindR (recvbreak k st) (\<lambda>st. Inr (True, cp', st))
             else bindR (checklen k len st) (\<lambda>(r, st).
                    case r of
                      None \<Rightarrow> Inr (False, cp, st)
                    | Some len \<Rightarrow>
                        if eom - cp' < unat len then Inr (False, cp, st)
                        else bindR (callcb k (Pkt (take (unat len) (drop cp' buf))) st) (\<lambda>st.
                               Inr (True, cp' + unat len, st))))))"

lemma getpkt_progress:
  "getpkt k cp eom st = Inr (True, cp', st') \<Longrightarrow> cp + 4 \<le> cp' \<and> cp + 4 \<le> eom"
  by (auto simp: getpkt_def Let_def bindR_eq_Inr split: if_splits option.splits)

text \<open>\<open>while (cb && getpkt (&cp, eom))\<close>\<close>

function getpkts :: "client \<Rightarrow> nat \<Rightarrow> nat \<Rightarrow> pst \<Rightarrow> (nat \<times> pst) res" where
  "getpkts k cp eom st =
     (if \<not> cb (snd st) then Inr (cp, st)
      else bindR (getpkt k cp eom st) (\<lambda>(go, cp', st').
             if go then getpkts k cp' eom st' else Inr (cp', st')))"
  by pat_completeness auto
termination
  by (relation "measure (\<lambda>(k, cp, eom, st). eom - cp)") (auto dest!: getpkt_progress)

definition callgetpkt :: "client \<Rightarrow> pst \<Rightarrow> pst res" where
  "callgetpkt k st =
     (case st of (w, p) \<Rightarrow>
        if ingetpkt p then Inr (w, p)
        else
          let eom = pktlen p
          in bindR (getpkts k 0 eom (w, p\<lparr>ingetpkt := True\<rparr>)) (\<lambda>(cp, (w, p)).
             bindR (if ateof p
                    then (if cb p then callcb k Eof (w, p) else Inr (w, p))
                    else
                      let p = (case pktbuf p of
                                 None \<Rightarrow> p
                               | Some b \<Rightarrow> p\<lparr>pktbuf := Some (take (eom - cp) (drop cp b) @ drop (eom - cp) b)\<rparr>);
                          p = p\<lparr>pktlen := pktlen p - cp\<rparr>;
                          p = (if pktlen p = 0 then p\<lparr>pktbuf := None\<rparr> else p)
                      in bindR (guardR AssertFail (pktlen p < pktsize p)) (\<lambda>_. Inr (w, p))) (\<lambda>(w, p).
               Inr (w, p\<lparr>ingetpkt := False\<rparr>))))"

definition getbuf :: "axprt_pipe \<Rightarrow> u8 list" where
  "getbuf p = (case pktbuf p of None \<Rightarrow> replicate (bufsize p) 0 | Some b \<Rightarrow> b)"

text \<open>\<open>input\<close>: a read of at most the room left in the buffer.\<close>

definition axprt_input :: "client \<Rightarrow> rres \<Rightarrow> bool \<Rightarrow> pst \<Rightarrow> pst res" where
  "axprt_input k r eagain st =
     (case st of (w, p) \<Rightarrow>
        if fdread p < 0 then Inr (w, p)
        else
          let p = p\<lparr>pktbuf := Some (getbuf p)\<rparr>
          in case r of
               RdError \<Rightarrow> (if eagain then Inr (w, p) else fail k (w, p))
             | RdBytes bs \<Rightarrow>
                 bindR (guardR OutOfRange (length bs \<le> bufsize p - pktlen p)) (\<lambda>_.
                   if bs = [] then fail k (w, p)
                   else
                     let b = getbuf p;
                         p = p\<lparr>pktbuf := Some (take (pktlen p) b @ bs @ drop (pktlen p + length bs) b),
                               bytes_recv := bytes_recv p + length bs, pktlen := pktlen p + length bs\<rparr>
                     in callgetpkt k (w, p)))"

definition setrcb :: "client \<Rightarrow> bool \<Rightarrow> pst \<Rightarrow> pst res" where
  "setrcb k c st =
     (case st of (w, p) \<Rightarrow>
        bindR (guardR AssertFail (\<not> destroyed p)) (\<lambda>_.
          let p = p\<lparr>cb := c\<rparr>
          in if fdread p \<ge> 0
             then (if c then let p = p\<lparr>rcbset := True\<rparr>
                             in if pktlen p \<noteq> 0 then callgetpkt k (w, p) else Inr (w, p)
                   else Inr (w, p\<lparr>rcbset := False\<rparr>))
             else if c then callcb k Eof (w, p) else Inr (w, p)))"

definition ungetpkt :: "client \<Rightarrow> u8 list \<Rightarrow> pst \<Rightarrow> pst res" where
  "ungetpkt k pkt st =
     (case st of (w, p) \<Rightarrow>
        bindR (guardR AssertFail (length pkt \<le> pktsize p)) (\<lambda>_.
        bindR (guardR AssertFail (pktlen p = 0)) (\<lambda>_.
        bindR (guardR OutOfRange (length pkt + 4 \<le> bufsize p)) (\<lambda>_.
          let b = getbuf p;
              p = p\<lparr>pktlen := length pkt + 4,
                    pktbuf := Some (rechdr (word_of_nat (length pkt)) @ pkt @ drop (length pkt + 4) b)\<rparr>
          in if cb p then callgetpkt k (w, p) else Inr (w, p)))))"

text \<open>\<open>poll\<close>: \<open>readable\<close> is what the second \<open>fdwait\<close> reports.\<close>

definition axprt_poll :: "client \<Rightarrow> bool \<Rightarrow> rres \<Rightarrow> bool \<Rightarrow> wres list \<Rightarrow> pst \<Rightarrow> pst res" where
  "axprt_poll k readable r eagain script st =
     (case st of (w, p) \<Rightarrow>
        bindR (guardR AssertFail (cb p)) (\<lambda>_.
        bindR (guardR AssertFail (\<not> ateof p)) (\<lambda>_.
        bindR (guardR PanicCall (\<not> ingetpkt p)) (\<lambda>_.
          if \<not> wcbset p \<or> readable then axprt_input k r eagain (w, p) else axprt_output k script (w, p)))))"

text \<open>The destructor: a last attempt to write, then \<open>fail\<close> and the end of the queue and the buffer.\<close>

definition axprt_pipe_delete :: "client \<Rightarrow> wres list \<Rightarrow> pst \<Rightarrow> pst res" where
  "axprt_pipe_delete k script st =
     (case st of (w, p) \<Rightarrow>
        let p = p\<lparr>destroyed := True\<rparr>
        in bindR (if 0 \<le> fdwrite p \<and> resid (outq p) \<noteq> 0 then axprt_output k script (w, p) else Inr (w, p)) (\<lambda>st.
           bindR (fail k st) (\<lambda>st.
           bindR (on_out suio_clear st) (\<lambda>(w, p). Inr (w, p\<lparr>pktbuf := None\<rparr>)))))"

section \<open>Frames\<close>

definition frame :: "u8 list \<Rightarrow> u8 list" where
  "frame pkt = rechdr (word_of_nat (length pkt)) @ pkt"

definition frames :: "u8 list list \<Rightarrow> u8 list" where
  "frames pkts = concat (map frame pkts)"

lemma frames_simps [simp]: "frames [] = []" "frames (p # ps) = frame p @ frames ps" "frames (ps @ qs) = frames ps @ frames qs"
  by (simp_all add: frames_def)

lemma length_frame [simp]: "length (frame pkt) = length pkt + 4"
  by (simp add: frame_def rechdr_def)

lemma or_and_mask: "(push_bit m 1 OR a) AND mask m = a AND mask m" for a :: "'a::len word"
  by (rule bit_eqI) (auto simp: bit_simps)

lemma hdr_word:
  assumes "n < 2 ^ 31"
  defines "len \<equiv> (0x80000000 OR word_of_nat n :: u32)"
  shows "len \<noteq> 0" "len AND 0x80000000 \<noteq> 0" "unat (len AND 0x7fffffff) = n"
proof -
  have b: "bit len 31" by (simp add: len_def bit_simps)
  then show "len \<noteq> 0" by auto
  have "bit (len AND 0x80000000) 31" using b by (simp add: bit_simps)
  then show "len AND 0x80000000 \<noteq> 0" by auto
  have num: "(0x80000000 :: u32) = push_bit 31 1" "(0x7fffffff :: u32) = mask 31"
    by (simp_all add: push_bit_eq_mult mask_eq_exp_minus_1)
  have "len AND 0x7fffffff = (word_of_nat n AND mask 31 :: u32)"
    unfolding len_def num by (rule or_and_mask)
  then show "unat (len AND 0x7fffffff) = n"
    using assms(1) by (simp only: unat_and_mask_mod) (simp add: unsigned_of_nat take_bit_nat_eq_self)
qed

text \<open>What the receive path reads of the object, and a client that leaves it alone.\<close>

definition rxview :: "axprt_pipe \<Rightarrow> bool \<times> u8 list option \<times> nat \<times> bool \<times> int \<times> nat \<times> nat \<times> recv list" where
  "rxview p = (cb p, pktbuf p, pktlen p, ingetpkt p, fdread p, pktsize p, bufsize p, delivered p)"

definition rx_passive :: "client \<Rightarrow> bool" where
  "rx_passive k \<longleftrightarrow> (\<forall>ev st. \<exists>st'. k ev st = Inr st' \<and> rxview (snd st') = rxview (snd st))"

definition small_pkts :: "nat \<Rightarrow> u8 list list \<Rightarrow> bool" where
  "small_pkts n pkts \<longleftrightarrow> list_all (\<lambda>pkt. length pkt \<le> n \<and> length pkt < 2 ^ 31) pkts"

lemma callcb_passive:
  assumes "rx_passive k"
  shows "\<exists>w' p'. callcb k ev (w, p) = Inr (w', p') \<and> rxview p' = rxview (p\<lparr>delivered := delivered p @ [ev]\<rparr>)"
proof -
  obtain st' where "k ev (w, p\<lparr>delivered := delivered p @ [ev]\<rparr>) = Inr st'"
    "rxview (snd st') = rxview (p\<lparr>delivered := delivered p @ [ev]\<rparr>)"
    using assms unfolding rx_passive_def by (metis snd_conv)
  then show ?thesis by (cases st') (simp add: callcb_def)
qed

lemma take_drop_split: "take n (drop i xs) = ys @ zs \<Longrightarrow> take (n - length ys) (drop (i + length ys) xs) = zs"
  by (metis add.commute append_eq_conv_conj drop_drop drop_take)

lemma getpkt_frame:
  assumes "cb p" "pktbuf p = Some buf" "take (eom - cp) (drop cp buf) = frame pkt @ suf" "length pkt < 2 ^ 31"
    "length pkt \<le> pktsize p"
  shows "getpkt k cp eom (w, p) = bindR (callcb k (Pkt pkt) (w, p)) (\<lambda>st. Inr (True, cp + length (frame pkt), st))"
proof -
  have len: "length pkt + 4 + length suf \<le> eom - cp" "length pkt + 4 + length suf \<le> length (drop cp buf)"
    using arg_cong [OF assms(3), of length] by simp_all
  obtain tail where d: "drop cp buf = frame pkt @ tail"
    using assms(3) by (metis append_take_drop_id append.assoc)
  have "drop (cp + 4) buf = pkt @ tail"
    using d by (metis (no_types) add.commute append_eq_conv_conj drop_drop frame_def append.assoc rechdr_def length_put(2))
  moreover have "\<not> eom - (cp + 4) < length pkt" "\<not> eom - cp < 4" using len by simp_all
  ultimately show ?thesis
    using assms(1,2,4,5) hdr_word [OF assms(4)]
    by (simp add: getpkt_def d frame_def rechdr_def checklen_def Let_def add.assoc)
qed

lemma getpkt_partial:
  assumes "cb p" "pktbuf p = Some buf" "take (eom - cp) (drop cp buf) @ fut = frame pkt @ suf" "eom \<le> length buf"
    "eom - cp < length (frame pkt)" "length pkt < 2 ^ 31" "length pkt \<le> pktsize p"
  shows "getpkt k cp eom (w, p) = Inr (False, cp, (w, p))"
proof (cases "eom - cp < 4")
  case False
  then have l: "length (take (eom - cp) (drop cp buf)) = eom - cp" "4 \<le> eom - cp" using assms(4) by simp_all
  have "take 4 (take (eom - cp) (drop cp buf)) = take 4 (frame pkt)"
    using arg_cong [OF assms(3), of "take 4"] l by simp
  then have "take 4 (drop cp buf) = rechdr (word_of_nat (length pkt))"
    using l by (simp add: frame_def rechdr_def min_def)
  then have d: "drop cp buf = rechdr (word_of_nat (length pkt)) @ drop (cp + 4) buf"
    by (metis append_take_drop_id drop_drop add.commute)
  have "eom - (cp + 4) < length pkt" using assms(5) False by simp
  then show ?thesis
    using assms(1,2,5,6,7) False hdr_word [OF assms(6)]
    by (simp add: getpkt_def Let_def, subst d, simp add: rechdr_def checklen_def Let_def)
qed (simp add: getpkt_def)

lemma rxview_eqs: "rxview p' = rxview p \<longleftrightarrow> cb p' = cb p \<and> pktbuf p' = pktbuf p \<and> pktlen p' = pktlen p \<and>
   ingetpkt p' = ingetpkt p \<and> fdread p' = fdread p \<and> pktsize p' = pktsize p \<and> bufsize p' = bufsize p \<and>
   delivered p' = delivered p"
  by (auto simp: rxview_def)

lemma getpkts_frames:
  assumes "rx_passive k"
  shows "cb p \<Longrightarrow> pktbuf p = Some buf \<Longrightarrow> eom \<le> length buf \<Longrightarrow> cp \<le> eom \<Longrightarrow>
    take (eom - cp) (drop cp buf) @ fut = frames pkts \<Longrightarrow> small_pkts (pktsize p) pkts \<Longrightarrow>
    \<exists>cp' w' p' pkts1 pkts2. getpkts k cp eom (w, p) = Inr (cp', (w', p')) \<and> pkts = pkts1 @ pkts2 \<and>
      rxview p' = rxview (p\<lparr>delivered := delivered p @ map Pkt pkts1\<rparr>) \<and> cp \<le> cp' \<and> cp' \<le> eom \<and>
      take (eom - cp') (drop cp' buf) @ fut = frames pkts2 \<and>
      (case pkts2 of [] \<Rightarrow> cp' = eom | pkt # _ \<Rightarrow> eom - cp' < length (frame pkt))"
proof (induction pkts arbitrary: cp w p)
  case Nil
  then have "cp = eom" by auto
  then have "getpkts k cp eom (w, p) = Inr (cp, (w, p))" by (simp add: getpkt_def)
  then show ?case using Nil \<open>cp = eom\<close>
    by (intro exI [of _ cp] exI [of _ w] exI [of _ p] exI [of _ "[]"]) auto
next
  case (Cons pkt pkts)
  have sm: "length pkt < 2 ^ 31" "length pkt \<le> pktsize p" "small_pkts (pktsize p) pkts"
    using Cons.prems(6) by (auto simp: small_pkts_def)
  show ?case
  proof (cases "eom - cp < length (frame pkt)")
    case True
    have "getpkt k cp eom (w, p) = Inr (False, cp, (w, p))"
      using getpkt_partial [of p buf eom cp fut pkt "frames pkts" k w] Cons.prems sm True by simp
    then have "getpkts k cp eom (w, p) = Inr (cp, (w, p))" by simp
    then show ?thesis using Cons.prems True
      by (intro exI [of _ cp] exI [of _ w] exI [of _ p] exI [of _ "[]"] exI [of _ "pkt # pkts"]) (auto simp: rxview_eqs)
  next
    case False
    have l: "length (take (eom - cp) (drop cp buf)) = eom - cp" using Cons.prems(3) by simp
    define suf where "suf = drop (length (frame pkt)) (take (eom - cp) (drop cp buf))"
    have "take (length (frame pkt)) (take (eom - cp) (drop cp buf)) = frame pkt"
      using arg_cong [OF Cons.prems(5), of "take (length (frame pkt))"] False l by simp
    then have m: "take (eom - cp) (drop cp buf) = frame pkt @ suf"
      unfolding suf_def by (metis append_take_drop_id)
    then have m2: "suf @ fut = frames pkts" using Cons.prems(5) by simp
    obtain w1 p1 where c: "callcb k (Pkt pkt) (w, p) = Inr (w1, p1)"
      "rxview p1 = rxview (p\<lparr>delivered := delivered p @ [Pkt pkt]\<rparr>)"
      using callcb_passive [OF assms] by blast
    have g: "getpkt k cp eom (w, p) = Inr (True, cp + length (frame pkt), (w1, p1))"
      using getpkt_frame [OF Cons.prems(1,2) m sm(1,2)] c by simp
    have m': "take (eom - (cp + length (frame pkt))) (drop (cp + length (frame pkt)) buf) = suf"
      using take_drop_split [OF m] by simp
    have "\<exists>cp' w' p' pkts1 pkts2. getpkts k (cp + length (frame pkt)) eom (w1, p1) = Inr (cp', (w', p')) \<and> pkts = pkts1 @ pkts2 \<and>
      rxview p' = rxview (p1\<lparr>delivered := delivered p1 @ map Pkt pkts1\<rparr>) \<and> cp + length (frame pkt) \<le> cp' \<and> cp' \<le> eom \<and>
      take (eom - cp') (drop cp' buf) @ fut = frames pkts2 \<and>
      (case pkts2 of [] \<Rightarrow> cp' = eom | pkt # _ \<Rightarrow> eom - cp' < length (frame pkt))"
    proof (rule Cons.IH)
      show "take (eom - (cp + length (frame pkt))) (drop (cp + length (frame pkt)) buf) @ fut = frames pkts"
        using m' m2 by simp
    qed (use c(2) Cons.prems sm False in \<open>auto simp: rxview_eqs\<close>)
    then obtain cp' w' p' pkts1 pkts2 where ih: "getpkts k (cp + length (frame pkt)) eom (w1, p1) = Inr (cp', (w', p'))"
      "pkts = pkts1 @ pkts2" "rxview p' = rxview (p1\<lparr>delivered := delivered p1 @ map Pkt pkts1\<rparr>)"
      "cp + length (frame pkt) \<le> cp'" "cp' \<le> eom" "take (eom - cp') (drop cp' buf) @ fut = frames pkts2"
      "case pkts2 of [] \<Rightarrow> cp' = eom | pkt # _ \<Rightarrow> eom - cp' < length (frame pkt)" by blast
    have "getpkts k cp eom (w, p) = Inr (cp', (w', p'))"
      using Cons.prems(1) g ih(1) by simp
    then show ?thesis
      using ih c(2)
      by (intro exI [of _ cp'] exI [of _ w'] exI [of _ p'] exI [of _ "pkt # pkts1"] exI [of _ pkts2])
         (auto simp: rxview_eqs)
  qed
qed

section \<open>The receive path\<close>

definition rx_ok :: "axprt_pipe \<Rightarrow> bool" where
  "rx_ok p \<longleftrightarrow> cb p \<and> \<not> ingetpkt p \<and> 0 \<le> fdread p \<and> 4 \<le> pktsize p \<and> pktsize p + 4 \<le> bufsize p \<and>
     pktlen p \<le> bufsize p \<and> (case pktbuf p of None \<Rightarrow> pktlen p = 0 | Some b \<Rightarrow> length b = bufsize p)"

text \<open>The bytes received and not yet delivered.\<close>

definition rbuf :: "axprt_pipe \<Rightarrow> u8 list" where
  "rbuf p = take (pktlen p) (getbuf p)"

text \<open>What is left in the buffer, and whether the assertion at the end of \<open>callgetpkt\<close> holds.\<close>

lemma callgetpkt_frames:
  assumes k: "rx_passive k" and ok: "rx_ok p" "pktbuf p = Some buf"
    and fr: "rbuf p @ fut = frames pkts" "small_pkts (pktsize p) pkts"
  obtains w' p' pkts1 pkts2 left where "pkts = pkts1 @ pkts2" "left @ fut = frames pkts2"
    "case pkts2 of [] \<Rightarrow> left = [] | pkt # _ \<Rightarrow> length left < length (frame pkt)"
    "callgetpkt k (w, p) = (if length left < pktsize p then Inr (w', p') else Inl AssertFail)"
    "rx_ok p'" "rbuf p' = left" "delivered p' = delivered p @ map Pkt pkts1" "pktsize p' = pktsize p" "bufsize p' = bufsize p"
proof -
  let ?q = "p\<lparr>ingetpkt := True\<rparr>"
  let ?eom = "pktlen p"
  have b: "length buf = bufsize p" "?eom \<le> length buf" using ok by (auto simp: rx_ok_def)
  have "take (?eom - 0) (drop 0 buf) @ fut = frames pkts" using fr ok by (simp add: rbuf_def getbuf_def)
  then obtain cp w1 p1 pkts1 pkts2 where g: "getpkts k 0 ?eom (w, ?q) = Inr (cp, (w1, p1))" "pkts = pkts1 @ pkts2"
    "rxview p1 = rxview (?q\<lparr>delivered := delivered p @ map Pkt pkts1\<rparr>)" "cp \<le> ?eom"
    "take (?eom - cp) (drop cp buf) @ fut = frames pkts2"
    "case pkts2 of [] \<Rightarrow> cp = ?eom | pkt # _ \<Rightarrow> ?eom - cp < length (frame pkt)"
    using getpkts_frames [OF k, of ?q buf ?eom 0 fut pkts w] ok b fr(2) by (auto simp: rx_ok_def)
  define left where "left = take (?eom - cp) (drop cp buf)"
  have ll: "length left = ?eom - cp" using b by (simp add: left_def)
  define p2 where "p2 = p1\<lparr>pktbuf := (if left = [] then None else Some (left @ drop (?eom - cp) buf)), pktlen := ?eom - cp, ingetpkt := False\<rparr>"
  have v: "cb p1" "pktbuf p1 = Some buf" "pktlen p1 = ?eom" "fdread p1 = fdread p" "pktsize p1 = pktsize p"
    "bufsize p1 = bufsize p" "delivered p1 = delivered p @ map Pkt pkts1"
    using g(3) ok by (auto simp: rxview_eqs rx_ok_def)
  have "callgetpkt k (w, p) = (if length left < pktsize p then Inr (w1, p2) else Inl AssertFail)"
    using g(1) ok v ll
    by (auto simp: callgetpkt_def Let_def ateof_def rx_ok_def p2_def guardR_def left_def)
  moreover have "rx_ok p2" "rbuf p2 = left" "delivered p2 = delivered p @ map Pkt pkts1" "pktsize p2 = pktsize p" "bufsize p2 = bufsize p"
    using ok v ll b g(4) by (auto simp: rx_ok_def p2_def rbuf_def getbuf_def)
  moreover have "left @ fut = frames pkts2" using g(5) by (simp add: left_def)
  moreover have "case pkts2 of [] \<Rightarrow> left = [] | pkt # _ \<Rightarrow> length left < length (frame pkt)"
    using g(6) ll by (auto split: list.splits)
  ultimately show ?thesis using that [of pkts1 pkts2 left w1 p2] g(2) by blast
qed

lemma axprt_input_callgetpkt:
  assumes "rx_ok p" "bs \<noteq> []" "length bs \<le> bufsize p - pktlen p"
  obtains p1 where "axprt_input k (RdBytes bs) e (w, p) = callgetpkt k (w, p1)" "rx_ok p1" "rbuf p1 = rbuf p @ bs"
    "delivered p1 = delivered p" "pktsize p1 = pktsize p" "bufsize p1 = bufsize p" "\<exists>b. pktbuf p1 = Some b"
proof -
  let ?b = "getbuf p"
  define p1 where "p1 = p\<lparr>pktbuf := Some (take (pktlen p) ?b @ bs @ drop (pktlen p + length bs) ?b),
     bytes_recv := bytes_recv p + length bs, pktlen := pktlen p + length bs\<rparr>"
  have l: "length ?b = bufsize p" "pktlen p \<le> bufsize p"
    using assms(1) by (auto simp: rx_ok_def getbuf_def split: option.splits)
  have "axprt_input k (RdBytes bs) e (w, p) = callgetpkt k (w, p1)"
    using assms by (auto simp: axprt_input_def rx_ok_def Let_def p1_def getbuf_def split: option.splits)
  moreover have "rx_ok p1" using assms l by (auto simp: rx_ok_def p1_def)
  moreover have "rbuf p1 = rbuf p @ bs" using l assms(3) by (simp add: rbuf_def getbuf_def p1_def)
  ultimately show ?thesis using that [of p1] by (simp add: p1_def)
qed

text \<open>
  A stream of bytes read in pieces: each read yields at most the number of bytes given, the bytes
  available and the room in the buffer.
\<close>

fun feed :: "client \<Rightarrow> nat list \<Rightarrow> u8 list \<Rightarrow> pst \<Rightarrow> (u8 list \<times> pst) res" where
  "feed k [] stream st = Inr (stream, st)"
| "feed k (n # ns) stream st =
     (let bs = take (min n (bufsize (snd st) - pktlen (snd st))) stream
      in if bs = [] then feed k ns stream st
         else bindR (axprt_input k (RdBytes bs) False st) (feed k ns (drop (length bs) stream)))"

definition partial_head :: "axprt_pipe \<Rightarrow> u8 list list \<Rightarrow> bool" where
  "partial_head p pkts \<longleftrightarrow> (case pkts of [] \<Rightarrow> rbuf p = [] | pkt # _ \<Rightarrow> length (rbuf p) < length (frame pkt))"

lemma small_pkts_append [simp]: "small_pkts n (ps @ qs) \<longleftrightarrow> small_pkts n ps \<and> small_pkts n qs"
  by (simp add: small_pkts_def)

lemma small_pkts_mono: "small_pkts n pkts \<Longrightarrow> n \<le> m \<Longrightarrow> small_pkts m pkts"
  by (auto simp: small_pkts_def list_all_iff)

lemma input_frames:
  assumes k: "rx_passive k" and ok: "rx_ok p" and bs: "bs \<noteq> []" "length bs \<le> bufsize p - pktlen p"
    and fr: "rbuf p @ bs @ fut = frames pkts" "small_pkts (pktsize p - 4) pkts"
  shows "\<exists>w' p' pkts1 pkts2. axprt_input k (RdBytes bs) e (w, p) = Inr (w', p') \<and> pkts = pkts1 @ pkts2 \<and>
      rx_ok p' \<and> rbuf p' @ fut = frames pkts2 \<and> delivered p' = delivered p @ map Pkt pkts1 \<and>
      partial_head p' pkts2 \<and> pktsize p' = pktsize p"
proof -
  obtain p1 b where 1: "axprt_input k (RdBytes bs) e (w, p) = callgetpkt k (w, p1)" "rx_ok p1" "rbuf p1 = rbuf p @ bs"
    "delivered p1 = delivered p" "pktsize p1 = pktsize p" "pktbuf p1 = Some b"
    using axprt_input_callgetpkt [OF ok bs, of k e w] by metis
  have "rbuf p1 @ fut = frames pkts" "small_pkts (pktsize p1) pkts"
    using fr 1(3,5) small_pkts_mono by auto
  from callgetpkt_frames [OF k 1(2,6) this, of w] obtain w' p' pkts1 pkts2 left where
    2: "pkts = pkts1 @ pkts2" "left @ fut = frames pkts2"
    "case pkts2 of [] \<Rightarrow> left = [] | pkt # _ \<Rightarrow> length left < length (frame pkt)"
    "callgetpkt k (w, p1) = (if length left < pktsize p1 then Inr (w', p') else Inl AssertFail)"
    "rx_ok p'" "rbuf p' = left" "delivered p' = delivered p1 @ map Pkt pkts1" "pktsize p' = pktsize p1"
    by metis
  have "length left < pktsize p1"
    using 2(1,3) fr(2) ok 1(5) by (cases pkts2) (auto simp: rx_ok_def small_pkts_def)
  with 1 2 have "axprt_input k (RdBytes bs) e (w, p) = Inr (w', p') \<and> pkts = pkts1 @ pkts2 \<and>
      rx_ok p' \<and> rbuf p' @ fut = frames pkts2 \<and> delivered p' = delivered p @ map Pkt pkts1 \<and>
      partial_head p' pkts2 \<and> pktsize p' = pktsize p"
    by (cases pkts2) (simp_all add: partial_head_def)
  then show ?thesis by blast
qed

lemma feed_frames:
  assumes k: "rx_passive k"
  shows "rx_ok p \<Longrightarrow> rbuf p @ stream @ fut = frames pkts \<Longrightarrow> small_pkts (pktsize p - 4) pkts \<Longrightarrow> partial_head p pkts \<Longrightarrow>
    \<exists>stream' w' p' pkts1 pkts2. feed k ns stream (w, p) = Inr (stream', (w', p')) \<and> pkts = pkts1 @ pkts2 \<and>
      rx_ok p' \<and> rbuf p' @ stream' @ fut = frames pkts2 \<and> delivered p' = delivered p @ map Pkt pkts1 \<and>
      partial_head p' pkts2"
proof (induction ns arbitrary: stream w p pkts)
  case Nil
  then show ?case
    by (intro exI [of _ stream] exI [of _ w] exI [of _ p] exI [of _ "[]"] exI [of _ pkts]) simp
next
  case (Cons n ns)
  define bs where "bs = take (min n (bufsize p - pktlen p)) stream"
  show ?case
  proof (cases "bs = []")
    case True
    then show ?thesis using Cons.IH [OF Cons.prems, of w] by (simp add: bs_def [symmetric] Let_def)
  next
    case False
    have st: "stream = bs @ drop (length bs) stream" by (auto simp: bs_def min_def)
    then have "rbuf p @ bs @ (drop (length bs) stream @ fut) = frames pkts"
      using Cons.prems(2) by (metis append.assoc)
    moreover have "length bs \<le> bufsize p - pktlen p" by (simp add: bs_def)
    ultimately obtain w1 p1 qs1 qs2 where 1: "axprt_input k (RdBytes bs) False (w, p) = Inr (w1, p1)" "pkts = qs1 @ qs2"
      "rx_ok p1" "rbuf p1 @ drop (length bs) stream @ fut = frames qs2" "delivered p1 = delivered p @ map Pkt qs1"
      "partial_head p1 qs2" "pktsize p1 = pktsize p"
      using input_frames [OF k Cons.prems(1) False _ _ Cons.prems(3)] by metis
    have "small_pkts (pktsize p1 - 4) qs2" using Cons.prems(3) 1(2,7) by simp
    from Cons.IH [OF 1(3,4) this 1(6), of w1]
    obtain stream' w' p' pkts1 pkts2 where 2: "feed k ns (drop (length bs) stream) (w1, p1) = Inr (stream', (w', p'))" "qs2 = pkts1 @ pkts2"
      "rx_ok p'" "rbuf p' @ stream' @ fut = frames pkts2" "delivered p' = delivered p1 @ map Pkt pkts1" "partial_head p' pkts2"
      by blast
    have "feed k (n # ns) stream (w, p) = Inr (stream', (w', p'))"
      using 1(1) 2(1) False by (simp add: bs_def [symmetric] Let_def)
    then show ?thesis
      using 1 2 by (intro exI [of _ stream'] exI [of _ w'] exI [of _ p'] exI [of _ "qs1 @ pkts1"] exI [of _ pkts2]) simp
  qed
qed

lemma partial_head_frames: "partial_head p pkts \<Longrightarrow> rbuf p = frames pkts \<Longrightarrow> pkts = []"
  by (auto simp: partial_head_def split: list.splits)

section \<open>The send path\<close>

lemma output_loop_errors:
  "WError \<notin> set script \<Longrightarrow> output_loop cont cnt script ws out = Inr (r, script', ws', out') \<Longrightarrow>
     r \<noteq> WError \<and> WError \<notin> set script'"
proof (induction script arbitrary: ws out)
  case Nil
  then show ?case by (auto split: if_splits)
next
  case (Cons a script)
  show ?case
  proof (cases a)
    case (Wrote n0)
    let ?n = "min n0 (sum_list (map snd (take (cnt (snd ws)) (iovs (snd ws)))))"
    consider "r = Wrote 0" "script' = script \<or> script' = a # script"
      | ws1 where "output_loop cont cnt script ws1 (out @ take ?n (contents ws)) = Inr (r, script', ws', out')"
      using Cons.prems(2) unfolding Wrote
      by (subst (asm) output_loop.simps)
         (auto simp: Let_def bindR_eq_Inr split: if_splits simp del: output_loop.simps)
    then show ?thesis using Cons.IH Cons.prems(1) by cases auto
  qed (use Cons.prems in \<open>auto split: if_splits\<close>)
qed

text \<open>The bytes a stream has carried so far and those it will carry: on the wire, and queued.\<close>

definition txbytes :: "pst \<Rightarrow> u8 list" where
  "txbytes st = wire (snd st) @ contents (fst st, outq (snd st))"

definition txview :: "axprt_pipe \<Rightarrow> bool \<times> nat list \<times> nat \<times> int \<times> bool \<times> nat \<times> recv list" where
  "txview p = (destroyed p, syncpts p, pktsize p, fdwrite p, foosp p, suio_clear_interval p, delivered p)"

definition tx_ok :: "pst \<Rightarrow> bool" where
  "tx_ok st \<longleftrightarrow> suio_inv (fst st, outq (snd st)) \<and> \<not> destroyed (snd st) \<and> syncpts (snd st) = [] \<and> 0 \<le> fdwrite (snd st)"

lemma dowritev_spec:
  assumes "tx_ok st" "WError \<notin> set script"
  shows "\<exists>n script' st'. dowritev (-1) script st = Inr (n, script', st') \<and> 0 \<le> n \<and> tx_ok st' \<and> WError \<notin> set script' \<and>
    txbytes st' = txbytes st \<and> txview (snd st') = txview (snd st)"
proof -
  obtain w p where st: "st = (w, p)" by fastforce
  have inv: "suio_inv (w, outq p)" using assms(1) by (simp add: tx_ok_def st)
  obtain r script' ws' sent where o: "output_loop (\<lambda>s. iovs s \<noteq> []) (\<lambda>s. min (iovcnt s) uio_maxiov) script (w, outq p) [] =
      Inr (r, script', ws', sent)" "suio_inv ws'" "contents (w, outq p) = sent @ contents ws'"
    using output_loop_spec [OF inv, of "\<lambda>s. iovs s \<noteq> []" "\<lambda>s. min (iovcnt s) uio_maxiov" script "[]"] by fastforce
  have e: "r \<noteq> WError" "WError \<notin> set script'" using output_loop_errors [OF assms(2) o(1)] by simp_all
  obtain w' s' where ws': "ws' = (w', s')" by fastforce
  show ?thesis
    using o e assms(1)
    by (simp add: dowritev_def suio_output_def Let_def st ws' tx_ok_def txbytes_def txview_def del: output_loop.simps)
qed

lemma output_sync_spec:
  "tx_ok st \<Longrightarrow> WError \<notin> set script \<Longrightarrow>
     \<exists>n st'. output_sync script st = Inr (n, st') \<and> 0 \<le> n \<and> tx_ok st' \<and> txbytes st' = txbytes st \<and>
       txview (snd st') = txview (snd st)"
proof (induction "length script" arbitrary: script st rule: less_induct)
  case less
  obtain w p where st: "st = (w, p)" by fastforce
  have sp: "syncpts p = []" "p\<lparr>syncpts := []\<rparr> = p" using less.prems(1) by (simp_all add: tx_ok_def st)
  obtain n script' st' where d: "dowritev (-1) script st = Inr (n, script', st')" "0 \<le> n" "tx_ok st'"
    "WError \<notin> set script'" "txbytes st' = txbytes st" "txview (snd st') = txview (snd st)"
    using dowritev_spec [OF less.prems] by blast
  have eq: "output_sync script st = (if 0 < n then output_sync script' st' else Inr (n, st'))"
  proof -
    have "dowritev (-1) script (w, p\<lparr>syncpts := []\<rparr>) = Inr (n, script', st')"
      by (simp only: sp(2) d(1) [unfolded st])
    then show ?thesis
      using sp(1) by (subst output_sync.simps) (simp add: st Let_def del: output_sync.simps)
  qed
  show ?case
  proof (cases "0 < n")
    case True
    then show ?thesis
      using less.hyps [OF dowritev_script [OF d(1) True] d(3,4)] d eq by simp
  next
    case False
    then show ?thesis using d eq by simp
  qed
qed

lemma on_out_spec:
  assumes "\<exists>ws'. f (w, outq p) = Inr ws' \<and> suio_inv ws' \<and> contents ws' = bs" "tx_ok (w, p)"
  shows "\<exists>st'. on_out f (w, p) = Inr st' \<and> tx_ok st' \<and> txbytes st' = wire p @ bs \<and> txview (snd st') = txview p \<and>
    wire (snd st') = wire p"
  using assms by (fastforce simp: on_out_def tx_ok_def txbytes_def txview_def)

lemma axprt_output_spec:
  assumes "tx_ok st" "WError \<notin> set script"
  shows "\<exists>st'. axprt_output k script st = Inr st' \<and> tx_ok st' \<and> txbytes st' = txbytes st \<and> txview (snd st') = txview (snd st)"
proof -
  obtain n w p where o: "output_sync script st = Inr (n, (w, p))" "0 \<le> n" "tx_ok (w, p)" "txbytes (w, p) = txbytes st"
    "txview p = txview (snd st)"
    using output_sync_spec [OF assms] by fastforce
  define p1 where "p1 = (if resid (outq p) \<noteq> 0 \<and> \<not> wcbset p then p\<lparr>wcbset := True\<rparr>
     else if resid (outq p) = 0 \<and> wcbset p then p\<lparr>wcbset := False\<rparr> else p)"
  have p1: "tx_ok (w, p1)" "txbytes (w, p1) = txbytes st" "txview p1 = txview (snd st)"
    using o by (auto simp: p1_def tx_ok_def txbytes_def txview_def)
  have eq: "axprt_output k script st =
      (if resid (outq p1) = 0 \<and> suio_clear_interval p1 \<noteq> 0 then on_out suio_clear (w, p1) else Inr (w, p1))"
    using o(1,2) by (auto simp: axprt_output_def p1_def simp del: output_sync.simps)
  show ?thesis
  proof (cases "resid (outq p1) = 0 \<and> suio_clear_interval p1 \<noteq> 0")
    case True
    have inv: "suio_inv (w, outq p1)" using p1 by (simp add: tx_ok_def)
    then have "contents (w, outq p1) = []"
      using True by (simp add: contents_addrs suio_inv_def iovs_ok_def resid_def)
    moreover have "\<exists>ws'. suio_clear (w, outq p1) = Inr ws' \<and> suio_inv ws' \<and> contents ws' = []"
      using suio_clear_spec [OF inv] by blast
    ultimately show ?thesis using on_out_spec [of suio_clear w p1 "[]"] p1 True eq by (fastforce simp: txbytes_def)
  next
    case False
    then show ?thesis using p1 eq by auto
  qed
qed

text \<open>\<open>sendv\<close> accepts a packet that fits and puts its frame, whole, at the end of the stream.\<close>

lemma sendv_spec:
  assumes al: "alloc_ok al" and ok: "tx_ok (w, p)" and err: "WError \<notin> set script"
    and len: "length (concat iov) \<le> pktsize p" "length (concat iov) < 2 ^ 31"
  shows "\<exists>st'. sendv al k iov script (w, p) = Inr (True, st') \<and> tx_ok st' \<and>
    txbytes st' = txbytes (w, p) @ frame (concat iov) \<and> txview (snd st') = txview p"
proof -
  let ?n = "length (concat iov)"
  let ?hdr = "rechdr (word_of_nat ?n)"
  have u: "unat (word_of_nat ?n :: u32) = ?n"
    using len(2) by (simp add: unsigned_of_nat take_bit_nat_eq_self)
  define q where "q = p\<lparr>bytes_sent := bytes_sent p + ?n, raw_bytes_sent := raw_bytes_sent p + ?n + 4\<rparr>"
  have inv: "suio_inv (w, outq p)" using ok by (simp add: tx_ok_def)
  have fin: "\<exists>st'. bindR (axprt_output k scr st) (\<lambda>st. Inr (True, st)) = Inr (True, st') \<and> tx_ok st' \<and>
      txbytes st' = txbytes st \<and> txview (snd st') = txview (snd st)" if "tx_ok st" "WError \<notin> set scr" for scr st
    using axprt_output_spec [OF that, of k] by fastforce
  show ?thesis
  proof (cases "resid (outq p) = 0 \<and> length iov < min 16 uio_maxiov")
    case True
    define skip where "skip = (case script of Wrote n # _ \<Rightarrow> min n (iovsize (?hdr # iov)) | _ \<Rightarrow> 0)"
    define q' where "q' = q\<lparr>wire := wire p @ take skip (concat (?hdr # iov))\<rparr>"
    have sk: "skip \<le> length (concat (?hdr # iov))" by (simp add: skip_def split: list.split wres.split)
    have e: "contents (w, outq p) = []" using True inv by (simp add: contents_addrs suio_inv_def iovs_ok_def resid_def)
    have ok': "tx_ok (w, q')" "outq q' = outq p" using ok by (simp_all add: tx_ok_def q'_def q_def)
    have "appends (suio_copyv al (?hdr # iov) skip (w, outq q')) (w, outq p) (drop skip (concat (?hdr # iov)))"
      using suio_copyv_appends [OF al inv sk] ok'(2) by simp
    then obtain st1 where st1: "on_out (suio_copyv al (?hdr # iov) skip) (w, q') = Inr st1" "tx_ok st1"
      "txbytes st1 = wire q' @ drop skip (concat (?hdr # iov))" "txview (snd st1) = txview q'"
      using on_out_spec [of "suio_copyv al (?hdr # iov) skip" w q' "drop skip (concat (?hdr # iov))"] ok' e
      by (auto simp: appends_def)
    have tx: "txbytes st1 = txbytes (w, p) @ frame (concat iov)"
      unfolding st1(3) by (simp add: q'_def q_def txbytes_def e frame_def del: take_append drop_append)
    obtain st2 where st2: "bindR (axprt_output k (drop 1 script) st1) (\<lambda>st. Inr (True, st)) = Inr (True, st2)" "tx_ok st2"
      "txbytes st2 = txbytes st1" "txview (snd st2) = txview (snd st1)"
      using fin [OF st1(2), of "drop 1 script"] err by (meson in_set_dropD)
    have "sendv al k iov script (w, p) = Inr (True, st2)"
      using True ok u len st1(1) st2(1) err
      by (cases script rule: list.exhaust; cases "hd script")
         (auto simp: sendv_def Let_def tx_ok_def q'_def q_def skip_def)
    then show ?thesis using st1 st2 tx by (auto simp: txview_def q'_def q_def)
  next
    case False
    have okq: "tx_ok (w, q)" "outq q = outq p" using ok by (simp_all add: tx_ok_def q_def)
    obtain w1 p1 where 1: "on_out (suio_copy al ?hdr) (w, q) = Inr (w1, p1)" "tx_ok (w1, p1)"
      "txbytes (w1, p1) = wire p @ contents (w, outq p) @ ?hdr" "txview p1 = txview q"
      using on_out_spec [of "suio_copy al ?hdr" w q "contents (w, outq p) @ ?hdr"]
        suio_copy_appends [OF al inv, of ?hdr] okq by (auto simp: appends_def q_def)
    have inv1: "suio_inv (w1, outq p1)" using 1(2) by (simp add: tx_ok_def)
    obtain st2 where 2: "on_out (suio_copyv al iov 0) (w1, p1) = Inr st2" "tx_ok st2"
      "txbytes st2 = wire p1 @ contents (w1, outq p1) @ concat iov" "txview (snd st2) = txview p1"
      using on_out_spec [of "suio_copyv al iov 0" w1 p1 "contents (w1, outq p1) @ concat iov"]
        suio_copyv_appends [OF al inv1, of 0 iov] 1(2) by (auto simp: appends_def)
    have tx: "txbytes st2 = txbytes (w, p) @ frame (concat iov)"
      using 1(3) 2(3) by (simp add: txbytes_def frame_def)
    obtain st3 where 3: "bindR (axprt_output k script st2) (\<lambda>st. Inr (True, st)) = Inr (True, st3)" "tx_ok st3"
      "txbytes st3 = txbytes st2" "txview (snd st3) = txview (snd st2)"
      using fin [OF 2(2) err] by blast
    have "sendv al k iov script (w, p) = Inr (True, st3)"
      using False ok u len 1(1) 2(1) 3(1)
      by (auto simp: sendv_def Let_def tx_ok_def q_def)
    then show ?thesis using 1 2 3 tx by (auto simp: txview_def q_def)
  qed
qed

text \<open>A sequence of \<open>sendv\<close> calls, each with the results of the writes made during it.\<close>

fun sends :: "allocator \<Rightarrow> client \<Rightarrow> (u8 list list \<times> wres list) list \<Rightarrow> pst \<Rightarrow> (bool list \<times> pst) res" where
  "sends al k [] st = Inr ([], st)"
| "sends al k ((iov, script) # ops) st =
     bindR (sendv al k iov script st) (\<lambda>(r, st).
     bindR (sends al k ops st) (\<lambda>(rs, st). Inr (r # rs, st)))"

definition sends_ok :: "nat \<Rightarrow> (u8 list list \<times> wres list) list \<Rightarrow> bool" where
  "sends_ok n ops \<longleftrightarrow>
     list_all (\<lambda>(iov, script). WError \<notin> set script \<and> length (concat iov) \<le> n \<and> length (concat iov) < 2 ^ 31) ops"

lemma sends_spec:
  assumes al: "alloc_ok al"
  shows "tx_ok st \<Longrightarrow> sends_ok (pktsize (snd st)) ops \<Longrightarrow>
    \<exists>st'. sends al k ops st = Inr (map (\<lambda>_. True) ops, st') \<and> tx_ok st' \<and>
      txbytes st' = txbytes st @ frames (map (concat \<circ> fst) ops) \<and> txview (snd st') = txview (snd st)"
proof (induction ops arbitrary: st)
  case (Cons op ops)
  obtain iov script where op: "op = (iov, script)" by fastforce
  obtain w p where st: "st = (w, p)" by fastforce
  obtain st1 where 1: "sendv al k iov script st = Inr (True, st1)" "tx_ok st1"
    "txbytes st1 = txbytes st @ frame (concat iov)" "txview (snd st1) = txview (snd st)"
    using sendv_spec [OF al, of w p script iov k] Cons.prems by (auto simp: st op sends_ok_def)
  have "pktsize (snd st1) = pktsize (snd st)" using 1(4) by (simp add: txview_def)
  then show ?case
    using Cons.IH [OF 1(2)] Cons.prems(2) 1 by (auto simp: op sends_ok_def)
qed simp

lemma axprt_pipe_new_ok:
  assumes "suio_inv (w, suio_new db)" "0 \<le> wfd"
  shows "tx_ok (w, axprt_pipe_new rfd wfd ps bs ci db)" "txbytes (w, axprt_pipe_new rfd wfd ps bs ci db) = []"
  using assms by (simp_all add: tx_ok_def axprt_pipe_new_def txbytes_def contents_addrs suio_new_def)

text \<open>A receiver: a new transport with its callback set.\<close>

definition receiver :: "int \<Rightarrow> int \<Rightarrow> nat \<Rightarrow> nat \<Rightarrow> addr \<Rightarrow> axprt_pipe" where
  "receiver rfd wfd ps ci db = (axprt_pipe_new rfd wfd ps 0 ci db)\<lparr>cb := True, rcbset := True\<rparr>"

lemma setrcb_receiver:
  "0 \<le> rfd \<Longrightarrow> setrcb k True (w, axprt_pipe_new rfd wfd ps 0 ci db) = Inr (w, receiver rfd wfd ps ci db)"
  by (simp add: setrcb_def axprt_pipe_new_def receiver_def Let_def)

lemma receiver_ok:
  assumes "0 \<le> rfd" "4 \<le> ps"
  shows "rx_ok (receiver rfd wfd ps ci db)" "rbuf (receiver rfd wfd ps ci db) = []"
    "delivered (receiver rfd wfd ps ci db) = []" "pktsize (receiver rfd wfd ps ci db) = ps"
    "bufsize (receiver rfd wfd ps ci db) = ps + 4" "pktlen (receiver rfd wfd ps ci db) = 0"
  using assms by (auto simp: rx_ok_def receiver_def axprt_pipe_new_def rbuf_def)


definition quiet :: client where
  "quiet ev st = Inr st"

lemma quiet_passive: "rx_passive quiet"
  by (simp add: rx_passive_def quiet_def)


text \<open>
  C17. The largest packets crash their receiver. A packet of more than \<open>pktsize - 4\<close> and at most \<open>pktsize\<close>
  bytes is legal: \<open>sendv\<close> sends it and \<open>checklen\<close> accepts it. But when the first \<open>pktsize\<close> bytes of its
  frame arrive without the rest, the assertion \<open>pktlen < pktsize\<close> at the end of \<open>callgetpkt\<close> fails.
\<close>

theorem callgetpkt_assert_fails:
  assumes "0 \<le> rfd" "4 \<le> ps" "ps < 2 ^ 31" "ps - 4 < length pkt" "length pkt \<le> ps"
  shows "axprt_input k (RdBytes (take ps (frame pkt))) e (w, receiver rfd wfd ps ci db) = Inl AssertFail"
proof -
  let ?r = "receiver rfd wfd ps ci db"
  note r = receiver_ok [OF assms(1,2), of wfd ci db]
  have bs: "length (take ps (frame pkt)) = ps" using assms by auto
  then have ne: "take ps (frame pkt) \<noteq> []" using assms(2) by (metis list.size(3) not_numeral_le_zero)
  obtain p1 b where 1: "axprt_input k (RdBytes (take ps (frame pkt))) e (w, ?r) = callgetpkt k (w, p1)" "rx_ok p1"
    "rbuf p1 = take ps (frame pkt)" "pktsize p1 = ps" "pktbuf p1 = Some b"
    using axprt_input_callgetpkt [OF r(1) ne, of k e w thesis] r(2,4,5,6) bs by (metis append_Nil diff_zero le_add1)
  have l: "pktlen p1 \<le> length b" "take (pktlen p1) b = take ps (frame pkt)"
    using 1(2,3,5) by (auto simp: rx_ok_def rbuf_def getbuf_def)
  then have len: "pktlen p1 = ps" using bs by (metis length_take min.absorb2)
  let ?q = "p1\<lparr>ingetpkt := True\<rparr>"
  have "getpkt k 0 ps (w, ?q) = Inr (False, 0, (w, ?q))"
    using getpkt_partial [of ?q b ps 0 "drop ps (frame pkt)" pkt "[]" k w] 1 l len assms
    by (auto simp: rx_ok_def)
  then have "getpkts k 0 ps (w, ?q) = Inr (0, (w, ?q))" by simp
  then show ?thesis
    using 1 len assms(2) by (simp add: callgetpkt_def rx_ok_def Let_def ateof_def guardR_def del: getpkts.simps)
qed

theorem callgetpkt_assert_fails_witness:
  "axprt_input quiet (RdBytes (take 8 (frame [1, 2, 3, 4, 5]))) False (world0, receiver 3 4 8 0 1000) = Inl AssertFail"
  by (rule callgetpkt_assert_fails) simp_all

section \<open>Hostile input and misuse\<close>

text \<open>A client that keeps the output queue sound and leaves the receive state alone.\<close>

definition benign :: "client \<Rightarrow> bool" where
  "benign k \<longleftrightarrow> (\<forall>ev w p. suio_inv (w, outq p) \<longrightarrow>
     (\<exists>w' p'. k ev (w, p) = Inr (w', p') \<and> suio_inv (w', outq p') \<and> rxview p' = rxview p))"

definition keeps :: "pst res \<Rightarrow> axprt_pipe \<Rightarrow> bool" where
  "keeps r p \<longleftrightarrow> (\<exists>w' p'. r = Inr (w', p') \<and> suio_inv (w', outq p') \<and> pktbuf p' = pktbuf p \<and>
     pktlen p' = pktlen p \<and> pktsize p' = pktsize p \<and> ingetpkt p' = ingetpkt p)"

lemma callcb_keeps: "benign k \<Longrightarrow> suio_inv (w, outq p) \<Longrightarrow> keeps (callcb k ev (w, p)) p"
proof -
  assume a: "benign k" "suio_inv (w, outq p)"
  let ?p = "p\<lparr>delivered := delivered p @ [ev]\<rparr>"
  have "suio_inv (w, outq ?p)" using a(2) by simp
  then obtain w' p' where "k ev (w, ?p) = Inr (w', p')" "suio_inv (w', outq p')" "rxview p' = rxview ?p"
    using a(1) unfolding benign_def by blast
  then show ?thesis by (auto simp: keeps_def callcb_def rxview_eqs)
qed

lemma clear_keeps: "suio_inv (w, outq p) \<Longrightarrow> keeps (on_out suio_clear (w, p)) p"
  using suio_clear_spec [of "(w, outq p)"] by (auto simp: keeps_def on_out_def)

lemma keeps_bind:
  assumes "keeps r p" "\<And>w' p'. suio_inv (w', outq p') \<Longrightarrow> pktbuf p' = pktbuf p \<Longrightarrow> pktlen p' = pktlen p \<Longrightarrow>
    pktsize p' = pktsize p \<Longrightarrow> ingetpkt p' = ingetpkt p \<Longrightarrow> keeps (f (w', p')) p'"
  shows "keeps (bindR r f) p"
proof -
  obtain w' p' where r: "r = Inr (w', p')" "suio_inv (w', outq p')" and e: "pktbuf p' = pktbuf p" "pktlen p' = pktlen p"
     "pktsize p' = pktsize p" "ingetpkt p' = ingetpkt p"
    using assms(1) by (auto simp: keeps_def)
  from assms(2) [OF r(2) e] show ?thesis by (auto simp: keeps_def r(1) e)
qed

lemma keeps_same: "suio_inv (w, outq p) \<Longrightarrow> keeps (Inr (w, p)) p"
  by (simp add: keeps_def)

lemma fail_keeps:
  assumes "benign k" "suio_inv (w, outq p)"
  shows "keeps (fail k (w, p)) p"
proof -
  define q where "q = (let p = (if fdread p \<ge> 0 then p\<lparr>rcbset := False\<rparr> else p);
            p = (if fdwrite p \<ge> 0 then p\<lparr>wcbset := False\<rparr> else p) in p\<lparr>fdread := -1, fdwrite := -1\<rparr>)"
  have q: "suio_inv (w, outq q)" "pktbuf q = pktbuf p" "pktlen q = pktlen p" "pktsize q = pktsize p" "ingetpkt q = ingetpkt p"
    using assms(2) by (simp_all add: q_def Let_def)
  have "keeps (if \<not> destroyed q then bindR (if cb q \<and> \<not> ingetpkt q then callcb k Eof (w, q) else Inr (w, q)) (on_out suio_clear)
           else Inr (w, q)) q"
    using callcb_keeps [OF assms(1) q(1)] clear_keeps keeps_same [OF q(1)]
    by (auto intro!: keeps_bind simp del: bindR_Inr)
  moreover have "fail k (w, p) = (if \<not> destroyed q then bindR (if cb q \<and> \<not> ingetpkt q then callcb k Eof (w, q) else Inr (w, q)) (on_out suio_clear)
           else Inr (w, q))" by (simp add: fail_def q_def Let_def)
  ultimately show ?thesis using q by (auto simp: keeps_def)
qed

lemma checklen_keeps:
  assumes "benign k" "suio_inv (w, outq p)"
  shows "\<exists>r st. checklen k len (w, p) = Inr (r, st) \<and> keeps (Inr st) p"
  using fail_keeps [OF assms] keeps_same [OF assms(2)] by (auto simp: checklen_def Let_def keeps_def)

lemma getpkt_keeps:
  assumes k: "benign k" and p: "suio_inv (w, outq p)" "pktbuf p = Some buf" "eom \<le> length buf"
  shows "\<exists>go cp' st'. getpkt k cp eom (w, p) = Inr (go, cp', st') \<and> keeps (Inr st') p \<and> (cp \<le> eom \<longrightarrow> cp' \<le> eom)"
proof (cases "\<not> cb p \<or> eom - cp < 4")
  case True
  then have "getpkt k cp eom (w, p) = Inr (False, cp, (w, p))" by (simp add: getpkt_def)
  then show ?thesis using keeps_same [OF p(1)] by blast
next
  case False
  then have "4 \<le> length (drop cp buf)" using p(3) by auto
  then obtain len where g: "getint (drop cp buf) = Inr len" using getint_ok_iff by blast
  obtain st1 where f: "fail k (w, p) = Inr st1" "keeps (Inr st1) p"
    using fail_keeps [OF k p(1)] by (auto simp: keeps_def)
  obtain r st2 where c: "checklen k len (w, p) = Inr (r, st2)" "keeps (Inr st2) p"
    using checklen_keeps [OF k p(1)] by blast
  obtain w2 p2 where st2: "st2 = (w2, p2)" by fastforce
  have "suio_inv (w2, outq p2)" using c(2) by (simp add: keeps_def st2)
  then have d: "keeps (callcb k ev st2) p" for ev
    using callcb_keeps [OF k, of w2 p2 ev] c(2) by (auto simp: keeps_def st2)
  show ?thesis
  proof (cases "len = 0")
    case True
    then show ?thesis using False p(2) g f by (auto simp: getpkt_def Let_def recvbreak_def)
  next
    case ne: False
    show ?thesis
    proof (cases r)
      case None
      then show ?thesis using False ne p(2) g c by (auto simp: getpkt_def Let_def)
    next
      case (Some l)
      obtain st3 where "callcb k (Pkt (take (unat l) (drop (cp + 4) buf))) st2 = Inr st3" "keeps (Inr st3) p"
        using d by (fastforce simp: keeps_def)
      then show ?thesis using False ne p(2) g c Some by (cases st3; cases st2) (auto simp: getpkt_def Let_def)
    qed
  qed
qed

lemma getpkts_keeps:
  assumes "benign k"
  shows "suio_inv (w, outq p) \<Longrightarrow> pktbuf p = Some buf \<Longrightarrow> eom \<le> length buf \<Longrightarrow> cp \<le> eom \<Longrightarrow>
    \<exists>cp' st'. getpkts k cp eom (w, p) = Inr (cp', st') \<and> keeps (Inr st') p \<and> cp' \<le> eom"
proof (induction "eom - cp" arbitrary: cp w p rule: less_induct)
  case less
  obtain go cp1 w1 p1 where g: "getpkt k cp eom (w, p) = Inr (go, cp1, (w1, p1))" "keeps (Inr (w1, p1)) p" "cp1 \<le> eom"
    using getpkt_keeps [OF assms less.prems(1-3), of cp] less.prems(4) by auto
  have p1: "suio_inv (w1, outq p1)" "pktbuf p1 = Some buf" using g(2) less.prems(2) by (auto simp: keeps_def)
  show ?case
  proof (cases "cb p \<and> go")
    case True
    have "cp + 4 \<le> cp1 \<and> cp + 4 \<le> eom" using getpkt_progress [of k cp eom "(w, p)" cp1 "(w1, p1)"] g(1) True by simp
    then have lt: "eom - cp1 < eom - cp" by linarith
    have "getpkts k cp eom (w, p) = getpkts k cp1 eom (w1, p1)"
      using g(1) True by (subst getpkts.simps) simp
    then show ?thesis
      using less.hyps [OF lt p1 less.prems(3) g(3)] g(2) by (auto simp: keeps_def)
  next
    case False
    then show ?thesis using g less.prems keeps_same [OF less.prems(1)] by auto
  qed
qed



text \<open>
  Misuse of \<open>sendv\<close>. A packet longer than \<open>pktsize\<close> is refused, and when the transport is not set to
  fail on it nothing changes, neither the queue nor the counters; after the end of the stream every call
  panics instead.
\<close>

lemma sendv_oversized:
  assumes "\<not> destroyed p" "\<not> foosp p" "pktsize p < length (concat iov)" "length (concat iov) < 2 ^ 32"
  shows "sendv al k iov script (w, p) = (if fdwrite p < 0 then Inl PanicCall else Inr (False, (w, p)))"
  using assms by (simp add: sendv_def Let_def guardR_def unsigned_of_nat take_bit_nat_eq_self)

lemma sendv_oversized_witness:
  "sendv bump_alloc quiet [[1, 2], [3, 4, 5]] [] (world0, axprt_pipe_new 3 4 4 0 0 1000) =
     Inr (False, (world0, axprt_pipe_new 3 4 4 0 0 1000))"
  using sendv_oversized [of "axprt_pipe_new 3 4 4 0 0 1000" "[[1, 2], [3, 4, 5]]" bump_alloc quiet "[]" world0]
  by (simp add: axprt_pipe_new_def)

end
