(* ===== verification/Aclnt.thy ===== *)
theory Aclnt
  imports Serial
begin

text \<open>
  The RPC client side: \<open>callbase\<close>, \<open>rpccb\<close> and its variants, \<open>aclnt\<close> and \<open>aclnt_resumable\<close> of
  \<open>arpc/aclnt.h\<close> and \<open>arpc/aclnt.C\<close>, and the per-transport \<open>xhinfo\<close> of \<open>arpc/xhinfo.C\<close>.

  Objects live in a heap: calls and clients are maps from identifiers, and using an identifier that is
  no longer mapped is the fault \<open>UseAfterFree\<close>. The code calls out to user callbacks at many points, and
  these may re-enter the library; an environment holds them as functions of the whole state, together
  with the transport's \<open>sendv\<close>, the result of decoding a reply (the XDR library) and the server side of
  \<open>xhinfo\<close>. \<open>log\<close> records the callbacks made. \<open>rng\<close> is the future output of \<open>next_xid\<close>.
\<close>

section \<open>State\<close>

datatype clnt_stat =
    RPC_SUCCESS | RPC_CANTENCODEARGS | RPC_CANTDECODERES | RPC_CANTSEND | RPC_CANTRECV | RPC_TIMEDOUT
  | RPC_OTHER nat

type_synonym cid = nat      \<comment> \<open>a call\<close>
type_synonym aid = nat      \<comment> \<open>a client\<close>
type_synonym xhid = nat     \<comment> \<open>a transport and its \<open>xhinfo\<close>\<close>

datatype ckind =
    Rpccb
  | MsgbufXmit "u8 list"    \<comment> \<open>\<open>rpccb_msgbuf_xmit\<close> with its \<open>msgbuf\<close>\<close>
  | Unreliable "u8 list"    \<comment> \<open>\<open>rpccb_unreliable\<close> with its \<open>msgbuf\<close>\<close>
  | Rawcall u32             \<comment> \<open>\<open>rawcall\<close> with its \<open>oldxid\<close>\<close>

record callbase =
  cl :: aid
  cdest :: "nat option"
  tmo :: bool
  xid :: u32
  offset :: nat
  kind :: ckind
  ucb :: "nat option"

datatype calloc = AllocRpccb | AllocMsgbufXmit | AllocUnreliable

record aclnt =
  xi :: xhid
  progno :: u32
  versno :: u32
  nproc :: nat
  eofcb :: "nat option"
  adest :: "nat option"
  stopped :: bool
  send_hook :: "nat option"
  recv_hook :: "nat option"
  acalls :: "cid list"
  rpccb_alloc :: calloc
  failcb :: "nat option option"   \<comment> \<open>\<open>Some f\<close> for an \<open>aclnt_resumable\<close> with its \<open>failcb\<close>\<close>

record xhinfo =
  xh_ateof :: bool
  xh_connected :: bool
  xh_reliable :: bool
  xh_raw :: nat                   \<comment> \<open>\<open>get_raw_bytes_sent ()\<close>\<close>
  xh_rcb :: bool                  \<comment> \<open>whether \<open>dispatch\<close> is the transport's receive callback\<close>
  clist :: "aid list"
  stab :: bool                    \<comment> \<open>whether \<open>stab.first ()\<close> is set\<close>
  xidtab :: "cid list"
  max_acked_offset :: nat

datatype uevent =
    Finished cid nat clnt_stat    \<comment> \<open>\<open>(*cb) (stat)\<close> for a call\<close>
  | RawFinished cid nat clnt_stat \<comment> \<open>\<open>(*cb) (stat, NULL, -1)\<close> of a \<open>rawcall\<close>\<close>
  | RawReply cid nat "u8 list"    \<comment> \<open>\<open>(*cb) (RPC_SUCCESS, msg, len)\<close> of a \<open>rawcall\<close>\<close>
  | Refused "nat option" clnt_stat \<comment> \<open>\<open>(*cb) (stat)\<close> of a call that was not made\<close>
  | Eofcb nat | Hook nat | Failcb nat

record cst =
  xhs :: "xhid \<Rightarrow> xhinfo"
  clients :: "aid \<rightharpoonup> aclnt"
  calls :: "cid \<rightharpoonup> callbase"
  nextcall :: cid
  rpctoq :: "cid list"
  rng :: "u32 list"
  log :: "uevent list"

record env =
  user :: "uevent \<Rightarrow> cst \<Rightarrow> (bool \<times> cst) res"
  xmit_pkt :: "xhid \<Rightarrow> nat option \<Rightarrow> u8 list \<Rightarrow> cst \<Rightarrow> cst res"   \<comment> \<open>\<open>axprt::sendv\<close>\<close>
  decode_reply :: "callbase \<Rightarrow> u8 list \<Rightarrow> clnt_stat"              \<comment> \<open>\<open>rpccb::decodemsg\<close>\<close>
  asrv_dispatch :: "xhid \<Rightarrow> u8 list option \<Rightarrow> cst \<Rightarrow> cst res"
  fuel :: nat

definition getcall :: "cid \<Rightarrow> cst \<Rightarrow> callbase res" where
  "getcall i st = (case calls st i of None \<Rightarrow> Inl UseAfterFree | Some r \<Rightarrow> Inr r)"

definition getclnt :: "aid \<Rightarrow> cst \<Rightarrow> aclnt res" where
  "getclnt a st = (case clients st a of None \<Rightarrow> Inl UseAfterFree | Some c \<Rightarrow> Inr c)"

definition upd_xh :: "xhid \<Rightarrow> (xhinfo \<Rightarrow> xhinfo) \<Rightarrow> cst \<Rightarrow> cst" where
  "upd_xh x f st = st\<lparr>xhs := (xhs st)(x := f (xhs st x))\<rparr>"

definition upd_clnt :: "aid \<Rightarrow> (aclnt \<Rightarrow> aclnt) \<Rightarrow> cst \<Rightarrow> cst" where
  "upd_clnt a f st = st\<lparr>clients := (clients st)(a := map_option f (clients st a))\<rparr>"

definition upd_call :: "cid \<Rightarrow> (callbase \<Rightarrow> callbase) \<Rightarrow> cst \<Rightarrow> cst" where
  "upd_call i f st = st\<lparr>calls := (calls st)(i := map_option f (calls st i))\<rparr>"

definition notify :: "env \<Rightarrow> uevent \<Rightarrow> cst \<Rightarrow> (bool \<times> cst) res" where
  "notify e ev st = user e ev (st\<lparr>log := log st @ [ev]\<rparr>)"

definition callback :: "env \<Rightarrow> uevent \<Rightarrow> cst \<Rightarrow> cst res" where
  "callback e ev st = bindR (notify e ev st) (\<lambda>(b, st). Inr st)"

text \<open>The XID at the head of a message, in the byte order of a little-endian host.\<close>

definition putxid :: "u32 \<Rightarrow> u8 list" where
  "putxid x = [ucast x, ucast (drop_bit 8 x), ucast (drop_bit 16 x), ucast (drop_bit 24 x)]"

fun getxid_msg :: "u8 list \<Rightarrow> u32 res" where
  "getxid_msg (b0 # b1 # b2 # b3 # _) =
     Inr (push_bit 24 (ucast b3) OR push_bit 16 (ucast b2) OR push_bit 8 (ucast b1) OR ucast b0)"
| "getxid_msg _ = Inl OutOfRange"

section \<open>Calls\<close>

text \<open>\<open>xidtab[xid]\<close>: the first entry of the chain with the key.\<close>

definition xid_lookup :: "cst \<Rightarrow> xhid \<Rightarrow> u32 \<Rightarrow> cid option" where
  "xid_lookup st x v =
     find (\<lambda>i. case calls st i of Some r \<Rightarrow> xid r = v | None \<Rightarrow> False) (xidtab (xhs st x))"

fun genxid_loop :: "(u32 \<Rightarrow> bool) \<Rightarrow> u32 list \<Rightarrow> (u32 \<times> u32 list) res" where
  "genxid_loop used [] = Inl NoReturn"
| "genxid_loop used (v # vs) = (if used v \<or> v = 0 then genxid_loop used vs else Inr (v, vs))"

definition genxid :: "xhid \<Rightarrow> cst \<Rightarrow> (u32 \<times> cst) res" where
  "genxid x st =
     bindR (genxid_loop (\<lambda>v. xid_lookup st x v \<noteq> None) (rng st)) (\<lambda>(v, vs). Inr (v, st\<lparr>rng := vs\<rparr>))"

definition callbase_new :: "aid \<Rightarrow> u32 \<Rightarrow> nat option \<Rightarrow> ckind \<Rightarrow> nat option \<Rightarrow> cst \<Rightarrow> (cid \<times> cst) res" where
  "callbase_new a v d k c st =
     bindR (getclnt a st) (\<lambda>cn.
       let i = nextcall st;
           st = st\<lparr>calls := (calls st)(i \<mapsto> \<lparr>cl = a, cdest = d, tmo = False, xid = v, offset = 0, kind = k, ucb = c\<rparr>),
                   nextcall := i + 1\<rparr>;
           st = upd_clnt a (\<lambda>cn. cn\<lparr>acalls := acalls cn @ [i]\<rparr>) st
       in Inr (i, upd_xh (xi cn) (\<lambda>x. x\<lparr>xidtab := i # xidtab x\<rparr>) st))"

text \<open>The destructors, \<open>~rpccb_unreliable\<close> and \<open>~callbase\<close>.\<close>

definition callbase_delete :: "cid \<Rightarrow> cst \<Rightarrow> cst res" where
  "callbase_delete i st =
     bindR (getcall i st) (\<lambda>r.
     bindR (getclnt (cl r) st) (\<lambda>cn.
       let st = st\<lparr>rpctoq := removeAll i (rpctoq st)\<rparr>;
           st = upd_clnt (cl r) (\<lambda>cn. cn\<lparr>acalls := remove1 i (acalls cn)\<rparr>) st;
           st = (if xid_lookup st (xi cn) (xid r) = Some i
                 then upd_xh (xi cn) (\<lambda>x. x\<lparr>xidtab := remove1 i (xidtab x)\<rparr>) st else st)
       in Inr (st\<lparr>calls := (calls st)(i := None)\<rparr>)))"

definition cancel :: "cid \<Rightarrow> cst \<Rightarrow> cst res" where
  "cancel i st = callbase_delete i st"

definition checksrc :: "callbase \<Rightarrow> nat option \<Rightarrow> cst \<Rightarrow> bool res" where
  "checksrc r src st =
     bindR (getclnt (cl r) st) (\<lambda>cn. Inr (xh_connected (xhs st (xi cn)) \<or> src = cdest r))"

definition call_timeout :: "cid \<Rightarrow> cst \<Rightarrow> cst res" where
  "call_timeout i st =
     bindR (getcall i st) (\<lambda>r.
     bindR (guardR AssertFail (\<not> tmo r)) (\<lambda>_. Inr (upd_call i (\<lambda>r. r\<lparr>tmo := True\<rparr>) st)))"

text \<open>\<open>finish\<close>: \<open>rpccb\<close> deletes the call and then calls back; \<open>rawcall\<close> does it the other way round.\<close>

definition finish :: "env \<Rightarrow> cid \<Rightarrow> clnt_stat \<Rightarrow> cst \<Rightarrow> cst res" where
  "finish e i stat st =
     bindR (getcall i st) (\<lambda>r.
       case kind r of
         Rawcall _ \<Rightarrow>
           bindR (case ucb r of None \<Rightarrow> Inr st | Some c \<Rightarrow> callback e (RawFinished i c stat) st) (callbase_delete i)
       | _ \<Rightarrow>
           bindR (callbase_delete i st) (\<lambda>st.
             case ucb r of None \<Rightarrow> Inr st | Some c \<Rightarrow> callback e (Finished i c stat) st))"

definition expire :: "env \<Rightarrow> cid \<Rightarrow> cst \<Rightarrow> cst res" where
  "expire e i st = bindR (getcall i st) (\<lambda>_. finish e i RPC_TIMEDOUT (upd_call i (\<lambda>r. r\<lparr>tmo := False\<rparr>) st))"

text \<open>\<open>decodemsg\<close>: a \<open>rawcall\<close> restores the old XID and calls back at once.\<close>

definition decodemsg :: "env \<Rightarrow> cid \<Rightarrow> u8 list \<Rightarrow> cst \<Rightarrow> (clnt_stat \<times> cst) res" where
  "decodemsg e i msg st =
     bindR (getcall i st) (\<lambda>r.
       case kind r of
         Rawcall old \<Rightarrow>
           bindR (case ucb r of None \<Rightarrow> Inl OutOfRange
                  | Some c \<Rightarrow> callback e (RawReply i c (putxid old @ drop 4 msg)) st) (\<lambda>st.
           bindR (getcall i st) (\<lambda>_. Inr (RPC_SUCCESS, upd_call i (\<lambda>r. r\<lparr>ucb := None\<rparr>) st)))
       | _ \<Rightarrow> Inr (decode_reply e r msg, st))"

definition xmit :: "env \<Rightarrow> cid \<Rightarrow> cst \<Rightarrow> cst res" where
  "xmit e i st =
     bindR (getcall i st) (\<lambda>r.
     bindR (getclnt (cl r) st) (\<lambda>cn.
       if xh_ateof (xhs st (xi cn)) then Inr st
       else case kind r of
              MsgbufXmit m \<Rightarrow> xmit_pkt e (xi cn) (cdest r) m st
            | Unreliable m \<Rightarrow> xmit_pkt e (xi cn) (cdest r) m st
            | _ \<Rightarrow> Inl Undefined))"

section \<open>Failure of a transport\<close>

text \<open>The loop of \<open>aclnt::fail\<close>, which reads the next call before it finishes this one.\<close>

definition call_next :: "cid \<Rightarrow> cst \<Rightarrow> cid option res" where
  "call_next i st =
     bindR (getcall i st) (\<lambda>r. bindR (getclnt (cl r) st) (\<lambda>cn. Inr (next_in (acalls cn) i)))"

fun fail_calls :: "env \<Rightarrow> nat \<Rightarrow> cid option \<Rightarrow> cst \<Rightarrow> cst res" where
  "fail_calls e n None st = Inr st"
| "fail_calls e 0 (Some i) st = Inl NoReturn"
| "fail_calls e (Suc n) (Some i) st =
     bindR (call_next i st) (\<lambda>nrb. bindR (finish e i RPC_CANTRECV st) (fail_calls e n nrb))"

definition call_eofcb :: "env \<Rightarrow> aid \<Rightarrow> cst \<Rightarrow> cst res" where
  "call_eofcb e a st =
     bindR (getclnt a st) (\<lambda>cn. case eofcb cn of None \<Rightarrow> Inr st | Some c \<Rightarrow> callback e (Eofcb c) st)"

definition aclnt_fail_base :: "env \<Rightarrow> aid \<Rightarrow> cst \<Rightarrow> cst res" where
  "aclnt_fail_base e a st =
     bindR (getclnt a st) (\<lambda>cn.
     bindR (fail_calls e (fuel e) (case acalls cn of [] \<Rightarrow> None | i # _ \<Rightarrow> Some i) st) (call_eofcb e a))"

text \<open>\<open>aclnt::fail\<close> and its override in \<open>aclnt_resumable\<close>.\<close>

definition aclnt_fail :: "env \<Rightarrow> aid \<Rightarrow> cst \<Rightarrow> cst res" where
  "aclnt_fail e a st =
     bindR (getclnt a st) (\<lambda>cn.
       case failcb cn of
         Some (Some f) \<Rightarrow>
           bindR (notify e (Failcb f) st) (\<lambda>(b, st). if b then Inr st else aclnt_fail_base e a st)
       | _ \<Rightarrow> aclnt_fail_base e a st)"

text \<open>
  The loop of \<open>aclnt::seteof\<close>: the client after this one is read once \<open>fail\<close> has returned; a client that
  has left the list in the meantime still has the link it had.
\<close>

fun seteof_loop :: "env \<Rightarrow> xhid \<Rightarrow> nat \<Rightarrow> aid option \<Rightarrow> cst \<Rightarrow> cst res" where
  "seteof_loop e x n None st = Inr st"
| "seteof_loop e x 0 (Some a) st = Inl NoReturn"
| "seteof_loop e x (Suc n) (Some a) st =
     bindR (aclnt_fail e a st) (\<lambda>st'.
       seteof_loop e x n
         (if a \<in> set (clist (xhs st' x)) then next_in (clist (xhs st' x)) a
          else next_in (clist (xhs st x)) a) st')"

definition aclnt_seteof :: "env \<Rightarrow> xhid \<Rightarrow> cst \<Rightarrow> cst res" where
  "aclnt_seteof e x st =
     (if xh_connected (xhs st x)
      then seteof_loop e x (fuel e) (case clist (xhs st x) of [] \<Rightarrow> None | a # _ \<Rightarrow> Some a) st
      else Inr st)"

section \<open>Replies\<close>

definition msg_type :: "u8 list \<Rightarrow> u32 res" where
  "msg_type msg = getint (drop 4 msg)"

text \<open>\<open>handle_err\<close>: a resumable client takes a bad reply for the failure of the transport.\<close>

definition handle_err :: "env \<Rightarrow> aid \<Rightarrow> cst \<Rightarrow> (bool \<times> cst) res" where
  "handle_err e a st =
     bindR (getclnt a st) (\<lambda>cn.
       case failcb cn of None \<Rightarrow> Inr (False, st) | Some _ \<Rightarrow> bindR (aclnt_fail e a st) (\<lambda>st. Inr (True, st)))"

definition aclnt_dispatch :: "env \<Rightarrow> xhid \<Rightarrow> u8 list option \<Rightarrow> nat option \<Rightarrow> cst \<Rightarrow> cst res" where
  "aclnt_dispatch e x m src st =
     (case m of
        None \<Rightarrow> aclnt_seteof e x st
      | Some msg \<Rightarrow>
          if length msg < 8 then aclnt_seteof e x st
          else bindR (msg_type msg) (\<lambda>ty.
               if ty \<noteq> 1 then aclnt_seteof e x st
               else bindR (getxid_msg msg) (\<lambda>v.
                 case xid_lookup st x v of
                   None \<Rightarrow> Inr st
                 | Some i \<Rightarrow>
                     bindR (getcall i st) (\<lambda>r.
                     bindR (checksrc r src st) (\<lambda>ok.
                     if \<not> ok then Inr st
                     else
                       bindR (decodemsg e i msg st) (\<lambda>(err, st).
                       bindR (if err = RPC_SUCCESS
                              then bindR (getcall i st) (\<lambda>r.
                                   bindR (getclnt (cl r) st) (\<lambda>cn.
                                   bindR (case recv_hook cn of None \<Rightarrow> Inr st | Some h \<Rightarrow> callback e (Hook h) st) (\<lambda>st.
                                   bindR (getcall i st) (\<lambda>r.
                                     Inr (upd_xh x (\<lambda>x. x\<lparr>max_acked_offset := max (max_acked_offset x) (offset r)\<rparr>) st)))))
                              else Inr st) (\<lambda>st.
                         if err = RPC_SUCCESS then finish e i err st
                         else bindR (getcall i st) (\<lambda>r.
                              bindR (handle_err e (cl r) st) (\<lambda>(h, st).
                                if h then Inr st else finish e i err st)))))))))"

text \<open>\<open>xhinfo::seteof\<close> and \<open>xhinfo::dispatch\<close>.\<close>

definition xhinfo_seteof :: "env \<Rightarrow> xhid \<Rightarrow> nat option \<Rightarrow> cst \<Rightarrow> cst res" where
  "xhinfo_seteof e x src st =
     (if xh_connected (xhs st x)
      then
        let st = upd_xh x (\<lambda>x. x\<lparr>xh_rcb := False\<rparr>) st
        in bindR (if clist (xhs st x) \<noteq> [] then aclnt_dispatch e x None src st else Inr st) (\<lambda>st.
             if stab (xhs st x) then asrv_dispatch e x None st else Inr st)
      else Inr st)"

definition xhinfo_dispatch :: "env \<Rightarrow> xhid \<Rightarrow> u8 list option \<Rightarrow> nat option \<Rightarrow> cst \<Rightarrow> cst res" where
  "xhinfo_dispatch e x m src st =
     (case m of
        None \<Rightarrow> xhinfo_seteof e x src st
      | Some msg \<Rightarrow>
          if length msg < 8 then xhinfo_seteof e x src st
          else if length msg mod 4 \<noteq> 0 then xhinfo_seteof e x src st
          else bindR (msg_type msg) (\<lambda>ty.
               if ty = 0 then (if stab (xhs st x) then asrv_dispatch e x (Some msg) st else xhinfo_seteof e x src st)
               else if ty = 1
               then (if clist (xhs st x) \<noteq> [] then aclnt_dispatch e x (Some msg) src st else xhinfo_seteof e x src st)
               else xhinfo_seteof e x src st))"

definition xhinfo_lookup :: "xhid \<Rightarrow> cst \<Rightarrow> xhid option" where
  "xhinfo_lookup x st = (if xh_ateof (xhs st x) then None else Some x)"

section \<open>Clients\<close>

text \<open>The loops of \<open>start\<close> and \<open>stop\<close> over the client's calls.\<close>

fun start_calls :: "xhid \<Rightarrow> cid list \<Rightarrow> cst \<Rightarrow> cst res" where
  "start_calls x [] st = Inr st"
| "start_calls x (i # is) st =
     bindR (getcall i st) (\<lambda>r.
     bindR (guardR AssertFail (xid_lookup st x (xid r) = None)) (\<lambda>_.
       start_calls x is (upd_xh x (\<lambda>x. x\<lparr>xidtab := i # xidtab x\<rparr>) st)))"

fun stop_calls :: "xhid \<Rightarrow> cid list \<Rightarrow> cst \<Rightarrow> cst res" where
  "stop_calls x [] st = Inr st"
| "stop_calls x (i # is) st =
     bindR (getcall i st) (\<lambda>r.
     bindR (guardR AssertFail (xid_lookup st x (xid r) = Some i)) (\<lambda>_.
       stop_calls x is (upd_xh x (\<lambda>x. x\<lparr>xidtab := remove1 i (xidtab x)\<rparr>) st)))"

definition aclnt_start :: "aid \<Rightarrow> cst \<Rightarrow> cst res" where
  "aclnt_start a st =
     bindR (getclnt a st) (\<lambda>cn.
       if stopped cn
       then
         let st = upd_clnt a (\<lambda>cn. cn\<lparr>stopped := False\<rparr>) st;
             st = upd_xh (xi cn) (\<lambda>x. x\<lparr>clist := a # clist x\<rparr>) st
         in start_calls (xi cn) (acalls cn) st
       else Inr st)"

definition aclnt_stop :: "aid \<Rightarrow> cst \<Rightarrow> cst res" where
  "aclnt_stop a st =
     bindR (getclnt a st) (\<lambda>cn.
       if \<not> stopped cn
       then
         let st = upd_clnt a (\<lambda>cn. cn\<lparr>stopped := True\<rparr>) st;
             st = upd_xh (xi cn) (\<lambda>x. x\<lparr>clist := remove1 a (clist x)\<rparr>) st
         in stop_calls (xi cn) (acalls cn) st
       else Inr st)"

text \<open>The constructor with \<open>aclnt::alloc\<close> and \<open>aclnt_resumable::alloc\<close>, and the destructor.\<close>

definition aclnt_new :: "aid \<Rightarrow> xhid \<Rightarrow> u32 \<times> u32 \<times> nat \<Rightarrow> calloc \<Rightarrow> nat option \<Rightarrow> nat option option \<Rightarrow> cst \<Rightarrow> cst res" where
  "aclnt_new a x rp ra d f st =
     (case rp of (pn, vn, np) \<Rightarrow>
        aclnt_start a (st\<lparr>clients := (clients st)(a \<mapsto>
          \<lparr>xi = x, progno = pn, versno = vn, nproc = np, eofcb = None, adest = d, stopped = True,
           send_hook = None, recv_hook = None, acalls = [], rpccb_alloc = ra, failcb = f\<rparr>)\<rparr>))"

definition aclnt_alloc :: "aid \<Rightarrow> xhid \<Rightarrow> u32 \<times> u32 \<times> nat \<Rightarrow> nat option \<Rightarrow> calloc option \<Rightarrow> cst \<Rightarrow> (aid option \<times> cst) res" where
  "aclnt_alloc a x rp d ra st =
     (case xhinfo_lookup x st of
        None \<Rightarrow> Inr (None, st)
      | Some x \<Rightarrow>
          bindR (aclnt_new a x rp
                   (case ra of Some al \<Rightarrow> al
                    | None \<Rightarrow> if xh_reliable (xhs st x) then AllocRpccb else AllocUnreliable)
                   (if xh_connected (xhs st x) then None else d) None st) (\<lambda>st. Inr (Some a, st)))"

definition aclnt_resumable_alloc :: "aid \<Rightarrow> xhid \<Rightarrow> u32 \<times> u32 \<times> nat \<Rightarrow> nat \<Rightarrow> cst \<Rightarrow> (aid option \<times> cst) res" where
  "aclnt_resumable_alloc a x rp f st =
     bindR (guardR AssertFail (xh_reliable (xhs st x))) (\<lambda>_.
       case xhinfo_lookup x st of
         None \<Rightarrow> Inr (None, st)
       | Some x \<Rightarrow> bindR (aclnt_new a x rp AllocMsgbufXmit None (Some (Some f)) st) (\<lambda>st. Inr (Some a, st)))"

definition aclnt_delete :: "aid \<Rightarrow> cst \<Rightarrow> cst res" where
  "aclnt_delete a st =
     bindR (getclnt a st) (\<lambda>cn.
     bindR (guardR AssertFail (acalls cn = [])) (\<lambda>_.
     bindR (aclnt_stop a st) (\<lambda>st. Inr (st\<lparr>clients := (clients st)(a := None)\<rparr>))))"

definition seteofcb :: "env \<Rightarrow> aid \<Rightarrow> nat option \<Rightarrow> cst \<Rightarrow> cst res" where
  "seteofcb e a c st =
     bindR (getclnt a st) (\<lambda>cn.
       let st = upd_clnt a (\<lambda>cn. cn\<lparr>eofcb := c\<rparr>) st
       in if xh_ateof (xhs st (xi cn))
          then let st = upd_clnt a (\<lambda>cn. cn\<lparr>eofcb := None\<rparr>) st
               in case c of None \<Rightarrow> Inr st | Some c \<Rightarrow> callback e (Eofcb c) st
          else Inr st)"

text \<open>The setters of \<open>aclnt.h\<close>, and \<open>xhinfo::xon\<close>, which turns reception on or off.\<close>

definition set_send_hook :: "aid \<Rightarrow> nat option \<Rightarrow> cst \<Rightarrow> cst res" where
  "set_send_hook a h st = bindR (getclnt a st) (\<lambda>_. Inr (upd_clnt a (\<lambda>cn. cn\<lparr>send_hook := h\<rparr>) st))"

definition set_recv_hook :: "aid \<Rightarrow> nat option \<Rightarrow> cst \<Rightarrow> cst res" where
  "set_recv_hook a h st = bindR (getclnt a st) (\<lambda>_. Inr (upd_clnt a (\<lambda>cn. cn\<lparr>recv_hook := h\<rparr>) st))"

definition setfailcb :: "aid \<Rightarrow> nat option \<Rightarrow> cst \<Rightarrow> cst res" where
  "setfailcb a f st = bindR (getclnt a st) (\<lambda>_. Inr (upd_clnt a (\<lambda>cn. cn\<lparr>failcb := Some f\<rparr>) st))"

definition calls_outstanding :: "aclnt \<Rightarrow> bool" where
  "calls_outstanding cn \<longleftrightarrow> acalls cn \<noteq> []"

definition xon :: "xhid \<Rightarrow> bool \<Rightarrow> cst \<Rightarrow> cst res" where
  "xon x receive st =
     bindR (guardR AssertFail (xhinfo_lookup x st \<noteq> None)) (\<lambda>_.
       if \<not> receive then Inr (upd_xh x (\<lambda>h. h\<lparr>xh_rcb := False\<rparr>) st)
       else if \<not> xh_ateof (xhs st x) then Inr (upd_xh x (\<lambda>h. h\<lparr>xh_rcb := True\<rparr>) st)
       else Inr st)"

section \<open>Making calls\<close>

text \<open>\<open>marshal_call\<close>: the header, the credentials and the arguments; \<open>None\<close> where an encoder fails.\<close>

definition marshal_call :: "u8 list option \<Rightarrow> u32 \<Rightarrow> u32 \<Rightarrow> u32 \<Rightarrow> u8 list option \<Rightarrow> u8 list option" where
  "marshal_call auth pn vn procno args =
     (case auth of
        None \<Rightarrow> None
      | Some ab \<Rightarrow>
          (case args of
             None \<Rightarrow> None
           | Some bs \<Rightarrow>
               Some (putint 0 @ putint 0 @ putint 2 @ putint pn @ putint vn @ putint procno @ ab @ bs)))"

definition ateof_fail :: "env \<Rightarrow> aid \<Rightarrow> cst \<Rightarrow> (bool \<times> cst) res" where
  "ateof_fail e a st =
     bindR (getclnt a st) (\<lambda>cn.
       case failcb cn of
         None \<Rightarrow> Inr (xh_ateof (xhs st (xi cn)), st)
       | Some _ \<Rightarrow>
           bindR (if xh_ateof (xhs st (xi cn)) then aclnt_fail e a st else Inr st) (\<lambda>st. Inr (False, st)))"

definition forget_call :: "aid \<Rightarrow> nat option \<Rightarrow> cst \<Rightarrow> bool res" where
  "forget_call a c st =
     bindR (getclnt a st) (\<lambda>cn. Inr (failcb cn = None \<and> xh_reliable (xhs st (xi cn)) \<and> c = None))"

text \<open>
  \<open>init_call\<close>: the message, or \<open>None\<close> when the call is refused. \<open>pn\<close> is the program number asked for, 0
  for the client's own; the encoders' results are arguments.
\<close>

definition init_call ::
  "env \<Rightarrow> aid \<Rightarrow> u32 \<Rightarrow> u8 list option \<Rightarrow> u8 list option \<Rightarrow> nat option \<Rightarrow> u32 \<Rightarrow> u32 \<Rightarrow> cst \<Rightarrow> (u8 list option \<times> cst) res" where
  "init_call e a procno auth args c pn vn st =
     bindR (ateof_fail e a st) (\<lambda>(eof, st).
       if eof then bindR (callback e (Refused c RPC_CANTSEND) st) (\<lambda>st. Inr (None, st))
       else
         bindR (getclnt a st) (\<lambda>cn.
         bindR (if pn = 0
                then bindR (guardR AssertFail (unat procno < nproc cn)) (\<lambda>_.
                       Inr (progno cn, if vn = 0 then versno cn else vn))
                else Inr (pn, vn)) (\<lambda>(pn, vn).
         bindR (guardR AssertFail (pn \<noteq> 0 \<and> vn \<noteq> 0)) (\<lambda>_.
         case marshal_call auth pn vn procno args of
           None \<Rightarrow> bindR (callback e (Refused c RPC_CANTENCODEARGS) st) (\<lambda>st. Inr (None, st))
         | Some msg \<Rightarrow>
             bindR (forget_call a c st) (\<lambda>fg.
               if fg then Inr (Some msg, st)
               else bindR (genxid (xi cn) st) (\<lambda>(v, st). Inr (Some (putxid v @ drop 4 msg), st)))))))"

text \<open>\<open>rpccb::getxid\<close> and the constructors with their \<open>init\<close>.\<close>

definition getxid :: "aid \<Rightarrow> u8 list \<Rightarrow> cst \<Rightarrow> (u32 \<times> u8 list \<times> cst) res" where
  "getxid a msg st =
     bindR (guardR AssertFail (4 \<le> length msg)) (\<lambda>_.
     bindR (getxid_msg msg) (\<lambda>v.
       if v = 0
       then bindR (getclnt a st) (\<lambda>cn.
            bindR (genxid (xi cn) st) (\<lambda>(v, st). Inr (v, putxid v @ drop 4 msg, st)))
       else Inr (v, msg, st)))"

definition rpccb_init :: "env \<Rightarrow> aid \<Rightarrow> cid \<Rightarrow> u8 list \<Rightarrow> nat option \<Rightarrow> cst \<Rightarrow> (cid option \<times> cst) res" where
  "rpccb_init e a i msg d st =
     bindR (getclnt a st) (\<lambda>cn.
     bindR (xmit_pkt e (xi cn) d msg st) (\<lambda>st.
     bindR (ateof_fail e a st) (\<lambda>(eof, st).
       if eof then Inr (None, st)
       else bindR (getcall i st) (\<lambda>_.
            bindR (getclnt a st) (\<lambda>cn.
              Inr (Some i, upd_call i (\<lambda>r. r\<lparr>offset := xh_raw (xhs st (xi cn))\<rparr>) st))))))"

definition do_rpccb_alloc ::
  "env \<Rightarrow> aid \<Rightarrow> u8 list \<Rightarrow> nat option \<Rightarrow> nat option \<Rightarrow> cst \<Rightarrow> (cid option \<times> cst) res" where
  "do_rpccb_alloc e a msg c d st =
     bindR (getclnt a st) (\<lambda>cn.
     bindR (getxid a msg st) (\<lambda>(v, msg, st).
       case rpccb_alloc cn of
         AllocRpccb \<Rightarrow>
           bindR (callbase_new a v d Rpccb c st) (\<lambda>(i, st). rpccb_init e a i msg d st)
       | AllocMsgbufXmit \<Rightarrow>
           bindR (callbase_new a v d (MsgbufXmit msg) c st) (\<lambda>(i, st).
           bindR (xmit e i st) (\<lambda>st. Inr (Some i, st)))
       | AllocUnreliable \<Rightarrow>
           bindR (callbase_new a v d (Unreliable msg) c st) (\<lambda>(i, st).
           bindR (xmit e i (st\<lparr>rpctoq := rpctoq st @ [i]\<rparr>)) (\<lambda>st. Inr (Some i, st)))))"

text \<open>\<open>aclnt::call\<close>: \<open>c = None\<close> stands for \<open>aclnt_cb_null\<close>.\<close>

definition aclnt_call ::
  "env \<Rightarrow> aid \<Rightarrow> u32 \<Rightarrow> u8 list option \<Rightarrow> u8 list option \<Rightarrow> nat option \<Rightarrow> u32 \<Rightarrow> u32 \<Rightarrow> nat option \<Rightarrow> cst \<Rightarrow> (cid option \<times> cst) res" where
  "aclnt_call e a procno auth args c pn vn d st =
     bindR (init_call e a procno auth args c pn vn st) (\<lambda>(m, st).
       case m of
         None \<Rightarrow> Inr (None, st)
       | Some msg \<Rightarrow>
           bindR (getclnt a st) (\<lambda>cn.
             let d = (if d = None then adest cn else d)
             in bindR (case send_hook cn of None \<Rightarrow> Inr st | Some h \<Rightarrow> callback e (Hook h) st) (\<lambda>st.
                bindR (forget_call a c st) (\<lambda>fg.
                  if fg
                  then bindR (getclnt a st) (\<lambda>cn.
                       if xh_ateof (xhs st (xi cn)) then Inr (None, st)
                       else bindR (xmit_pkt e (xi cn) d msg st) (\<lambda>st. Inr (None, st)))
                  else do_rpccb_alloc e a msg c d st))))"

definition timedcall ::
  "env \<Rightarrow> aid \<Rightarrow> u32 \<Rightarrow> u8 list option \<Rightarrow> u8 list option \<Rightarrow> nat option \<Rightarrow> u32 \<Rightarrow> u32 \<Rightarrow> nat option \<Rightarrow> cst \<Rightarrow> (cid option \<times> cst) res" where
  "timedcall e a procno auth args c pn vn d st =
     bindR (aclnt_call e a procno auth args c pn vn d st) (\<lambda>(r, st).
       case r of None \<Rightarrow> Inr (None, st) | Some i \<Rightarrow> bindR (call_timeout i st) (\<lambda>st. Inr (Some i, st)))"

definition aclnt_rawcall :: "env \<Rightarrow> aid \<Rightarrow> u8 list \<Rightarrow> nat \<Rightarrow> nat option \<Rightarrow> cst \<Rightarrow> (cid \<times> cst) res" where
  "aclnt_rawcall e a msg c d st =
     bindR (getclnt a st) (\<lambda>cn.
     bindR (genxid (xi cn) st) (\<lambda>(v, st).
     bindR (callbase_new a v d (Rawcall 0) (Some c) st) (\<lambda>(i, st).
     bindR (guardR AssertFail (4 \<le> length msg)) (\<lambda>_.
     bindR (guardR AssertFail (xh_reliable (xhs st (xi cn)))) (\<lambda>_.
     bindR (getxid_msg msg) (\<lambda>old.
     bindR (xmit_pkt e (xi cn) d (putxid v @ drop 4 msg) (upd_call i (\<lambda>r. r\<lparr>kind := Rawcall old\<rparr>) st)) (\<lambda>st.
       Inr (i, st))))))))"

section \<open>Resuming on another transport\<close>

definition pre_resume :: "aid \<Rightarrow> xhid \<Rightarrow> cst \<Rightarrow> (bool \<times> cst) res" where
  "pre_resume a x st =
     bindR (guardR AssertFail (xh_reliable (xhs st x))) (\<lambda>_.
       case xhinfo_lookup x st of
         None \<Rightarrow> Inr (False, st)
       | Some x \<Rightarrow>
           bindR (aclnt_stop a st) (\<lambda>st.
           bindR (aclnt_start a (upd_clnt a (\<lambda>cn. cn\<lparr>xi := x\<rparr>) st)) (\<lambda>st. Inr (True, st))))"

fun post_resume_loop :: "env \<Rightarrow> nat \<Rightarrow> cid option \<Rightarrow> cst \<Rightarrow> cst res" where
  "post_resume_loop e n None st = Inr st"
| "post_resume_loop e 0 (Some i) st = Inl NoReturn"
| "post_resume_loop e (Suc n) (Some i) st =
     bindR (getcall i st) (\<lambda>_.
     bindR (xmit e i (upd_call i (\<lambda>r. r\<lparr>offset := 0\<rparr>) st)) (\<lambda>st.
     bindR (call_next i st) (\<lambda>nrb. post_resume_loop e n nrb st)))"

definition post_resume :: "env \<Rightarrow> aid \<Rightarrow> cst \<Rightarrow> cst res" where
  "post_resume e a st =
     bindR (getclnt a st) (\<lambda>cn. post_resume_loop e (fuel e) (case acalls cn of [] \<Rightarrow> None | i # _ \<Rightarrow> Some i) st)"

definition resume :: "env \<Rightarrow> aid \<Rightarrow> xhid \<Rightarrow> cst \<Rightarrow> (bool \<times> cst) res" where
  "resume e a x st =
     bindR (pre_resume a x st) (\<lambda>(ok, st).
       if ok then bindR (post_resume e a st) (\<lambda>st. Inr (True, st)) else Inr (False, st))"

section \<open>The invariant\<close>

text \<open>A call is running on a transport when its client is attached to it and not stopped.\<close>

definition running :: "cst \<Rightarrow> xhid \<Rightarrow> cid \<Rightarrow> bool" where
  "running st x i \<longleftrightarrow>
     (\<exists>r cn. calls st i = Some r \<and> clients st (cl r) = Some cn \<and> xi cn = x \<and> \<not> stopped cn)"

fun fin_ids :: "uevent list \<Rightarrow> cid list" where
  "fin_ids [] = []"
| "fin_ids (Finished i c s # evs) = i # fin_ids evs"
| "fin_ids (ev # evs) = fin_ids evs"

definition calls_ok :: "cst \<Rightarrow> bool" where
  "calls_ok st \<longleftrightarrow>
     (\<forall>i r. calls st i = Some r \<longrightarrow>
        i < nextcall st \<and> (\<exists>cn. clients st (cl r) = Some cn \<and> i \<in> set (acalls cn)))"

definition clients_ok :: "cst \<Rightarrow> bool" where
  "clients_ok st \<longleftrightarrow>
     (\<forall>a cn. clients st a = Some cn \<longrightarrow>
        distinct (acalls cn) \<and> (\<forall>i\<in>set (acalls cn). \<exists>r. calls st i = Some r \<and> cl r = a))"

definition tabs_ok :: "cst \<Rightarrow> bool" where
  "tabs_ok st \<longleftrightarrow>
     (\<forall>x. distinct (xidtab (xhs st x)) \<and> set (xidtab (xhs st x)) = Collect (running st x)) \<and>
     (\<forall>x i j r s. running st x i \<longrightarrow> running st x j \<longrightarrow> calls st i = Some r \<longrightarrow> calls st j = Some s \<longrightarrow>
        xid r = xid s \<longrightarrow> i = j)"

definition clists_ok :: "cst \<Rightarrow> bool" where
  "clists_ok st \<longleftrightarrow>
     (\<forall>x. distinct (clist (xhs st x)) \<and>
        set (clist (xhs st x)) = {a. \<exists>cn. clients st a = Some cn \<and> xi cn = x \<and> \<not> stopped cn})"

definition log_ok :: "cst \<Rightarrow> bool" where
  "log_ok st \<longleftrightarrow>
     distinct (fin_ids (log st)) \<and> (\<forall>i\<in>set (fin_ids (log st)). i < nextcall st \<and> calls st i = None)"

definition cinv :: "cst \<Rightarrow> bool" where
  "cinv st \<longleftrightarrow> calls_ok st \<and> clients_ok st \<and> tabs_ok st \<and> clists_ok st \<and> log_ok st"

lemmas cinv_defs = cinv_def calls_ok_def clients_ok_def tabs_ok_def clists_ok_def log_ok_def

text \<open>An environment whose callbacks, whatever they do, leave the library's state sound.\<close>

definition env_ok :: "env \<Rightarrow> bool" where
  "env_ok e \<longleftrightarrow>
     (\<forall>ev st b st'. cinv st \<longrightarrow> user e ev st = Inr (b, st') \<longrightarrow> cinv st') \<and>
     (\<forall>x d m st st'. cinv st \<longrightarrow> xmit_pkt e x d m st = Inr st' \<longrightarrow> cinv st') \<and>
     (\<forall>x m st st'. cinv st \<longrightarrow> asrv_dispatch e x m st = Inr st' \<longrightarrow> cinv st')"

lemma fin_ids_append [simp]: "fin_ids (xs @ ys) = fin_ids xs @ fin_ids ys"
  by (induction xs rule: fin_ids.induct) auto

lemma getcall_eq: "getcall i st = Inr r \<longleftrightarrow> calls st i = Some r"
  by (simp add: getcall_def split: option.split)

lemma getclnt_eq: "getclnt a st = Inr cn \<longleftrightarrow> clients st a = Some cn"
  by (simp add: getclnt_def split: option.split)

lemmas op_simps = bindR_eq_Inr getcall_eq getclnt_eq

lemma upd_xh_simps [simp]:
  "clients (upd_xh x f st) = clients st" "calls (upd_xh x f st) = calls st" "nextcall (upd_xh x f st) = nextcall st"
  "log (upd_xh x f st) = log st" "rng (upd_xh x f st) = rng st" "rpctoq (upd_xh x f st) = rpctoq st"
  "xhs (upd_xh x f st) = (xhs st)(x := f (xhs st x))"
  by (simp_all add: upd_xh_def)

lemma upd_clnt_simps [simp]:
  "xhs (upd_clnt a f st) = xhs st" "calls (upd_clnt a f st) = calls st" "nextcall (upd_clnt a f st) = nextcall st"
  "log (upd_clnt a f st) = log st" "rng (upd_clnt a f st) = rng st" "rpctoq (upd_clnt a f st) = rpctoq st"
  "clients (upd_clnt a f st) = (clients st)(a := map_option f (clients st a))"
  by (simp_all add: upd_clnt_def)

lemma upd_call_simps [simp]:
  "xhs (upd_call a f st) = xhs st" "clients (upd_call a f st) = clients st" "nextcall (upd_call a f st) = nextcall st"
  "log (upd_call a f st) = log st" "rng (upd_call a f st) = rng st" "rpctoq (upd_call a f st) = rpctoq st"
  "calls (upd_call a f st) = (calls st)(a := map_option f (calls st a))"
  by (simp_all add: upd_call_def)

text \<open>The table finds a running call by its XID.\<close>

lemma find_unique:
  "i \<in> set xs \<Longrightarrow> P i \<Longrightarrow> (\<And>j. j \<in> set xs \<Longrightarrow> P j \<Longrightarrow> j = i) \<Longrightarrow> find P xs = Some i"
proof (induction xs)
  case (Cons y ys)
  show ?case
  proof (cases "P y")
    case True
    then have "y = i" using Cons.prems(3) by (meson list.set_intros(1))
    then show ?thesis using True by simp
  next
    case False
    then have "i \<in> set ys" using Cons.prems(1,2) by auto
    then have "find P ys = Some i" using Cons.IH Cons.prems(2,3) by (meson list.set_intros(2))
    then show ?thesis using False by simp
  qed
qed simp

lemma xid_lookup_eq:
  assumes "tabs_ok st"
  shows "xid_lookup st x v = Some i \<longleftrightarrow> running st x i \<and> (\<exists>r. calls st i = Some r \<and> xid r = v)"
proof
  assume "xid_lookup st x v = Some i"
  then have "i \<in> set (xidtab (xhs st x))" "case calls st i of Some r \<Rightarrow> xid r = v | None \<Rightarrow> False"
    unfolding xid_lookup_def by (auto simp only: find_Some_iff nth_mem)
  then show "running st x i \<and> (\<exists>r. calls st i = Some r \<and> xid r = v)"
    using assms by (auto simp: tabs_ok_def split: option.splits)
next
  assume a: "running st x i \<and> (\<exists>r. calls st i = Some r \<and> xid r = v)"
  show "xid_lookup st x v = Some i"
    unfolding xid_lookup_def
  proof (rule find_unique)
    show "i \<in> set (xidtab (xhs st x))" using a assms by (auto simp: tabs_ok_def)
    show "case calls st i of Some r \<Rightarrow> xid r = v | None \<Rightarrow> False" using a by auto
    fix j assume "j \<in> set (xidtab (xhs st x))" "case calls st j of Some r \<Rightarrow> xid r = v | None \<Rightarrow> False"
    then obtain s where "running st x j" "calls st j = Some s" "xid s = v"
      using assms by (auto simp: tabs_ok_def split: option.splits)
    then show "j = i" using a assms unfolding tabs_ok_def by blast
  qed
qed

lemma xid_lookup_None:
  assumes "tabs_ok st"
  shows "xid_lookup st x v = None \<longleftrightarrow> (\<forall>i r. running st x i \<longrightarrow> calls st i = Some r \<longrightarrow> xid r \<noteq> v)"
  using xid_lookup_eq [OF assms] by (metis not_None_eq option.sel option.simps(3))

lemma calls_okD:
  assumes "calls_ok st" "calls st i = Some r"
  shows "i < nextcall st" "\<exists>cn. clients st (cl r) = Some cn"
    "clients st (cl r) = Some cn \<Longrightarrow> i \<in> set (acalls cn)"
  using assms by (fastforce simp: calls_ok_def)+

lemma calls_okI:
  "(\<And>i r. calls st i = Some r \<Longrightarrow> i < nextcall st \<and> (\<exists>cn. clients st (cl r) = Some cn \<and> i \<in> set (acalls cn)))
     \<Longrightarrow> calls_ok st"
  by (auto simp: calls_ok_def)

lemma clients_okD:
  assumes "clients_ok st" "clients st a = Some cn"
  shows "distinct (acalls cn)" "i \<in> set (acalls cn) \<Longrightarrow> \<exists>r. calls st i = Some r \<and> cl r = a"
  using assms by (auto simp: clients_ok_def)

lemma clients_okI:
  "(\<And>a cn. clients st a = Some cn \<Longrightarrow> distinct (acalls cn)) \<Longrightarrow>
   (\<And>a cn i. clients st a = Some cn \<Longrightarrow> i \<in> set (acalls cn) \<Longrightarrow> \<exists>r. calls st i = Some r \<and> cl r = a) \<Longrightarrow> clients_ok st"
  by (auto simp: clients_ok_def)

text \<open>Changes of a call that keep its client and its XID.\<close>

lemma cinv_upd_call:
  assumes "cinv st" "\<And>r. cl (f r) = cl r" "\<And>r. xid (f r) = xid r"
  shows "cinv (upd_call i f st)"
proof -
  have run: "running (upd_call i f st) x j = running st x j" for x j
    using assms(2) by (auto simp: running_def)
  have call: "calls (upd_call i f st) j = Some s \<Longrightarrow> \<exists>r. calls st j = Some r \<and> cl r = cl s \<and> xid r = xid s" for j s
    using assms(2,3) by (auto split: if_splits)
  have "calls_ok (upd_call i f st)"
    using assms(1) call by (fastforce simp: cinv_def calls_ok_def)
  moreover have "clients_ok (upd_call i f st)"
    using assms(1,2) by (fastforce simp: cinv_def clients_ok_def)
  moreover have "tabs_ok (upd_call i f st)"
    unfolding tabs_ok_def run
  proof (intro conjI allI impI)
    fix x show "distinct (xidtab (xhs (upd_call i f st) x))" "set (xidtab (xhs (upd_call i f st) x)) = Collect (running st x)"
      using assms(1) by (simp_all add: cinv_def tabs_ok_def)
    fix j k r s assume "running st x j" "running st x k" "calls (upd_call i f st) j = Some r" "calls (upd_call i f st) k = Some s" "xid r = xid s"
    moreover from this obtain r' s' where "calls st j = Some r'" "calls st k = Some s'" "xid r' = xid s'" using call by metis
    ultimately show "j = k" using assms(1) unfolding cinv_def tabs_ok_def by blast
  qed
  moreover have "clists_ok (upd_call i f st)" "log_ok (upd_call i f st)" using assms by (auto simp: cinv_defs)
  ultimately show ?thesis by (simp add: cinv_def)
qed

lemma cinv_frame: "cinv st \<Longrightarrow> xhs st' = xhs st \<Longrightarrow> clients st' = clients st \<Longrightarrow> calls st' = calls st \<Longrightarrow>
  nextcall st' = nextcall st \<Longrightarrow> fin_ids (log st') = fin_ids (log st) \<Longrightarrow> cinv st'"
proof -
  assume a: "cinv st" "xhs st' = xhs st" "clients st' = clients st" "calls st' = calls st"
    "nextcall st' = nextcall st" "fin_ids (log st') = fin_ids (log st)"
  have "running st' = running st" by (simp add: running_def fun_eq_iff a)
  then show ?thesis using a(1) by (simp add: cinv_defs a)
qed

lemma callbase_new_cinv:
  assumes inv: "cinv st" and new: "callbase_new a v d k c st = Inr (i, st')"
    and cn: "clients st a = Some cn" "\<not> stopped cn" and fresh: "xid_lookup st (xi cn) v = None"
  shows "cinv st'" "i = nextcall st" "calls st' i = Some \<lparr>cl = a, cdest = d, tmo = False, xid = v, offset = 0, kind = k, ucb = c\<rparr>"
proof -
  let ?r = "\<lparr>cl = a, cdest = d, tmo = False, xid = v, offset = 0, kind = k, ucb = c\<rparr>"
  have i: "i = nextcall st" and st': "calls st' = (calls st)(i \<mapsto> ?r)" "nextcall st' = i + 1" "log st' = log st"
    "clients st' = (clients st)(a \<mapsto> cn\<lparr>acalls := acalls cn @ [i]\<rparr>)"
    "xhs st' = (xhs st)(xi cn := (xhs st (xi cn))\<lparr>xidtab := i # xidtab (xhs st (xi cn))\<rparr>)"
    using new cn by (auto simp: callbase_new_def op_simps Let_def)
  show "i = nextcall st" "calls st' i = Some ?r" using i st' by simp_all
  have none: "calls st i = None" using inv i by (auto simp: cinv_defs) (meson less_irrefl not_None_eq)
  have run: "running st' x j \<longleftrightarrow> running st x j \<or> (j = i \<and> x = xi cn)" for x j
    using cn none by (auto simp: running_def st')
  have fresh': "xid r \<noteq> v" if "running st (xi cn) j" "calls st j = Some r" for j r
    using fresh that inv xid_lookup_None by (auto simp: cinv_def)
  have ok: "calls_ok st" "clients_ok st" using inv by (simp_all add: cinv_def)
  have "calls_ok st'"
  proof (rule calls_okI)
    fix j r assume "calls st' j = Some r"
    then show "j < nextcall st' \<and> (\<exists>cn. clients st' (cl r) = Some cn \<and> j \<in> set (acalls cn))"
      using calls_okD [OF ok(1), of j r] i cn(1)
      by (cases "j = i"; cases "cl r = a") (auto simp: st' less_SucI)
  qed
  moreover have "clients_ok st'"
  proof (rule clients_okI)
    fix b c assume c: "clients st' b = Some c"
    show "distinct (acalls c)"
      using c clients_okD [OF ok(2)] cn(1) none by (fastforce simp: st' split: if_splits)
    fix j assume "j \<in> set (acalls c)"
    moreover have "i \<notin> set (acalls d)" if "clients st e = Some d" for d e
      using clients_okD(2) [OF ok(2) that, of i] none by auto
    ultimately show "\<exists>r. calls st' j = Some r \<and> cl r = b"
      using c clients_okD(2) [OF ok(2), of b _ j] cn(1) by (cases "j = i"; cases "b = a") (auto simp: st' clients_okD [OF ok(2)] split: if_splits)
  qed
  moreover have "tabs_ok st'"
  proof -
    have "\<not> running st x i" for x using none by (simp add: running_def)
    then show ?thesis
      using inv fresh' unfolding tabs_ok_def cinv_def run
      by (auto simp: st' split: if_splits)
  qed
  moreover have "clists_ok st'" using inv cn unfolding clists_ok_def cinv_def by (auto simp: st')
  moreover have "log_ok st'" using inv i unfolding log_ok_def cinv_def by (auto simp: st')
  ultimately show "cinv st'" by (simp add: cinv_def)
qed

lemma callbase_delete_cinv:
  assumes inv: "cinv st" and del: "callbase_delete i st = Inr st'"
  shows "cinv st'" "calls st' i = None" "log st' = log st" "\<exists>r. calls st i = Some r" "nextcall st' = nextcall st"
proof -
  obtain r cn where r: "calls st i = Some r" "clients st (cl r) = Some cn"
    using del by (auto simp: callbase_delete_def op_simps)
  have lk: "xid_lookup (upd_clnt (cl r) (\<lambda>cn. cn\<lparr>acalls := remove1 i (acalls cn)\<rparr>) (st\<lparr>rpctoq := removeAll i (rpctoq st)\<rparr>)) (xi cn) (xid r)
      = xid_lookup st (xi cn) (xid r)" by (simp add: xid_lookup_def)
  have tok: "tabs_ok st" using inv by (simp add: cinv_def)
  have xt: "set (xidtab (xhs st (xi cn))) = Collect (running st (xi cn))" "distinct (xidtab (xhs st (xi cn)))"
    using tok by (auto simp: tabs_ok_def)
  define tab where "tab = remove1 i (xidtab (xhs st (xi cn)))"
  have "xid_lookup st (xi cn) (xid r) \<noteq> Some i \<Longrightarrow> tab = xidtab (xhs st (xi cn))"
    using xid_lookup_eq [OF tok] r xt by (auto simp: tab_def remove1_idem)
  then have st': "calls st' = (calls st)(i := None)" "nextcall st' = nextcall st" "log st' = log st"
    "clients st' = (clients st)(cl r \<mapsto> cn\<lparr>acalls := remove1 i (acalls cn)\<rparr>)"
    "xhs st' = (xhs st)(xi cn := (xhs st (xi cn))\<lparr>xidtab := tab\<rparr>)"
    using del r lk by (auto simp: callbase_delete_def op_simps Let_def tab_def split: if_splits)
  show "calls st' i = None" "log st' = log st" "\<exists>r. calls st i = Some r" "nextcall st' = nextcall st" using st' r by simp_all
  have run: "running st' x j \<longleftrightarrow> running st x j \<and> j \<noteq> i" for x j
    using r by (auto simp: running_def st')
  have own: "i \<in> set (acalls c) \<Longrightarrow> clients st b = Some c \<Longrightarrow> b = cl r" for b c
    using inv r by (force simp: cinv_defs)
  have dis: "distinct (acalls cn)" using inv r by (simp add: cinv_defs)
  have ok: "calls_ok st" "clients_ok st" using inv by (simp_all add: cinv_def)
  have "calls_ok st'"
  proof (rule calls_okI)
    fix j s assume "calls st' j = Some s"
    then have j: "j \<noteq> i" "calls st j = Some s" by (auto simp: st' split: if_splits)
    then show "j < nextcall st' \<and> (\<exists>cn. clients st' (cl s) = Some cn \<and> j \<in> set (acalls cn))"
      using calls_okD [OF ok(1) j(2)] r(2) by (cases "cl s = cl r") (auto simp: st')
  qed
  moreover have "clients_ok st'"
  proof (rule clients_okI)
    fix b c assume c: "clients st' b = Some c"
    show "distinct (acalls c)"
      using c clients_okD(1) [OF ok(2), of b] dis by (cases "b = cl r") (auto simp: st')
    fix j assume j: "j \<in> set (acalls c)"
    have "j \<noteq> i" using c j dis own by (cases "b = cl r") (auto simp: st')
    moreover have "\<exists>s. calls st j = Some s \<and> cl s = b"
    proof (cases "b = cl r")
      case True
      then have "c = cn\<lparr>acalls := remove1 i (acalls cn)\<rparr>" using c by (simp add: st')
      then have "j \<in> set (acalls cn)" using j dis by simp
      then show ?thesis using clients_okD(2) [OF ok(2) r(2)] True by simp
    next
      case False
      then show ?thesis using c j clients_okD(2) [OF ok(2), of b c j] by (simp add: st')
    qed
    ultimately show "\<exists>s. calls st' j = Some s \<and> cl s = b" by (simp add: st')
  qed
  moreover have "tabs_ok st'"
  proof -
    have o: "x \<noteq> xi cn \<Longrightarrow> \<not> running st x i" for x using r by (auto simp: running_def)
    have s: "set tab = Collect (running st (xi cn)) - {i}" "distinct tab" using xt by (auto simp: tab_def)
    show ?thesis using tok o s unfolding tabs_ok_def run by (auto simp: st')
  qed
  moreover have "clists_ok st'" using inv r unfolding clists_ok_def cinv_def by (auto simp: st')
  moreover have "log_ok st'" using inv unfolding log_ok_def cinv_def by (auto simp: st')
  ultimately show "cinv st'" by (simp add: cinv_def)
qed

section \<open>Every operation keeps the invariant\<close>

lemma running_frame [simp]:
  "running (st\<lparr>log := l\<rparr>) = running st" "running (upd_xh x f st) = running st"
  "running (st\<lparr>rng := g\<rparr>) = running st" "running (st\<lparr>rpctoq := q\<rparr>) = running st"
  by (simp_all add: running_def fun_eq_iff)

lemma post_getcall: "post (\<lambda>r. calls st i = Some r) (getcall i st)"
  by (simp add: getcall_def split: option.split)

lemma post_getclnt: "post (\<lambda>c. clients st a = Some c) (getclnt a st)"
  by (simp add: getclnt_def split: option.split)

lemmas post_basic = post_bind [OF post_getcall] post_bind [OF post_getclnt] post_bind [OF post_guard]

abbreviation cpost :: "cst res \<Rightarrow> bool" where "cpost \<equiv> post cinv"
abbreviation cpost2 :: "('a \<times> cst) res \<Rightarrow> bool" where "cpost2 \<equiv> post (\<lambda>(b, st). cinv st)"

definition is_fin :: "uevent \<Rightarrow> bool" where
  "is_fin ev \<longleftrightarrow> (\<exists>i c s. ev = Finished i c s)"

lemma fin_ids_single: "\<not> is_fin ev \<Longrightarrow> fin_ids [ev] = []"
  by (cases ev) (auto simp: is_fin_def)

lemma is_fin_simps [simp]:
  "\<not> is_fin (RawReply i c m)" "\<not> is_fin (RawFinished i c s)" "\<not> is_fin (Refused f s)" "\<not> is_fin (Eofcb n)"
  "\<not> is_fin (Hook n)" "\<not> is_fin (Failcb n)"
  by (simp_all add: is_fin_def)

lemma env_okD:
  assumes "env_ok e" "cinv st"
  shows "cpost2 (user e ev st)" "cpost (xmit_pkt e x d m st)" "cpost (asrv_dispatch e x msg st)"
proof -
  show "cpost2 (user e ev st)"
  proof (cases "user e ev st")
    case (Inr p)
    then obtain b st' where "user e ev st = Inr (b, st')" by (cases p) simp
    moreover from this have "cinv st'" using assms unfolding env_ok_def by blast
    ultimately show ?thesis by simp
  qed simp
  show "cpost (xmit_pkt e x d m st)"
  proof (cases "xmit_pkt e x d m st")
    case (Inr st')
    then have "cinv st'" using assms unfolding env_ok_def by blast
    then show ?thesis by (simp add: Inr)
  qed simp
  show "cpost (asrv_dispatch e x msg st)"
  proof (cases "asrv_dispatch e x msg st")
    case (Inr st')
    then have "cinv st'" using assms unfolding env_ok_def by blast
    then show ?thesis by (simp add: Inr)
  qed simp
qed

lemma post_notify:
  assumes "env_ok e" "cinv st" "\<not> is_fin ev"
  shows "cpost2 (notify e ev st)"
proof -
  have "cinv (st\<lparr>log := log st @ [ev]\<rparr>)"
    by (rule cinv_frame [OF assms(2)]) (simp_all add: fin_ids_single [OF assms(3)])
  then show ?thesis using env_okD(1) [OF assms(1)] by (simp add: notify_def)
qed

lemma post_callback:
  assumes "env_ok e" "cinv st" "\<not> is_fin ev"
  shows "cpost (callback e ev st)"
  unfolding callback_def by (rule post_bind [OF post_notify [OF assms]]) auto

lemma post_finished:
  assumes "env_ok e" "cinv st" "calls st i = None" "i < nextcall st" "i \<notin> set (fin_ids (log st))"
  shows "cpost (callback e (Finished i c s) st)"
proof -
  have "cinv (st\<lparr>log := log st @ [Finished i c s]\<rparr>)"
    using assms(2-5) by (auto simp: cinv_defs)
  then show ?thesis
    unfolding callback_def notify_def by (intro post_bind [OF env_okD(1) [OF assms(1)]]) auto
qed

lemma post_delete: "cinv st \<Longrightarrow> cpost (callbase_delete i st)"
  using callbase_delete_cinv(1) by (fastforce simp: post_def split: sum.split)

lemma post_option_Inr: "P x0 \<Longrightarrow> (\<And>c. x = Some c \<Longrightarrow> post P (f c)) \<Longrightarrow> post P (case x of None \<Rightarrow> Inr x0 | Some c \<Rightarrow> f c)"
  by (auto split: option.split)

lemma post_finish:
  assumes "env_ok e" "cinv st"
  shows "cpost (finish e i s st)"
  unfolding finish_def
proof (rule post_basic(1))
  fix r assume r: "calls st i = Some r"
  have fresh: "i < nextcall st" "i \<notin> set (fin_ids (log st))" using assms(2) r by (auto simp: cinv_defs)
  have rpc: "cpost (bindR (callbase_delete i st) (\<lambda>st. case ucb r of None \<Rightarrow> Inr st | Some c \<Rightarrow> callback e (Finished i c s) st))"
  proof (cases "callbase_delete i st")
    case (Inr st1)
    note d = callbase_delete_cinv [OF assms(2) Inr]
    show ?thesis using d fresh by (auto simp: Inr intro!: post_option_Inr post_finished [OF assms(1)])
  qed simp
  have raw: "cpost (bindR (case ucb r of None \<Rightarrow> Inr st | Some c \<Rightarrow> callback e (RawFinished i c s) st) (callbase_delete i))"
    by (rule post_bind [where Q = cinv]) (auto intro!: post_option_Inr post_callback post_delete assms)
  show "cpost (case kind r of Rawcall x \<Rightarrow>
           bindR (case ucb r of None \<Rightarrow> Inr st | Some c \<Rightarrow> callback e (RawFinished i c s) st) (callbase_delete i)
       | _ \<Rightarrow> bindR (callbase_delete i st) (\<lambda>st. case ucb r of None \<Rightarrow> Inr st | Some c \<Rightarrow> callback e (Finished i c s) st))"
    using rpc raw by (simp split: ckind.split)
qed

lemma post_expire: "env_ok e \<Longrightarrow> cinv st \<Longrightarrow> cpost (expire e i st)"
  unfolding expire_def by (intro post_basic post_finish cinv_upd_call) simp_all

lemma post_cancel: "cinv st \<Longrightarrow> cpost (cancel i st)"
  by (simp add: cancel_def post_delete)

lemma post_call_next: "post (\<lambda>_. True) (call_next i st)"
  by (simp add: post_def split: sum.split)

lemma post_fail_calls: "env_ok e \<Longrightarrow> cinv st \<Longrightarrow> cpost (fail_calls e n rb st)"
proof (induction n arbitrary: rb st)
  case 0
  then show ?case by (cases rb) auto
next
  case (Suc n)
  then show ?case
    by (cases rb) (auto intro!: post_bind [OF post_call_next] post_bind [OF post_finish])
qed

lemma post_aclnt_fail_base: "env_ok e \<Longrightarrow> cinv st \<Longrightarrow> cpost (aclnt_fail_base e a st)"
  unfolding aclnt_fail_base_def call_eofcb_def
  by (intro post_basic post_bind [OF post_fail_calls] post_option_Inr post_callback) auto

lemma post_aclnt_fail:
  assumes "env_ok e" "cinv st"
  shows "cpost (aclnt_fail e a st)"
  unfolding aclnt_fail_def
  using post_aclnt_fail_base [OF assms] post_aclnt_fail_base [OF assms(1)]
  by (intro post_basic) (auto split: option.split intro!: post_bind [OF post_notify [OF assms]])

lemma post_seteof:
  assumes "env_ok e" "cinv st"
  shows "cpost (aclnt_seteof e x st)"
proof -
  have "cinv st \<Longrightarrow> cpost (seteof_loop e x n c st)" for n c st
  proof (induction n arbitrary: c st)
    case 0
    then show ?case by (cases c) auto
  next
    case (Suc n)
    then show ?case by (cases c) (auto intro!: post_bind [OF post_aclnt_fail [OF assms(1)]])
  qed
  then show ?thesis using assms(2) by (simp add: aclnt_seteof_def)
qed

lemma cinv_upd_xh:
  assumes "cinv st" "clist (f (xhs st x)) = clist (xhs st x)" "xidtab (f (xhs st x)) = xidtab (xhs st x)"
  shows "cinv (upd_xh x f st)"
  using assms by (auto simp: cinv_defs)

lemma post_decodemsg:
  assumes "env_ok e" "cinv st"
  shows "cpost2 (decodemsg e i m st)"
  unfolding decodemsg_def
proof (rule post_basic(1))
  fix r :: callbase
  have u: "cpost2 (bindR (getcall i st) (\<lambda>_. Inr (RPC_SUCCESS, upd_call i (\<lambda>r. r\<lparr>ucb := None\<rparr>) st)))" if "cinv st" for st
    by (intro post_basic) (simp add: cinv_upd_call [OF that])
  have "cpost2 (bindR (case ucb r of None \<Rightarrow> Inl OutOfRange | Some c \<Rightarrow> callback e (RawReply i c (putxid old @ drop 4 m)) st)
         (\<lambda>st. bindR (getcall i st) (\<lambda>_. Inr (RPC_SUCCESS, upd_call i (\<lambda>r. r\<lparr>ucb := None\<rparr>) st))))" for old
    by (rule post_bind [where Q = cinv])
       (auto intro!: u post_callback assms split: option.split)
  then show "cpost2 (case kind r of Rawcall old \<Rightarrow>
           bindR (case ucb r of None \<Rightarrow> Inl OutOfRange
                  | Some c \<Rightarrow> callback e (RawReply i c (putxid old @ drop 4 m)) st) (\<lambda>st.
           bindR (getcall i st) (\<lambda>_. Inr (RPC_SUCCESS, upd_call i (\<lambda>r. r\<lparr>ucb := None\<rparr>) st)))
       | _ \<Rightarrow> Inr (decode_reply e r m, st))"
    using assms(2) by (simp split: ckind.split)
qed

lemma post_handle_err: "env_ok e \<Longrightarrow> cinv st \<Longrightarrow> cpost2 (handle_err e a st)"
  unfolding handle_err_def
  by (intro post_basic) (auto split: option.split intro!: post_bind [OF post_aclnt_fail])

lemma post_aclnt_dispatch:
  assumes e: "env_ok e" and inv: "cinv st"
  shows "cpost (aclnt_dispatch e x m src st)"
proof -
  have T: "post (\<lambda>_. True) r" for r by (cases r) auto
  have ack: "cpost (bindR (getcall i st) (\<lambda>r. bindR (getclnt (cl r) st) (\<lambda>cn.
       bindR (case recv_hook cn of None \<Rightarrow> Inr st | Some h \<Rightarrow> callback e (Hook h) st) (\<lambda>st.
       bindR (getcall i st) (\<lambda>r.
         Inr (upd_xh x (\<lambda>x. x\<lparr>max_acked_offset := max (max_acked_offset x) (offset r)\<rparr>) st))))))" if "cinv st" for i st
    by (intro post_basic post_bind [where Q = cinv and m = "case _ of None \<Rightarrow> _ | Some h \<Rightarrow> _ h"])
       (auto intro!: post_option_Inr post_callback e that post_basic cinv_upd_xh)
  have fin: "cpost (bindR (getcall i st) (\<lambda>r. bindR (handle_err e (cl r) st) (\<lambda>(h, st).
        if h then Inr st else finish e i err st)))" if "cinv st" for i err st
    by (intro post_basic post_bind [OF post_handle_err [OF e that]]) (auto intro: post_finish [OF e])
  have tail: "cpost (bindR (decodemsg e i msg st) (\<lambda>(err, st).
       bindR (if err = RPC_SUCCESS
              then bindR (getcall i st) (\<lambda>r. bindR (getclnt (cl r) st) (\<lambda>cn.
                   bindR (case recv_hook cn of None \<Rightarrow> Inr st | Some h \<Rightarrow> callback e (Hook h) st) (\<lambda>st.
                   bindR (getcall i st) (\<lambda>r.
                     Inr (upd_xh x (\<lambda>x. x\<lparr>max_acked_offset := max (max_acked_offset x) (offset r)\<rparr>) st)))))
              else Inr st) (\<lambda>st.
         if err = RPC_SUCCESS then finish e i err st
         else bindR (getcall i st) (\<lambda>r. bindR (handle_err e (cl r) st) (\<lambda>(h, st).
                if h then Inr st else finish e i err st)))))" for i msg
  proof (rule post_bind [OF post_decodemsg [OF e inv]], clarify)
    fix err and st' :: cst assume c: "cinv st'"
    show "cpost (bindR (if err = RPC_SUCCESS
              then bindR (getcall i st') (\<lambda>r. bindR (getclnt (cl r) st') (\<lambda>cn.
                   bindR (case recv_hook cn of None \<Rightarrow> Inr st' | Some h \<Rightarrow> callback e (Hook h) st') (\<lambda>st.
                   bindR (getcall i st) (\<lambda>r.
                     Inr (upd_xh x (\<lambda>x. x\<lparr>max_acked_offset := max (max_acked_offset x) (offset r)\<rparr>) st)))))
              else Inr st') (\<lambda>st.
         if err = RPC_SUCCESS then finish e i err st
         else bindR (getcall i st) (\<lambda>r. bindR (handle_err e (cl r) st) (\<lambda>(h, st).
                if h then Inr st else finish e i err st))))"
      by (rule post_bind [where Q = cinv]) (use ack [OF c] c in \<open>auto intro: fin post_finish [OF e]\<close>)
  qed
  show ?thesis
    unfolding aclnt_dispatch_def
    by (auto split: option.split intro!: post_seteof e inv post_bind [OF T] tail)
qed

lemma post_xhinfo_seteof:
  assumes "env_ok e" "cinv st"
  shows "cpost (xhinfo_seteof e x src st)"
proof -
  let ?st = "upd_xh x (\<lambda>x. x\<lparr>xh_rcb := False\<rparr>) st"
  have "cinv ?st" by (rule cinv_upd_xh [OF assms(2)]) simp_all
  moreover have "cpost (bindR (if clist (xhs ?st x) \<noteq> [] then aclnt_dispatch e x None src ?st else Inr ?st) (\<lambda>st.
             if stab (xhs st x) then asrv_dispatch e x None st else Inr st))"
    by (rule post_bind [where Q = cinv]) (use calculation in \<open>auto intro!: post_aclnt_dispatch env_okD(3) assms(1)\<close>)
  ultimately show ?thesis using assms(2) by (simp add: xhinfo_seteof_def Let_def)
qed

lemma post_xhinfo_dispatch:
  assumes "env_ok e" "cinv st"
  shows "cpost (xhinfo_dispatch e x m src st)"
proof -
  have T: "post (\<lambda>_. True) r" for r by (cases r) auto
  show ?thesis
    unfolding xhinfo_dispatch_def
    by (auto split: option.split intro!: post_xhinfo_seteof [OF assms] post_aclnt_dispatch [OF assms] env_okD(3) [OF assms]
             post_bind [OF T])
qed

lemma getxid_putxid [simp]: "getxid_msg (putxid v @ m) = Inr v"
  by (simp add: putxid_def ucast_ucast_u8 push_take_join take_bit_word_self)

lemma genxid_loop_spec:
  "genxid_loop used vs = Inr (v, vs') \<Longrightarrow> \<not> used v \<and> v \<noteq> 0"
  by (induction vs) (auto split: if_splits)

lemma xid_lookup_frame [simp]:
  "xid_lookup (st\<lparr>rng := g\<rparr>) x v = xid_lookup st x v" "xid_lookup (st\<lparr>rpctoq := q\<rparr>) x v = xid_lookup st x v"
  by (simp_all add: xid_lookup_def)

lemma cinv_rng [simp]: "cinv (st\<lparr>rng := g\<rparr>) = cinv st" "cinv (st\<lparr>rpctoq := q\<rparr>) = cinv st"
  by (simp_all add: cinv_defs)

lemma genxid_spec: "genxid x st = Inr (v, st') \<Longrightarrow> xid_lookup st x v = None \<and> v \<noteq> 0 \<and> (\<exists>g. st' = st\<lparr>rng := g\<rparr>)"
  using genxid_loop_spec by (fastforce simp: genxid_def op_simps)

text \<open>A client that can make calls: attached, with no hook that runs between the choice of the XID and its use.\<close>

definition call_ready :: "aid \<Rightarrow> cst \<Rightarrow> bool" where
  "call_ready a st \<longleftrightarrow> (\<exists>cn. clients st a = Some cn \<and> \<not> stopped cn \<and> send_hook cn = None \<and>
     (failcb cn = None \<or> \<not> xh_ateof (xhs st (xi cn))))"

lemma post_ateof_fail: "env_ok e \<Longrightarrow> cinv st \<Longrightarrow> cpost2 (ateof_fail e a st)"
  unfolding ateof_fail_def
  by (intro post_basic)
     (auto split: option.split intro!: post_bind [OF post_aclnt_fail])

lemma post_xmit:
  assumes "env_ok e" "cinv st"
  shows "cpost (xmit e i st)"
  unfolding xmit_def
  by (intro post_basic) (use assms env_okD(2) [OF assms] in \<open>auto split: ckind.split\<close>)

lemma post_rpccb_init:
  assumes e: "env_ok e" and "cinv st"
  shows "cpost2 (rpccb_init e a i msg d st)"
  unfolding rpccb_init_def
proof (intro post_basic post_bind [OF env_okD(2) [OF assms]])
  fix st' :: cst assume "cinv st'"
  then show "cpost2 (bindR (ateof_fail e a st') (\<lambda>(eof, st).
       if eof then Inr (None, st)
       else bindR (getcall i st) (\<lambda>_. bindR (getclnt a st) (\<lambda>cn.
              Inr (Some i, upd_call i (\<lambda>r. r\<lparr>offset := xh_raw (xhs st (xi cn))\<rparr>) st)))))"
    by (intro post_bind [OF post_ateof_fail [OF e]]) (auto intro!: post_basic cinv_upd_call)
qed

lemma post_callbase_new:
  assumes "cinv st" "clients st a = Some cn" "\<not> stopped cn" "xid_lookup st (xi cn) v = None"
  shows "cpost2 (callbase_new a v d k c st)"
  using callbase_new_cinv(1) [OF assms(1) _ assms(2-4)]
  by (cases "callbase_new a v d k c st") (auto split: prod.split)

lemma post_do_rpccb_alloc:
  assumes e: "env_ok e" and inv: "cinv st" and cn: "clients st a = Some cn" "\<not> stopped cn"
    and v: "xid_lookup st (xi cn) v = None" "v \<noteq> 0"
  shows "cpost2 (do_rpccb_alloc e a (putxid v @ m) c d st)"
proof -
  have new: "cpost2 (callbase_new a v d k c st)" for k by (rule post_callbase_new [OF inv cn v(1)])
  have len: "4 \<le> length (putxid v @ m)" by (simp add: putxid_def)
  have "cpost2 (case rpccb_alloc cn of
         AllocRpccb \<Rightarrow> bindR (callbase_new a v d Rpccb c st) (\<lambda>(i, st). rpccb_init e a i (putxid v @ m) d st)
       | AllocMsgbufXmit \<Rightarrow>
           bindR (callbase_new a v d (MsgbufXmit (putxid v @ m)) c st) (\<lambda>(i, st).
           bindR (xmit e i st) (\<lambda>st. Inr (Some i, st)))
       | AllocUnreliable \<Rightarrow>
           bindR (callbase_new a v d (Unreliable (putxid v @ m)) c st) (\<lambda>(i, st).
           bindR (xmit e i (st\<lparr>rpctoq := rpctoq st @ [i]\<rparr>)) (\<lambda>st. Inr (Some i, st))))"
    by (auto split: calloc.split intro!: post_bind [OF new] post_rpccb_init [OF e] post_bind [OF post_xmit [OF e]])
  then show ?thesis
    using cn(1) v(2) len by (simp add: do_rpccb_alloc_def getxid_def getclnt_def)
qed

lemma post_init_call:
  assumes e: "env_ok e" and inv: "cinv st" and ready: "call_ready a st"
  shows "post (\<lambda>(m, st'). cinv st' \<and> (case m of None \<Rightarrow> True | Some msg \<Rightarrow>
     (\<exists>g. st' = st\<lparr>rng := g\<rparr>) \<and> (\<forall>cn. clients st a = Some cn \<longrightarrow>
        (failcb cn = None \<and> xh_reliable (xhs st (xi cn)) \<and> c = None) \<or>
        (\<exists>v m'. msg = putxid v @ m' \<and> v \<noteq> 0 \<and> xid_lookup st (xi cn) v = None))))
     (init_call e a procno auth args c pn vn st)"
proof -
  obtain cn where cn: "clients st a = Some cn" "failcb cn = None \<or> \<not> xh_ateof (xhs st (xi cn))"
    using ready by (auto simp: call_ready_def)
  have eof: "ateof_fail e a st = Inr (failcb cn = None \<and> xh_ateof (xhs st (xi cn)), st)"
    using cn by (auto simp: ateof_fail_def getclnt_def split: option.split)
  have T: "post (\<lambda>_. True) r" for r :: "(u32 \<times> u32) res" by (cases r) auto
  have cb: "post (\<lambda>(m, st'). cinv st' \<and> (case m of None \<Rightarrow> True | Some msg \<Rightarrow> Q msg st'))
      (bindR (callback e (Refused c s) st) (\<lambda>st. Inr (None, st)))" for s Q
    by (rule post_bind [OF post_callback [OF e inv]]) auto
  have gx: "post (\<lambda>(v, st'). xid_lookup st x v = None \<and> v \<noteq> 0 \<and> (\<exists>g. st' = st\<lparr>rng := g\<rparr>)) (genxid x st)" for x
    using genxid_spec [of x st] by (cases "genxid x st") auto
  have g: "getclnt a st = Inr cn" using cn(1) by (simp add: getclnt_def)
  let ?P = "\<lambda>(m, st'). cinv st' \<and> (case m of None \<Rightarrow> True | Some msg \<Rightarrow>
     (\<exists>g. st' = st\<lparr>rng := g\<rparr>) \<and> (\<forall>cn. clients st a = Some cn \<longrightarrow>
        (failcb cn = None \<and> xh_reliable (xhs st (xi cn)) \<and> c = None) \<or>
        (\<exists>v m'. msg = putxid v @ m' \<and> v \<noteq> 0 \<and> xid_lookup st (xi cn) v = None)))"
  have st: "\<exists>g. st = st\<lparr>rng := g\<rparr>" by (rule exI [of _ "rng st"]) simp
  have go: "post ?P (bindR (forget_call a c st) (\<lambda>fg. if fg then Inr (Some msg, st)
       else bindR (genxid (xi cn) st) (\<lambda>(v, st). Inr (Some (putxid v @ drop 4 msg), st))))" for msg
  proof (cases "failcb cn = None \<and> xh_reliable (xhs st (xi cn)) \<and> c = None")
    case True
    then show ?thesis using inv cn(1) st by (auto simp: forget_call_def g)
  next
    case False
    have "post ?P (bindR (genxid (xi cn) st) (\<lambda>(v, st). Inr (Some (putxid v @ drop 4 msg), st)))"
    proof (rule post_bind [OF gx], clarify)
      fix v g assume "xid_lookup st (xi cn) v = None" "v \<noteq> 0"
      then show "post ?P (Inr (Some (putxid v @ drop 4 msg), st\<lparr>rng := g\<rparr>))"
        using inv cn(1) by (auto intro: exI [of _ g] exI [of _ v])
    qed
    moreover have "forget_call a c st = Inr False" using False by (simp add: forget_call_def g)
    ultimately show ?thesis by (simp only: bindR_Inr if_False)
  qed
  show ?thesis
  proof (cases "failcb cn = None \<and> xh_ateof (xhs st (xi cn))")
    case True
    then show ?thesis unfolding init_call_def eof bindR_Inr by (simp add: cb)
  next
    case False
    have "post ?P (case marshal_call auth p v procno args of
           None \<Rightarrow> bindR (callback e (Refused c RPC_CANTENCODEARGS) st) (\<lambda>st. Inr (None, st))
         | Some msg \<Rightarrow>
             bindR (forget_call a c st) (\<lambda>fg.
               if fg then Inr (Some msg, st)
               else bindR (genxid (xi cn) st) (\<lambda>(v, st). Inr (Some (putxid v @ drop 4 msg), st))))" for p v
      using cb go by (cases "marshal_call auth p v procno args") simp_all
    note mc = this
    have eof': "ateof_fail e a st = Inr (False, st)" using eof False by simp
    show ?thesis
      unfolding init_call_def eof' bindR_Inr prod.case if_False g
      by (rule post_bind [OF T], clarify, rule post_bind [OF post_guard], rule mc)
  qed
qed

lemma post_aclnt_call:
  assumes e: "env_ok e" and inv: "cinv st" and ready: "call_ready a st"
  shows "cpost2 (aclnt_call e a procno auth args c pn vn d st)"
proof -
  obtain cn where cn: "clients st a = Some cn" "\<not> stopped cn" "send_hook cn = None"
    using ready by (auto simp: call_ready_def)
  show ?thesis
    unfolding aclnt_call_def
  proof (rule post_bind [OF post_init_call [OF assms]], clarify)
    fix m st' assume a: "cinv st'" "case m of None \<Rightarrow> True | Some msg \<Rightarrow>
     (\<exists>g. st' = st\<lparr>rng := g\<rparr>) \<and> (\<forall>cn. clients st a = Some cn \<longrightarrow>
        (failcb cn = None \<and> xh_reliable (xhs st (xi cn)) \<and> c = None) \<or>
        (\<exists>v m'. msg = putxid v @ m' \<and> v \<noteq> 0 \<and> xid_lookup st (xi cn) v = None))"
    show "cpost2 (case m of None \<Rightarrow> Inr (None, st')
       | Some msg \<Rightarrow>
           bindR (getclnt a st') (\<lambda>cn.
             let d = (if d = None then adest cn else d)
             in bindR (case send_hook cn of None \<Rightarrow> Inr st' | Some h \<Rightarrow> callback e (Hook h) st') (\<lambda>st.
                bindR (forget_call a c st) (\<lambda>fg.
                  if fg
                  then bindR (getclnt a st) (\<lambda>cn.
                       if xh_ateof (xhs st (xi cn)) then Inr (None, st)
                       else bindR (xmit_pkt e (xi cn) d msg st) (\<lambda>st. Inr (None, st)))
                  else do_rpccb_alloc e a msg c d st))))"
    proof (cases m)
      case None
      then show ?thesis using a(1) by simp
    next
      case (Some msg)
      obtain g where st': "st' = st\<lparr>rng := g\<rparr>" using a(2) Some by auto
      have cn': "clients st' a = Some cn" "getclnt a st' = Inr cn" using cn(1) by (simp_all add: st' getclnt_def)
      have fg: "forget_call a c st' = Inr (failcb cn = None \<and> xh_reliable (xhs st (xi cn)) \<and> c = None)"
        by (simp add: forget_call_def cn'(2)) (simp add: st')
      have "post (\<lambda>(b, st). cinv st) (do_rpccb_alloc e a msg c dd st')"
        if "\<not> (failcb cn = None \<and> xh_reliable (xhs st (xi cn)) \<and> c = None)" for dd
        using that a(2) Some cn post_do_rpccb_alloc [OF e a(1) cn'(1) cn(2)] by (auto simp: st')
      moreover have "cpost2 (bindR (xmit_pkt e x dd msg st') (\<lambda>st. Inr (None :: cid option, st)))" for x dd
        by (rule post_bind [OF env_okD(2) [OF e a(1)]]) simp
      ultimately show ?thesis
        using a(1) by (simp add: Some cn'(2) cn(3) Let_def fg)
    qed
  qed
qed

lemma post_rawcall:
  assumes e: "env_ok e" and inv: "cinv st" and cn: "clients st a = Some cn" "\<not> stopped cn"
  shows "cpost2 (aclnt_rawcall e a msg c d st)"
proof -
  have gx: "post (\<lambda>(v, st'). xid_lookup st x v = None \<and> v \<noteq> 0 \<and> (\<exists>g. st' = st\<lparr>rng := g\<rparr>)) (genxid x st)" for x
    using genxid_spec [of x st] by (cases "genxid x st") auto
  have T: "post (\<lambda>_. True) r" for r :: "u32 res" by (cases r) auto
  have new: "cpost2 (callbase_new a v d k c' (st\<lparr>rng := g\<rparr>))" if "xid_lookup st (xi cn) v = None" for v g k c'
    using post_callbase_new [of "st\<lparr>rng := g\<rparr>" a cn v d k c'] inv cn that by simp
  have g: "getclnt a st = Inr cn" using cn(1) by (simp add: getclnt_def)
  show ?thesis
    unfolding aclnt_rawcall_def g bindR_Inr
    by (auto intro!: post_bind [OF gx] post_bind [OF new] post_bind [OF post_guard] post_bind [OF T]
          post_bind [OF env_okD(2) [OF e]] cinv_upd_call)
qed

section \<open>Starting, stopping and resuming\<close>

lemma upd_xh_twice: "upd_xh x f (upd_xh x g st) = upd_xh x (f \<circ> g) st"
  by (simp add: upd_xh_def)

definition tab_uniq :: "cst \<Rightarrow> cid list \<Rightarrow> bool" where
  "tab_uniq st tab \<longleftrightarrow> (\<forall>i\<in>set tab. \<forall>j\<in>set tab. \<forall>r s. calls st i = Some r \<longrightarrow> calls st j = Some s \<longrightarrow> xid r = xid s \<longrightarrow> i = j)"

lemma start_calls_spec:
  "start_calls x is st = Inr st' \<Longrightarrow> tab_uniq st (xidtab (xhs st x)) \<Longrightarrow>
     st' = upd_xh x (\<lambda>y. y\<lparr>xidtab := rev is @ xidtab y\<rparr>) st \<and> tab_uniq st (rev is @ xidtab (xhs st x))"
proof (induction "is" arbitrary: st)
  case Nil
  then show ?case by (simp add: upd_xh_def)
next
  case (Cons i "is")
  obtain r where r: "calls st i = Some r" "xid_lookup st x (xid r) = None"
    "start_calls x is (upd_xh x (\<lambda>y. y\<lparr>xidtab := i # xidtab y\<rparr>) st) = Inr st'"
    using Cons.prems(1) by (auto simp: op_simps)
  have new: "xid s \<noteq> xid r" if "j \<in> set (xidtab (xhs st x))" "calls st j = Some s" for j s
    using r(2) that unfolding xid_lookup_def find_None_iff by force
  then have "tab_uniq st (i # xidtab (xhs st x))"
    using Cons.prems(2) r(1) unfolding tab_uniq_def by (metis (no_types, lifting) option.inject set_ConsD)
  then have u: "tab_uniq (upd_xh x (\<lambda>y. y\<lparr>xidtab := i # xidtab y\<rparr>) st) (xidtab (xhs (upd_xh x (\<lambda>y. y\<lparr>xidtab := i # xidtab y\<rparr>) st) x))"
    by (simp add: tab_uniq_def)
  show ?case using Cons.IH [OF r(3) u] by (simp add: upd_xh_twice comp_def tab_uniq_def)
qed

lemma stop_calls_spec:
  "stop_calls x is st = Inr st' \<Longrightarrow> st' = upd_xh x (\<lambda>y. y\<lparr>xidtab := fold remove1 is (xidtab y)\<rparr>) st"
proof (induction "is" arbitrary: st)
  case Nil
  then show ?case by (simp add: upd_xh_def)
next
  case (Cons i "is")
  then have "stop_calls x is (upd_xh x (\<lambda>y. y\<lparr>xidtab := remove1 i (xidtab y)\<rparr>) st) = Inr st'"
    by (auto simp: op_simps)
  from Cons.IH [OF this] show ?case by (simp add: upd_xh_twice comp_def)
qed

lemma fold_remove1:
  "distinct tab \<Longrightarrow> distinct (fold remove1 is tab) \<and> set (fold remove1 is tab) = set tab - set is"
  by (induction "is" arbitrary: tab) auto

lemma acalls_running:
  assumes "cinv st" "clients st a = Some cn"
  shows "calls st i = Some r \<Longrightarrow> cl r = a \<longleftrightarrow> i \<in> set (acalls cn)"
  using assms by (fastforce simp: cinv_def calls_ok_def clients_ok_def)

lemma post_aclnt_stop:
  assumes inv: "cinv st"
  shows "post (\<lambda>st'. cinv st' \<and> (\<forall>cn. clients st' a = Some cn \<longrightarrow> stopped cn)) (aclnt_stop a st)"
proof -
  have "cinv st' \<and> (\<forall>cn. clients st' a = Some cn \<longrightarrow> stopped cn)" if st': "aclnt_stop a st = Inr st'" for st'
  proof -
    obtain cn where cn: "clients st a = Some cn" using st' by (auto simp: aclnt_stop_def op_simps)
    show ?thesis
    proof (cases "stopped cn")
      case True
      then show ?thesis using st' inv cn by (auto simp: aclnt_stop_def op_simps)
    next
      case False
      define tab where "tab = fold remove1 (acalls cn) (xidtab (xhs st (xi cn)))"
      have "stop_calls (xi cn) (acalls cn) (upd_xh (xi cn) (\<lambda>x. x\<lparr>clist := remove1 a (clist x)\<rparr>)
          (upd_clnt a (\<lambda>cn. cn\<lparr>stopped := True\<rparr>) st)) = Inr st'"
        using st' cn False by (auto simp: aclnt_stop_def op_simps)
      from stop_calls_spec [OF this]
      have s: "calls st' = calls st" "nextcall st' = nextcall st" "log st' = log st"
        "clients st' = (clients st)(a \<mapsto> cn\<lparr>stopped := True\<rparr>)"
        "xhs st' = (xhs st)(xi cn := (xhs st (xi cn))\<lparr>clist := remove1 a (clist (xhs st (xi cn))), xidtab := tab\<rparr>)"
        using cn by (simp_all add: tab_def)
      have run: "running st' x i \<longleftrightarrow> running st x i \<and> i \<notin> set (acalls cn)" for x i
        using acalls_running [OF inv cn] cn by (auto simp: running_def s)
      have t: "distinct tab" "set tab = Collect (running st (xi cn)) - set (acalls cn)"
        using fold_remove1 [of "xidtab (xhs st (xi cn))" "acalls cn"] inv by (auto simp: tab_def cinv_def tabs_ok_def)
      have o: "x \<noteq> xi cn \<Longrightarrow> running st x i \<Longrightarrow> i \<notin> set (acalls cn)" for x i
      proof
        assume "x \<noteq> xi cn" "running st x i" "i \<in> set (acalls cn)"
        moreover from this obtain r where "calls st i = Some r" by (auto simp: running_def)
        moreover from this have "cl r = a" using acalls_running [OF inv cn] \<open>i \<in> set (acalls cn)\<close> by blast
        ultimately show False using cn by (auto simp: running_def)
      qed
      have "calls_ok st'" using inv cn by (fastforce simp: s cinv_def calls_ok_def)
      moreover have "clients_ok st'" using inv cn by (auto simp: s cinv_def clients_ok_def)
      moreover have "tabs_ok st'" using inv t o unfolding cinv_def tabs_ok_def run by (auto simp: s)
      moreover have "clists_ok st'" using inv cn by (auto simp: s cinv_def clists_ok_def)
      moreover have "log_ok st'" using inv by (simp add: s cinv_def log_ok_def)
      ultimately show ?thesis by (simp add: cinv_def s)
    qed
  qed
  then show ?thesis by (cases "aclnt_stop a st") auto
qed

lemma post_aclnt_start:
  assumes inv: "cinv st"
  shows "cpost (aclnt_start a st)"
proof -
  have "cinv st'" if st': "aclnt_start a st = Inr st'" for st'
  proof -
    obtain cn where cn: "clients st a = Some cn" using st' by (auto simp: aclnt_start_def op_simps)
    show ?thesis
    proof (cases "stopped cn")
      case False
      then show ?thesis using st' inv cn by (auto simp: aclnt_start_def op_simps)
    next
      case True
      let ?st = "upd_xh (xi cn) (\<lambda>x. x\<lparr>clist := a # clist x\<rparr>) (upd_clnt a (\<lambda>cn. cn\<lparr>stopped := False\<rparr>) st)"
      let ?tab = "xidtab (xhs st (xi cn))"
      have "tab_uniq ?st (xidtab (xhs ?st (xi cn)))"
        using inv unfolding tab_uniq_def cinv_def tabs_ok_def by simp
      moreover have "start_calls (xi cn) (acalls cn) ?st = Inr st'"
        using st' cn True by (auto simp: aclnt_start_def op_simps)
      ultimately have sp: "st' = upd_xh (xi cn) (\<lambda>y. y\<lparr>xidtab := rev (acalls cn) @ xidtab y\<rparr>) ?st"
        "tab_uniq ?st (rev (acalls cn) @ xidtab (xhs ?st (xi cn)))" using start_calls_spec by blast+
      have s: "calls st' = calls st" "nextcall st' = nextcall st" "log st' = log st"
        "clients st' = (clients st)(a \<mapsto> cn\<lparr>stopped := False\<rparr>)"
        "xhs st' = (xhs st)(xi cn := (xhs st (xi cn))\<lparr>clist := a # clist (xhs st (xi cn)), xidtab := rev (acalls cn) @ ?tab\<rparr>)"
        using cn by (simp_all add: sp(1))
      have ex: "i \<in> set (acalls cn) \<Longrightarrow> \<exists>r. calls st i = Some r \<and> cl r = a" for i
        using inv cn by (auto simp: cinv_def clients_ok_def)
      have notrun: "i \<in> set (acalls cn) \<Longrightarrow> \<not> running st x i" for i x
        using ex cn True by (fastforce simp: running_def)
      have run: "running st' x i \<longleftrightarrow> running st x i \<or> (x = xi cn \<and> i \<in> set (acalls cn))" for x i
        using acalls_running [OF inv cn, of i] ex [of i] cn True by (auto simp: running_def s)
      have tb: "distinct ?tab" "set ?tab = Collect (running st (xi cn))" "distinct (acalls cn)"
        using inv cn by (auto simp: cinv_def tabs_ok_def clients_ok_def)
      have "calls_ok st'" using inv cn by (fastforce simp: s cinv_def calls_ok_def)
      moreover have "clients_ok st'" using inv cn by (auto simp: s cinv_def clients_ok_def)
      moreover have "tabs_ok st'"
        unfolding tabs_ok_def run
      proof (intro conjI allI impI)
        fix x
        show "distinct (xidtab (xhs st' x))" "set (xidtab (xhs st' x)) = {i. running st x i \<or> (x = xi cn \<and> i \<in> set (acalls cn))}"
          using inv tb notrun by (auto simp: s cinv_def tabs_ok_def)
        fix i j r q assume "running st x i \<or> (x = xi cn \<and> i \<in> set (acalls cn))" "running st x j \<or> (x = xi cn \<and> j \<in> set (acalls cn))"
          "calls st' i = Some r" "calls st' j = Some q" "xid r = xid q"
        then show "i = j"
          using sp(2) inv tb(2) unfolding tab_uniq_def cinv_def tabs_ok_def by (cases "x = xi cn") (auto simp: s)
      qed
      moreover have "clists_ok st'" using inv cn True by (auto simp: s cinv_def clists_ok_def)
      moreover have "log_ok st'" using inv by (simp add: s cinv_def log_ok_def)
      ultimately show ?thesis by (simp add: cinv_def)
    qed
  qed
  then show ?thesis by (cases "aclnt_start a st") auto
qed

lemma cinv_move:
  assumes inv: "cinv st" and st: "\<forall>cn. clients st a = Some cn \<longrightarrow> stopped cn"
  shows "cinv (upd_clnt a (\<lambda>cn. cn\<lparr>xi := x\<rparr>) st)"
proof -
  let ?st = "upd_clnt a (\<lambda>cn. cn\<lparr>xi := x\<rparr>) st"
  have run: "running ?st = running st" using st by (fastforce simp: running_def fun_eq_iff)
  have "calls_ok ?st" using inv by (fastforce simp: cinv_def calls_ok_def)
  moreover have "clients_ok ?st" using inv by (auto simp: cinv_def clients_ok_def)
  moreover have "tabs_ok ?st" using inv by (simp add: cinv_def tabs_ok_def run)
  moreover have "clists_ok ?st" using inv st by (fastforce simp: cinv_def clists_ok_def)
  moreover have "log_ok ?st" using inv by (simp add: cinv_def log_ok_def)
  ultimately show ?thesis by (simp add: cinv_def)
qed

lemma post_pre_resume:
  assumes "cinv st"
  shows "cpost2 (pre_resume a x st)"
  unfolding pre_resume_def
  by (auto split: option.split intro!: assms post_bind [OF post_guard] post_bind [OF post_aclnt_stop [OF assms]]
      post_bind [OF post_aclnt_start] cinv_move)

lemma post_resume_cinv:
  assumes e: "env_ok e" and "cinv st"
  shows "cpost2 (resume e a x st)"
proof -
  have loop: "cinv st \<Longrightarrow> cpost (post_resume_loop e n rb st)" for n rb st
  proof (induction n arbitrary: rb st)
    case 0
    then show ?case by (cases rb) auto
  next
    case (Suc n)
    then show ?case
      by (cases rb) (auto intro!: post_basic post_bind [OF post_xmit [OF e]] post_bind [OF post_call_next] cinv_upd_call)
  qed
  have "cpost2 (bindR (post_resume e a st) (\<lambda>st. Inr (True, st)))" if "cinv st" for st
    unfolding post_resume_def bindR_assoc by (intro post_basic post_bind [OF loop [OF that]]) simp
  then show ?thesis
    unfolding resume_def by (intro post_bind [OF post_pre_resume [OF assms(2)]]) (auto simp del: bindR_assoc)
qed

section \<open>Runs\<close>

lemma cinv_new_client:
  assumes "cinv st" "clients st a = None" "stopped cn" "acalls cn = []"
  shows "cinv (st\<lparr>clients := (clients st)(a \<mapsto> cn)\<rparr>)"
proof -
  let ?st = "st\<lparr>clients := (clients st)(a \<mapsto> cn)\<rparr>"
  have own: "calls st i = Some r \<Longrightarrow> cl r \<noteq> a" for i r
    using assms(1,2) calls_okD(2) [of st i r] by (auto simp: cinv_def)
  have run: "running ?st = running st" using own by (fastforce simp: running_def fun_eq_iff)
  have "calls_ok ?st" using assms(1) own by (fastforce simp: cinv_def calls_ok_def)
  moreover have "clients_ok ?st" using assms by (auto simp: cinv_def clients_ok_def)
  moreover have "tabs_ok ?st" using assms(1) by (simp add: cinv_def tabs_ok_def run)
  moreover have "clists_ok ?st" using assms by (auto simp: cinv_def clists_ok_def)
  moreover have "log_ok ?st" using assms(1) by (simp add: cinv_def log_ok_def)
  ultimately show ?thesis by (simp add: cinv_def)
qed

lemma post_aclnt_new:
  assumes "cinv st" "clients st a = None"
  shows "cpost (aclnt_new a x rp ra d f st)"
  unfolding aclnt_new_def by (cases rp) (auto intro!: post_aclnt_start cinv_new_client assms)

lemma post_aclnt_delete:
  assumes inv: "cinv st"
  shows "cpost (aclnt_delete a st)"
proof -
  have acalls: "stop_calls x is st = Inr st' \<Longrightarrow> clients st' = clients st" for x "is" st st'
    using stop_calls_spec by fastforce
  have "cinv (st'\<lparr>clients := (clients st')(a := None)\<rparr>)"
    if st': "aclnt_stop a st = Inr st'" and cn: "clients st a = Some cn" "acalls cn = []" for st' cn
  proof -
    let ?st = "st'\<lparr>clients := (clients st')(a := None)\<rparr>"
    have i: "cinv st'" "\<forall>cn. clients st' a = Some cn \<longrightarrow> stopped cn"
      using post_aclnt_stop [OF inv, of a] st' by auto
    obtain cn' where cn': "clients st' a = Some cn'" "acalls cn' = []" "stopped cn'"
      using st' cn i(2) by (auto simp: aclnt_stop_def op_simps dest!: acalls split: if_splits)
    have own: "calls st' i = Some r \<Longrightarrow> cl r \<noteq> a" for i r
      using i(1) cn' by (fastforce simp: cinv_def calls_ok_def)
    have run: "running ?st = running st'" using own by (fastforce simp: running_def fun_eq_iff)
    have "calls_ok ?st" using i(1) own by (fastforce simp: cinv_def calls_ok_def)
    moreover have "clients_ok ?st" using i(1) by (auto simp: cinv_def clients_ok_def)
    moreover have "tabs_ok ?st" using i(1) by (simp add: cinv_def tabs_ok_def run)
    moreover have "clists_ok ?st" using i(1) cn' by (fastforce simp: cinv_def clists_ok_def)
    moreover have "log_ok ?st" using i(1) by (simp add: cinv_def log_ok_def)
    ultimately show ?thesis by (simp add: cinv_def)
  qed
  then show ?thesis
    unfolding aclnt_delete_def
    by (cases "aclnt_stop a st") (auto intro!: post_basic)
qed

lemma cinv_upd_clnt:
  assumes "cinv st" "\<And>c. acalls (f c) = acalls c" "\<And>c. xi (f c) = xi c" "\<And>c. stopped (f c) = stopped c"
  shows "cinv (upd_clnt a f st)"
proof -
  have run: "running (upd_clnt a f st) = running st"
    using assms(3,4) by (fastforce simp: running_def fun_eq_iff)
  have "calls_ok (upd_clnt a f st)" using assms by (fastforce simp: cinv_def calls_ok_def)
  moreover have "clients_ok (upd_clnt a f st)" using assms by (auto simp: cinv_def clients_ok_def)
  moreover have "tabs_ok (upd_clnt a f st)" using assms(1) by (simp add: cinv_def tabs_ok_def run)
  moreover have "clists_ok (upd_clnt a f st)" using assms by (fastforce simp: cinv_def clists_ok_def)
  moreover have "log_ok (upd_clnt a f st)" using assms(1) by (simp add: cinv_def log_ok_def)
  ultimately show ?thesis by (simp add: cinv_def)
qed

lemma post_seteofcb:
  assumes "env_ok e" "cinv st"
  shows "cpost (seteofcb e a c st)"
  unfolding seteofcb_def Let_def
  by (intro post_basic) (auto intro!: post_option_Inr post_callback [OF assms(1)] cinv_upd_clnt assms(2))

lemma post_call_timeout: "cinv st \<Longrightarrow> cpost (call_timeout i st)"
  unfolding call_timeout_def by (intro post_basic) (auto intro!: cinv_upd_call)

lemma post_setters:
  assumes "cinv st"
  shows "cpost (set_send_hook a h st)" "cpost (set_recv_hook a h st)" "cpost (setfailcb a h st)" "cpost (xon x b st)"
  unfolding set_send_hook_def set_recv_hook_def setfailcb_def xon_def
  by (intro post_basic; auto intro!: cinv_upd_clnt cinv_upd_xh assms)+

text \<open>What a program can do with the client library, one step at a time.\<close>

inductive cstep :: "env \<Rightarrow> cst \<Rightarrow> cst \<Rightarrow> bool" for e where
  call: "call_ready a st \<Longrightarrow> aclnt_call e a procno auth args c pn vn d st = Inr (r, st') \<Longrightarrow> cstep e st st'"
| rawcall: "clients st a = Some cn \<Longrightarrow> \<not> stopped cn \<Longrightarrow> aclnt_rawcall e a msg c' d st = Inr (i, st') \<Longrightarrow> cstep e st st'"
| receive: "xhinfo_dispatch e x m src st = Inr st' \<Longrightarrow> cstep e st st'"
| settimeout: "call_timeout i st = Inr st' \<Longrightarrow> cstep e st st'"
| expires: "expire e i st = Inr st' \<Longrightarrow> cstep e st st'"
| cancels: "cancel i st = Inr st' \<Longrightarrow> cstep e st st'"
| new: "clients st a = None \<Longrightarrow> aclnt_new a x rp ra d f st = Inr st' \<Longrightarrow> cstep e st st'"
| del: "aclnt_delete a st = Inr st' \<Longrightarrow> cstep e st st'"
| stop: "aclnt_stop a st = Inr st' \<Longrightarrow> cstep e st st'"
| start: "aclnt_start a st = Inr st' \<Longrightarrow> cstep e st st'"
| eofcb: "seteofcb e a c st = Inr st' \<Longrightarrow> cstep e st st'"
| resumes: "resume e a x st = Inr (b, st') \<Longrightarrow> cstep e st st'"
| sendhook: "set_send_hook a h st = Inr st' \<Longrightarrow> cstep e st st'"
| recvhook: "set_recv_hook a h st = Inr st' \<Longrightarrow> cstep e st st'"
| failhook: "setfailcb a h st = Inr st' \<Longrightarrow> cstep e st st'"
| rcbon: "xon x b st = Inr st' \<Longrightarrow> cstep e st st'"

lemma cstep_cinv:
  assumes "env_ok e"
  shows "cstep e st st' \<Longrightarrow> cinv st \<Longrightarrow> cinv st'"
proof (induction rule: cstep.induct)
  case call then show ?case using postD [OF post_aclnt_call [OF assms]] by fastforce
next
  case rawcall then show ?case using postD [OF post_rawcall [OF assms]] by fastforce
next
  case receive then show ?case using postD [OF post_xhinfo_dispatch [OF assms]] by blast
next
  case settimeout then show ?case using postD [OF post_call_timeout] by blast
next
  case expires then show ?case using postD [OF post_expire [OF assms]] by blast
next
  case cancels then show ?case using postD [OF post_cancel] by blast
next
  case new then show ?case using postD [OF post_aclnt_new] by blast
next
  case del then show ?case using postD [OF post_aclnt_delete] by blast
next
  case stop then show ?case using postD [OF post_aclnt_stop] by blast
next
  case start then show ?case using postD [OF post_aclnt_start] by blast
next
  case eofcb then show ?case using postD [OF post_seteofcb [OF assms]] by blast
next
  case resumes then show ?case using postD [OF post_resume_cinv [OF assms]] by fastforce
next
  case sendhook then show ?case using postD [OF post_setters(1)] by blast
next
  case recvhook then show ?case using postD [OF post_setters(2)] by blast
next
  case failhook then show ?case using postD [OF post_setters(3)] by blast
next
  case rcbon then show ?case using postD [OF post_setters(4)] by blast
qed

definition cst0 :: "(xhid \<Rightarrow> xhinfo) \<Rightarrow> u32 list \<Rightarrow> cst" where
  "cst0 xs g = \<lparr>xhs = \<lambda>x. (xs x)\<lparr>clist := [], xidtab := []\<rparr>, clients = Map.empty, calls = Map.empty, nextcall = 0,
     rpctoq = [], rng = g, log = []\<rparr>"

lemma cst0_cinv: "cinv (cst0 xs g)"
  by (simp add: cst0_def cinv_defs running_def)


text \<open>An environment with callbacks that do nothing, and a transport that drops what it is given.\<close>

definition env0 :: env where
  "env0 = \<lparr>user = \<lambda>ev st. Inr (False, st), xmit_pkt = \<lambda>x d m st. Inr st, decode_reply = \<lambda>r m. RPC_SUCCESS,
     asrv_dispatch = \<lambda>x m st. Inr st, fuel = 10\<rparr>"

definition xh0 :: xhinfo where
  "xh0 = \<lparr>xh_ateof = False, xh_connected = True, xh_reliable = True, xh_raw = 0, xh_rcb = True, clist = [],
     stab = False, xidtab = [], max_acked_offset = 0\<rparr>"

lemma env0_ok: "env_ok env0"
  by (simp add: env_ok_def env0_def)



text \<open>A client with two calls in flight, for examples.\<close>

definition cn0 :: "cid list \<Rightarrow> bool \<Rightarrow> aclnt" where
  "cn0 is b = \<lparr>xi = 0, progno = 100, versno = 1, nproc = 3, eofcb = None, adest = None, stopped = b, send_hook = None,
     recv_hook = None, acalls = is, rpccb_alloc = AllocRpccb, failcb = None\<rparr>"

definition call0 :: "u32 \<Rightarrow> callbase" where
  "call0 v = \<lparr>cl = 0, cdest = None, tmo = False, xid = v, offset = 0, kind = Rpccb, ucb = Some 5\<rparr>"

definition cst2 :: cst where
  "cst2 = \<lparr>xhs = (\<lambda>x. xh0)(0 := xh0\<lparr>clist := [0], xidtab := [1, 0]\<rparr>), clients = [0 \<mapsto> cn0 [0, 1] False],
     calls = [0 \<mapsto> call0 7, 1 \<mapsto> call0 8], nextcall = 2, rpctoq = [], rng = [], log = []\<rparr>"

lemma cst2_running: "running cst2 x i \<longleftrightarrow> x = 0 \<and> (i = 0 \<or> i = 1)"
  by (auto simp: running_def cst2_def cn0_def call0_def split: if_splits)

lemma cst2_cinv: "cinv cst2"
proof -
  have "calls_ok cst2" "clients_ok cst2" "log_ok cst2"
    by (auto simp: calls_ok_def clients_ok_def log_ok_def cst2_def cn0_def call0_def split: if_splits)
  moreover have "clists_ok cst2"
    by (auto simp: clists_ok_def cst2_def cn0_def xh0_def split: if_splits)
  moreover have "tabs_ok cst2"
    unfolding tabs_ok_def cst2_running by (auto simp: cst2_def xh0_def call0_def)
  ultimately show ?thesis by (simp add: cinv_def)
qed

lemma cst2_lookup: "xid_lookup cst2 0 7 = Some 0" "xid_lookup cst2 0 9 = None"
  by (simp_all add: xid_lookup_def cst2_def call0_def)


section \<open>Failure\<close>

lemma delete_ok:
  assumes "cinv st" "calls st i = Some r"
  obtains st1 cn where "clients st (cl r) = Some cn" "callbase_delete i st = Inr st1"
    "clients st1 = (clients st)(cl r \<mapsto> cn\<lparr>acalls := remove1 i (acalls cn)\<rparr>)" "calls st1 = (calls st)(i := None)"
proof -
  obtain cn where cn: "clients st (cl r) = Some cn" using assms calls_okD(2) [of st i r] by (auto simp: cinv_def)
  then obtain st1 where st1: "callbase_delete i st = Inr st1"
    using assms(2) by (auto simp: callbase_delete_def getcall_def getclnt_def Let_def)
  moreover have "clients st1 = (clients st)(cl r \<mapsto> cn\<lparr>acalls := remove1 i (acalls cn)\<rparr>)" "calls st1 = (calls st)(i := None)"
    using st1 assms(2) cn by (auto simp: callbase_delete_def getcall_def getclnt_def Let_def split: if_splits)
  ultimately show ?thesis using that cn by blast
qed

text \<open>
  C25. A use after free. \<open>aclnt::fail\<close> reads the link to the next call before it finishes a call, and then
  runs the user's callback: when that callback cancels the next call, which \<open>cancel\<close> allows, the loop goes
  on with a deleted object.
\<close>

theorem fail_use_after_free:
  assumes inv: "cinv st" and cn: "clients st a = Some cn" "acalls cn = i # j # js"
    and r: "calls st i = Some r" "kind r = Rpccb" "ucb r = Some c" and fuel: "fuel e = Suc (Suc n)"
    and user: "user e (Finished i c RPC_CANTRECV) = (\<lambda>st. bindR (cancel j st) (\<lambda>st. Inr (True, st)))"
  shows "aclnt_fail_base e a st = Inl UseAfterFree"
proof -
  have own: "cl r = a" "j \<noteq> i" "\<exists>s. calls st j = Some s"
    using clients_okD [of st a cn] inv cn r by (auto simp: cinv_def) fastforce+
  obtain st1 where st1: "callbase_delete i st = Inr st1" "calls st1 = (calls st)(i := None)"
    using delete_ok [OF inv r(1)] by metis
  have inv1: "cinv st1" using callbase_delete_cinv [OF inv st1(1)] by simp
  let ?st1 = "st1\<lparr>log := log st1 @ [Finished i c RPC_CANTRECV]\<rparr>"
  obtain s where s: "calls st1 j = Some s" using own st1(2) by auto
  obtain cs where cs: "clients st1 (cl s) = Some cs" using calls_okD(2) [of st1 j s] inv1 s by (auto simp: cinv_def)
  obtain st2 where st2: "callbase_delete j ?st1 = Inr st2" "calls st2 j = None"
    using s cs by (auto simp: callbase_delete_def getcall_def getclnt_def Let_def)
  have nx: "call_next i st = Inr (Some j)"
    using r(1) own cn by (simp add: call_next_def getcall_def getclnt_def)
  have fin: "finish e i RPC_CANTRECV st = Inr st2"
    using r st1 st2 user by (simp add: finish_def getcall_def callback_def notify_def cancel_def)
  have "fail_calls e (Suc n) (Some j) st2 = Inl UseAfterFree"
    using st2(2) by (simp add: call_next_def getcall_def)
  then show ?thesis
    using cn nx fin by (simp add: aclnt_fail_base_def getclnt_def fuel)
qed

theorem fail_use_after_free_witness:
  "aclnt_fail_base (env0\<lparr>user := \<lambda>ev st. if ev = Finished 0 5 RPC_CANTRECV then bindR (cancel 1 st) (\<lambda>st. Inr (True, st)) else Inr (True, st)\<rparr>)
     0 cst2 = Inl UseAfterFree"
proof (rule fail_use_after_free [OF cst2_cinv])
  show "clients cst2 0 = Some (cn0 [0, 1] False)" "calls cst2 0 = Some (call0 7)" by (simp_all add: cst2_def)
  show "acalls (cn0 [0, 1] False) = 0 # 1 # []" "kind (call0 7) = Rpccb" "ucb (call0 7) = Some 5"
    by (simp_all add: cn0_def call0_def)
  show "fuel (env0\<lparr>user := \<lambda>ev st. if ev = Finished 0 5 RPC_CANTRECV then bindR (cancel 1 st) (\<lambda>st. Inr (True, st)) else Inr (True, st)\<rparr>) = Suc (Suc 8)"
    by (simp add: env0_def)
qed simp

text \<open>The callbacks a failing client makes, in order.\<close>

fun fail_events :: "cst \<Rightarrow> cid list \<Rightarrow> uevent list" where
  "fail_events st [] = []"
| "fail_events st (i # is) =
     (case calls st i of
        Some r \<Rightarrow> (case ucb r of None \<Rightarrow> [] | Some c \<Rightarrow> [case kind r of Rawcall _ \<Rightarrow> RawFinished i c RPC_CANTRECV | _ \<Rightarrow> Finished i c RPC_CANTRECV])
      | None \<Rightarrow> []) @ fail_events st is"

definition passive_user :: "env \<Rightarrow> bool" where
  "passive_user e \<longleftrightarrow> (\<forall>ev st. \<exists>b. user e ev st = Inr (b, st))"

lemma callback_passive: "passive_user e \<Longrightarrow> callback e ev st = Inr (st\<lparr>log := log st @ [ev]\<rparr>)"
  by (auto simp: passive_user_def callback_def notify_def) (metis (no_types, lifting) bindR_Inr prod.case)

lemma fail_events_frame: "(\<And>i. i \<in> set is \<Longrightarrow> calls st' i = calls st i) \<Longrightarrow> fail_events st' is = fail_events st is"
  by (induction "is") auto

lemma finish_passive:
  assumes inv: "cinv st" and p: "passive_user e" and r: "calls st i = Some r" "clients st (cl r) = Some cn"
  shows "\<exists>st'. finish e i RPC_CANTRECV st = Inr st' \<and> calls st' = (calls st)(i := None) \<and>
    clients st' = (clients st)(cl r \<mapsto> cn\<lparr>acalls := remove1 i (acalls cn)\<rparr>) \<and> log st' = log st @ fail_events st [i]"
proof (cases "\<exists>old. kind r = Rawcall old")
  case True
  let ?st = "case ucb r of None \<Rightarrow> st | Some c \<Rightarrow> st\<lparr>log := log st @ [RawFinished i c RPC_CANTRECV]\<rparr>"
  have "cinv ?st" by (cases "ucb r") (auto intro!: inv cinv_frame [OF inv])
  moreover have "calls ?st i = Some r" "clients ?st = clients st" "calls ?st = calls st" using r by (cases "ucb r"; simp)+
  ultimately obtain st1 where st1: "callbase_delete i ?st = Inr st1" "calls st1 = (calls st)(i := None)"
    "clients st1 = (clients st)(cl r \<mapsto> cn\<lparr>acalls := remove1 i (acalls cn)\<rparr>)"
    using delete_ok [of ?st i r] r(2) by (metis option.inject)
  have "log st1 = log ?st" using callbase_delete_cinv(3) [OF \<open>cinv ?st\<close> st1(1)] .
  then show ?thesis
    using True r(1) st1 callback_passive [OF p]
    by (cases "ucb r") (auto simp: finish_def getcall_def)
next
  case False
  obtain st1 where st1: "callbase_delete i st = Inr st1" "calls st1 = (calls st)(i := None)"
    "clients st1 = (clients st)(cl r \<mapsto> cn\<lparr>acalls := remove1 i (acalls cn)\<rparr>)"
    using delete_ok [OF inv r(1)] r(2) by (metis option.inject)
  have "log st1 = log st" using callbase_delete_cinv(3) [OF inv st1(1)] .
  then show ?thesis
    using False r(1) st1 callback_passive [OF p]
    by (cases "ucb r"; cases "kind r") (auto simp: finish_def getcall_def)
qed

lemma fail_calls_passive:
  assumes e: "env_ok e" "passive_user e"
  shows "cinv st \<Longrightarrow> clients st a = Some cn \<Longrightarrow> length (acalls cn) \<le> n \<Longrightarrow>
    \<exists>st'. fail_calls e n (case acalls cn of [] \<Rightarrow> None | i # _ \<Rightarrow> Some i) st = Inr st' \<and> cinv st' \<and>
      clients st' = (clients st)(a \<mapsto> cn\<lparr>acalls := []\<rparr>) \<and>
      calls st' = (\<lambda>i. if i \<in> set (acalls cn) then None else calls st i) \<and> log st' = log st @ fail_events st (acalls cn)"
proof (induction "acalls cn" arbitrary: st cn n)
  case Nil
  have "cn\<lparr>acalls := []\<rparr> = cn" using Nil.hyps by simp
  then show ?case using Nil by (auto simp: fun_upd_idem)
next
  case (Cons i js)
  obtain m where n: "n = Suc m" "length js \<le> m"
    using Cons.prems(3) by (cases n) (auto simp: Cons.hyps(2) [symmetric])
  obtain r where r: "calls st i = Some r" "cl r = a"
    using clients_okD(2) [of st a cn i] Cons.prems(1,2) by (auto simp: cinv_def Cons.hyps(2) [symmetric])
  have dis: "distinct (i # js)" using clients_okD(1) [of st a cn] Cons.prems(1,2) Cons.hyps(2) by (simp add: cinv_def)
  obtain st1 where st1: "finish e i RPC_CANTRECV st = Inr st1" "calls st1 = (calls st)(i := None)"
    "clients st1 = (clients st)(a \<mapsto> cn\<lparr>acalls := js\<rparr>)" "log st1 = log st @ fail_events st [i]"
    using finish_passive [OF Cons.prems(1) e(2) r(1), of cn] r(2) Cons.prems(2)
    by (auto simp: Cons.hyps(2) [symmetric])
  have inv1: "cinv st1" using postD [OF post_finish [OF e(1) Cons.prems(1)] st1(1)] .
  have js: "js = acalls (cn\<lparr>acalls := js\<rparr>)" by simp
  have nx: "call_next i st = Inr (case js of [] \<Rightarrow> None | j # _ \<Rightarrow> Some j)"
    using r Cons.prems(2) Cons.hyps(2) [symmetric] by (simp add: call_next_def getcall_def getclnt_def split: list.split)
  have ev: "fail_events st1 js = fail_events st js"
    by (rule fail_events_frame) (use dis st1(2) in auto)
  obtain st' where st': "fail_calls e m (case js of [] \<Rightarrow> None | j # _ \<Rightarrow> Some j) st1 = Inr st'" "cinv st'"
    "clients st' = (clients st1)(a \<mapsto> cn\<lparr>acalls := []\<rparr>)"
    "calls st' = (\<lambda>i. if i \<in> set js then None else calls st1 i)" "log st' = log st1 @ fail_events st1 js"
    using Cons.hyps(1) [OF js inv1, of m] st1(3) n(2) by auto
  have "fail_calls e n (case acalls cn of [] \<Rightarrow> None | i # _ \<Rightarrow> Some i) st = Inr st'"
    using n(1) nx st1(1) st'(1) by (simp add: Cons.hyps(2) [symmetric])
  moreover have "calls st' = (\<lambda>k. if k \<in> set (acalls cn) then None else calls st k)"
    using st'(4) st1(2) by (auto simp: Cons.hyps(2) [symmetric])
  ultimately show ?case
    using st' st1(3,4) ev by (auto simp: Cons.hyps(2) [symmetric])
qed



section \<open>Calls of a stopped client\<close>

lemma start_calls_assert:
  "i \<in> set is \<Longrightarrow> i \<in> set (xidtab (xhs st x)) \<Longrightarrow> (\<And>j. j \<in> set is \<Longrightarrow> \<exists>r. calls st j = Some r) \<Longrightarrow>
     start_calls x is st = Inl AssertFail"
proof (induction "is" arbitrary: st)
  case (Cons j "is")
  obtain r where r: "calls st j = Some r" using Cons.prems(3) by (meson list.set_intros(1))
  show ?case
  proof (cases "xid_lookup st x (xid r) = None")
    case True
    have "i \<noteq> j"
      using True r Cons.prems(2) unfolding xid_lookup_def find_None_iff by auto
    then have "start_calls x is (upd_xh x (\<lambda>x. x\<lparr>xidtab := j # xidtab x\<rparr>) st) = Inl AssertFail"
      using Cons.prems by (intro Cons.IH) auto
    then show ?thesis using True r by (simp add: getcall_def)
  next
    case False
    then show ?thesis using r by (auto simp: getcall_def guardR_def)
  qed
qed simp

text \<open>
  C26. A call made while its client is stopped cannot be restarted. The constructor of a call enters it in
  the XID table whether or not the client is stopped, so \<open>start\<close>, which enters all the client's calls,
  finds it there and fails its assertion.
\<close>

theorem start_after_stopped_call:
  assumes inv: "cinv st" and cn: "clients st a = Some cn" "stopped cn"
    and new: "callbase_new a v d k c st = Inr (i, st')"
  shows "aclnt_start a st' = Inl AssertFail"
proof -
  have i: "i = nextcall st" and st': "clients st' = (clients st)(a \<mapsto> cn\<lparr>acalls := acalls cn @ [i]\<rparr>)"
    "calls st' = (calls st)(i \<mapsto> \<lparr>cl = a, cdest = d, tmo = False, xid = v, offset = 0, kind = k, ucb = c\<rparr>)"
    "xidtab (xhs st' (xi cn)) = i # xidtab (xhs st (xi cn))"
    using new cn by (auto simp: callbase_new_def op_simps Let_def)
  have ex: "j \<in> set (acalls cn) \<Longrightarrow> \<exists>r. calls st j = Some r" for j
    using clients_okD(2) [of st a cn j] inv cn by (auto simp: cinv_def)
  have "start_calls (xi cn) (acalls cn @ [i])
      (upd_xh (xi cn) (\<lambda>x. x\<lparr>clist := a # clist x\<rparr>) (upd_clnt a (\<lambda>cn. cn\<lparr>stopped := False\<rparr>) st')) = Inl AssertFail"
    by (rule start_calls_assert [where i = i]) (use ex in \<open>auto simp: st'\<close>)
  then show ?thesis using cn by (simp add: aclnt_start_def getclnt_def st')
qed

definition cst_stopped :: cst where
  "cst_stopped = \<lparr>xhs = \<lambda>x. xh0, clients = [0 \<mapsto> cn0 [] True], calls = Map.empty, nextcall = 0, rpctoq = [], rng = [], log = []\<rparr>"

theorem start_after_stopped_call_witness:
  "\<exists>i st'. callbase_new 0 7 None Rpccb (Some 5) cst_stopped = Inr (i, st') \<and> aclnt_start 0 st' = Inl AssertFail"
proof -
  have inv: "cinv cst_stopped"
    by (auto simp: cinv_defs cst_stopped_def running_def cn0_def xh0_def split: if_splits)
  have cn: "clients cst_stopped 0 = Some (cn0 [] True)" "stopped (cn0 [] True)" by (simp_all add: cst_stopped_def cn0_def)
  obtain i st' where "callbase_new 0 7 None Rpccb (Some 5) cst_stopped = Inr (i, st')"
    by (simp add: callbase_new_def getclnt_def cn Let_def)
  then show ?thesis using start_after_stopped_call [OF inv cn] by blast
qed

end
