(* ===== verification/Asrv.thy ===== *)
theory Asrv
  imports Serial
begin

text \<open>
  The RPC server side: \<open>svccb\<close>, \<open>asrv\<close>, the replay caches \<open>asrv_unreliable\<close> and \<open>asrv_resumable\<close>, and
  \<open>asrv_delayed_eof\<close>, of \<open>arpc/asrv.h\<close> and \<open>arpc/asrv.C\<close>.

  Requests (\<open>svccb\<close>) and servers live in a heap of identifiers; a use of one that has been deleted is the
  fault \<open>UseAfterFree\<close>, and removing an entry from a list it is not on is \<open>Undefined\<close>, as the intrusive
  lists of the code make it. The user's callbacks are functions of the state and may re-enter the
  library. The XDR library, the generated tables of argument coders, and the transport's \<open>sendv\<close> are
  parameters of the environment; sending changes the transport only.
\<close>

section \<open>State\<close>

datatype accept_stat = PROG_UNAVAIL | PROG_MISMATCH | PROC_UNAVAIL | GARBAGE_ARGS | SYSTEM_ERR | BadStat nat

datatype auth_stat = AUTH_OK | AuthFailed nat

text \<open>The replies the code fills in a \<open>rpc_msg\<close>.\<close>

datatype rpc_reply =
    Success nat                     \<comment> \<open>\<open>SUCCESS\<close> with the result\<close>
  | AcceptErr accept_stat u32 u32   \<comment> \<open>\<open>ar_stat\<close>, \<open>ar_vers.low\<close> and \<open>ar_vers.high\<close>\<close>
  | RpcMismatch u32 u32
  | AuthError auth_stat

record rpc_call =
  cb_xid :: u32
  cb_rpcvers :: u32
  cb_prog :: u32
  cb_vers :: u32
  cb_proc :: u32
  cb_pos :: nat                     \<comment> \<open>the position of the arguments\<close>

type_synonym sid = nat              \<comment> \<open>a request\<close>
type_synonym srvid = nat            \<comment> \<open>a server\<close>
type_synonym txid = nat             \<comment> \<open>a transport and its \<open>xhinfo\<close>\<close>

record svccb =
  sxid :: u32
  sprog :: u32
  svers :: u32
  sproc :: u32
  srpcvers :: u32
  srv :: "srvid option"
  saddr :: "nat option"
  arg :: bool
  resdat :: bool
  sres :: "u8 list option"
  soffset :: nat

datatype akind = Plain | Unreliable nat | Resumable | DelayedEof

record asrv =
  sxi :: txid
  pv :: "u32 \<times> u32"
  snproc :: u32
  scb :: "nat option"
  srecv_hook :: "nat option"
  akind :: akind
  rsize :: nat
  rq :: "sid list"
  rtab :: "sid list"
  dcount :: int                     \<comment> \<open>the members of \<open>asrv_delayed_eof\<close>\<close>
  deof :: bool
  dasrv_cb :: "nat option"
  deofcb :: "nat option"

record xport =
  xateof :: bool
  raw_bytes_sent :: nat
  sndbufsize :: int
  writefd :: int
  sent :: "(nat option \<times> u8 list) list"

record sxh =
  xport :: xport
  xconnected :: bool
  xreliable :: bool
  nsvc :: nat
  sstab :: "srvid list"
  acked_offset :: nat               \<comment> \<open>\<open>max_acked_offset\<close>\<close>

datatype sevent =
    Served srvid nat "sid option"   \<comment> \<open>\<open>(*cb) (sbp)\<close>; \<open>None\<close> for the end of file\<close>
  | DelayedEofcb srvid nat
  | RecvHook nat
  | VirtualAlloc txid

record sst =
  sxhs :: "txid \<Rightarrow> sxh"
  asrvs :: "srvid \<rightharpoonup> asrv"
  svccbs :: "sid \<rightharpoonup> svccb"
  nextsb :: sid
  slog :: "sevent list"

record senv =
  suser :: "sevent \<Rightarrow> sst \<Rightarrow> sst res"
  ssend :: "nat option \<Rightarrow> u8 list \<Rightarrow> xport \<Rightarrow> bool \<times> xport"
  xdr_callmsg :: "u8 list \<Rightarrow> rpc_call option"
  xdr_arg :: "u32 \<times> u32 \<times> u32 \<Rightarrow> u8 list \<Rightarrow> bool"
  xdr_replymsg :: "u32 \<Rightarrow> u32 \<Rightarrow> rpc_reply \<Rightarrow> u8 list option"
  v_XDR_dispatch :: bool
  xdr_virtual_map :: "u32 \<Rightarrow> (u8 list \<Rightarrow> bool) option"
  sfuel :: nat

definition getsb :: "sid \<Rightarrow> sst \<Rightarrow> svccb res" where
  "getsb i st = (case svccbs st i of None \<Rightarrow> Inl UseAfterFree | Some s \<Rightarrow> Inr s)"

definition getsrv :: "srvid \<Rightarrow> sst \<Rightarrow> asrv res" where
  "getsrv a st = (case asrvs st a of None \<Rightarrow> Inl UseAfterFree | Some s \<Rightarrow> Inr s)"

definition upd_sxh :: "txid \<Rightarrow> (sxh \<Rightarrow> sxh) \<Rightarrow> sst \<Rightarrow> sst" where
  "upd_sxh x f st = st\<lparr>sxhs := (sxhs st)(x := f (sxhs st x))\<rparr>"

definition upd_srv :: "srvid \<Rightarrow> (asrv \<Rightarrow> asrv) \<Rightarrow> sst \<Rightarrow> sst" where
  "upd_srv a f st = st\<lparr>asrvs := (asrvs st)(a := map_option f (asrvs st a))\<rparr>"

definition upd_sb :: "sid \<Rightarrow> (svccb \<Rightarrow> svccb) \<Rightarrow> sst \<Rightarrow> sst" where
  "upd_sb i f st = st\<lparr>svccbs := (svccbs st)(i := map_option f (svccbs st i))\<rparr>"

definition snotify :: "senv \<Rightarrow> sevent \<Rightarrow> sst \<Rightarrow> sst res" where
  "snotify e ev st = suser e ev (st\<lparr>slog := slog st @ [ev]\<rparr>)"

abbreviation xi_ateof :: "txid \<Rightarrow> sst \<Rightarrow> bool" where
  "xi_ateof x st \<equiv> xateof (xport (sxhs st x))"

definition xh_send :: "senv \<Rightarrow> txid \<Rightarrow> nat option \<Rightarrow> u8 list \<Rightarrow> sst \<Rightarrow> bool \<times> sst" where
  "xh_send e x addr m st =
     (case ssend e addr m (xport (sxhs st x)) of (ok, t) \<Rightarrow> (ok, upd_sxh x (\<lambda>h. h\<lparr>xport := t\<rparr>) st))"

section \<open>Requests\<close>

definition svccb_new :: "sst \<Rightarrow> sid \<times> sst" where
  "svccb_new st =
     (nextsb st,
      st\<lparr>svccbs := (svccbs st)(nextsb st \<mapsto>
           \<lparr>sxid = 0, sprog = 0, svers = 0, sproc = 0, srpcvers = 0, srv = None, saddr = None,
            arg = False, resdat = False, sres = None, soffset = 0\<rparr>),
         nextsb := nextsb st + 1\<rparr>)"

definition svcadd :: "txid \<Rightarrow> sst \<Rightarrow> sst" where
  "svcadd x st = upd_sxh x (\<lambda>h. h\<lparr>nsvc := nsvc h + 1\<rparr>) st"

definition svcdel :: "txid \<Rightarrow> sst \<Rightarrow> sst res" where
  "svcdel x st =
     bindR (guardR AssertFail (nsvc (sxhs st x) \<noteq> 0)) (\<lambda>_. Inr (upd_sxh x (\<lambda>h. h\<lparr>nsvc := nsvc h - 1\<rparr>) st))"

text \<open>The destructor frees the argument and the result through the table of \<open>srv\<close>.\<close>

definition svccb_delete :: "sid \<Rightarrow> sst \<Rightarrow> sst res" where
  "svccb_delete i st =
     bindR (getsb i st) (\<lambda>s.
     bindR (guardR OutOfRange ((arg s \<or> resdat s) \<longrightarrow> srv s \<noteq> None)) (\<lambda>_.
     bindR (case srv s of
              None \<Rightarrow> Inr st
            | Some a \<Rightarrow> bindR (getsrv a st) (\<lambda>sv. svcdel (sxi sv) st)) (\<lambda>st.
       Inr (st\<lparr>svccbs := (svccbs st)(i := None)\<rparr>))))"

text \<open>\<open>svccb::operator==\<close> compares these.\<close>

definition sbkey :: "svccb \<Rightarrow> u32 \<times> u32 \<times> u32 \<times> u32 \<times> nat option" where
  "sbkey s = (sxid s, sprog s, svers s, sproc s, saddr s)"

definition svccb_init :: "sid \<Rightarrow> srvid \<Rightarrow> nat option \<Rightarrow> sst \<Rightarrow> sst res" where
  "svccb_init i a src st =
     bindR (getsrv a st) (\<lambda>sv.
     bindR (getsb i st) (\<lambda>_.
       let st = upd_sb i (\<lambda>s. s\<lparr>srv := Some a\<rparr>) st;
           st = svcadd (sxi sv) st
       in if xconnected (sxhs st (sxi sv)) then Inr st
          else if src = None then Inl OutOfRange
          else Inr (upd_sb i (\<lambda>s. s\<lparr>saddr := src\<rparr>) st)))"

definition getvoidres :: "sid \<Rightarrow> sst \<Rightarrow> sst res" where
  "getvoidres i st =
     bindR (getsb i st) (\<lambda>s.
       if resdat s then Inr st
       else bindR (guardR OutOfRange (srv s \<noteq> None)) (\<lambda>_. Inr (upd_sb i (\<lambda>s. s\<lparr>resdat := True\<rparr>) st)))"

section \<open>Error replies\<close>

definition xh_reply :: "senv \<Rightarrow> txid \<Rightarrow> nat option \<Rightarrow> u32 \<Rightarrow> rpc_reply \<Rightarrow> sst \<Rightarrow> sst" where
  "xh_reply e x addr xd r st =
     (case xdr_replymsg e 2 xd r of None \<Rightarrow> st | Some m \<Rightarrow> snd (xh_send e x addr m st))"

definition asrv_rpc_mismatch :: "senv \<Rightarrow> txid \<Rightarrow> nat option \<Rightarrow> u32 \<Rightarrow> sst \<Rightarrow> sst" where
  "asrv_rpc_mismatch e x addr xd st = xh_reply e x addr xd (RpcMismatch 2 2) st"

definition asrv_auth_reject :: "senv \<Rightarrow> txid \<Rightarrow> nat option \<Rightarrow> u32 \<Rightarrow> auth_stat \<Rightarrow> sst \<Rightarrow> sst res" where
  "asrv_auth_reject e x addr xd stat st =
     bindR (guardR AssertFail (stat \<noteq> AUTH_OK)) (\<lambda>_. Inr (xh_reply e x addr xd (AuthError stat) st))"

text \<open>The loop over the servers of a transport that finds the versions of a program.\<close>

fun acc_versions :: "(srvid \<rightharpoonup> asrv) \<Rightarrow> u32 \<Rightarrow> u32 \<Rightarrow> srvid list \<Rightarrow> accept_stat \<times> u32 \<times> u32 \<Rightarrow> (accept_stat \<times> u32 \<times> u32) res" where
  "acc_versions A prog vers [] r = Inr r"
| "acc_versions A prog vers (a # as) (stat, low, high) =
     (case A a of
        None \<Rightarrow> Inl UseAfterFree
      | Some s \<Rightarrow>
          if scb s \<noteq> None \<and> fst (pv s) = prog
          then if snd (pv s) = vers then Inl PanicCall
               else if stat \<noteq> PROC_UNAVAIL
               then acc_versions A prog vers as
                      (PROG_MISMATCH, if low > snd (pv s) then snd (pv s) else low,
                       if high < snd (pv s) then snd (pv s) else high)
               else acc_versions A prog vers as (stat, low, high)
          else acc_versions A prog vers as (stat, low, high))"

definition asrv_accepterr :: "senv \<Rightarrow> txid \<Rightarrow> nat option \<Rightarrow> accept_stat \<Rightarrow> u32 \<times> u32 \<times> u32 \<Rightarrow> sst \<Rightarrow> sst res" where
  "asrv_accepterr e x addr stat m st =
     (case m of (xd, prog, vers) \<Rightarrow>
        (case stat of
           PROG_UNAVAIL \<Rightarrow>
             bindR (acc_versions (asrvs st) prog vers (sstab (sxhs st x)) (PROG_UNAVAIL, 0xffffffff, 0))
               (\<lambda>(s, low, high). Inr (xh_reply e x addr xd (AcceptErr s low high) st))
         | PROG_MISMATCH \<Rightarrow>
             bindR (acc_versions (asrvs st) prog vers (sstab (sxhs st x)) (PROG_UNAVAIL, 0xffffffff, 0))
               (\<lambda>(s, low, high). Inr (xh_reply e x addr xd (AcceptErr s low high) st))
         | BadStat _ \<Rightarrow> Inl PanicCall
         | _ \<Rightarrow> Inr (xh_reply e x addr xd (AcceptErr stat 0 0) st)))"

section \<open>Callbacks and the delayed end of file\<close>

definition call_dasrv_cb :: "senv \<Rightarrow> srvid \<Rightarrow> sid option \<Rightarrow> sst \<Rightarrow> sst res" where
  "call_dasrv_cb e a sbp st =
     bindR (getsrv a st) (\<lambda>sv. case dasrv_cb sv of None \<Rightarrow> Inl OutOfRange | Some c \<Rightarrow> snotify e (Served a c sbp) st)"

definition delayed_dispatch :: "senv \<Rightarrow> srvid \<Rightarrow> sid option \<Rightarrow> sst \<Rightarrow> sst res" where
  "delayed_dispatch e a sbp st =
     (case sbp of
        None \<Rightarrow>
          bindR (getsrv a st) (\<lambda>sv.
            let st = upd_srv a (\<lambda>sv. sv\<lparr>deof := True, deofcb := None\<rparr>) st
            in if dcount sv = 0 then call_dasrv_cb e a None st
               else case deofcb sv of None \<Rightarrow> Inr st | Some c \<Rightarrow> snotify e (DelayedEofcb a c) st)
      | Some i \<Rightarrow> call_dasrv_cb e a (Some i) st)"

definition inc_svccb_count :: "srvid \<Rightarrow> sst \<Rightarrow> sst res" where
  "inc_svccb_count a st =
     bindR (getsrv a st) (\<lambda>sv.
       if akind sv = DelayedEof then Inr (upd_srv a (\<lambda>sv. sv\<lparr>dcount := dcount sv + 1\<rparr>) st) else Inr st)"

definition dec_svccb_count :: "senv \<Rightarrow> srvid \<Rightarrow> sst \<Rightarrow> sst res" where
  "dec_svccb_count e a st =
     bindR (getsrv a st) (\<lambda>sv.
       if akind sv = DelayedEof
       then
         bindR (guardR AssertFail (dcount sv - 1 \<ge> 0)) (\<lambda>_.
           let st = upd_srv a (\<lambda>sv. sv\<lparr>dcount := dcount sv - 1\<rparr>) st
           in if dcount sv - 1 = 0 \<and> deof sv then call_dasrv_cb e a None st else Inr st)
       else Inr st)"

text \<open>Calling \<open>cb\<close>: for \<open>asrv_delayed_eof\<close> it is a wrap of its \<open>dispatch\<close>.\<close>

definition call_cb :: "senv \<Rightarrow> srvid \<Rightarrow> sid option \<Rightarrow> sst \<Rightarrow> sst res" where
  "call_cb e a sbp st =
     bindR (getsrv a st) (\<lambda>sv.
       case scb sv of
         None \<Rightarrow> Inl OutOfRange
       | Some c \<Rightarrow> if akind sv = DelayedEof then delayed_dispatch e a sbp st else snotify e (Served a c sbp) st)"

definition asrv_setcb :: "senv \<Rightarrow> srvid \<Rightarrow> nat option \<Rightarrow> sst \<Rightarrow> sst res" where
  "asrv_setcb e a c st =
     bindR (getsrv a st) (\<lambda>sv.
       let st = upd_srv a (\<lambda>sv. sv\<lparr>scb := c\<rparr>) st
       in if c \<noteq> None \<and> xi_ateof (sxi sv) st then call_cb e a None st else Inr st)"

definition delayed_setcb :: "senv \<Rightarrow> srvid \<Rightarrow> nat option \<Rightarrow> sst \<Rightarrow> sst res" where
  "delayed_setcb e a c st =
     bindR (getsrv a st) (\<lambda>sv.
       let isset = (dasrv_cb sv \<noteq> None);
           st = upd_srv a (\<lambda>sv. sv\<lparr>dasrv_cb := c\<rparr>) st
       in if c \<noteq> None \<and> \<not> isset then asrv_setcb e a (Some 0) st
          else if c = None \<and> isset then asrv_setcb e a None st
          else Inr st)"

section \<open>Sending replies\<close>

definition rtab_remove :: "srvid \<Rightarrow> sid \<Rightarrow> sst \<Rightarrow> sst res" where
  "rtab_remove a i st =
     bindR (getsrv a st) (\<lambda>sv.
     bindR (guardR Undefined (i \<in> set (rtab sv))) (\<lambda>_. Inr (upd_srv a (\<lambda>sv. sv\<lparr>rtab := remove1 i (rtab sv)\<rparr>) st)))"

definition rq_remove :: "srvid \<Rightarrow> sid \<Rightarrow> sst \<Rightarrow> sst res" where
  "rq_remove a i st =
     bindR (getsrv a st) (\<lambda>sv.
     bindR (guardR Undefined (i \<in> set (rq sv))) (\<lambda>_. Inr (upd_srv a (\<lambda>sv. sv\<lparr>rq := remove1 i (rq sv)\<rparr>) st)))"

definition rq_insert_tail :: "srvid \<Rightarrow> sid \<Rightarrow> sst \<Rightarrow> sst" where
  "rq_insert_tail a i st = upd_srv a (\<lambda>sv. sv\<lparr>rq := rq sv @ [i]\<rparr>) st"

text \<open>\<open>asrv::sendreply\<close>; \<open>x = None\<close> is the null \<open>xdrsuio\<close> of a call that was rejected or ignored.\<close>

definition plain_sendreply :: "senv \<Rightarrow> srvid \<Rightarrow> sid \<Rightarrow> u8 list option \<Rightarrow> bool \<Rightarrow> sst \<Rightarrow> sst res" where
  "plain_sendreply e a i x nocache st =
     bindR (getsrv a st) (\<lambda>sv.
     bindR (getsb i st) (\<lambda>s.
     bindR (case x of
              None \<Rightarrow> Inr st
            | Some m \<Rightarrow>
                if xi_ateof (sxi sv) st then Inr st
                else (case xh_send e (sxi sv) (saddr s) m st of (ok, st) \<Rightarrow>
                        if \<not> ok \<and> \<not> xi_ateof (sxi sv) st
                        then asrv_accepterr e (sxi sv) (saddr s) SYSTEM_ERR (sxid s, sprog s, svers s) st
                        else Inr st)) (\<lambda>st.
     bindR (dec_svccb_count e a st) (svccb_delete i))))"

definition delayed_sendreply :: "senv \<Rightarrow> srvid \<Rightarrow> sid \<Rightarrow> u8 list option \<Rightarrow> bool \<Rightarrow> sst \<Rightarrow> sst res" where
  "delayed_sendreply e a i x nocache st =
     bindR (getsrv a st) (\<lambda>sv.
       if deof sv then dec_svccb_count e a st
       else if writefd (xport (sxhs st (sxi sv))) < 0 then dec_svccb_count e a st
       else plain_sendreply e a i x nocache st)"

definition replay_sendreply :: "senv \<Rightarrow> srvid \<Rightarrow> sid \<Rightarrow> u8 list option \<Rightarrow> bool \<Rightarrow> sst \<Rightarrow> sst res" where
  "replay_sendreply e a i x nocache st =
     bindR (getsrv a st) (\<lambda>sv.
       case x of
         None \<Rightarrow> bindR (rtab_remove a i st) (svccb_delete i)
       | Some m \<Rightarrow>
           bindR (getsb i st) (\<lambda>s.
             let st = upd_sb i (\<lambda>s. s\<lparr>arg := False, sres := Some m\<rparr>) st;
                 st = (if xi_ateof (sxi sv) st then st else snd (xh_send e (sxi sv) (saddr s) m st));
                 st = upd_sb i (\<lambda>s. s\<lparr>resdat := False\<rparr>) st
             in if nocache then bindR (rtab_remove a i st) (svccb_delete i) else Inr st))"

definition delsbp :: "srvid \<Rightarrow> sid \<Rightarrow> sst \<Rightarrow> sst res" where
  "delsbp a i st = bindR (rtab_remove a i st) (\<lambda>st. bindR (rq_remove a i st) (svccb_delete i))"

text \<open>The eviction loop of \<open>asrv_unreliable::sendreply\<close>; it makes \<open>rsize - maxrsize\<close> turns.\<close>

fun evict :: "srvid \<Rightarrow> nat \<Rightarrow> sst \<Rightarrow> sst res" where
  "evict a 0 st = Inr st"
| "evict a (Suc n) st =
     bindR (getsrv a st) (\<lambda>sv.
       case rq sv of
         [] \<Rightarrow> Inl OutOfRange
       | j # _ \<Rightarrow> bindR (delsbp a j st) (\<lambda>st. evict a n (upd_srv a (\<lambda>sv. sv\<lparr>rsize := rsize sv - 1\<rparr>) st)))"

definition unreliable_sendreply :: "senv \<Rightarrow> srvid \<Rightarrow> nat \<Rightarrow> sid \<Rightarrow> u8 list option \<Rightarrow> bool \<Rightarrow> sst \<Rightarrow> sst res" where
  "unreliable_sendreply e a maxrsize i x nocache st =
     bindR (replay_sendreply e a i x nocache st) (\<lambda>st.
       if x = None \<or> nocache then Inr st
       else
         let st = upd_sb i (\<lambda>s. s\<lparr>srv := None\<rparr>) st;
             st = upd_srv a (\<lambda>sv. sv\<lparr>rsize := rsize sv + 1\<rparr>) st;
             st = rq_insert_tail a i st
         in bindR (getsrv a st) (\<lambda>sv. evict a (rsize sv - maxrsize) st))"

text \<open>The loops of \<open>asrv_resumable\<close> that delete replies from the head of the queue.\<close>

fun evict_while :: "(svccb \<Rightarrow> bool) \<Rightarrow> srvid \<Rightarrow> sid list \<Rightarrow> sst \<Rightarrow> sst res" where
  "evict_while P a [] st = Inr st"
| "evict_while P a (j # js) st =
     bindR (getsb j st) (\<lambda>s. if P s then bindR (delsbp a j st) (evict_while P a js) else Inr st)"

definition known_received :: "sxh \<Rightarrow> nat" where
  "known_received h =
     max (if sndbufsize (xport h) > 0
          then (if raw_bytes_sent (xport h) > nat (sndbufsize (xport h))
                then raw_bytes_sent (xport h) - nat (sndbufsize (xport h)) else 0)
          else 0)
       (acked_offset h)"

definition resumable_sendreply :: "senv \<Rightarrow> srvid \<Rightarrow> sid \<Rightarrow> u8 list option \<Rightarrow> bool \<Rightarrow> sst \<Rightarrow> sst res" where
  "resumable_sendreply e a i x nocache st =
     bindR (guardR AssertFail (\<not> (x \<noteq> None \<and> nocache))) (\<lambda>_.
     bindR (replay_sendreply e a i x nocache st) (\<lambda>st.
       if x = None then Inr st
       else
         bindR (getsrv a st) (\<lambda>sv.
           let off = raw_bytes_sent (xport (sxhs st (sxi sv)));
               st = upd_sb i (\<lambda>s. s\<lparr>soffset := off, srv := None\<rparr>) st;
               st = rq_insert_tail a i st;
               kr = known_received (sxhs st (sxi sv))
           in evict_while (\<lambda>s. soffset s \<noteq> 0 \<and> soffset s < kr) a (rq sv @ [i]) st)))"

definition sendreply :: "senv \<Rightarrow> srvid \<Rightarrow> sid \<Rightarrow> u8 list option \<Rightarrow> bool \<Rightarrow> sst \<Rightarrow> sst res" where
  "sendreply e a i x nocache st =
     bindR (getsrv a st) (\<lambda>sv.
       case akind sv of
         Plain \<Rightarrow> plain_sendreply e a i x nocache st
       | DelayedEof \<Rightarrow> delayed_sendreply e a i x nocache st
       | Unreliable n \<Rightarrow> unreliable_sendreply e a n i x nocache st
       | Resumable \<Rightarrow> resumable_sendreply e a i x nocache st)"

text \<open>What the user does with a request.\<close>

definition svccb_reply :: "senv \<Rightarrow> sid \<Rightarrow> nat \<Rightarrow> bool \<Rightarrow> sst \<Rightarrow> sst res" where
  "svccb_reply e i r nocache st =
     bindR (getsb i st) (\<lambda>s.
       case srv s of
         None \<Rightarrow> Inl OutOfRange
       | Some a \<Rightarrow>
           (case xdr_replymsg e (srpcvers s) (sxid s) (Success r) of
              None \<Rightarrow> svccb_delete i st
            | Some m \<Rightarrow> sendreply e a i (Some m) nocache st))"

definition svccb_reject_auth :: "senv \<Rightarrow> sid \<Rightarrow> auth_stat \<Rightarrow> sst \<Rightarrow> sst res" where
  "svccb_reject_auth e i stat st =
     bindR (getsb i st) (\<lambda>s.
       case srv s of
         None \<Rightarrow> Inl OutOfRange
       | Some a \<Rightarrow>
           bindR (getsrv a st) (\<lambda>sv.
           bindR (if xi_ateof (sxi sv) st then Inr st else asrv_auth_reject e (sxi sv) (saddr s) (sxid s) stat st)
             (sendreply e a i None True)))"

definition svccb_reject_accept :: "senv \<Rightarrow> sid \<Rightarrow> accept_stat \<Rightarrow> sst \<Rightarrow> sst res" where
  "svccb_reject_accept e i stat st =
     bindR (getsb i st) (\<lambda>s.
       case srv s of
         None \<Rightarrow> Inl OutOfRange
       | Some a \<Rightarrow>
           bindR (getsrv a st) (\<lambda>sv.
           bindR (if xi_ateof (sxi sv) st then Inr st
                  else asrv_accepterr e (sxi sv) (saddr s) stat (sxid s, sprog s, svers s) st)
             (sendreply e a i None True)))"

definition svccb_ignore :: "senv \<Rightarrow> sid \<Rightarrow> sst \<Rightarrow> sst res" where
  "svccb_ignore e i st =
     bindR (getsb i st) (\<lambda>s. case srv s of None \<Rightarrow> Inl OutOfRange | Some a \<Rightarrow> sendreply e a i None True st)"

section \<open>The replay caches\<close>

text \<open>\<open>rtab[*sbp]\<close>, with the table as one chain.\<close>

fun rtab_find :: "sst \<Rightarrow> u32 \<times> u32 \<times> u32 \<times> u32 \<times> nat option \<Rightarrow> sid list \<Rightarrow> sid option res" where
  "rtab_find st k [] = Inr None"
| "rtab_find st k (j # js) = bindR (getsb j st) (\<lambda>s. if sbkey s = k then Inr (Some j) else rtab_find st k js)"

definition replay_lookup :: "srvid \<Rightarrow> sid \<Rightarrow> sst \<Rightarrow> (sid option \<times> sst) res" where
  "replay_lookup a i st =
     bindR (getsrv a st) (\<lambda>sv.
     bindR (getsb i st) (\<lambda>s.
     bindR (rtab_find st (sbkey s) (rtab sv)) (\<lambda>os.
       Inr (os, if os = None then upd_srv a (\<lambda>sv. sv\<lparr>rtab := i # rtab sv\<rparr>) st else st))))"

definition unreliable_isreplay :: "senv \<Rightarrow> srvid \<Rightarrow> sid \<Rightarrow> sst \<Rightarrow> (bool \<times> sst) res" where
  "unreliable_isreplay e a i st =
     bindR (replay_lookup a i st) (\<lambda>(os, st).
       case os of
         None \<Rightarrow> Inr (False, st)
       | Some j \<Rightarrow>
           bindR (getsrv a st) (\<lambda>sv.
           bindR (getsb j st) (\<lambda>o'.
             Inr (True, case sres o' of None \<Rightarrow> st | Some m \<Rightarrow> snd (xh_send e (sxi sv) (saddr o') m st)))))"

definition resumable_isreplay :: "senv \<Rightarrow> srvid \<Rightarrow> sid \<Rightarrow> sst \<Rightarrow> (bool \<times> sst) res" where
  "resumable_isreplay e a i st =
     bindR (replay_lookup a i st) (\<lambda>(os, st).
       bindR (getsrv a st) (\<lambda>sv.
       case os of
         None \<Rightarrow> bindR (evict_while (\<lambda>s. soffset s = 0) a (rq sv) st) (\<lambda>st. Inr (False, st))
       | Some j \<Rightarrow>
           bindR (getsb j st) (\<lambda>o'.
             case sres o' of
               None \<Rightarrow> Inr (True, st)
             | Some m \<Rightarrow>
                 let st = snd (xh_send e (sxi sv) (saddr o') m st);
                     off = raw_bytes_sent (xport (sxhs st (sxi sv)));
                     st = upd_sb j (\<lambda>s. s\<lparr>soffset := off\<rparr>) st
                 in bindR (rq_remove a j st) (\<lambda>st. Inr (True, rq_insert_tail a j st)))))"

definition isreplay :: "senv \<Rightarrow> srvid \<Rightarrow> sid \<Rightarrow> sst \<Rightarrow> (bool \<times> sst) res" where
  "isreplay e a i st =
     bindR (getsrv a st) (\<lambda>sv.
       case akind sv of
         Unreliable _ \<Rightarrow> unreliable_isreplay e a i st
       | Resumable \<Rightarrow> resumable_isreplay e a i st
       | _ \<Rightarrow> Inr (False, st))"

section \<open>Servers\<close>

definition stab_lookup :: "sst \<Rightarrow> txid \<Rightarrow> u32 \<times> u32 \<Rightarrow> srvid option" where
  "stab_lookup st x k =
     find (\<lambda>a. case asrvs st a of Some sv \<Rightarrow> pv sv = k | None \<Rightarrow> False) (sstab (sxhs st x))"

definition asrv_start :: "srvid \<Rightarrow> sst \<Rightarrow> sst res" where
  "asrv_start a st =
     bindR (getsrv a st) (\<lambda>sv.
     bindR (guardR PanicCall (stab_lookup st (sxi sv) (pv sv) = None)) (\<lambda>_.
       Inr (upd_sxh (sxi sv) (\<lambda>h. h\<lparr>sstab := a # sstab h\<rparr>) st)))"

definition asrv_stop :: "srvid \<Rightarrow> sst \<Rightarrow> sst res" where
  "asrv_stop a st =
     bindR (getsrv a st) (\<lambda>sv.
       if stab_lookup st (sxi sv) (pv sv) = Some a
       then Inr (upd_sxh (sxi sv) (\<lambda>h. h\<lparr>sstab := remove1 a (sstab h)\<rparr>) st)
       else Inr st)"

definition asrv_new :: "srvid \<Rightarrow> txid \<Rightarrow> u32 \<times> u32 \<times> u32 \<Rightarrow> nat option \<Rightarrow> akind \<Rightarrow> sst \<Rightarrow> sst res" where
  "asrv_new a x pr c k st =
     (case pr of (pn, vn, np) \<Rightarrow>
        asrv_start a (st\<lparr>asrvs := (asrvs st)(a \<mapsto>
          \<lparr>sxi = x, pv = (pn, vn), snproc = np, scb = c, srecv_hook = None, akind = k, rsize = 0, rq = [], rtab = [],
           dcount = 0, deof = False, dasrv_cb = None, deofcb = None\<rparr>)\<rparr>))"

fun del_all :: "srvid \<Rightarrow> sid list \<Rightarrow> sst \<Rightarrow> sst res" where
  "del_all a [] st = Inr st"
| "del_all a (i # is) st = bindR (delsbp a i st) (del_all a is)"

text \<open>The destructors: \<open>~asrv_replay\<close> empties the cache, \<open>~asrv\<close> leaves the transport's table.\<close>

definition asrv_delete :: "srvid \<Rightarrow> sst \<Rightarrow> sst res" where
  "asrv_delete a st =
     bindR (getsrv a st) (\<lambda>sv.
     bindR (del_all a (rtab sv) st) (\<lambda>st.
     bindR (asrv_stop a st) (\<lambda>st. Inr (st\<lparr>asrvs := (asrvs st)(a := None)\<rparr>))))"

definition sxh_lookup :: "txid \<Rightarrow> sst \<Rightarrow> txid option" where
  "sxh_lookup x st = (if xi_ateof x st then None else Some x)"

definition asrv_alloc_base :: "senv \<Rightarrow> srvid \<Rightarrow> txid \<Rightarrow> u32 \<times> u32 \<times> u32 \<Rightarrow> nat option \<Rightarrow> bool \<Rightarrow> sst \<Rightarrow> (srvid option \<times> sst) res" where
  "asrv_alloc_base e a x pr c fire st =
     bindR (case sxh_lookup x st of
              None \<Rightarrow> Inr (None, st)
            | Some x \<Rightarrow>
                bindR (asrv_new a x pr c (if xreliable (sxhs st x) then Plain else Unreliable 16) st)
                  (\<lambda>st. Inr (Some a, st))) (\<lambda>(r, st).
       if fire \<and> v_XDR_dispatch e then bindR (snotify e (VirtualAlloc x) st) (\<lambda>st. Inr (r, st)) else Inr (r, st))"

definition resumable_alloc :: "srvid \<Rightarrow> txid \<Rightarrow> u32 \<times> u32 \<times> u32 \<Rightarrow> nat option \<Rightarrow> sst \<Rightarrow> (srvid option \<times> sst) res" where
  "resumable_alloc a x pr c st =
     (case sxh_lookup x st of
        None \<Rightarrow> Inr (None, st)
      | Some x \<Rightarrow>
          bindR (guardR PanicCall (xreliable (sxhs st x))) (\<lambda>_.
          bindR (asrv_new a x pr c Resumable st) (\<lambda>st. Inr (Some a, st))))"

definition asrv_alloc :: "senv \<Rightarrow> srvid \<Rightarrow> txid \<Rightarrow> u32 \<times> u32 \<times> u32 \<Rightarrow> nat option \<Rightarrow> bool \<Rightarrow> sst \<Rightarrow> (srvid option \<times> sst) res" where
  "asrv_alloc e a x pr c resumable st =
     (if resumable then resumable_alloc a x pr c st else asrv_alloc_base e a x pr c True st)"

definition delayed_alloc :: "senv \<Rightarrow> srvid \<Rightarrow> txid \<Rightarrow> u32 \<times> u32 \<times> u32 \<Rightarrow> nat option \<Rightarrow> nat option \<Rightarrow> sst \<Rightarrow> (srvid option \<times> sst) res" where
  "delayed_alloc e a x pr c ec st =
     (case sxh_lookup x st of
        None \<Rightarrow> Inr (None, st)
      | Some x \<Rightarrow>
          if \<not> xreliable (sxhs st x) then Inr (None, st)
          else
            bindR (asrv_new a x pr None DelayedEof st) (\<lambda>st.
            bindR (delayed_setcb e a c (upd_srv a (\<lambda>sv. sv\<lparr>deofcb := ec\<rparr>) st)) (\<lambda>st. Inr (Some a, st))))"

definition set_srv_recv_hook :: "srvid \<Rightarrow> nat option \<Rightarrow> sst \<Rightarrow> sst res" where
  "set_srv_recv_hook a h st = bindR (getsrv a st) (\<lambda>_. Inr (upd_srv a (\<lambda>sv. sv\<lparr>srecv_hook := h\<rparr>) st))"

fun readd :: "txid \<Rightarrow> sid list \<Rightarrow> sst \<Rightarrow> sst" where
  "readd x [] st = st"
| "readd x (i # is) st = readd x is (svcadd x (upd_sb i (\<lambda>s. s\<lparr>soffset := 0\<rparr>) st))"

definition asrv_resume :: "srvid \<Rightarrow> txid \<Rightarrow> sst \<Rightarrow> (bool \<times> sst) res" where
  "asrv_resume a x st =
     bindR (guardR PanicCall (xreliable (sxhs st x))) (\<lambda>_.
       case sxh_lookup x st of
         None \<Rightarrow> Inr (False, st)
       | Some x \<Rightarrow>
           bindR (asrv_stop a st) (\<lambda>st.
           bindR (asrv_start a (upd_srv a (\<lambda>sv. sv\<lparr>sxi := x\<rparr>) st)) (\<lambda>st.
           bindR (getsrv a st) (\<lambda>sv. Inr (True, readd x (rtab sv) st)))))"

section \<open>Receiving\<close>

fun seteof_srvs :: "senv \<Rightarrow> txid \<Rightarrow> nat \<Rightarrow> srvid option \<Rightarrow> sst \<Rightarrow> sst res" where
  "seteof_srvs e x n None st = Inr st"
| "seteof_srvs e x 0 (Some a) st = Inl NoReturn"
| "seteof_srvs e x (Suc n) (Some a) st =
     bindR (getsrv a st) (\<lambda>sv.
     bindR (if scb sv \<noteq> None then call_cb e a None st else Inr st) (\<lambda>st'.
       seteof_srvs e x n
         (if a \<in> set (sstab (sxhs st' x)) then next_in (sstab (sxhs st' x)) a
          else next_in (sstab (sxhs st x)) a) st'))"

definition asrv_seteof :: "senv \<Rightarrow> txid \<Rightarrow> bool \<Rightarrow> sst \<Rightarrow> sst res" where
  "asrv_seteof e x force st =
     (if force \<or> xconnected (sxhs st x)
      then seteof_srvs e x (sfuel e) (case sstab (sxhs st x) of [] \<Rightarrow> None | a # _ \<Rightarrow> Some a) st
      else Inr st)"

text \<open>The version in the packet, and the packet with the version the XDR library expects.\<close>

definition xdr_virtual_version :: "senv \<Rightarrow> u8 list \<Rightarrow> (u32 \<times> u8 list) res" where
  "xdr_virtual_version e msg =
     (if v_XDR_dispatch e \<and> 12 \<le> length msg
      then bindR (getint (drop 8 msg)) (\<lambda>v. Inr (v, if v \<noteq> 2 then take 8 msg @ putint 2 @ drop 12 msg else msg))
      else Inr (2, msg))"

definition garbage_args :: "senv \<Rightarrow> txid \<Rightarrow> srvid \<Rightarrow> sid \<Rightarrow> nat option \<Rightarrow> u32 \<times> u32 \<times> u32 \<Rightarrow> sst \<Rightarrow> sst res" where
  "garbage_args e x a i src m st =
     bindR (asrv_accepterr e x src GARBAGE_ARGS m st) (\<lambda>st.
     bindR (inc_svccb_count a st) (sendreply e a i None True))"

text \<open>\<open>asrv::dispatch\<close> from the point where the server is known.\<close>

definition asrv_serve :: "senv \<Rightarrow> txid \<Rightarrow> srvid \<Rightarrow> sid \<Rightarrow> u32 \<Rightarrow> rpc_call \<Rightarrow> u8 list \<Rightarrow> nat option \<Rightarrow> sst \<Rightarrow> sst res" where
  "asrv_serve e x a i vers c msg src st =
     bindR (getsrv a st) (\<lambda>sv.
     bindR (case srecv_hook sv of None \<Rightarrow> Inr st | Some h \<Rightarrow> snotify e (RecvHook h) st) (\<lambda>st.
     bindR (svccb_init i a src st) (\<lambda>st.
     bindR (getsrv a st) (\<lambda>sv.
       let m = (cb_xid c, cb_prog c, cb_vers c)
       in if cb_proc c \<ge> snproc sv
          then bindR (asrv_accepterr e x src PROC_UNAVAIL m st) (svccb_delete i)
          else
            bindR (isreplay e a i st) (\<lambda>(rep, st).
              if rep then svccb_delete i st
              else
                case (if vers \<noteq> 2 then xdr_virtual_map e vers else None) of
                  Some dec \<Rightarrow>
                    if \<not> dec (drop (cb_pos c) msg) then garbage_args e x a i src m st
                    else if \<not> xdr_arg e (cb_prog c, cb_vers c, cb_proc c) msg
                    then garbage_args e x a i src m (upd_sb i (\<lambda>s. s\<lparr>arg := True\<rparr>) st)
                    else bindR (inc_svccb_count a (upd_sb i (\<lambda>s. s\<lparr>arg := True\<rparr>) st)) (call_cb e a (Some i))
                | None \<Rightarrow>
                    if \<not> xdr_arg e (cb_prog c, cb_vers c, cb_proc c) msg
                    then garbage_args e x a i src m (upd_sb i (\<lambda>s. s\<lparr>arg := True\<rparr>) st)
                    else bindR (inc_svccb_count a (upd_sb i (\<lambda>s. s\<lparr>arg := True\<rparr>) st)) (call_cb e a (Some i)))))))"

definition asrv_dispatch :: "senv \<Rightarrow> txid \<Rightarrow> u8 list option \<Rightarrow> int \<Rightarrow> nat option \<Rightarrow> sst \<Rightarrow> sst res" where
  "asrv_dispatch e x m len src st =
     (case m of
        None \<Rightarrow> asrv_seteof e x (len < 0) st
      | Some msg \<Rightarrow>
          if length msg < 8 then asrv_seteof e x (len < 0) st
          else bindR (getint (drop 4 msg)) (\<lambda>ty.
               if ty \<noteq> 0 then asrv_seteof e x (len < 0) st
               else
                 case svccb_new st of (i, st) \<Rightarrow>
                   bindR (xdr_virtual_version e msg) (\<lambda>(vers, msg).
                   case xdr_callmsg e msg of
                     None \<Rightarrow> bindR (asrv_seteof e x False st) (svccb_delete i)
                   | Some c \<Rightarrow>
                       if cb_rpcvers c \<noteq> 2
                       then svccb_delete i (asrv_rpc_mismatch e x src (cb_xid c) st)
                       else
                         let st = upd_sb i (\<lambda>s. s\<lparr>sxid := cb_xid c, sprog := cb_prog c, svers := cb_vers c,
                                              sproc := cb_proc c, srpcvers := vers\<rparr>) st
                         in case stab_lookup st x (cb_prog c, cb_vers c) of
                              None \<Rightarrow>
                                bindR (asrv_accepterr e x src PROG_UNAVAIL (cb_xid c, cb_prog c, cb_vers c) st) (svccb_delete i)
                            | Some a \<Rightarrow>
                                bindR (getsrv a st) (\<lambda>sv.
                                  if scb sv = None
                                  then bindR (asrv_accepterr e x src PROG_UNAVAIL (cb_xid c, cb_prog c, cb_vers c) st) (svccb_delete i)
                                  else asrv_serve e x a i vers c msg src st))))"

section \<open>The invariant of the replay caches\<close>

definition replaying :: "akind \<Rightarrow> bool" where
  "replaying k \<longleftrightarrow> k = Resumable \<or> (\<exists>n. k = Unreliable n)"

lemma replaying_simps [simp]:
  "replaying Resumable" "replaying (Unreliable n)" "\<not> replaying Plain" "\<not> replaying DelayedEof"
  by (simp_all add: replaying_def)

text \<open>A request with its server is waiting for the reply; one in the queue of replies has been answered.\<close>

definition entry_ok :: "srvid \<Rightarrow> asrv \<Rightarrow> sid \<Rightarrow> svccb \<Rightarrow> bool" where
  "entry_ok a sv i s \<longleftrightarrow>
     (if i \<in> set (rq sv) then sres s \<noteq> None \<and> srv s = None \<and> \<not> arg s \<and> \<not> resdat s
      else sres s = None \<and> srv s = Some a)"

definition srv_ok :: "sst \<Rightarrow> srvid \<Rightarrow> asrv \<Rightarrow> bool" where
  "srv_ok st a sv \<longleftrightarrow>
     distinct (rtab sv) \<and> distinct (rq sv) \<and> set (rq sv) \<subseteq> set (rtab sv) \<and>
     (\<forall>i\<in>set (rtab sv). \<exists>s. svccbs st i = Some s \<and> entry_ok a sv i s) \<and>
     (\<forall>i\<in>set (rtab sv). \<forall>j\<in>set (rtab sv). \<forall>s t.
        svccbs st i = Some s \<longrightarrow> svccbs st j = Some t \<longrightarrow> sbkey s = sbkey t \<longrightarrow> i = j) \<and>
     (\<not> replaying (akind sv) \<longrightarrow> rtab sv = []) \<and>
     (\<forall>n. akind sv = Unreliable n \<longrightarrow> rsize sv = length (rq sv))"

definition sb_ok :: "sst \<Rightarrow> bool" where
  "sb_ok st \<longleftrightarrow>
     (\<forall>i s. svccbs st i = Some s \<longrightarrow> i < nextsb st \<and>
        (\<forall>a. srv s = Some a \<longrightarrow> (\<exists>sv. asrvs st a = Some sv \<and> (replaying (akind sv) \<longrightarrow> i \<in> set (rtab sv)))))"

definition disj_ok :: "sst \<Rightarrow> bool" where
  "disj_ok st \<longleftrightarrow>
     (\<forall>a b sv sw. asrvs st a = Some sv \<longrightarrow> asrvs st b = Some sw \<longrightarrow> a \<noteq> b \<longrightarrow> set (rtab sv) \<inter> set (rtab sw) = {})"

text \<open>The invariant but for the bound on the size of the caches, which a reply exceeds for a moment.\<close>

definition sinv0 :: "sst \<Rightarrow> bool" where
  "sinv0 st \<longleftrightarrow> (\<forall>a sv. asrvs st a = Some sv \<longrightarrow> srv_ok st a sv) \<and> sb_ok st \<and> disj_ok st"

definition bound_ok :: "sst \<Rightarrow> bool" where
  "bound_ok st \<longleftrightarrow> (\<forall>a sv n. asrvs st a = Some sv \<longrightarrow> akind sv = Unreliable n \<longrightarrow> length (rq sv) \<le> n)"

definition sinv :: "sst \<Rightarrow> bool" where
  "sinv st \<longleftrightarrow> sinv0 st \<and> bound_ok st"

lemma srv_okD:
  assumes "srv_ok st a sv"
  shows "distinct (rtab sv)" "distinct (rq sv)" "set (rq sv) \<subseteq> set (rtab sv)"
    "i \<in> set (rtab sv) \<Longrightarrow> \<exists>s. svccbs st i = Some s \<and> entry_ok a sv i s"
    "i \<in> set (rtab sv) \<Longrightarrow> j \<in> set (rtab sv) \<Longrightarrow> svccbs st i = Some s \<Longrightarrow> svccbs st j = Some t \<Longrightarrow> sbkey s = sbkey t \<Longrightarrow> i = j"
    "\<not> replaying (akind sv) \<Longrightarrow> rtab sv = []"
    "akind sv = Unreliable n \<Longrightarrow> rsize sv = length (rq sv)"
  using assms unfolding srv_ok_def by blast+

lemma sinv0_srv: "sinv0 st \<Longrightarrow> asrvs st a = Some sv \<Longrightarrow> srv_ok st a sv"
  by (simp add: sinv0_def)

lemma sinv0_sb:
  assumes "sinv0 st" "svccbs st i = Some s"
  shows "i < nextsb st" "srv s = Some a \<Longrightarrow> \<exists>sv. asrvs st a = Some sv \<and> (replaying (akind sv) \<longrightarrow> i \<in> set (rtab sv))"
  using assms unfolding sinv0_def sb_ok_def by blast+

lemma sinv0_disj: "sinv0 st \<Longrightarrow> asrvs st a = Some sv \<Longrightarrow> asrvs st b = Some sw \<Longrightarrow> a \<noteq> b \<Longrightarrow> set (rtab sv) \<inter> set (rtab sw) = {}"
  unfolding sinv0_def disj_ok_def by blast

lemma sinv0_frame:
  assumes "asrvs st' = asrvs st" "svccbs st' = svccbs st" "nextsb st' = nextsb st"
  shows "sinv0 st' = sinv0 st" "bound_ok st' = bound_ok st" "sinv st' = sinv st"
  by (simp_all add: sinv_def sinv0_def srv_ok_def sb_ok_def disj_ok_def bound_ok_def assms)

lemma upd_sxh_sel [simp]:
  "asrvs (upd_sxh x f st) = asrvs st" "svccbs (upd_sxh x f st) = svccbs st" "nextsb (upd_sxh x f st) = nextsb st"
  "slog (upd_sxh x f st) = slog st" "sxhs (upd_sxh x f st) = (sxhs st)(x := f (sxhs st x))"
  by (simp_all add: upd_sxh_def)

lemma upd_srv_sel [simp]:
  "asrvs (upd_srv a g st) = (asrvs st)(a := map_option g (asrvs st a))" "svccbs (upd_srv a g st) = svccbs st"
  "nextsb (upd_srv a g st) = nextsb st" "slog (upd_srv a g st) = slog st" "sxhs (upd_srv a g st) = sxhs st"
  by (simp_all add: upd_srv_def)

lemma upd_sb_sel [simp]:
  "svccbs (upd_sb i g st) = (svccbs st)(i := map_option g (svccbs st i))" "asrvs (upd_sb i g st) = asrvs st"
  "nextsb (upd_sb i g st) = nextsb st" "slog (upd_sb i g st) = slog st" "sxhs (upd_sb i g st) = sxhs st"
  by (simp_all add: upd_sb_def)

lemma xh_send_sel [simp]:
  "asrvs (snd (xh_send e x d m st)) = asrvs st" "svccbs (snd (xh_send e x d m st)) = svccbs st"
  "nextsb (snd (xh_send e x d m st)) = nextsb st" "slog (snd (xh_send e x d m st)) = slog st"
  by (simp_all add: xh_send_def split: prod.split)

lemma xh_reply_sel [simp]:
  "asrvs (xh_reply e x d m r st) = asrvs st" "svccbs (xh_reply e x d m r st) = svccbs st"
  "nextsb (xh_reply e x d m r st) = nextsb st" "slog (xh_reply e x d m r st) = slog st"
  by (simp_all add: xh_reply_def split: option.split)

lemma svcadd_sel [simp]:
  "asrvs (svcadd x st) = asrvs st" "svccbs (svcadd x st) = svccbs st" "nextsb (svcadd x st) = nextsb st"
  "slog (svcadd x st) = slog st"
  by (simp_all add: svcadd_def)

lemma getsb_eq: "getsb i st = Inr s \<longleftrightarrow> svccbs st i = Some s"
  by (simp add: getsb_def split: option.split)

lemma getsrv_eq: "getsrv a st = Inr s \<longleftrightarrow> asrvs st a = Some s"
  by (simp add: getsrv_def split: option.split)

lemma post_getsb: "post (\<lambda>s. svccbs st i = Some s) (getsb i st)"
  by (simp add: getsb_def split: option.split)

lemma post_getsrv: "post (\<lambda>s. asrvs st a = Some s) (getsrv a st)"
  by (simp add: getsrv_def split: option.split)

lemmas spost_basic = post_bind [OF post_getsb] post_bind [OF post_getsrv] post_bind [OF post_guard]

section \<open>How the elementary changes act on the invariant\<close>

text \<open>Deleting a request that no table holds.\<close>

lemma sinv0_delete:
  assumes "sinv0 st" "\<And>a sv. asrvs st a = Some sv \<Longrightarrow> i \<notin> set (rtab sv)"
  shows "sinv0 (st\<lparr>svccbs := (svccbs st)(i := None)\<rparr>)"
proof -
  let ?st = "st\<lparr>svccbs := (svccbs st)(i := None)\<rparr>"
  have "srv_ok ?st a sv" if "asrvs st a = Some sv" for a sv
  proof -
    have "i \<notin> set (rtab sv)" using assms(2) that by blast
    then show ?thesis using sinv0_srv [OF assms(1) that] unfolding srv_ok_def by auto
  qed
  moreover have "sb_ok ?st" "disj_ok ?st" using assms(1) by (auto simp: sinv0_def sb_ok_def disj_ok_def)
  ultimately show ?thesis by (simp add: sinv0_def)
qed

text \<open>Changing one request and its server's tables together.\<close>

lemma sinv0_change:
  assumes inv: "sinv0 st" and sv: "asrvs st a = Some sv"
    and ok: "srv_ok (st\<lparr>svccbs := (svccbs st)(i := so)\<rparr>) a sv'"
    and k: "akind sv' = akind sv" and tab: "set (rtab sv') \<subseteq> insert i (set (rtab sv))" "set (rtab sv) - {i} \<subseteq> set (rtab sv')"
    and other: "\<And>b sw. asrvs st b = Some sw \<Longrightarrow> b \<noteq> a \<Longrightarrow> i \<notin> set (rtab sw)"
    and so: "\<And>s. so = Some s \<Longrightarrow> i < nextsb st \<and>
      (\<forall>b. srv s = Some b \<longrightarrow> (if b = a then replaying (akind sv) \<longrightarrow> i \<in> set (rtab sv')
        else \<exists>sw. asrvs st b = Some sw \<and> \<not> replaying (akind sw)))"
  shows "sinv0 (st\<lparr>asrvs := (asrvs st)(a \<mapsto> sv'), svccbs := (svccbs st)(i := so)\<rparr>)"
proof -
  let ?st = "st\<lparr>asrvs := (asrvs st)(a \<mapsto> sv'), svccbs := (svccbs st)(i := so)\<rparr>"
  have "srv_ok ?st b sw" if b: "asrvs ?st b = Some sw" for b sw
  proof (cases "b = a")
    case True
    then show ?thesis using ok b by (simp add: srv_ok_def)
  next
    case False
    then have "asrvs st b = Some sw" "i \<notin> set (rtab sw)" using b other by auto
    then show ?thesis using sinv0_srv [OF inv] unfolding srv_ok_def by auto
  qed
  moreover have "sb_ok ?st"
    unfolding sb_ok_def
  proof (intro allI impI)
    fix j s assume j: "svccbs ?st j = Some s"
    show "j < nextsb ?st \<and> (\<forall>b. srv s = Some b \<longrightarrow> (\<exists>sw. asrvs ?st b = Some sw \<and> (replaying (akind sw) \<longrightarrow> j \<in> set (rtab sw))))"
    proof (cases "j = i")
      case True
      then show ?thesis using j so [of s] k by (auto split: if_splits)
    next
      case False
      then have j': "svccbs st j = Some s" using j by simp
      have "\<exists>sw. asrvs ?st b = Some sw \<and> (replaying (akind sw) \<longrightarrow> j \<in> set (rtab sw))" if hb: "srv s = Some b" for b
      proof -
        obtain sw where sw: "asrvs st b = Some sw" "replaying (akind sw) \<longrightarrow> j \<in> set (rtab sw)"
          using sinv0_sb(2) [OF inv j' hb] by blast
        show ?thesis
        proof (cases "b = a")
          case True
          then show ?thesis using sw sv k tab(2) False by auto
        qed (use sw in auto)
      qed
      then show ?thesis using sinv0_sb(1) [OF inv j'] by simp
    qed
  qed
  moreover have "disj_ok ?st"
  proof -
    have *: "set (rtab sv') \<inter> set (rtab sw) = {}" if "asrvs st b = Some sw" "b \<noteq> a" for b sw
      using sinv0_disj [OF inv sv that(1)] tab(1) other [OF that(1)] that by auto
    show ?thesis
      unfolding disj_ok_def using * sinv0_disj [OF inv] by (auto split: if_splits)
  qed
  ultimately show ?thesis by (simp add: sinv0_def)
qed

lemma rtab_owner:
  assumes "sinv0 st" "asrvs st a = Some sv" "i \<in> set (rtab sv)" "asrvs st b = Some sw" "b \<noteq> a"
  shows "i \<notin> set (rtab sw)"
  using sinv0_disj [OF assms(1,2,4)] assms(3,5) by blast

text \<open>A request taken out of the tables and deleted.\<close>

lemma sinv0_drop:
  assumes inv: "sinv0 st" and sv: "asrvs st a = Some sv" and i: "i \<in> set (rtab sv)"
    and sv': "rtab sv' = remove1 i (rtab sv)" "rq sv' = remove1 i (rq sv)" "akind sv' = akind sv"
      "\<And>n. akind sv = Unreliable n \<Longrightarrow> rsize sv' = length (remove1 i (rq sv))"
  shows "sinv0 (st\<lparr>asrvs := (asrvs st)(a \<mapsto> sv'), svccbs := (svccbs st)(i := None)\<rparr>)"
proof (rule sinv0_change [OF inv sv])
  note ok = srv_okD [OF sinv0_srv [OF inv sv]]
  have set: "set (rtab sv') = set (rtab sv) - {i}" "set (rq sv') = set (rq sv) - {i}"
    using ok(1,2) sv' by (simp_all add: set_remove1_eq)
  show "srv_ok (st\<lparr>svccbs := (svccbs st)(i := None)\<rparr>) a sv'"
    unfolding srv_ok_def
  proof (intro conjI)
    show "\<forall>k\<in>set (rtab sv'). \<exists>s. svccbs (st\<lparr>svccbs := (svccbs st)(i := None)\<rparr>) k = Some s \<and> entry_ok a sv' k s"
      using ok(4) by (auto simp: set entry_ok_def)
    show "\<forall>k\<in>set (rtab sv'). \<forall>j\<in>set (rtab sv'). \<forall>s t. svccbs (st\<lparr>svccbs := (svccbs st)(i := None)\<rparr>) k = Some s \<longrightarrow>
        svccbs (st\<lparr>svccbs := (svccbs st)(i := None)\<rparr>) j = Some t \<longrightarrow> sbkey s = sbkey t \<longrightarrow> k = j"
      using ok(5) by (auto simp: set)
    show "\<forall>n. akind sv' = Unreliable n \<longrightarrow> rsize sv' = length (rq sv')"
      using ok(7) sv' by (auto simp: length_remove1)
    show "\<not> replaying (akind sv') \<longrightarrow> rtab sv' = []" using ok(6) i sv' by auto
  qed (use ok(1,2,3) set sv' in auto)
qed (use sv' rtab_owner [OF inv sv i] srv_okD(1) [OF sinv0_srv [OF inv sv]] in \<open>auto dest: notin_set_remove1\<close>)


text \<open>An answer recorded: the request joins the queue of replies and lets go of its server.\<close>

lemma sinv0_answer:
  assumes inv: "sinv0 st" and sv: "asrvs st a = Some sv" and i: "i \<in> set (rtab sv)" "i \<notin> set (rq sv)"
    and s: "svccbs st i = Some s"
    and sv': "rtab sv' = rtab sv" "rq sv' = rq sv @ [i]" "akind sv' = akind sv"
      "\<And>n. akind sv = Unreliable n \<Longrightarrow> rsize sv' = length (rq sv) + 1"
    and s': "sbkey s' = sbkey s" "sres s' \<noteq> None" "srv s' = None" "\<not> arg s'" "\<not> resdat s'"
  shows "sinv0 (st\<lparr>asrvs := (asrvs st)(a \<mapsto> sv'), svccbs := (svccbs st)(i \<mapsto> s')\<rparr>)"
proof (rule sinv0_change [OF inv sv])
  note ok = srv_okD [OF sinv0_srv [OF inv sv]]
  have k: "sbkey u = sbkey v" if "(if k = i then Some s' else svccbs st k) = Some u" "svccbs st k = Some v" for k u v
    using that s s'(1) by (auto split: if_splits)
  show "srv_ok (st\<lparr>svccbs := (svccbs st)(i \<mapsto> s')\<rparr>) a sv'"
    unfolding srv_ok_def
  proof (intro conjI)
    show "\<forall>k\<in>set (rtab sv'). \<exists>s. svccbs (st\<lparr>svccbs := (svccbs st)(i \<mapsto> s')\<rparr>) k = Some s \<and> entry_ok a sv' k s"
      using ok(4) s' by (auto simp: sv' entry_ok_def)
    show "\<forall>k\<in>set (rtab sv'). \<forall>j\<in>set (rtab sv'). \<forall>s t. svccbs (st\<lparr>svccbs := (svccbs st)(i \<mapsto> s')\<rparr>) k = Some s \<longrightarrow>
        svccbs (st\<lparr>svccbs := (svccbs st)(i \<mapsto> s')\<rparr>) j = Some t \<longrightarrow> sbkey s = sbkey t \<longrightarrow> k = j"
    proof (intro ballI allI impI)
      fix k j u t
      assume kj: "k \<in> set (rtab sv')" "j \<in> set (rtab sv')" "svccbs (st\<lparr>svccbs := (svccbs st)(i \<mapsto> s')\<rparr>) k = Some u"
        "svccbs (st\<lparr>svccbs := (svccbs st)(i \<mapsto> s')\<rparr>) j = Some t" "sbkey u = sbkey t"
      obtain u' t' where ut: "svccbs st k = Some u'" "svccbs st j = Some t'"
        using ok(4) [of k] ok(4) [of j] kj(1,2) sv' by auto
      have "sbkey u' = sbkey t'"
        using k [of k u u'] k [of j t t'] kj(3-5) ut by simp
      then show "k = j" using ok(5) [of k j u' t'] kj(1,2) ut sv' by simp
    qed
    show "\<forall>n. akind sv' = Unreliable n \<longrightarrow> rsize sv' = length (rq sv')"
      using ok(7) sv' by auto
    show "\<not> replaying (akind sv') \<longrightarrow> rtab sv' = []" using ok(6) sv' by auto
  qed (use ok(1,2,3) i sv' in auto)
qed (use sv' i s' s sinv0_sb(1) [OF inv s] rtab_owner [OF inv sv i(1)] in auto)

text \<open>A new request entered in the table.\<close>

lemma sinv0_enter:
  assumes inv: "sinv0 st" and sv: "asrvs st a = Some sv" and rp: "replaying (akind sv)"
    and new: "\<And>b sw. asrvs st b = Some sw \<Longrightarrow> i \<notin> set (rtab sw)" and s: "i < nextsb st" "srv s = Some a" "sres s = None"
    and fresh: "\<And>j t. j \<in> set (rtab sv) \<Longrightarrow> svccbs st j = Some t \<Longrightarrow> sbkey t \<noteq> sbkey s"
  shows "sinv0 (st\<lparr>asrvs := (asrvs st)(a \<mapsto> sv\<lparr>rtab := i # rtab sv\<rparr>), svccbs := (svccbs st)(i \<mapsto> s)\<rparr>)"
proof (rule sinv0_change [OF inv sv])
  note ok = srv_okD [OF sinv0_srv [OF inv sv]]
  have ni: "i \<notin> set (rtab sv)" "i \<notin> set (rq sv)" using new [OF sv] ok(3) by auto
  show "srv_ok (st\<lparr>svccbs := (svccbs st)(i \<mapsto> s)\<rparr>) a (sv\<lparr>rtab := i # rtab sv\<rparr>)"
    unfolding srv_ok_def
  proof (intro conjI)
    show "\<forall>k\<in>set (rtab (sv\<lparr>rtab := i # rtab sv\<rparr>)). \<exists>t. svccbs (st\<lparr>svccbs := (svccbs st)(i \<mapsto> s)\<rparr>) k = Some t \<and>
        entry_ok a (sv\<lparr>rtab := i # rtab sv\<rparr>) k t"
      using ok(4) s ni by (auto simp: entry_ok_def)
    show "\<forall>k\<in>set (rtab (sv\<lparr>rtab := i # rtab sv\<rparr>)). \<forall>j\<in>set (rtab (sv\<lparr>rtab := i # rtab sv\<rparr>)). \<forall>u t.
        svccbs (st\<lparr>svccbs := (svccbs st)(i \<mapsto> s)\<rparr>) k = Some u \<longrightarrow>
        svccbs (st\<lparr>svccbs := (svccbs st)(i \<mapsto> s)\<rparr>) j = Some t \<longrightarrow> sbkey u = sbkey t \<longrightarrow> k = j"
      using ok(5) fresh ni by (auto split: if_splits dest: fresh)
  qed (use ok(1,2,3,6,7) ni rp in auto)
qed (use new s in auto)

text \<open>A request and a server changed in fields the invariant does not read.\<close>

lemma sinv0_upd_sb:
  assumes inv: "sinv0 st"
    and f: "\<And>s. svccbs st i = Some s \<Longrightarrow> sbkey (f s) = sbkey s \<and> sres (f s) = sres s \<and> srv (f s) = srv s \<and>
      (srv s \<noteq> None \<or> arg (f s) = arg s \<and> resdat (f s) = resdat s)"
  shows "sinv0 (upd_sb i f st)"
proof -
  have g: "\<exists>v. svccbs st k = Some v \<and> sbkey u = sbkey v \<and> sres u = sres v \<and> srv u = srv v \<and>
      (srv v \<noteq> None \<or> arg u = arg v \<and> resdat u = resdat v)" if "svccbs (upd_sb i f st) k = Some u" for k u
    using that f by (auto split: if_splits)
  have h: "\<exists>u. svccbs (upd_sb i f st) k = Some u \<and> sbkey u = sbkey v \<and> sres u = sres v \<and> srv u = srv v \<and>
      (srv v \<noteq> None \<or> arg u = arg v \<and> resdat u = resdat v)" if "svccbs st k = Some v" for k v
    using that f by auto
  have "srv_ok (upd_sb i f st) a sv" if "asrvs st a = Some sv" for a sv
  proof -
    note ok = srv_okD [OF sinv0_srv [OF inv that]]
    have "\<exists>s. svccbs (upd_sb i f st) k = Some s \<and> entry_ok a sv k s" if hk: "k \<in> set (rtab sv)" for k
    proof -
      obtain v where v: "svccbs st k = Some v" "entry_ok a sv k v" using ok(4) [OF hk] by blast
      from h [OF v(1)] obtain u where "svccbs (upd_sb i f st) k = Some u" "sres u = sres v" "srv u = srv v"
        "srv v \<noteq> None \<or> arg u = arg v \<and> resdat u = resdat v" by blast
      then show ?thesis using v(2) by (auto simp: entry_ok_def split: if_splits)
    qed
    moreover have "k = j" if kj: "k \<in> set (rtab sv)" "j \<in> set (rtab sv)" "svccbs (upd_sb i f st) k = Some s"
      "svccbs (upd_sb i f st) j = Some t" "sbkey s = sbkey t" for k j s t
    proof -
      obtain s' t' where "svccbs st k = Some s'" "sbkey s = sbkey s'" "svccbs st j = Some t'" "sbkey t = sbkey t'"
        using g [OF kj(3)] g [OF kj(4)] by blast
      then show ?thesis using ok(5) [OF kj(1,2)] kj(5) by simp
    qed
    ultimately show ?thesis using ok(1,2,3,6,7) unfolding srv_ok_def by blast
  qed
  moreover have "sb_ok (upd_sb i f st)"
    unfolding sb_ok_def
  proof (intro allI impI)
    fix k u assume "svccbs (upd_sb i f st) k = Some u"
    from g [OF this] obtain v where v: "svccbs st k = Some v" "srv u = srv v" by blast
    show "k < nextsb (upd_sb i f st) \<and> (\<forall>a. srv u = Some a \<longrightarrow>
      (\<exists>sv. asrvs (upd_sb i f st) a = Some sv \<and> (replaying (akind sv) \<longrightarrow> k \<in> set (rtab sv))))"
      using sinv0_sb [OF inv v(1)] v(2) by simp
  qed
  moreover have "disj_ok (upd_sb i f st)" using inv by (simp add: sinv0_def disj_ok_def)
  ultimately show ?thesis by (simp add: sinv0_def)
qed

lemma sinv0_upd_srv:
  assumes inv: "sinv0 st"
    and f: "\<And>sv. asrvs st a = Some sv \<Longrightarrow> rtab (f sv) = rtab sv \<and> set (rq (f sv)) = set (rq sv) \<and> distinct (rq (f sv)) \<and>
      length (rq (f sv)) = length (rq sv) \<and> akind (f sv) = akind sv \<and> rsize (f sv) = rsize sv"
  shows "sinv0 (upd_srv a f st)"
proof (cases "asrvs st a")
  case (Some sv)
  note g = f [OF Some]
  have e: "entry_ok b (f sv) i s = entry_ok b sv i s" for b i s by (simp add: entry_ok_def g)
  have "srv_ok (upd_srv a f st) b sw" if hb: "asrvs (upd_srv a f st) b = Some sw" for b sw
  proof (cases "b = a")
    case True
    then have "sw = f sv" using hb Some by simp
    then show ?thesis using sinv0_srv [OF inv Some] True g by (simp add: srv_ok_def e)
  next
    case False
    then show ?thesis using sinv0_srv [OF inv, of b sw] hb by (simp add: srv_ok_def)
  qed
  moreover have "sb_ok (upd_srv a f st)"
    unfolding sb_ok_def
  proof (intro allI impI)
    fix i s assume "svccbs (upd_srv a f st) i = Some s"
    then have s: "svccbs st i = Some s" by simp
    have "\<exists>sv. asrvs (upd_srv a f st) b = Some sv \<and> (replaying (akind sv) \<longrightarrow> i \<in> set (rtab sv))" if hb: "srv s = Some b" for b
      using sinv0_sb(2) [OF inv s hb] Some by (auto simp: g)
    then show "i < nextsb (upd_srv a f st) \<and>
      (\<forall>b. srv s = Some b \<longrightarrow> (\<exists>sv. asrvs (upd_srv a f st) b = Some sv \<and> (replaying (akind sv) \<longrightarrow> i \<in> set (rtab sv))))"
      using sinv0_sb(1) [OF inv s] by simp
  qed
  moreover have "disj_ok (upd_srv a f st)"
    using inv Some unfolding sinv0_def disj_ok_def by (force simp: g split: if_splits)
  ultimately show ?thesis by (simp add: sinv0_def)
next
  case None
  then have "asrvs (upd_srv a f st) = asrvs st" by auto
  then show ?thesis using inv sinv0_frame(1) [of "upd_srv a f st" st] by simp
qed

lemma bound_upd_srv:
  assumes "bound_ok st" "\<And>sv. rq (f sv) = rq sv" "\<And>sv. akind (f sv) = akind sv"
  shows "bound_ok (upd_srv a f st)"
  using assms by (auto simp: bound_ok_def split: if_splits)

section \<open>Callbacks\<close>

text \<open>A request under construction, which no table and no user holds.\<close>

definition priv :: "sst \<Rightarrow> sid \<Rightarrow> bool" where
  "priv st i \<longleftrightarrow>
     (\<exists>s. svccbs st i = Some s \<and> srv s = None) \<and> (\<forall>a sv. asrvs st a = Some sv \<longrightarrow> i \<notin> set (rtab sv))"

definition sgood :: "(sid \<rightharpoonup> svccb) \<Rightarrow> sst \<Rightarrow> bool" where
  "sgood I st \<longleftrightarrow> sinv st \<and> (\<forall>i s. I i = Some s \<longrightarrow> priv st i \<and> svccbs st i = Some s)"

text \<open>
  An environment whose callbacks, whatever they do, leave the state sound and the requests they cannot
  know of alone.
\<close>

definition senv_ok :: "senv \<Rightarrow> bool" where
  "senv_ok e \<longleftrightarrow>
     (\<forall>ev st st'. sinv st \<longrightarrow> suser e ev st = Inr st' \<longrightarrow>
        sinv st' \<and> (\<forall>i. priv st i \<longrightarrow> priv st' i \<and> svccbs st' i = svccbs st i))"

lemma sgood_empty [simp]: "sgood Map.empty = sinv"
  by (simp add: fun_eq_iff sgood_def)

lemma sgood_frame:
  assumes "asrvs st' = asrvs st" "svccbs st' = svccbs st" "nextsb st' = nextsb st"
  shows "sgood I st' = sgood I st"
  by (simp add: sgood_def priv_def sinv0_frame(3) [OF assms] assms)

lemma sgood_upd_srv:
  assumes "sgood I st" "\<And>sv. rtab (f sv) = rtab sv" "\<And>sv. rq (f sv) = rq sv" "\<And>sv. akind (f sv) = akind sv"
    "\<And>sv. rsize (f sv) = rsize sv"
  shows "sgood I (upd_srv a f st)"
proof -
  have "sinv (upd_srv a f st)"
    unfolding sinv_def
  proof
    have inv: "sinv0 st" "bound_ok st" using assms(1) by (simp_all add: sgood_def sinv_def)
    show "sinv0 (upd_srv a f st)"
      by (rule sinv0_upd_srv [OF inv(1)]) (use srv_okD(2) [OF sinv0_srv [OF inv(1)]] assms(2-) in simp)
    show "bound_ok (upd_srv a f st)" by (rule bound_upd_srv [OF inv(2) assms(3,4)])
  qed
  moreover have "priv (upd_srv a f st) i" if "priv st i" for i
    using that assms(2) by (auto simp: priv_def split: if_splits)
  ultimately show ?thesis using assms(1) by (simp add: sgood_def)
qed

lemma post_snotify:
  assumes "senv_ok e" "sgood I st"
  shows "post (sgood I) (snotify e ev st)"
proof (cases "snotify e ev st")
  case (Inr st')
  let ?st = "st\<lparr>slog := slog st @ [ev]\<rparr>"
  have g: "sgood I ?st" using assms(2) by (simp add: sgood_frame [of ?st st])
  have "suser e ev ?st = Inr st'" using Inr by (simp add: snotify_def)
  then have "sinv st' \<and> (\<forall>i. priv ?st i \<longrightarrow> priv st' i \<and> svccbs st' i = svccbs ?st i)"
    using assms(1) g unfolding senv_ok_def sgood_def by blast
  then have "sgood I st'" using g unfolding sgood_def by metis
  then show ?thesis by (simp add: Inr)
qed simp

lemma post_call_dasrv_cb:
  assumes "senv_ok e" "sgood I st"
  shows "post (sgood I) (call_dasrv_cb e a sbp st)"
  unfolding call_dasrv_cb_def by (intro spost_basic post_option post_snotify assms) simp

lemma post_delayed_dispatch:
  assumes "senv_ok e" "sgood I st"
  shows "post (sgood I) (delayed_dispatch e a sbp st)"
  unfolding delayed_dispatch_def Let_def
  by (intro spost_basic post_option post_if post_snotify post_call_dasrv_cb assms)
    (simp_all add: sgood_upd_srv assms)

lemma post_call_cb:
  assumes "senv_ok e" "sgood I st"
  shows "post (sgood I) (call_cb e a sbp st)"
  unfolding call_cb_def
  by (intro spost_basic post_option post_if post_snotify post_delayed_dispatch assms) simp

lemma post_inc_svccb_count:
  assumes "sgood I st"
  shows "post (sgood I) (inc_svccb_count a st)"
  unfolding inc_svccb_count_def by (intro spost_basic post_if) (simp_all add: sgood_upd_srv assms)

lemma post_dec_svccb_count:
  assumes "senv_ok e" "sgood I st"
  shows "post (sgood I) (dec_svccb_count e a st)"
  unfolding dec_svccb_count_def Let_def
  by (intro spost_basic post_if post_call_dasrv_cb assms) (simp_all add: sgood_upd_srv assms)

lemma post_asrv_setcb:
  assumes "senv_ok e" "sgood I st"
  shows "post (sgood I) (asrv_setcb e a c st)"
  unfolding asrv_setcb_def Let_def
  by (intro spost_basic post_if post_call_cb assms) (simp_all add: sgood_upd_srv assms)

lemma post_delayed_setcb:
  assumes "senv_ok e" "sgood I st"
  shows "post (sgood I) (delayed_setcb e a c st)"
  unfolding delayed_setcb_def Let_def
  by (intro spost_basic post_if post_asrv_setcb assms) (simp_all add: sgood_upd_srv assms)

lemma post_seteof_srvs:
  assumes "senv_ok e"
  shows "sgood I st \<Longrightarrow> post (sgood I) (seteof_srvs e x n ao st)"
proof (induction n arbitrary: ao st)
  case 0
  then show ?case by (cases ao) simp_all
next
  case (Suc n)
  show ?case
  proof (cases ao)
    case (Some a)
    show ?thesis
      unfolding Some seteof_srvs.simps
      by (intro spost_basic post_bind [where Q = "sgood I"] post_if post_call_cb assms Suc) (simp_all add: Suc)
  qed (simp add: Suc.prems)
qed

lemma post_asrv_seteof:
  assumes "senv_ok e" "sgood I st"
  shows "post (sgood I) (asrv_seteof e x force st)"
  unfolding asrv_seteof_def by (intro post_if post_seteof_srvs assms) (simp add: assms)

section \<open>Replies\<close>

definition same_view :: "sst \<Rightarrow> sst \<Rightarrow> bool" where
  "same_view st st' \<longleftrightarrow> asrvs st' = asrvs st \<and> svccbs st' = svccbs st \<and> nextsb st' = nextsb st"

lemma same_viewD: "same_view st st' \<Longrightarrow> sgood I st' = sgood I st"
  unfolding same_view_def by (intro sgood_frame) simp_all

lemma post_accepterr: "post (same_view st) (asrv_accepterr e x d stat m st)"
proof -
  have p: "post (same_view st) (bindR r (\<lambda>(s, low, high). Inr (xh_reply e x d (fst m) (AcceptErr s low high) st)))" for r
    by (cases r) (auto simp: same_view_def split: prod.split)
  obtain xd prog vers where "m = (xd, prog, vers)" by (cases m) auto
  then show ?thesis using p by (cases stat) (simp_all add: asrv_accepterr_def same_view_def)
qed

lemma post_auth_reject: "post (same_view st) (asrv_auth_reject e x d xd stat st)"
  unfolding asrv_auth_reject_def by (intro spost_basic) (simp add: same_view_def)

definition deleted :: "sid \<Rightarrow> sst \<Rightarrow> sst \<Rightarrow> bool" where
  "deleted i st st' \<longleftrightarrow> asrvs st' = asrvs st \<and> svccbs st' = (svccbs st)(i := None) \<and> nextsb st' = nextsb st"

lemma post_svccb_delete: "post (deleted i st) (svccb_delete i st)"
proof -
  have d: "post (same_view st) (svcdel x st)" for x
    unfolding svcdel_def by (intro spost_basic) (simp add: same_view_def)
  show ?thesis
    unfolding svccb_delete_def
    by (intro spost_basic post_bind [where Q = "same_view st"] post_option d) (auto simp: same_view_def deleted_def)
qed

lemma not_in_rtab:
  assumes "sinv0 st" "svccbs st i = Some s" "srv s = Some a" "asrvs st a = Some sv" "\<not> replaying (akind sv)" "asrvs st b = Some sw"
  shows "i \<notin> set (rtab sw)"
proof
  assume i: "i \<in> set (rtab sw)"
  note ok = srv_okD [OF sinv0_srv [OF assms(1,6)]]
  have "srv s = Some b" using ok(4) [OF i] assms(2,3) by (auto simp: entry_ok_def split: if_splits)
  then have "rtab sw = []" using ok(6) assms(3-6) by simp
  then show False using i by simp
qed

lemma deleted_sgood:
  assumes "sinv st" "deleted i st st'" "\<And>a sv. asrvs st a = Some sv \<Longrightarrow> i \<notin> set (rtab sv)"
  shows "sinv st'"
proof -
  let ?st = "st\<lparr>svccbs := (svccbs st)(i := None)\<rparr>"
  have "sinv0 ?st" using sinv0_delete [of st i] assms(1,3) by (simp add: sinv_def)
  moreover have "bound_ok ?st" using assms(1) by (simp add: sinv_def bound_ok_def)
  ultimately show ?thesis
    using sinv0_frame(3) [of st' ?st] assms(2) by (simp add: deleted_def sinv_def)
qed

lemma post_dec_quiet:
  assumes "asrvs st a = Some sv" "akind sv = DelayedEof \<longrightarrow> \<not> deof sv"
  shows "post (\<lambda>st'. \<exists>n. st' = upd_srv a (\<lambda>sv. sv\<lparr>dcount := n sv\<rparr>) st) (dec_svccb_count e a st)"
proof (cases "akind sv = DelayedEof")
  case True
  then show ?thesis
    using assms
    by (auto simp: dec_svccb_count_def getsrv_def guardR_def Let_def intro!: exI [of _ "\<lambda>sv. dcount sv - 1"])
next
  case False
  have "st = upd_srv a (\<lambda>sv. sv) st" using assms(1) by (simp add: upd_srv_def fun_upd_idem)
  then show ?thesis
    using False assms(1) by (auto simp: dec_svccb_count_def getsrv_def intro!: exI [of _ dcount])
qed

lemma post_plain_sendreply:
  assumes inv: "sinv st" and sv: "asrvs st a = Some sv" "\<not> replaying (akind sv)" "akind sv = DelayedEof \<longrightarrow> \<not> deof sv"
    and s: "svccbs st i = Some s" "srv s = Some a"
  shows "post sinv (plain_sendreply e a i x nocache st)"
proof -
  have del: "post sinv (bindR (dec_svccb_count e a st1) (svccb_delete i))" if v: "same_view st st1" for st1
  proof (rule post_bind [OF post_dec_quiet])
    show "asrvs st1 a = Some sv" using sv(1) v by (simp add: same_view_def)
    fix st2 assume "\<exists>n. st2 = upd_srv a (\<lambda>sv. sv\<lparr>dcount := n sv\<rparr>) st1"
    then obtain n where st2: "st2 = upd_srv a (\<lambda>sv. sv\<lparr>dcount := n sv\<rparr>) st1" by blast
    have i1: "sinv st1" using inv same_viewD [OF v, of Map.empty] by simp
    then have i2: "sinv st2" using sgood_upd_srv [of Map.empty st1] st2 by simp
    have "i \<notin> set (rtab sw)" if hb: "asrvs st2 b = Some sw" for b sw
    proof -
      obtain sw' where "asrvs st b = Some sw'" "rtab sw = rtab sw'"
        using hb v st2 by (auto simp: same_view_def split: if_splits)
      then show ?thesis using not_in_rtab [of st i s a sv b sw'] inv s sv by (simp add: sinv_def)
    qed
    then have "sinv st3" if "deleted i st2 st3" for st3 using deleted_sgood [OF i2 that] by blast
    then show "post sinv (svccb_delete i st2)" by (cases "svccb_delete i st2") (auto dest: postD [OF post_svccb_delete])
  qed (use sv(3) in simp)
  have snd: "same_view st (snd (xh_send e y d m st))" for y d m by (simp add: same_view_def)
  have step: "post (same_view st) (case x of None \<Rightarrow> Inr st | Some m \<Rightarrow>
      if xi_ateof (sxi sv') st then Inr st
      else (case xh_send e (sxi sv') (saddr s') m st of (ok, st) \<Rightarrow>
              if \<not> ok \<and> \<not> xi_ateof (sxi sv') st
              then asrv_accepterr e (sxi sv') (saddr s') SYSTEM_ERR (sxid s', sprog s', svers s') st else Inr st))" for sv' s'
  proof (intro post_option post_if)
    fix m
    obtain ok st1 where r: "xh_send e (sxi sv') (saddr s') m st = (ok, st1)" by fastforce
    have v: "same_view st st1" using snd [of "sxi sv'" "saddr s'" m] r by simp
    have "post (same_view st) (asrv_accepterr e (sxi sv') (saddr s') SYSTEM_ERR (sxid s', sprog s', svers s') st1)"
      using post_accepterr [of st1 e "sxi sv'" "saddr s'" SYSTEM_ERR "(sxid s', sprog s', svers s')"] v
      by (cases "asrv_accepterr e (sxi sv') (saddr s') SYSTEM_ERR (sxid s', sprog s', svers s') st1") (auto simp: same_view_def)
    then show "post (same_view st) (case xh_send e (sxi sv') (saddr s') m st of (ok, st) \<Rightarrow>
        if \<not> ok \<and> \<not> xi_ateof (sxi sv') st
        then asrv_accepterr e (sxi sv') (saddr s') SYSTEM_ERR (sxid s', sprog s', svers s') st else Inr st)"
      using v r by simp
  qed (simp_all add: same_view_def)
  show ?thesis
    unfolding plain_sendreply_def by (intro spost_basic post_bind [OF step] del)
qed

lemma post_delayed_sendreply:
  assumes e: "senv_ok e" and inv: "sinv st" and sv: "asrvs st a = Some sv" "akind sv = DelayedEof"
    and s: "svccbs st i = Some s" "srv s = Some a"
  shows "post sinv (delayed_sendreply e a i x nocache st)"
proof -
  have "post sinv (dec_svccb_count e a st)" using post_dec_svccb_count [OF e, of Map.empty st a] inv by simp
  moreover have "\<not> deof sv \<Longrightarrow> post sinv (plain_sendreply e a i x nocache st)"
    using post_plain_sendreply [OF inv sv(1) _ _ s] sv(2) by simp
  ultimately show ?thesis using sv by (simp add: delayed_sendreply_def getsrv_def)
qed

section \<open>Replies of the caching servers\<close>

lemma waiting:
  assumes "sinv0 st" "svccbs st i = Some s" "srv s = Some a" "asrvs st a = Some sv" "replaying (akind sv)"
  shows "i \<in> set (rtab sv)" "i \<notin> set (rq sv)" "sres s = None"
proof -
  show i: "i \<in> set (rtab sv)" using sinv0_sb(2) [OF assms(1-3)] assms(4,5) by auto
  show "i \<notin> set (rq sv)" "sres s = None"
    using srv_okD(4) [OF sinv0_srv [OF assms(1,4)] i] assms(2,3) by (auto simp: entry_ok_def split: if_splits)
qed

text \<open>The entry is taken out of the table, and the request deleted.\<close>

definition dropped :: "srvid \<Rightarrow> asrv \<Rightarrow> sid \<Rightarrow> sst \<Rightarrow> sst \<Rightarrow> bool" where
  "dropped a sv i st st' \<longleftrightarrow> asrvs st' = (asrvs st)(a \<mapsto> sv) \<and> svccbs st' = (svccbs st)(i := None) \<and> nextsb st' = nextsb st"

lemma post_unhash_delete:
  assumes "asrvs st a = Some sv"
  shows "post (\<lambda>st'. dropped a (sv\<lparr>rtab := remove1 i (rtab sv)\<rparr>) i st st' \<and> i \<in> set (rtab sv)) (bindR (rtab_remove a i st) (svccb_delete i))"
proof (cases "i \<in> set (rtab sv)")
  case True
  let ?st = "upd_srv a (\<lambda>sv. sv\<lparr>rtab := remove1 i (rtab sv)\<rparr>) st"
  have "rtab_remove a i st = Inr ?st" using assms True by (simp add: rtab_remove_def getsrv_def)
  then show ?thesis
    using True assms post_svccb_delete [of i ?st] by (cases "svccb_delete i ?st") (auto simp: deleted_def dropped_def)
qed (use assms in \<open>simp add: rtab_remove_def getsrv_def guardR_def\<close>)

lemma post_delsbp:
  assumes "asrvs st a = Some sv"
  shows "post (\<lambda>st'. dropped a (sv\<lparr>rtab := remove1 i (rtab sv), rq := remove1 i (rq sv)\<rparr>) i st st' \<and>
    i \<in> set (rtab sv) \<and> i \<in> set (rq sv)) (delsbp a i st)"
proof (cases "i \<in> set (rtab sv) \<and> i \<in> set (rq sv)")
  case True
  let ?st1 = "upd_srv a (\<lambda>sv. sv\<lparr>rtab := remove1 i (rtab sv)\<rparr>) st"
  let ?st = "upd_srv a (\<lambda>sv. sv\<lparr>rq := remove1 i (rq sv)\<rparr>) ?st1"
  have "rtab_remove a i st = Inr ?st1" "rq_remove a i ?st1 = Inr ?st"
    using assms True by (simp_all add: rtab_remove_def rq_remove_def getsrv_def)
  then show ?thesis
    using True assms post_svccb_delete [of i ?st]
    by (cases "svccb_delete i ?st") (auto simp: deleted_def dropped_def delsbp_def)
qed (use assms in \<open>auto simp: delsbp_def rtab_remove_def rq_remove_def getsrv_def guardR_def\<close>)

lemma dropped_sinv0:
  assumes inv: "sinv0 st" and sv: "asrvs st a = Some sv" and i: "i \<in> set (rtab sv)"
    and sv': "rtab sv' = remove1 i (rtab sv)" "rq sv' = remove1 i (rq sv)" "akind sv' = akind sv"
      "\<And>n. akind sv = Unreliable n \<Longrightarrow> rsize sv' = length (remove1 i (rq sv))"
    and d: "dropped a sv' i st st'"
  shows "sinv0 st'"
  using sinv0_drop [OF inv sv i sv'] sinv0_frame(1) [of st' "st\<lparr>asrvs := (asrvs st)(a \<mapsto> sv'), svccbs := (svccbs st)(i := None)\<rparr>"] d
  by (simp add: dropped_def)

lemma dropped_bound:
  assumes "bound_ok st" "asrvs st a = Some sv" "rq sv' = rq sv \<or> rq sv' = remove1 i (rq sv)" "akind sv' = akind sv" "dropped a sv' i st st'"
  shows "bound_ok st'"
proof -
  have "length (rq sv') \<le> length (rq sv)" using assms(3) by (auto simp: length_remove1)
  moreover have "length (rq sv) \<le> n" if "akind sv' = Unreliable n" for n
    using assms(1,2,4) that by (simp add: bound_ok_def)
  ultimately show ?thesis
    using assms(1,5) by (auto simp: bound_ok_def dropped_def intro: order_trans)
qed

lemma post_drop_waiting:
  assumes inv: "sinv st" and s: "svccbs st i = Some s" "srv s = Some a" and sv: "asrvs st a = Some sv" "replaying (akind sv)"
    and st1: "asrvs st1 = asrvs st" "nextsb st1 = nextsb st" "\<And>j. j \<noteq> i \<Longrightarrow> svccbs st1 j = svccbs st j"
  shows "post sinv (bindR (rtab_remove a i st1) (svccb_delete i))"
proof -
  have inv0: "sinv0 st" "bound_ok st" using inv by (simp_all add: sinv_def)
  note w = waiting [OF inv0(1) s sv]
  have rq: "remove1 i (rq sv) = rq sv" using w(2) by (simp add: remove1_idem)
  have sz: "rsize sv = length (rq sv)" if "akind sv = Unreliable n" for n
    using srv_okD(7) [OF sinv0_srv [OF inv0(1) sv(1)] that] .
  have "sinv st'" if d: "dropped a (sv\<lparr>rtab := remove1 i (rtab sv)\<rparr>) i st1 st'" for st'
  proof -
    have d': "dropped a (sv\<lparr>rtab := remove1 i (rtab sv)\<rparr>) i st st'"
      using d st1 by (auto simp: dropped_def fun_eq_iff)
    have "sinv0 st'" by (rule dropped_sinv0 [OF inv0(1) sv(1) w(1) _ _ _ _ d']) (simp_all add: rq sz)
    moreover have "bound_ok st'" by (rule dropped_bound [OF inv0(2) sv(1) _ _ d']) simp_all
    ultimately show ?thesis by (simp add: sinv_def)
  qed
  then show ?thesis
    using post_unhash_delete [of st1 a sv i] sv(1) st1(1)
    by (cases "bindR (rtab_remove a i st1) (svccb_delete i)") auto
qed

definition answered :: "sid \<Rightarrow> svccb \<Rightarrow> u8 list \<Rightarrow> sst \<Rightarrow> sst \<Rightarrow> bool" where
  "answered i s m st st' \<longleftrightarrow> asrvs st' = asrvs st \<and> nextsb st' = nextsb st \<and>
     svccbs st' = (svccbs st)(i \<mapsto> s\<lparr>arg := False, sres := Some m, resdat := False\<rparr>)"

lemma post_replay_sendreply:
  assumes inv: "sinv st" and s: "svccbs st i = Some s" "srv s = Some a" and sv: "asrvs st a = Some sv" "replaying (akind sv)"
  shows "post (\<lambda>st'. if x = None \<or> nocache then sinv st' else answered i s (the x) st st') (replay_sendreply e a i x nocache st)"
proof (cases x)
  case None
  then show ?thesis using post_drop_waiting [OF inv s sv, of st] sv(1) by (simp add: replay_sendreply_def getsrv_def)
next
  case (Some m)
  let ?st1 = "upd_sb i (\<lambda>s. s\<lparr>arg := False, sres := Some m\<rparr>) st"
  let ?st2 = "if xi_ateof (sxi sv) ?st1 then ?st1 else snd (xh_send e (sxi sv) (saddr s) m ?st1)"
  let ?st3 = "upd_sb i (\<lambda>s. s\<lparr>resdat := False\<rparr>) ?st2"
  have a: "answered i s m st ?st3" using s(1) by (simp add: answered_def)
  have "post sinv (bindR (rtab_remove a i st3) (svccb_delete i))" if "answered i s m st st3" for st3
    by (rule post_drop_waiting [OF inv s sv]) (use that in \<open>simp_all add: answered_def\<close>)
  from this [OF a] have "post sinv (bindR (rtab_remove a i ?st3) (svccb_delete i))" .
  then show ?thesis
    using a Some sv(1) s(1) by (simp add: replay_sendreply_def getsrv_def getsb_def Let_def split del: if_split) (simp split: if_split)
qed

lemma post_evict:
  assumes "\<And>b sw N. b \<noteq> a \<Longrightarrow> asrvs st b = Some sw \<Longrightarrow> akind sw = Unreliable N \<Longrightarrow> length (rq sw) \<le> N"
  shows "sinv0 st \<Longrightarrow> asrvs st a = Some sv \<Longrightarrow> akind sv = Unreliable N \<Longrightarrow> length (rq sv) \<le> N + n \<Longrightarrow> post sinv (evict a n st)"
  using assms
proof (induction n arbitrary: st sv)
  case 0
  then show ?case by (auto simp: sinv_def bound_ok_def) (metis akind.inject option.inject)
next
  case (Suc n)
  show ?case
  proof (cases "rq sv")
    case (Cons j js)
    have "post sinv (evict a n (upd_srv a (\<lambda>sv. sv\<lparr>rsize := rsize sv - 1\<rparr>) st1))"
      if d: "dropped a (sv\<lparr>rtab := remove1 j (rtab sv), rq := remove1 j (rq sv)\<rparr>) j st st1" "j \<in> set (rtab sv)" for st1
    proof (rule Suc.IH)
      let ?sv = "sv\<lparr>rtab := remove1 j (rtab sv), rq := remove1 j (rq sv), rsize := rsize sv - 1\<rparr>"
      let ?st = "upd_srv a (\<lambda>sv. sv\<lparr>rsize := rsize sv - 1\<rparr>) st1"
      have d': "dropped a ?sv j st ?st" using d(1) by (simp add: dropped_def)
      have "rsize sv = length (rq sv)" using srv_okD(7) [OF sinv0_srv [OF Suc.prems(1,2)] Suc.prems(3)] .
      then show "sinv0 ?st"
        by (intro dropped_sinv0 [OF Suc.prems(1,2) d(2) _ _ _ _ d']) (simp_all add: Cons)
      show "asrvs ?st a = Some ?sv" using d' by (simp add: dropped_def)
      show "akind ?sv = Unreliable N" "length (rq ?sv) \<le> N + n" using Suc.prems(3,4) Cons by simp_all
      show "length (rq sw) \<le> M" if "b \<noteq> a" "asrvs ?st b = Some sw" "akind sw = Unreliable M" for b sw M
        using Suc.prems(5) [of b sw M] that d(1) by (simp add: dropped_def)
    qed
    then have "post sinv (bindR (delsbp a j st) (\<lambda>st. evict a n (upd_srv a (\<lambda>sv. sv\<lparr>rsize := rsize sv - 1\<rparr>) st)))"
      by (intro post_bind [OF post_delsbp [OF Suc.prems(2)]]) blast
    then show ?thesis using Suc.prems(2) Cons by (simp add: getsrv_def)
  qed (use Suc.prems(2) in \<open>simp add: getsrv_def\<close>)
qed

lemma answered_sinv0:
  assumes inv: "sinv0 st" and s: "svccbs st i = Some s" "srv s = Some a" and sv: "asrvs st a = Some sv" "replaying (akind sv)"
    and st2: "asrvs st2 = (asrvs st)(a \<mapsto> sv')" "nextsb st2 = nextsb st" "svccbs st2 = (svccbs st)(i \<mapsto> s')"
    and sv': "rtab sv' = rtab sv" "rq sv' = rq sv @ [i]" "akind sv' = akind sv"
      "\<And>n. akind sv = Unreliable n \<Longrightarrow> rsize sv' = length (rq sv) + 1"
    and s': "sbkey s' = sbkey s" "sres s' \<noteq> None" "srv s' = None" "\<not> arg s'" "\<not> resdat s'"
  shows "sinv0 st2"
proof -
  note w = waiting [OF inv s sv]
  have "sinv0 (st\<lparr>asrvs := (asrvs st)(a \<mapsto> sv'), svccbs := (svccbs st)(i \<mapsto> s')\<rparr>)"
    by (rule sinv0_answer [OF inv sv(1) w(1,2) s(1) sv']) (simp_all add: s')
  then show ?thesis
    using sinv0_frame(1) [of st2 "st\<lparr>asrvs := (asrvs st)(a \<mapsto> sv'), svccbs := (svccbs st)(i \<mapsto> s')\<rparr>"] st2 by simp
qed

lemma post_unreliable_sendreply:
  assumes inv: "sinv st" and s: "svccbs st i = Some s" "srv s = Some a" and sv: "asrvs st a = Some sv" "akind sv = Unreliable N"
  shows "post sinv (unreliable_sendreply e a N i x nocache st)"
proof -
  have rp: "replaying (akind sv)" using sv(2) by simp
  have inv0: "sinv0 st" "bound_ok st" using inv by (simp_all add: sinv_def)
  have sz: "rsize sv = length (rq sv)" using srv_okD(7) [OF sinv0_srv [OF inv0(1) sv(1)] sv(2)] .
  have "post sinv (bindR (getsrv a st2) (\<lambda>sv. evict a (rsize sv - N) st2))"
    if a: "answered i s m st st1" and st2: "st2 = rq_insert_tail a i (upd_srv a (\<lambda>sv. sv\<lparr>rsize := rsize sv + 1\<rparr>)
      (upd_sb i (\<lambda>s. s\<lparr>srv := None\<rparr>) st1))" for m st1 st2
  proof -
    let ?sv = "sv\<lparr>rsize := rsize sv + 1, rq := rq sv @ [i]\<rparr>"
    let ?s = "s\<lparr>arg := False, sres := Some m, resdat := False, srv := None\<rparr>"
    have v: "asrvs st2 = (asrvs st)(a \<mapsto> ?sv)" "nextsb st2 = nextsb st" "svccbs st2 = (svccbs st)(i \<mapsto> ?s)"
      using a sv(1) by (simp_all add: st2 answered_def rq_insert_tail_def)
    have i0: "sinv0 st2"
      by (rule answered_sinv0 [OF inv0(1) s sv(1) rp v]) (simp_all add: sz sbkey_def)
    have "post sinv (evict a (rsize ?sv - N) st2)"
    proof (rule post_evict [OF _ i0])
      show "asrvs st2 a = Some ?sv" by (simp add: v)
      show "akind ?sv = Unreliable N" by (simp add: sv(2))
      show "length (rq ?sv) \<le> N + (rsize ?sv - N)" using sz by simp
      show "length (rq sw) \<le> M" if "b \<noteq> a" "asrvs st2 b = Some sw" "akind sw = Unreliable M" for b sw M
        using inv0(2) that by (auto simp: bound_ok_def v)
    qed
    then show ?thesis by (simp add: getsrv_def v(1))
  qed
  then show ?thesis
    unfolding unreliable_sendreply_def Let_def
    by (intro post_bind [OF post_replay_sendreply [OF inv s sv(1) rp]]) (auto split: if_splits)
qed

lemma post_evict_while:
  "sinv st \<Longrightarrow> asrvs st a = Some sv \<Longrightarrow> akind sv = Resumable \<Longrightarrow> post sinv (evict_while P a js st)"
proof (induction js arbitrary: st sv)
  case (Cons j js)
  have step: "post sinv (evict_while P a js st1)"
    if d: "dropped a (sv\<lparr>rtab := remove1 j (rtab sv), rq := remove1 j (rq sv)\<rparr>) j st st1" "j \<in> set (rtab sv)" for st1
  proof -
    have "sinv0 st1"
      by (rule dropped_sinv0 [OF _ Cons.prems(2) d(2) _ _ _ _ d(1)]) (use Cons.prems in \<open>simp_all add: sinv_def\<close>)
    moreover have "bound_ok st1"
      by (rule dropped_bound [OF _ Cons.prems(2) _ _ d(1)]) (use Cons.prems in \<open>simp_all add: sinv_def\<close>)
    moreover have "asrvs st1 a = Some (sv\<lparr>rtab := remove1 j (rtab sv), rq := remove1 j (rq sv)\<rparr>)"
      using d(1) by (simp add: dropped_def)
    ultimately show ?thesis
      using Cons.IH [of st1 "sv\<lparr>rtab := remove1 j (rtab sv), rq := remove1 j (rq sv)\<rparr>"] Cons.prems(3)
      unfolding sinv_def by simp
  qed
  have "post sinv (bindR (delsbp a j st) (evict_while P a js))"
    by (rule post_bind [OF post_delsbp [OF Cons.prems(2)]]) (use step in blast)
  then show ?case
    unfolding evict_while.simps by (intro spost_basic post_if) (simp_all add: Cons.prems(1))
qed simp

lemma post_resumable_sendreply:
  assumes inv: "sinv st" and s: "svccbs st i = Some s" "srv s = Some a" and sv: "asrvs st a = Some sv" "akind sv = Resumable"
  shows "post sinv (resumable_sendreply e a i x nocache st)"
proof -
  have rp: "replaying (akind sv)" using sv(2) by simp
  have inv0: "sinv0 st" "bound_ok st" using inv by (simp_all add: sinv_def)
  have "post sinv (evict_while P a js st2)"
    if a: "answered i s m st st1" and st2: "st2 = rq_insert_tail a i (upd_sb i (\<lambda>s. s\<lparr>soffset := off, srv := None\<rparr>) st1)" for P m js st1 st2 off
  proof -
    let ?sv = "sv\<lparr>rq := rq sv @ [i]\<rparr>"
    let ?s = "s\<lparr>arg := False, sres := Some m, resdat := False, soffset := off, srv := None\<rparr>"
    have v: "asrvs st2 = (asrvs st)(a \<mapsto> ?sv)" "nextsb st2 = nextsb st" "svccbs st2 = (svccbs st)(i \<mapsto> ?s)"
      using a sv(1) by (simp_all add: st2 answered_def rq_insert_tail_def)
    have "sinv0 st2"
      by (rule answered_sinv0 [OF inv0(1) s sv(1) rp v]) (simp_all add: sv(2) sbkey_def)
    moreover have "bound_ok st2" using inv0(2) sv(2) by (auto simp: bound_ok_def v)
    ultimately show ?thesis using post_evict_while [of st2 a ?sv] sv(2) by (simp add: v(1) sinv_def)
  qed
  then show ?thesis
    unfolding resumable_sendreply_def Let_def
    by (intro spost_basic post_bind [OF post_replay_sendreply [OF inv s sv(1) rp]] post_if) (auto split: if_splits)
qed

lemma post_sendreply:
  assumes "senv_ok e" "sinv st" "svccbs st i = Some s" "srv s = Some a"
  shows "post sinv (sendreply e a i x nocache st)"
  unfolding sendreply_def
proof (intro spost_basic)
  fix sv assume sv: "asrvs st a = Some sv"
  show "post sinv (case akind sv of Plain \<Rightarrow> plain_sendreply e a i x nocache st
     | DelayedEof \<Rightarrow> delayed_sendreply e a i x nocache st | Unreliable n \<Rightarrow> unreliable_sendreply e a n i x nocache st
     | Resumable \<Rightarrow> resumable_sendreply e a i x nocache st)"
    using post_plain_sendreply [OF assms(2) sv _ _ assms(3,4)] post_delayed_sendreply [OF assms(1,2) sv _ assms(3,4)]
      post_unreliable_sendreply [OF assms(2-4) sv] post_resumable_sendreply [OF assms(2-4) sv]
    by (cases "akind sv") simp_all
qed

section \<open>Receiving\<close>

lemma sgood_svccb_new:
  assumes "sinv st" "svccb_new st = (i, st')"
  shows "\<exists>s. sgood [i \<mapsto> s] st' \<and> sres s = None \<and> asrvs st' = asrvs st"
proof -
  have i: "i = nextsb st" and st': "asrvs st' = asrvs st" "nextsb st' = nextsb st + 1"
    "\<exists>s. svccbs st' = (svccbs st)(i \<mapsto> s) \<and> srv s = None \<and> sres s = None"
    using assms(2) by (auto simp: svccb_new_def)
  then obtain s where s: "svccbs st' = (svccbs st)(i \<mapsto> s)" "srv s = None" "sres s = None" by blast
  have inv0: "sinv0 st" "bound_ok st" using assms(1) by (simp_all add: sinv_def)
  have old: "j \<noteq> i" if "asrvs st a = Some sv" "j \<in> set (rtab sv)" for a sv j
    using srv_okD(4) [OF sinv0_srv [OF inv0(1) that(1)] that(2)] sinv0_sb(1) [OF inv0(1)] i by fastforce
  have "srv_ok st' a sv" if hb: "asrvs st a = Some sv" for a sv
  proof -
    have "svccbs st' j = svccbs st j" if "j \<in> set (rtab sv)" for j using old [OF hb that] s(1) by simp
    then show ?thesis using sinv0_srv [OF inv0(1) hb] unfolding srv_ok_def by simp
  qed
  moreover have "sb_ok st'"
    using inv0(1) st'(1,2) s i unfolding sinv0_def sb_ok_def by (auto intro: less_SucI)
  moreover have "disj_ok st'" using inv0(1) st'(1) by (simp add: sinv0_def disj_ok_def)
  ultimately have "sinv st'" using inv0(2) st'(1) by (simp add: sinv_def sinv0_def bound_ok_def)
  moreover have "priv st' i" using s old st'(1) by (auto simp: priv_def)
  ultimately have "sgood [i \<mapsto> s] st'" using s(1) by (simp add: sgood_def)
  then show ?thesis using s(3) st'(1) by blast
qed

text \<open>A request that has its server but is not in its table yet.\<close>

definition holding :: "sid \<Rightarrow> srvid \<Rightarrow> sst \<Rightarrow> sst \<Rightarrow> bool" where
  "holding i a st st1 \<longleftrightarrow> sinv st \<and> priv st i \<and> asrvs st1 = asrvs st \<and> nextsb st1 = nextsb st \<and>
     (\<exists>s1. svccbs st1 = (svccbs st)(i \<mapsto> s1) \<and> srv s1 = Some a \<and> sres s1 = None)"

lemma post_svccb_init:
  assumes "sgood [i \<mapsto> s] st" "sres s = None"
  shows "post (holding i a st) (svccb_init i a src st)"
proof -
  have "sinv st" "priv st i" "svccbs st i = Some s" using assms(1) by (simp_all add: sgood_def)
  then show ?thesis
    unfolding svccb_init_def Let_def using assms(2) by (intro spost_basic) (auto simp: holding_def)
qed

lemma holding_delete:
  assumes "holding i a st st1" "same_view st1 st2"
  shows "post sinv (svccb_delete i st2)"
proof -
  have "sinv st3" if "deleted i st2 st3" for st3
  proof (rule deleted_sgood)
    show "sinv st" using assms(1) by (simp add: holding_def)
    show "deleted i st st3" using assms that by (auto simp: holding_def same_view_def deleted_def)
    show "\<And>a sv. asrvs st a = Some sv \<Longrightarrow> i \<notin> set (rtab sv)" using assms(1) by (simp add: holding_def priv_def)
  qed
  then show ?thesis
    using post_svccb_delete [of i st2] by (cases "svccb_delete i st2") auto
qed

lemma holding_plain:
  assumes h: "holding i a st st1" and sv: "asrvs st a = Some sv" "\<not> replaying (akind sv)"
  shows "sinv st1"
proof -
  obtain s1 where s1: "svccbs st1 = (svccbs st)(i \<mapsto> s1)" "srv s1 = Some a" using h by (auto simp: holding_def)
  have inv: "sinv0 st" "bound_ok st" "priv st i" using h by (simp_all add: holding_def sinv_def)
  let ?st = "st\<lparr>asrvs := (asrvs st)(a \<mapsto> sv), svccbs := (svccbs st)(i := Some s1)\<rparr>"
  have e: "rtab sv = []" using srv_okD(6) [OF sinv0_srv [OF inv(1) sv(1)] sv(2)] .
  have "sinv0 ?st"
  proof (rule sinv0_change [OF inv(1) sv(1)])
    show "srv_ok (st\<lparr>svccbs := (svccbs st)(i := Some s1)\<rparr>) a sv"
      using sinv0_srv [OF inv(1) sv(1)] e by (simp add: srv_ok_def)
    show "i < nextsb st \<and> (\<forall>b. srv s = Some b \<longrightarrow> (if b = a then replaying (akind sv) \<longrightarrow> i \<in> set (rtab sv)
      else \<exists>sw. asrvs st b = Some sw \<and> \<not> replaying (akind sw)))" if "Some s1 = Some s" for s
      using that s1(2) sv(2) inv(3) sinv0_sb(1) [OF inv(1)] by (auto simp: priv_def)
    show "\<And>b sw. asrvs st b = Some sw \<Longrightarrow> b \<noteq> a \<Longrightarrow> i \<notin> set (rtab sw)" using inv(3) by (simp add: priv_def)
  qed auto
  moreover have "asrvs st1 = asrvs ?st" "svccbs st1 = svccbs ?st" "nextsb st1 = nextsb ?st"
    using h s1(1) sv(1) by (simp_all add: holding_def fun_upd_idem)
  moreover have "bound_ok st1" using inv(2) h by (simp add: bound_ok_def holding_def)
  ultimately show ?thesis using sinv0_frame(1) [of st1 ?st] by (simp add: sinv_def)
qed

definition found :: "sst \<Rightarrow> u32 \<times> u32 \<times> u32 \<times> u32 \<times> nat option \<Rightarrow> sid list \<Rightarrow> sid option \<Rightarrow> bool" where
  "found st k js os \<longleftrightarrow>
     (case os of None \<Rightarrow> (\<forall>j\<in>set js. \<forall>s. svccbs st j = Some s \<longrightarrow> sbkey s \<noteq> k)
      | Some j \<Rightarrow> j \<in> set js \<and> (\<exists>s. svccbs st j = Some s \<and> sbkey s = k))"

lemma rtab_find_post: "post (found st k js) (rtab_find st k js)"
proof (induction js)
  case (Cons j js)
  have "post (found st k (j # js)) (rtab_find st k js)" if "svccbs st j = Some s" "sbkey s \<noteq> k" for s
    using Cons that by (cases "rtab_find st k js") (auto simp: found_def split: option.splits)
  moreover have "found st k (j # js) (Some j)" if "svccbs st j = Some s" "sbkey s = k" for s
    using that by (simp add: found_def)
  ultimately show ?case
    unfolding rtab_find.simps by (intro spost_basic post_if) auto
qed (simp add: found_def)

text \<open>Where the request is new it is now waiting; otherwise nothing has changed.\<close>

lemma post_replay_lookup:
  assumes h: "holding i a st st1" and sv: "asrvs st a = Some sv" "replaying (akind sv)"
  shows "post (\<lambda>(os, st2).
      (case os of None \<Rightarrow> sinv st2 \<and> svccbs st2 = svccbs st1 \<and> asrvs st2 = (asrvs st)(a \<mapsto> sv\<lparr>rtab := i # rtab sv\<rparr>)
       | Some j \<Rightarrow> st2 = st1 \<and> j \<in> set (rtab sv) \<and> j \<noteq> i \<and> svccbs st1 j = svccbs st j)) (replay_lookup a i st1)"
proof -
  obtain s1 where s1: "svccbs st1 = (svccbs st)(i \<mapsto> s1)" "srv s1 = Some a" "sres s1 = None"
    using h by (auto simp: holding_def)
  have inv: "sinv0 st" "bound_ok st" "priv st i" "asrvs st1 = asrvs st" "nextsb st1 = nextsb st"
    using h by (simp_all add: holding_def sinv_def)
  have ni: "i \<notin> set (rtab sw)" if "asrvs st b = Some sw" for b sw using inv(3) that by (simp add: priv_def)
  have i: "i < nextsb st" using inv(3) sinv0_sb(1) [OF inv(1)] by (auto simp: priv_def)
  let ?st = "st\<lparr>asrvs := (asrvs st)(a \<mapsto> sv\<lparr>rtab := i # rtab sv\<rparr>), svccbs := (svccbs st)(i \<mapsto> s1)\<rparr>"
  let ?st2 = "upd_srv a (\<lambda>sv. sv\<lparr>rtab := i # rtab sv\<rparr>) st1"
  have enter: "sinv ?st2" if fresh: "\<forall>j\<in>set (rtab sv). \<forall>s. svccbs st1 j = Some s \<longrightarrow> sbkey s \<noteq> sbkey s1"
  proof -
    have "sinv0 ?st"
    proof (rule sinv0_enter [OF inv(1) sv ni i s1(2,3)])
      show "sbkey t \<noteq> sbkey s1" if "j \<in> set (rtab sv)" "svccbs st j = Some t" for j t
        using fresh that ni [OF sv(1)] s1(1) by (metis fun_upd_apply)
    qed
    moreover have "asrvs ?st2 = asrvs ?st" "svccbs ?st2 = svccbs ?st" "nextsb ?st2 = nextsb ?st"
      using inv(4,5) s1(1) sv(1) by simp_all
    moreover have "bound_ok ?st2" using inv(2,4) sv(1) by (auto simp: bound_ok_def split: if_splits)
    ultimately show ?thesis using sinv0_frame(1) [of ?st2 ?st] by (simp add: sinv_def)
  qed
  have key: "s = s1" if "svccbs st1 i = Some s" for s using that s1(1) by simp
  show ?thesis
    unfolding replay_lookup_def
  proof (intro spost_basic, rule post_bind [OF rtab_find_post])
    fix sw s os
    assume a: "asrvs st1 a = Some sw" "svccbs st1 i = Some s"
      "found st1 (sbkey s) (rtab sw) os"
    have "sw = sv" "s = s1" using a(1) inv(4) sv(1) key [OF a(2)] by simp_all
    then show "post (\<lambda>(os, st2).
      (case os of None \<Rightarrow> sinv st2 \<and> svccbs st2 = svccbs st1 \<and> asrvs st2 = (asrvs st)(a \<mapsto> sv\<lparr>rtab := i # rtab sv\<rparr>)
       | Some j \<Rightarrow> st2 = st1 \<and> j \<in> set (rtab sv) \<and> j \<noteq> i \<and> svccbs st1 j = svccbs st j))
      (Inr (os, if os = None then ?st2 else st1))"
      using a(3) enter ni [OF sv(1)] s1(1) inv(4) sv(1) by (auto simp: found_def split: option.splits)
  qed
qed

lemma post_evict_while_other:
  "i \<notin> set js \<Longrightarrow> post (\<lambda>st'. svccbs st' i = svccbs st i) (evict_while P a js st)"
proof (induction js arbitrary: st)
  case (Cons j js)
  have "post (\<lambda>st'. svccbs st' i = svccbs st i) (delsbp a j st)"
  proof (cases "asrvs st a")
    case (Some sv)
    then show ?thesis using post_delsbp [OF Some, of j] Cons.prems by (cases "delsbp a j st") (auto simp: dropped_def)
  qed (simp add: delsbp_def rtab_remove_def getsrv_def)
  then have "post (\<lambda>st'. svccbs st' i = svccbs st i) (bindR (delsbp a j st) (evict_while P a js))"
  proof (rule post_bind)
    fix st1 :: sst assume "svccbs st1 i = svccbs st i"
    then show "post (\<lambda>st'. svccbs st' i = svccbs st i) (evict_while P a js st1)"
      using Cons.IH [of st1] Cons.prems by simp
  qed
  then show ?case unfolding evict_while.simps by (intro spost_basic post_if) simp_all
qed simp

definition waits :: "sid \<Rightarrow> srvid \<Rightarrow> sst \<Rightarrow> bool" where
  "waits i a st \<longleftrightarrow> sinv st \<and> (\<exists>s. svccbs st i = Some s \<and> srv s = Some a)"

lemma post_unreliable_isreplay:
  assumes h: "holding i a st st1" and sv: "asrvs st a = Some sv" "replaying (akind sv)"
  shows "post (\<lambda>(rep, st2). if rep then same_view st1 st2 else waits i a st2) (unreliable_isreplay e a i st1)"
  unfolding unreliable_isreplay_def
proof (rule post_bind [OF post_replay_lookup [OF h sv]], clarify)
  fix os st2
  assume p: "case os of None \<Rightarrow> sinv st2 \<and> svccbs st2 = svccbs st1 \<and> asrvs st2 = (asrvs st)(a \<mapsto> sv\<lparr>rtab := i # rtab sv\<rparr>)
       | Some j \<Rightarrow> st2 = st1 \<and> j \<in> set (rtab sv) \<and> j \<noteq> i \<and> svccbs st1 j = svccbs st j"
  show "post (\<lambda>(rep, st2). if rep then same_view st1 st2 else waits i a st2)
     (case os of None \<Rightarrow> Inr (False, st2)
      | Some j \<Rightarrow> bindR (getsrv a st2) (\<lambda>sv. bindR (getsb j st2) (\<lambda>o'.
          Inr (True, case sres o' of None \<Rightarrow> st2 | Some m \<Rightarrow> snd (xh_send e (sxi sv) (saddr o') m st2)))))"
  proof (cases os)
    case None
    then show ?thesis using p h by (auto simp: waits_def holding_def)
  next
    case (Some j)
    then have "st2 = st1" using p by simp
    then show ?thesis unfolding Some option.case
      by (intro spost_basic) (auto simp: same_view_def split: option.split)
  qed
qed

lemma holding_frame:
  assumes h: "holding i a st st1" and inv: "sinv st'" and v: "asrvs st2 = asrvs st'" "nextsb st' = nextsb st" "nextsb st2 = nextsb st1"
    "svccbs st2 i = svccbs st1 i" "svccbs st' i = svccbs st i" "\<And>k. k \<noteq> i \<Longrightarrow> svccbs st2 k = svccbs st' k"
    "\<And>b sw. asrvs st' b = Some sw \<Longrightarrow> \<exists>sw'. asrvs st b = Some sw' \<and> rtab sw = rtab sw'"
  shows "holding i a st' st2"
proof -
  obtain s1 where s1: "svccbs st1 = (svccbs st)(i \<mapsto> s1)" "srv s1 = Some a" "sres s1 = None" using h by (auto simp: holding_def)
  have "svccbs st2 = (svccbs st')(i \<mapsto> s1)" using v(4,6) s1(1) by (auto simp: fun_eq_iff)
  moreover have "priv st' i" using h v(5,7) by (fastforce simp: holding_def priv_def)
  moreover have "nextsb st2 = nextsb st'" using h v(2,3) by (simp add: holding_def)
  ultimately show ?thesis using inv v(1) s1(2,3) by (auto simp: holding_def)
qed

text \<open>A replay moves the cached reply to the end of the queue.\<close>

lemma post_requeue:
  assumes h: "holding i a st st1" and sv: "asrvs st a = Some sv" "akind sv = Resumable" and j: "j \<noteq> i"
    and st2: "asrvs st2 = asrvs st1" "nextsb st2 = nextsb st1" "svccbs st2 = (svccbs st1)(j := map_option (\<lambda>s. s\<lparr>soffset := off\<rparr>) (svccbs st1 j))"
  shows "post (\<lambda>(rep, st4). rep \<and> (\<exists>st3. holding i a st3 st4)) (bindR (rq_remove a j st2) (\<lambda>st. Inr (True, rq_insert_tail a j st)))"
proof (cases "j \<in> set (rq sv)")
  case True
  let ?f = "\<lambda>sv. sv\<lparr>rq := remove1 j (rq sv) @ [j]\<rparr>"
  let ?st3 = "upd_srv a ?f (upd_sb j (\<lambda>s. s\<lparr>soffset := off\<rparr>) st)"
  let ?st4 = "rq_insert_tail a j (upd_srv a (\<lambda>sv. sv\<lparr>rq := remove1 j (rq sv)\<rparr>) st2)"
  have as: "asrvs st1 = asrvs st" using h by (simp add: holding_def)
  have inv: "sinv0 st" "bound_ok st" using h by (simp_all add: holding_def sinv_def)
  have i1: "sinv0 (upd_sb j (\<lambda>s. s\<lparr>soffset := off\<rparr>) st)" by (rule sinv0_upd_sb [OF inv(1)]) (simp add: sbkey_def)
  have d: "distinct (rq sv)" using srv_okD(2) [OF sinv0_srv [OF inv(1) sv(1)]] .
  have len: "length (remove1 j (rq sv) @ [j]) = length (rq sv)" using True by (simp add: length_remove1) (metis One_nat_def Suc_pred length_pos_if_in_set)
  have "sinv0 ?st3"
    by (rule sinv0_upd_srv [OF i1]) (use sv(1) True d len in \<open>auto simp: set_remove1_eq\<close>)
  moreover have "bound_ok ?st3" using inv(2) sv len by (auto simp: bound_ok_def split: if_splits)
  ultimately have "sinv ?st3" by (simp add: sinv_def)
  then have "holding i a ?st3 ?st4"
    by (rule holding_frame [OF h]) (use st2 as j sv(1) h in \<open>auto simp: rq_insert_tail_def holding_def split: if_splits\<close>)
  then show ?thesis using True sv(1) st2(1) as by (auto simp: rq_remove_def getsrv_def)
next
  case False
  then show ?thesis using sv(1) st2(1) h by (simp add: rq_remove_def getsrv_def holding_def guardR_def)
qed

lemma post_resumable_isreplay:
  assumes h: "holding i a st st1" and sv: "asrvs st a = Some sv" "akind sv = Resumable"
  shows "post (\<lambda>(rep, st2). if rep then \<exists>st'. holding i a st' st2 else waits i a st2) (resumable_isreplay e a i st1)"
  unfolding resumable_isreplay_def
proof (rule post_bind [OF post_replay_lookup [OF h sv(1)]], simp add: sv(2), clarify)
  fix os st2
  assume p: "case os of None \<Rightarrow> sinv st2 \<and> svccbs st2 = svccbs st1 \<and> asrvs st2 = (asrvs st)(a \<mapsto> sv\<lparr>rtab := i # rtab sv\<rparr>)
       | Some j \<Rightarrow> st2 = st1 \<and> j \<in> set (rtab sv) \<and> j \<noteq> i \<and> svccbs st1 j = svccbs st j"
  let ?Q = "\<lambda>(rep, st2). if rep then \<exists>st'. holding i a st' st2 else waits i a st2"
  have ni: "i \<notin> set (rq sv)"
    using h srv_okD(3) [OF sinv0_srv [OF _ sv(1)]] sv(1) by (auto simp: holding_def sinv_def priv_def)
  have new: "post ?Q (bindR (evict_while P a (rq sw) st2) (\<lambda>st. Inr (False, st)))"
    if "os = None" "asrvs st2 a = Some sw" for sw P
  proof -
    have st2: "sinv st2" "svccbs st2 = svccbs st1" "asrvs st2 a = Some (sv\<lparr>rtab := i # rtab sv\<rparr>)"
      using p that(1) by simp_all
    then have sw: "rq sw = rq sv" "akind sw = Resumable" using that(2) sv(2) by auto
    have "post (\<lambda>st3. sinv st3 \<and> svccbs st3 i = svccbs st2 i) (evict_while P a (rq sw) st2)"
      by (intro post_conj post_evict_while [OF st2(1) that(2) sw(2)] post_evict_while_other) (simp add: sw(1) ni)
    then show ?thesis
      by (rule post_bind) (use h st2(2) in \<open>auto simp: holding_def waits_def\<close>)
  qed
  have old: "post ?Q (bindR (getsb j st2) (\<lambda>o'. case sres o' of None \<Rightarrow> Inr (True, st2)
      | Some m \<Rightarrow> let st = snd (xh_send e (sxi sw) (saddr o') m st2); off = raw_bytes_sent (xport (sxhs st (sxi sw)));
            st = upd_sb j (\<lambda>s. s\<lparr>soffset := off\<rparr>) st in bindR (rq_remove a j st) (\<lambda>st. Inr (True, rq_insert_tail a j st))))"
    if "os = Some j" for j sw
  proof -
    have st2: "st2 = st1" "j \<noteq> i" using p that by simp_all
    have re: "post ?Q (bindR (rq_remove a j st3) (\<lambda>st. Inr (True, rq_insert_tail a j st)))"
      if "asrvs st3 = asrvs st1" "nextsb st3 = nextsb st1"
        "svccbs st3 = (svccbs st1)(j := map_option (\<lambda>s. s\<lparr>soffset := off\<rparr>) (svccbs st1 j))" for st3 off
      using post_requeue [OF h sv st2(2) that]
      by (cases "bindR (rq_remove a j st3) (\<lambda>st. Inr (True, rq_insert_tail a j st))") auto
    show ?thesis
      unfolding Let_def by (intro spost_basic post_option re) (use h st2(1) in auto)
  qed
  show "post ?Q (bindR (getsrv a st2) (\<lambda>sw. case os of
        None \<Rightarrow> bindR (evict_while (\<lambda>s. soffset s = 0) a (rq sw) st2) (\<lambda>st. Inr (False, st))
      | Some j \<Rightarrow> bindR (getsb j st2) (\<lambda>o'. case sres o' of None \<Rightarrow> Inr (True, st2)
          | Some m \<Rightarrow> let st = snd (xh_send e (sxi sw) (saddr o') m st2); off = raw_bytes_sent (xport (sxhs st (sxi sw)));
              st = upd_sb j (\<lambda>s. s\<lparr>soffset := off\<rparr>) st in bindR (rq_remove a j st) (\<lambda>st. Inr (True, rq_insert_tail a j st)))))"
    by (intro post_bind [OF post_getsrv] post_option new old)
qed

lemma post_isreplay:
  assumes h: "holding i a st st1"
  shows "post (\<lambda>(rep, st2). if rep then \<exists>st' st''. holding i a st' st'' \<and> same_view st'' st2 else waits i a st2) (isreplay e a i st1)"
  unfolding isreplay_def
proof (intro spost_basic)
  fix sv assume "asrvs st1 a = Some sv"
  then have sv: "asrvs st a = Some sv" using h by (simp add: holding_def)
  let ?Q = "\<lambda>(rep, st2). if rep then \<exists>st' st''. holding i a st' st'' \<and> same_view st'' st2 else waits i a st2"
  have r: "same_view s s" for s by (simp add: same_view_def)
  have w: "waits i a st1" if "\<not> replaying (akind sv)"
    using holding_plain [OF h sv that] h by (auto simp: waits_def holding_def)
  have u: "post ?Q (unreliable_isreplay e a i st1)" if "replaying (akind sv)"
    using post_unreliable_isreplay [OF h sv that, of e] h by (cases "unreliable_isreplay e a i st1") (auto split: if_splits)
  have m: "post ?Q (resumable_isreplay e a i st1)" if "akind sv = Resumable"
    using post_resumable_isreplay [OF h sv that, of e] r by (cases "resumable_isreplay e a i st1") (auto split: if_splits)
  show "post ?Q (case akind sv of Plain \<Rightarrow> Inr (False, st1) | Unreliable n \<Rightarrow> unreliable_isreplay e a i st1
      | Resumable \<Rightarrow> resumable_isreplay e a i st1 | DelayedEof \<Rightarrow> Inr (False, st1))"
    using w u m by (cases "akind sv") simp_all
qed

lemma waits_upd_arg: "waits i a st \<Longrightarrow> waits i a (upd_sb i (\<lambda>s. s\<lparr>arg := b\<rparr>) st)"
proof -
  assume w: "waits i a st"
  then have "sinv0 (upd_sb i (\<lambda>s. s\<lparr>arg := b\<rparr>) st)"
    by (intro sinv0_upd_sb) (auto simp: waits_def sinv_def sbkey_def)
  then show ?thesis using w by (auto simp: waits_def sinv_def bound_ok_def)
qed

lemma waits_view: "same_view st st' \<Longrightarrow> waits i a st \<Longrightarrow> waits i a st'"
  using same_viewD [of st st' Map.empty] by (simp add: waits_def same_view_def)

lemma post_inc_waits: "waits i a st \<Longrightarrow> post (waits i a) (inc_svccb_count b st)"
proof -
  assume w: "waits i a st"
  then have s: "sgood Map.empty st" by (simp add: waits_def)
  have "post (\<lambda>st'. svccbs st' = svccbs st) (inc_svccb_count b st)"
    unfolding inc_svccb_count_def by (intro spost_basic post_if) simp_all
  then have "post (\<lambda>st'. sinv st' \<and> svccbs st' = svccbs st) (inc_svccb_count b st)"
    using post_inc_svccb_count [OF s, of b] by (intro post_conj) simp_all
  then show ?thesis using w by (cases "inc_svccb_count b st") (auto simp: waits_def)
qed

lemma post_sendreply_waits: "senv_ok e \<Longrightarrow> waits i a st \<Longrightarrow> post sinv (sendreply e a i x nocache st)"
  using post_sendreply by (auto simp: waits_def)

lemma post_accepterr_waits: "waits i a st \<Longrightarrow> post (waits i a) (asrv_accepterr e x d stat m st)"
  using post_accepterr [of st e x d stat m] waits_view by (cases "asrv_accepterr e x d stat m st") auto

lemma post_garbage_args:
  assumes "senv_ok e" "waits i a st"
  shows "post sinv (garbage_args e x a i src m st)"
  unfolding garbage_args_def
  by (rule post_bind [OF post_accepterr_waits [OF assms(2)]], rule post_bind [OF post_inc_waits], assumption)
    (rule post_sendreply_waits [OF assms(1)])

lemma post_served:
  assumes "senv_ok e" "waits i a st"
  shows "post sinv (bindR (inc_svccb_count a (upd_sb i (\<lambda>s. s\<lparr>arg := True\<rparr>) st)) (call_cb e a (Some i)))"
  by (rule post_bind [OF post_inc_waits [OF waits_upd_arg [OF assms(2)]]])
    (use post_call_cb [OF assms(1), of Map.empty] in \<open>auto simp: waits_def\<close>)

lemma post_asrv_serve:
  assumes e: "senv_ok e" and g: "sgood [i \<mapsto> s] st" "sres s = None"
  shows "post sinv (asrv_serve e x a i vers c msg src st)"
proof -
  have hook: "post (sgood [i \<mapsto> s]) (case h of None \<Rightarrow> Inr st | Some h \<Rightarrow> snotify e (RecvHook h) st)" for h
    by (intro post_option post_snotify e g) (simp add: g)
  have del: "post sinv (bindR (asrv_accepterr e x src stat m st2) (svccb_delete i))" if "holding i a st1 st2" for st1 st2 stat m
    by (rule post_bind [OF post_accepterr]) (use holding_delete [OF that] in blast)
  show ?thesis
    unfolding asrv_serve_def Let_def
  proof (rule post_bind [OF post_getsrv], rule post_bind [OF hook], rule post_bind [OF post_svccb_init [OF _ g(2)]], assumption,
      rule post_bind [OF post_getsrv], rule post_if, erule del, rule post_bind [OF post_isreplay], assumption, clarify)
    fix st1 st2 st3 rep
    assume r: "if rep then \<exists>st' st''. holding i a st' st'' \<and> same_view st'' st3 else waits i a st3"
    have "post sinv (svccb_delete i st3)" if rep using r that holding_delete by auto
    moreover have "waits i a st3" "waits i a (upd_sb i (\<lambda>s. s\<lparr>arg := True\<rparr>) st3)" if "\<not> rep"
      using r that by (simp_all add: waits_upd_arg)
    ultimately show "post sinv (if rep then svccb_delete i st3
       else case if vers \<noteq> 2 then xdr_virtual_map e vers else None of
         None \<Rightarrow> if \<not> xdr_arg e (cb_prog c, cb_vers c, cb_proc c) msg
           then garbage_args e x a i src (cb_xid c, cb_prog c, cb_vers c) (upd_sb i (\<lambda>s. s\<lparr>arg := True\<rparr>) st3)
           else bindR (inc_svccb_count a (upd_sb i (\<lambda>s. s\<lparr>arg := True\<rparr>) st3)) (call_cb e a (Some i))
       | Some dec \<Rightarrow> if \<not> dec (drop (cb_pos c) msg) then garbage_args e x a i src (cb_xid c, cb_prog c, cb_vers c) st3
           else if \<not> xdr_arg e (cb_prog c, cb_vers c, cb_proc c) msg
           then garbage_args e x a i src (cb_xid c, cb_prog c, cb_vers c) (upd_sb i (\<lambda>s. s\<lparr>arg := True\<rparr>) st3)
           else bindR (inc_svccb_count a (upd_sb i (\<lambda>s. s\<lparr>arg := True\<rparr>) st3)) (call_cb e a (Some i)))"
      by (intro post_if post_option post_garbage_args [OF e] post_served [OF e]) simp_all
  qed
qed

lemma post_delete_sgood:
  assumes "sgood [i \<mapsto> s] st"
  shows "post sinv (svccb_delete i st)"
proof -
  have "sinv st" "\<And>a sv. asrvs st a = Some sv \<Longrightarrow> i \<notin> set (rtab sv)" using assms by (simp_all add: sgood_def priv_def)
  from deleted_sgood [OF this(1) _ this(2)] show ?thesis
    using post_svccb_delete [of i st] by (cases "svccb_delete i st") auto
qed

lemma sgood_upd_priv:
  assumes g: "sgood [i \<mapsto> s] st" and f: "srv (f s) = None"
  shows "sgood [i \<mapsto> f s] (upd_sb i f st)"
proof -
  have inv: "sinv0 st" "bound_ok st" "priv st i" "svccbs st i = Some s" using g by (simp_all add: sgood_def sinv_def)
  have "srv_ok (upd_sb i f st) a sv" if "asrvs st a = Some sv" for a sv
  proof -
    have "svccbs (upd_sb i f st) j = svccbs st j" if "j \<in> set (rtab sv)" for j
      using that inv(3) \<open>asrvs st a = Some sv\<close> by (auto simp: priv_def)
    then show ?thesis using sinv0_srv [OF inv(1) that] unfolding srv_ok_def by simp
  qed
  moreover have "sb_ok (upd_sb i f st)"
    using inv(1,4) f unfolding sinv0_def sb_ok_def by auto
  moreover have "disj_ok (upd_sb i f st)" "bound_ok (upd_sb i f st)"
    using inv(1,2) by (simp_all add: sinv0_def disj_ok_def bound_ok_def)
  moreover have "priv (upd_sb i f st) i" using inv(3,4) f by (simp add: priv_def)
  ultimately show ?thesis using inv(4) by (simp add: sgood_def sinv_def sinv0_def)
qed

lemma post_asrv_dispatch:
  assumes e: "senv_ok e" and inv: "sinv st"
  shows "post sinv (asrv_dispatch e x m len src st)"
proof -
  have eof: "post sinv (asrv_seteof e x f st)" for f using post_asrv_seteof [OF e, of Map.empty st x f] inv by simp
  obtain i st1 where new: "svccb_new st = (i, st1)" by fastforce
  obtain s where g: "sgood [i \<mapsto> s] st1" "sres s = None" using sgood_svccb_new [OF inv new] by blast
  have rej: "post sinv (bindR (asrv_accepterr e x src PROG_UNAVAIL k st2) (svccb_delete i))" if "sgood [i \<mapsto> t] st2" for k t st2
    by (rule post_bind [OF post_accepterr]) (use that same_viewD post_delete_sgood in blast)
  have main: "post sinv (case xdr_callmsg e msg of
       None \<Rightarrow> bindR (asrv_seteof e x False st1) (svccb_delete i)
     | Some c \<Rightarrow>
         if cb_rpcvers c \<noteq> 2 then svccb_delete i (asrv_rpc_mismatch e x src (cb_xid c) st1)
         else
           let st = upd_sb i (\<lambda>s. s\<lparr>sxid := cb_xid c, sprog := cb_prog c, svers := cb_vers c, sproc := cb_proc c, srpcvers := vers\<rparr>) st1
           in case stab_lookup st x (cb_prog c, cb_vers c) of
                None \<Rightarrow> bindR (asrv_accepterr e x src PROG_UNAVAIL (cb_xid c, cb_prog c, cb_vers c) st) (svccb_delete i)
              | Some a \<Rightarrow> bindR (getsrv a st) (\<lambda>sv. if scb sv = None
                    then bindR (asrv_accepterr e x src PROG_UNAVAIL (cb_xid c, cb_prog c, cb_vers c) st) (svccb_delete i)
                    else asrv_serve e x a i vers c msg src st))" for vers msg
  proof (intro post_option post_if)
    show "post sinv (bindR (asrv_seteof e x False st1) (svccb_delete i))"
      by (rule post_bind [OF post_asrv_seteof [OF e g(1)] post_delete_sgood])
  next
    fix c :: rpc_call
    have v: "same_view st1 (asrv_rpc_mismatch e x src (cb_xid c) st1)" by (simp add: asrv_rpc_mismatch_def same_view_def)
    show "post sinv (svccb_delete i (asrv_rpc_mismatch e x src (cb_xid c) st1))"
      by (rule post_delete_sgood [of i s]) (simp add: same_viewD [OF v] g(1))
    let ?f = "\<lambda>s. s\<lparr>sxid := cb_xid c, sprog := cb_prog c, svers := cb_vers c, sproc := cb_proc c, srpcvers := vers\<rparr>"
    have "priv st1 i" "svccbs st1 i = Some s" using g(1) by (simp_all add: sgood_def)
    then have "srv s = None" by (auto simp: priv_def)
    then have g2: "sgood [i \<mapsto> ?f s] (upd_sb i ?f st1)" using sgood_upd_priv [OF g(1), of ?f] by simp
    show "post sinv (let st = upd_sb i ?f st1
           in case stab_lookup st x (cb_prog c, cb_vers c) of
                None \<Rightarrow> bindR (asrv_accepterr e x src PROG_UNAVAIL (cb_xid c, cb_prog c, cb_vers c) st) (svccb_delete i)
              | Some a \<Rightarrow> bindR (getsrv a st) (\<lambda>sv. if scb sv = None
                    then bindR (asrv_accepterr e x src PROG_UNAVAIL (cb_xid c, cb_prog c, cb_vers c) st) (svccb_delete i)
                    else asrv_serve e x a i vers c msg src st))"
      unfolding Let_def
      by (intro post_option post_bind [OF post_getsrv] post_if rej [OF g2] post_asrv_serve [OF e g2]) (simp add: g(2))
  qed
  show ?thesis
    unfolding asrv_dispatch_def new prod.case
    apply (intro post_option post_if eof post_any)
    subgoal for msg ty p by (cases p) (simp only: prod.case main)
    done
qed

section \<open>The user's operations\<close>

lemma post_svccb_reply:
  assumes "senv_ok e" "sinv st" "\<And>s r. svccbs st i = Some s \<Longrightarrow> xdr_replymsg e (srpcvers s) (sxid s) (Success r) \<noteq> None"
  shows "post sinv (svccb_reply e i r nocache st)"
  unfolding svccb_reply_def
proof (intro spost_basic post_option)
  fix s assume "svccbs st i = Some s" "xdr_replymsg e (srpcvers s) (sxid s) (Success r) = None"
  then show "post sinv (svccb_delete i st)" using assms(3) by blast
qed (auto intro: post_sendreply assms)

lemma post_rejecting:
  assumes e: "senv_ok e" and inv: "sinv st" and s: "svccbs st i = Some s" "srv s = Some a" and m: "post (same_view st) m"
  shows "post sinv (bindR m (sendreply e a i None True))"
proof (rule post_bind [OF m])
  fix st1 assume v: "same_view st st1"
  show "post sinv (sendreply e a i None True st1)"
    using post_sendreply [OF e, of st1 i s a] same_viewD [OF v, of Map.empty] inv s v by (simp add: same_view_def)
qed

lemma post_reject:
  assumes "senv_ok e" "sinv st"
  shows "post sinv (svccb_reject_auth e i astat st)" "post sinv (svccb_reject_accept e i stat st)" "post sinv (svccb_ignore e i st)"
proof -
  have v: "same_view st st" by (simp add: same_view_def)
  show "post sinv (svccb_reject_auth e i astat st)"
    unfolding svccb_reject_auth_def
    by (intro spost_basic post_option post_rejecting [OF assms] post_if post_auth_reject) (auto simp: v)
  show "post sinv (svccb_reject_accept e i stat st)"
    unfolding svccb_reject_accept_def
    by (intro spost_basic post_option post_rejecting [OF assms] post_if post_accepterr) (auto simp: v)
  show "post sinv (svccb_ignore e i st)"
    unfolding svccb_ignore_def by (intro spost_basic post_option) (auto intro: post_sendreply assms)
qed

lemma post_getvoidres:
  assumes "sinv st"
  shows "post sinv (getvoidres i st)"
  unfolding getvoidres_def
proof (intro spost_basic post_if)
  fix s assume s: "svccbs st i = Some s" "srv s \<noteq> None"
  have "sinv0 (upd_sb i (\<lambda>s. s\<lparr>resdat := True\<rparr>) st)"
    using assms s by (intro sinv0_upd_sb) (auto simp: sinv_def sbkey_def)
  then show "post sinv (Inr (upd_sb i (\<lambda>s. s\<lparr>resdat := True\<rparr>) st))" using assms by (simp add: sinv_def bound_ok_def)
qed (simp add: assms)

section \<open>Servers\<close>

lemma post_start_stop: "post (same_view st) (asrv_start a st)" "post (same_view st) (asrv_stop a st)"
  unfolding asrv_start_def asrv_stop_def by (intro spost_basic post_if; simp add: same_view_def)+

lemma post_same_view: "sgood I st \<Longrightarrow> post (same_view st) m \<Longrightarrow> post (sgood I) m"
  using same_viewD by (cases m) auto

lemma sinv_add_srv:
  assumes inv: "sinv st" and new: "asrvs st a = None" and sv: "rtab sv = []" "rq sv = []" "rsize sv = 0"
  shows "sinv (st\<lparr>asrvs := (asrvs st)(a \<mapsto> sv)\<rparr>)"
proof -
  let ?st = "st\<lparr>asrvs := (asrvs st)(a \<mapsto> sv)\<rparr>"
  have inv0: "sinv0 st" "bound_ok st" using inv by (simp_all add: sinv_def)
  have "srv_ok ?st b sw" if "asrvs ?st b = Some sw" for b sw
    using that sinv0_srv [OF inv0(1), of b sw] sv by (cases "b = a") (auto simp: srv_ok_def)
  moreover have "sb_ok ?st"
    unfolding sb_ok_def
  proof (intro allI impI)
    fix i s assume "svccbs ?st i = Some s"
    then have s: "svccbs st i = Some s" by simp
    have "\<exists>sw. asrvs ?st b = Some sw \<and> (replaying (akind sw) \<longrightarrow> i \<in> set (rtab sw))" if hb: "srv s = Some b" for b
      using sinv0_sb(2) [OF inv0(1) s hb] new by auto
    then show "i < nextsb ?st \<and> (\<forall>b. srv s = Some b \<longrightarrow> (\<exists>sw. asrvs ?st b = Some sw \<and> (replaying (akind sw) \<longrightarrow> i \<in> set (rtab sw))))"
      using sinv0_sb(1) [OF inv0(1) s] by simp
  qed
  moreover have "disj_ok ?st" using sinv0_disj [OF inv0(1)] sv(1) by (auto simp: disj_ok_def)
  moreover have "bound_ok ?st" using inv0(2) sv(2) by (auto simp: bound_ok_def)
  ultimately show ?thesis by (simp add: sinv_def sinv0_def)
qed

lemma post_asrv_new:
  assumes "sinv st" "asrvs st a = None"
  shows "post sinv (asrv_new a x pr c k st)"
proof -
  obtain pn vn np where pr: "pr = (pn, vn, np)" by (cases pr) auto
  let ?sv = "\<lparr>sxi = x, pv = (pn, vn), snproc = np, scb = c, srecv_hook = None, akind = k, rsize = 0, rq = [], rtab = [],
           dcount = 0, deof = False, dasrv_cb = None, deofcb = None\<rparr>"
  have "sgood Map.empty (st\<lparr>asrvs := (asrvs st)(a \<mapsto> ?sv)\<rparr>)" using sinv_add_srv [OF assms, of ?sv] by simp
  from post_same_view [OF this post_start_stop(1)] show ?thesis by (simp add: asrv_new_def pr)
qed

lemma post_allocs:
  assumes e: "senv_ok e" and inv: "sinv st" "asrvs st a = None"
  shows "post (\<lambda>(r, st). sinv st) (asrv_alloc e a x pr c res st)" "post (\<lambda>(r, st). sinv st) (delayed_alloc e a x pr c ec st)"
proof -
  let ?Q = "\<lambda>(r, st). sinv st"
  have new: "post sinv (asrv_new a y pr d k st)" for y d k by (rule post_asrv_new [OF inv])
  have ret: "post ?Q (Inr (b, st'))" if "sinv st'" for b st' using that by simp
  have fire: "post ?Q (bindR (snotify e ev st') (\<lambda>st. Inr (r, st)))" if "sinv st'" for ev st' r
    by (rule post_bind [OF post_snotify [OF e, of Map.empty]]) (use that in simp_all)
  have base: "post ?Q (asrv_alloc_base e a x pr c f st)" for f
    unfolding asrv_alloc_base_def
    by (rule post_bind [where Q = ?Q], intro post_option post_bind [OF new], auto simp: inv intro!: fire)
  moreover have "post ?Q (resumable_alloc a x pr c st)"
    unfolding resumable_alloc_def by (intro post_option spost_basic post_bind [OF new]) (simp_all add: inv)
  ultimately show "post ?Q (asrv_alloc e a x pr c res st)" by (simp add: asrv_alloc_def)
  have dset: "post sinv (delayed_setcb e a c (upd_srv a (\<lambda>sv. sv\<lparr>deofcb := ec\<rparr>) st'))" if "sinv st'" for st'
    using post_delayed_setcb [OF e, of Map.empty] sgood_upd_srv [of Map.empty st'] that by simp
  show "post ?Q (delayed_alloc e a x pr c ec st)"
    unfolding delayed_alloc_def
    by (intro post_option post_if post_bind [OF new] post_bind [OF dset]) (simp_all add: inv)
qed

lemma post_del_all: "asrvs st a = Some sv \<Longrightarrow>
  post (\<lambda>st'. (\<exists>sv'. asrvs st' = (asrvs st)(a \<mapsto> sv')) \<and> svccbs st' = (\<lambda>j. if j \<in> set is then None else svccbs st j) \<and>
    nextsb st' = nextsb st) (del_all a is st)"
proof (induction "is" arbitrary: st sv)
  case Nil
  then show ?case by (auto simp: fun_eq_iff)
next
  case (Cons i "is")
  show ?case
    unfolding del_all.simps
  proof (rule post_bind [OF post_delsbp [OF Cons.prems]], elim conjE)
    fix st1 let ?sv = "sv\<lparr>rtab := remove1 i (rtab sv), rq := remove1 i (rq sv)\<rparr>"
    assume d: "dropped a ?sv i st st1"
    then have "asrvs st1 a = Some ?sv" by (simp add: dropped_def)
    from Cons.IH [OF this] show "post (\<lambda>st'. (\<exists>sv'. asrvs st' = (asrvs st)(a \<mapsto> sv')) \<and>
        svccbs st' = (\<lambda>j. if j \<in> set (i # is) then None else svccbs st j) \<and> nextsb st' = nextsb st) (del_all a is st1)"
      using d by (cases "del_all a is st1") (auto simp: dropped_def fun_eq_iff)
  qed
qed

lemma sinv_remove_srv:
  assumes inv: "sinv st" and sv: "asrvs st a = Some sv" and ref: "\<And>i s. svccbs st i = Some s \<Longrightarrow> srv s \<noteq> Some a"
    and st': "asrvs st' = (asrvs st)(a := None)" "svccbs st' = (\<lambda>j. if j \<in> set (rtab sv) then None else svccbs st j)" "nextsb st' = nextsb st"
  shows "sinv st'"
proof -
  have inv0: "sinv0 st" "bound_ok st" using inv by (simp_all add: sinv_def)
  have "srv_ok st' b sw" if hb: "asrvs st' b = Some sw" for b sw
  proof -
    have b: "asrvs st b = Some sw" "b \<noteq> a" using hb st'(1) by (auto split: if_splits)
    then have "svccbs st' j = svccbs st j" if "j \<in> set (rtab sw)" for j
      using sinv0_disj [OF inv0(1) sv b(1)] that st'(2) by auto
    then show ?thesis using sinv0_srv [OF inv0(1) b(1)] unfolding srv_ok_def by simp
  qed
  moreover have "sb_ok st'"
    unfolding sb_ok_def
  proof (intro allI impI)
    fix i s assume "svccbs st' i = Some s"
    then have s: "svccbs st i = Some s" using st'(2) by (simp split: if_splits)
    have "\<exists>sw. asrvs st' b = Some sw \<and> (replaying (akind sw) \<longrightarrow> i \<in> set (rtab sw))" if hb: "srv s = Some b" for b
      using sinv0_sb(2) [OF inv0(1) s hb] ref [OF s] hb st'(1) by auto
    then show "i < nextsb st' \<and> (\<forall>b. srv s = Some b \<longrightarrow> (\<exists>sw. asrvs st' b = Some sw \<and> (replaying (akind sw) \<longrightarrow> i \<in> set (rtab sw))))"
      using sinv0_sb(1) [OF inv0(1) s] st'(3) by simp
  qed
  moreover have "disj_ok st'" using sinv0_disj [OF inv0(1)] st'(1) by (auto simp: disj_ok_def)
  moreover have "bound_ok st'" using inv0(2) st'(1) by (auto simp: bound_ok_def)
  ultimately show ?thesis by (simp add: sinv_def sinv0_def)
qed

lemma post_asrv_delete:
  assumes inv: "sinv st" and ref: "\<And>i s. svccbs st i = Some s \<Longrightarrow> srv s \<noteq> Some a"
  shows "post sinv (asrv_delete a st)"
  unfolding asrv_delete_def
proof (rule post_bind [OF post_getsrv])
  fix sv assume sv: "asrvs st a = Some sv"
  show "post sinv (bindR (del_all a (rtab sv) st) (\<lambda>st. bindR (asrv_stop a st) (\<lambda>st. Inr (st\<lparr>asrvs := (asrvs st)(a := None)\<rparr>))))"
  proof (rule post_bind [OF post_del_all [OF sv]], rule post_bind [OF post_start_stop(2)], elim conjE exE)
    fix st1 st2 sv'
    assume v: "same_view st1 st2" "svccbs st1 = (\<lambda>j. if j \<in> set (rtab sv) then None else svccbs st j)"
      "nextsb st1 = nextsb st" "asrvs st1 = (asrvs st)(a \<mapsto> sv')"
    have "sinv (st2\<lparr>asrvs := (asrvs st2)(a := None)\<rparr>)"
      by (rule sinv_remove_srv [OF inv sv ref]) (use v in \<open>auto simp: same_view_def\<close>)
    then show "post sinv (Inr (st2\<lparr>asrvs := (asrvs st2)(a := None)\<rparr>))" by simp
  qed
qed

lemma sinv_readd: "sinv st \<Longrightarrow> sinv (readd x is st)"
proof (induction "is" arbitrary: st)
  case (Cons i "is")
  let ?st = "upd_sb i (\<lambda>s. s\<lparr>soffset := 0\<rparr>) st"
  have "sinv ?st"
    using sinv0_upd_sb [of st i "\<lambda>s. s\<lparr>soffset := 0\<rparr>"] Cons.prems by (simp add: sinv_def bound_ok_def sbkey_def)
  then have "sinv (svcadd x ?st)" using sinv0_frame(3) [of "svcadd x ?st" ?st] by simp
  then show ?case using Cons.IH by simp
qed simp

lemma post_asrv_resume:
  assumes "sinv st"
  shows "post (\<lambda>(b, st). sinv st) (asrv_resume a x st)"
proof -
  have g: "sgood Map.empty st" using assms by simp
  have "post sinv (asrv_stop a st)" using post_same_view [OF g post_start_stop(2)] by simp
  moreover have "post sinv (asrv_start a (upd_srv a (\<lambda>sv. sv\<lparr>sxi := y\<rparr>) st1))" if "sinv st1" for st1 y
    using post_same_view [OF _ post_start_stop(1), of Map.empty] sgood_upd_srv [of Map.empty st1 "\<lambda>sv. sv\<lparr>sxi := y\<rparr>" a] that by simp
  ultimately show ?thesis
    unfolding asrv_resume_def
    by (intro spost_basic post_option post_bind [where Q = sinv and m = "asrv_stop a st"]
        post_bind [where Q = sinv and m = "asrv_start a _"]) (simp_all add: assms sinv_readd)
qed

section \<open>Runs\<close>

text \<open>
  What a program can do with the server library. A server is deleted when the last request that refers
  to it is gone; a reply is one whose encoding succeeds.
\<close>

inductive sstep :: "senv \<Rightarrow> sst \<Rightarrow> sst \<Rightarrow> bool" for e where
  receive: "asrv_dispatch e x m len src st = Inr st' \<Longrightarrow> sstep e st st'"
| reply: "(\<And>s r. svccbs st i = Some s \<Longrightarrow> xdr_replymsg e (srpcvers s) (sxid s) (Success r) \<noteq> None) \<Longrightarrow>
    svccb_reply e i r nocache st = Inr st' \<Longrightarrow> sstep e st st'"
| reject_auth: "svccb_reject_auth e i astat st = Inr st' \<Longrightarrow> sstep e st st'"
| reject: "svccb_reject_accept e i stat st = Inr st' \<Longrightarrow> sstep e st st'"
| ignore: "svccb_ignore e i st = Inr st' \<Longrightarrow> sstep e st st'"
| getres: "getvoidres i st = Inr st' \<Longrightarrow> sstep e st st'"
| alloc: "asrvs st a = None \<Longrightarrow> asrv_alloc e a x pr c b st = Inr (r', st') \<Longrightarrow> sstep e st st'"
| dalloc: "asrvs st a = None \<Longrightarrow> delayed_alloc e a x pr c ec st = Inr (r', st') \<Longrightarrow> sstep e st st'"
| del: "(\<And>i s. svccbs st i = Some s \<Longrightarrow> srv s \<noteq> Some a) \<Longrightarrow> asrv_delete a st = Inr st' \<Longrightarrow> sstep e st st'"
| start: "asrv_start a st = Inr st' \<Longrightarrow> sstep e st st'"
| stop: "asrv_stop a st = Inr st' \<Longrightarrow> sstep e st st'"
| setcb: "asrv_setcb e a c st = Inr st' \<Longrightarrow> sstep e st st'"
| dsetcb: "delayed_setcb e a c st = Inr st' \<Longrightarrow> sstep e st st'"
| hook: "set_srv_recv_hook a c st = Inr st' \<Longrightarrow> sstep e st st'"
| resume: "asrv_resume a x st = Inr (b, st') \<Longrightarrow> sstep e st st'"

lemma sstep_sinv:
  assumes e: "senv_ok e"
  shows "sstep e st st' \<Longrightarrow> sinv st \<Longrightarrow> sinv st'"
proof (induction rule: sstep.induct)
  case receive then show ?case using postD [OF post_asrv_dispatch [OF e]] by blast
next
  case reply then show ?case using postD [OF post_svccb_reply [OF e]] by blast
next
  case reject_auth then show ?case using postD [OF post_reject(1) [OF e]] by blast
next
  case reject then show ?case using postD [OF post_reject(2) [OF e]] by blast
next
  case ignore then show ?case using postD [OF post_reject(3) [OF e]] by blast
next
  case getres then show ?case using postD [OF post_getvoidres] by blast
next
  case (alloc st a x pr c b r' st')
  from postD [OF post_allocs(1) [OF e alloc.prems alloc.hyps(1)] alloc.hyps(2)] show ?case by simp
next
  case (dalloc st a x pr c ec r' st')
  from postD [OF post_allocs(2) [OF e dalloc.prems dalloc.hyps(1)] dalloc.hyps(2)] show ?case by simp
next
  case del then show ?case using postD [OF post_asrv_delete] by blast
next
  case (start a st st')
  then show ?case using postD [OF post_same_view [of Map.empty, OF _ post_start_stop(1)]] by simp
next
  case (stop a st st')
  then show ?case using postD [OF post_same_view [of Map.empty, OF _ post_start_stop(2)]] by simp
next
  case setcb then show ?case using postD [OF post_asrv_setcb [OF e, of Map.empty]] by simp
next
  case dsetcb then show ?case using postD [OF post_delayed_setcb [OF e, of Map.empty]] by simp
next
  case (hook a c st st')
  have "st' = upd_srv a (\<lambda>sv. sv\<lparr>srecv_hook := c\<rparr>) st" using hook.hyps by (auto simp: set_srv_recv_hook_def res_simps)
  then show ?case using sgood_upd_srv [of Map.empty st] hook.prems by simp
next
  case resume then show ?case using postD [OF post_asrv_resume] by fastforce
qed

definition sst0 :: "(txid \<Rightarrow> sxh) \<Rightarrow> sst" where
  "sst0 xs = \<lparr>sxhs = \<lambda>x. (xs x)\<lparr>sstab := []\<rparr>, asrvs = Map.empty, svccbs = Map.empty, nextsb = 0, slog = []\<rparr>"

lemma sst0_sinv: "sinv (sst0 xs)"
  by (simp add: sst0_def sinv_def sinv0_def sb_ok_def disj_ok_def bound_ok_def)

lemma reach_sinv: "senv_ok e \<Longrightarrow> (sstep e)\<^sup>*\<^sup>* (sst0 xs) st \<Longrightarrow> sinv st"
  by (rotate_tac 1, induction rule: rtranclp_induct) (auto intro: sst0_sinv sstep_sinv)


text \<open>An environment with passive callbacks, and coders for messages that hold the call in their bytes.\<close>

definition senv0 :: senv where
  "senv0 = \<lparr>suser = \<lambda>ev st. Inr st, ssend = \<lambda>d m t. (True, t\<lparr>sent := sent t @ [(d, m)]\<rparr>),
     xdr_callmsg = \<lambda>m. if length m < 12 then None
       else Some \<lparr>cb_xid = ucast (m ! 0), cb_rpcvers = 2, cb_prog = ucast (m ! 8), cb_vers = ucast (m ! 9), cb_proc = ucast (m ! 10), cb_pos = 11\<rparr>,
     xdr_arg = \<lambda>p m. True, xdr_replymsg = \<lambda>v x r. case r of Success n \<Rightarrow> Some [ucast x, of_nat n] | _ \<Rightarrow> Some [],
     v_XDR_dispatch = False, xdr_virtual_map = \<lambda>v. None, sfuel = 10\<rparr>"

lemma senv0_ok: "senv_ok senv0"
  by (simp add: senv_ok_def senv0_def)

definition sxh0 :: sxh where
  "sxh0 = \<lparr>xport = \<lparr>xateof = False, raw_bytes_sent = 0, sndbufsize = 0, writefd = 3, sent = []\<rparr>, xconnected = False,
     xreliable = False, nsvc = 0, sstab = [], acked_offset = 0\<rparr>"

section \<open>A call that was seen before\<close>

lemma rtab_find_hit:
  assumes "\<And>i. i \<in> set js \<Longrightarrow> \<exists>s. svccbs st i = Some s" "j \<in> set js" "svccbs st j = Some s" "sbkey s = k"
    "\<And>i t. i \<in> set js \<Longrightarrow> svccbs st i = Some t \<Longrightarrow> sbkey t = k \<Longrightarrow> i = j"
  shows "rtab_find st k js = Inr (Some j)"
  using assms
proof (induction js)
  case (Cons i js)
  obtain t where t: "svccbs st i = Some t" using Cons.prems(1) by fastforce
  show ?case
  proof (cases "sbkey t = k")
    case True
    then have "i = j" using Cons.prems(5) [of i t] t by simp
    then show ?thesis using True t by (simp add: getsb_def)
  next
    case False
    then have "j \<in> set js" using Cons.prems(2-4) t by auto
    then have "rtab_find st k js = Inr (Some j)"
      by (intro Cons.IH [OF _ _ Cons.prems(3,4)]) (auto intro: Cons.prems(1,5))
    then show ?thesis using False t by (simp add: getsb_def)
  qed
qed simp

text \<open>The request \<open>asrv::dispatch\<close> has made of a message by the time the cache is asked.\<close>

definition request :: "rpc_call \<Rightarrow> srvid \<Rightarrow> nat option \<Rightarrow> svccb" where
  "request c a src = \<lparr>sxid = cb_xid c, sprog = cb_prog c, svers = cb_vers c, sproc = cb_proc c, srpcvers = 2,
     srv = Some a, saddr = src, arg = False, resdat = False, sres = None, soffset = 0\<rparr>"

definition call_for :: "senv \<Rightarrow> txid \<Rightarrow> srvid \<Rightarrow> u8 list \<Rightarrow> rpc_call \<Rightarrow> sst \<Rightarrow> bool" where
  "call_for e x a msg c st \<longleftrightarrow>
     8 \<le> length msg \<and> getint (drop 4 msg) = Inr 0 \<and> \<not> v_XDR_dispatch e \<and> xdr_callmsg e msg = Some c \<and> cb_rpcvers c = 2 \<and>
     stab_lookup st x (cb_prog c, cb_vers c) = Some a \<and>
     (case asrvs st a of None \<Rightarrow> False | Some sv \<Rightarrow> scb sv \<noteq> None \<and> srecv_hook sv = None \<and> sxi sv = x \<and> cb_proc c < snproc sv) \<and>
     \<not> xconnected (sxhs st x)"

definition arrived :: "txid \<Rightarrow> srvid \<Rightarrow> rpc_call \<Rightarrow> nat option \<Rightarrow> sst \<Rightarrow> sst" where
  "arrived x a c src st =
     svcadd x (st\<lparr>svccbs := (svccbs st)(nextsb st \<mapsto> request c a src), nextsb := nextsb st + 1\<rparr>)"

lemma stab_lookup_cong: "asrvs st' = asrvs st \<Longrightarrow> sxhs st' = sxhs st \<Longrightarrow> stab_lookup st' x k = stab_lookup st x k"
  by (simp add: stab_lookup_def)

lemma dispatch_call:
  assumes "call_for e x a msg c st" "src \<noteq> None"
  shows "asrv_dispatch e x (Some msg) len src st =
    bindR (isreplay e a (nextsb st) (arrived x a c src st)) (\<lambda>(rep, st').
      if rep then svccb_delete (nextsb st) st'
      else if \<not> xdr_arg e (cb_prog c, cb_vers c, cb_proc c) msg
      then garbage_args e x a (nextsb st) src (cb_xid c, cb_prog c, cb_vers c) (upd_sb (nextsb st) (\<lambda>s. s\<lparr>arg := True\<rparr>) st')
      else bindR (inc_svccb_count a (upd_sb (nextsb st) (\<lambda>s. s\<lparr>arg := True\<rparr>) st')) (call_cb e a (Some (nextsb st))))"
proof -
  obtain sv where sv: "asrvs st a = Some sv" "scb sv \<noteq> None" "srecv_hook sv = None" "sxi sv = x" "cb_proc c < snproc sv"
    using assms(1) by (auto simp: call_for_def split: option.splits)
  let ?i = "nextsb st"
  let ?st1 = "upd_sb ?i (\<lambda>s. s\<lparr>sxid := cb_xid c, sprog := cb_prog c, svers := cb_vers c, sproc := cb_proc c, srpcvers := 2\<rparr>) (snd (svccb_new st))"
  have st1: "asrvs ?st1 = asrvs st" "sxhs ?st1 = sxhs st" by (simp_all add: svccb_new_def)
  have look: "stab_lookup ?st1 x (cb_prog c, cb_vers c) = Some a"
    using assms(1) stab_lookup_cong [OF st1] by (simp add: call_for_def)
  have vv: "xdr_virtual_version e msg = Inr (2, msg)" using assms(1) by (simp add: xdr_virtual_version_def call_for_def)
  have init: "svccb_init ?i a src ?st1 = Inr (arrived x a c src st)"
    using sv assms by (auto simp: svccb_init_def getsrv_def getsb_def svccb_new_def Let_def arrived_def request_def call_for_def
      upd_sb_def svcadd_def upd_sxh_def)
  have np: "\<not> snproc sv \<le> cb_proc c" using sv(5) by (simp add: not_le)
  have arr: "asrvs (arrived x a c src st) = asrvs st" by (simp add: arrived_def)
  have "asrv_dispatch e x (Some msg) len src st = asrv_serve e x a ?i 2 c msg src ?st1"
    using assms(1) look vv sv(1,2) st1(1)
    by (auto simp: asrv_dispatch_def call_for_def getsrv_def svccb_new_def Let_def)
  then show ?thesis
    using init sv(1-4) np st1(1) arr by (simp add: asrv_serve_def getsrv_def Let_def cong: if_cong)
qed


text \<open>A server on a datagram transport with one answered call in its cache.\<close>

definition srv0 :: "sid list \<Rightarrow> sid list \<Rightarrow> asrv" where
  "srv0 tab q = \<lparr>sxi = 0, pv = (100, 1), snproc = 3, scb = Some 7, srecv_hook = None, akind = Unreliable 16, rsize = length q,
     rq = q, rtab = tab, dcount = 0, deof = False, dasrv_cb = None, deofcb = None\<rparr>"

definition call0 :: rpc_call where
  "call0 = \<lparr>cb_xid = 9, cb_rpcvers = 2, cb_prog = 100, cb_vers = 1, cb_proc = 2, cb_pos = 11\<rparr>"

definition msg0 :: "u8 list" where
  "msg0 = [9, 0, 0, 0, 0, 0, 0, 0, 100, 1, 2, 0]"

definition sst1 :: "bool \<Rightarrow> sst" where
  "sst1 ans = \<lparr>sxhs = \<lambda>x. sxh0\<lparr>sstab := [0], nsvc := 1\<rparr>, asrvs = [0 \<mapsto> srv0 [0] (if ans then [0] else [])],
     svccbs = [0 \<mapsto> (request call0 0 (Some 5))\<lparr>srv := (if ans then None else Some 0), sres := (if ans then Some [1, 2] else None)\<rparr>],
     nextsb = 1, slog = []\<rparr>"

lemma sst1_sinv: "sinv (sst1 b)"
  by (simp add: sinv_def sinv0_def srv_ok_def sb_ok_def disj_ok_def bound_ok_def sst1_def srv0_def entry_ok_def request_def)

lemma sst1_call: "call_for senv0 0 0 msg0 call0 (sst1 b)"
  by (simp add: call_for_def senv0_def msg0_def call0_def sst1_def srv0_def stab_lookup_def sxh0_def)


lemma asrv_start_first:
  "asrvs st a = Some sv \<Longrightarrow> sstab (sxhs st (sxi sv)) = [] \<Longrightarrow>
     asrv_start a st = Inr (upd_sxh (sxi sv) (\<lambda>h. h\<lparr>sstab := a # sstab h\<rparr>) st)"
  by (simp add: asrv_start_def getsrv_def stab_lookup_def)


section \<open>A reply that cannot be encoded\<close>

lemma rtab_find_dangling:
  assumes "i \<in> set js" "svccbs st i = None" "\<And>j t. j \<in> set js \<Longrightarrow> svccbs st j = Some t \<Longrightarrow> sbkey t \<noteq> k"
  shows "rtab_find st k js = Inl UseAfterFree"
  using assms by (induction js) (auto simp: getsb_def split: option.splits)

text \<open>
  C29. A use after free. When the results of a call cannot be encoded, \<open>svccb::reply\<close> deletes the request
  without taking it out of the cache of its server; the next retransmission of that call walks into the
  deleted object.
\<close>

theorem reply_failure_dangles:
  assumes inv: "sinv st" and s: "svccbs st i = Some s" "srv s = Some a" and sv: "asrvs st a = Some sv" "akind sv = Unreliable n"
    and enc: "xdr_replymsg e (srpcvers s) (sxid s) (Success r) = None" and nsvc: "nsvc (sxhs st x) \<noteq> 0"
    and c: "call_for e x a msg c st" "src \<noteq> None" "sbkey s = (cb_xid c, cb_prog c, cb_vers c, cb_proc c, src)"
  shows "\<exists>st'. svccb_reply e i r nocache st = Inr st' \<and> asrv_dispatch e x (Some msg) len src st' = Inl UseAfterFree"
proof -
  have inv0: "sinv0 st" using inv by (simp add: sinv_def)
  note ok = srv_okD [OF sinv0_srv [OF inv0 sv(1)]]
  have i: "i \<in> set (rtab sv)" using waiting(1) [OF inv0 s sv(1)] sv(2) by simp
  have x: "sxi sv = x" using c(1) sv(1) by (simp add: call_for_def)
  let ?st = "(upd_sxh x (\<lambda>h. h\<lparr>nsvc := nsvc h - 1\<rparr>) st)\<lparr>svccbs := (svccbs st)(i := None)\<rparr>"
  have rep: "svccb_reply e i r nocache st = Inr ?st"
    using s sv(1) enc x nsvc by (simp add: svccb_reply_def svccb_delete_def getsb_def getsrv_def svcdel_def)
  have c': "call_for e x a msg c ?st" using c(1) by (simp add: call_for_def stab_lookup_def)
  let ?i = "nextsb st"
  let ?st1 = "arrived x a c src ?st"
  have lt: "j < ?i" if "j \<in> set (rtab sv)" for j using ok(4) [OF that] sinv0_sb(1) [OF inv0] by blast
  have st1: "asrvs ?st1 a = Some sv" "svccbs ?st1 = ((svccbs st)(i := None))(?i \<mapsto> request c a src)" "nextsb ?st = ?i"
    using sv(1) by (simp_all add: arrived_def)
  have "rtab_find ?st1 (sbkey (request c a src)) (rtab sv) = Inl UseAfterFree"
  proof (rule rtab_find_dangling [OF i])
    show "svccbs ?st1 i = None" using st1(2) lt [OF i] by simp
    fix j t assume j: "j \<in> set (rtab sv)" "svccbs ?st1 j = Some t"
    then have "j \<noteq> i" "svccbs st j = Some t" using st1(2) lt [OF j(1)] by (auto split: if_splits)
    moreover have "sbkey (request c a src) = sbkey s" by (simp add: c(3)) (simp add: sbkey_def request_def)
    ultimately show "sbkey t \<noteq> sbkey (request c a src)" using ok(5) [OF j(1) i _ s(1)] by auto
  qed
  then have "isreplay e a ?i ?st1 = Inl UseAfterFree"
    using st1 sv(2) by (simp add: isreplay_def unreliable_isreplay_def replay_lookup_def getsrv_def getsb_def)
  then have "asrv_dispatch e x (Some msg) len src ?st = Inl UseAfterFree"
    using dispatch_call [OF c' c(2), of len] st1(3) by simp
  then show ?thesis using rep by blast
qed

theorem reply_failure_dangles_witness:
  "\<exists>st'. svccb_reply (senv0\<lparr>xdr_replymsg := \<lambda>v x r. None\<rparr>) 0 3 False (sst1 False) = Inr st' \<and>
    asrv_dispatch (senv0\<lparr>xdr_replymsg := \<lambda>v x r. None\<rparr>) 0 (Some msg0) 12 (Some 5) st' = Inl UseAfterFree"
proof -
  let ?e = "senv0\<lparr>xdr_replymsg := \<lambda>v x r. None\<rparr>"
  let ?s = "(request call0 0 (Some 5))\<lparr>srv := Some 0, sres := None\<rparr>"
  have "svccbs (sst1 False) 0 = Some ?s" "srv ?s = Some 0" "asrvs (sst1 False) 0 = Some (srv0 [0] [])"
    "akind (srv0 [0] []) = Unreliable 16" "xdr_replymsg ?e (srpcvers ?s) (sxid ?s) (Success 3) = None"
    "nsvc (sxhs (sst1 False) 0) \<noteq> 0" "Some (5::nat) \<noteq> None"
    by (simp_all add: sst1_def srv0_def)
  moreover have "call_for ?e 0 0 msg0 call0 (sst1 False)" using sst1_call [of False] by (simp add: call_for_def)
  moreover have "sbkey ?s = (cb_xid call0, cb_prog call0, cb_vers call0, cb_proc call0, Some 5)"
    by (simp add: sbkey_def request_def)
  ultimately show ?thesis
    using reply_failure_dangles [OF sst1_sinv [of False], of 0 ?s 0 "srv0 [0] []" 16 ?e 3 0 msg0 call0 "Some 5"] by blast
qed

section \<open>The number of calls being served\<close>

lemma svccb_delete_nsvc:
  assumes "svccbs st i = Some s" "srv s = None" "svccb_delete i st = Inr st'"
  shows "nsvc (sxhs st' x) = nsvc (sxhs st x)"
  using assms by (auto simp: svccb_delete_def getsb_def res_simps)

text \<open>Every entry of the queue has let go of its server.\<close>

lemma delsbp_nsvc:
  assumes "svccbs st j = Some s" "srv s = None" "delsbp a j st = Inr st'"
  shows "nsvc (sxhs st' x) = nsvc (sxhs st x)"
proof -
  obtain st1 st2 where st: "rtab_remove a j st = Inr st1" "rq_remove a j st1 = Inr st2" "svccb_delete j st2 = Inr st'"
    using assms(3) by (auto simp: delsbp_def res_simps)
  then have "svccbs st2 j = Some s" "sxhs st2 = sxhs st"
    using assms(1) by (auto simp: rtab_remove_def rq_remove_def res_simps)
  then show ?thesis using svccb_delete_nsvc [OF _ assms(2) st(3), of x] by simp
qed

lemma evict_while_nsvc:
  "evict_while P a js st = Inr st' \<Longrightarrow> distinct js \<Longrightarrow> (\<And>j s. j \<in> set js \<Longrightarrow> svccbs st j = Some s \<Longrightarrow> srv s = None) \<Longrightarrow>
     nsvc (sxhs st' x) = nsvc (sxhs st x)"
proof (induction js arbitrary: st)
  case (Cons j js)
  obtain s where s: "svccbs st j = Some s" using Cons.prems(1) by (auto simp: res_simps getsb_eq)
  show ?case
  proof (cases "P s")
    case True
    then obtain st1 where st1: "delsbp a j st = Inr st1" "evict_while P a js st1 = Inr st'"
      using Cons.prems(1) s by (auto simp: res_simps getsb_eq)
    have sb: "svccbs st1 = (svccbs st)(j := None)"
    proof (cases "asrvs st a")
      case (Some sv)
      then show ?thesis using postD [OF post_delsbp [OF Some] st1(1)] by (simp add: dropped_def)
    qed (use st1(1) in \<open>simp add: delsbp_def rtab_remove_def getsrv_def\<close>)
    have "nsvc (sxhs st' x) = nsvc (sxhs st1 x)"
      by (rule Cons.IH [OF st1(2)]) (use Cons.prems(2,3) sb in \<open>auto split: if_splits\<close>)
    moreover have "nsvc (sxhs st1 x) = nsvc (sxhs st x)"
      using delsbp_nsvc [OF s _ st1(1)] Cons.prems(3) [OF _ s] by simp
    ultimately show ?thesis by simp
  next
    case False
    then show ?thesis using Cons.prems(1) s by (simp add: getsb_def)
  qed
qed simp

text \<open>
  C30. A resumable server never finishes a call in the books of its transport. A reply leaves the count of
  calls being served, which \<open>dispatch\<close> raised, as it is: the request lets go of its server when it
  enters the cache, and its destructor then finds no server to lower the count of. \<open>axprt_crypt::encrypt\<close>,
  which refuses to work while calls are being served, can thus never be used after a reply.
\<close>

theorem resumable_reply_keeps_nsvc:
  assumes inv: "sinv st" and s: "svccbs st i = Some s" "srv s = Some a" and sv: "asrvs st a = Some sv" "akind sv = Resumable"
    and enc: "xdr_replymsg e (srpcvers s) (sxid s) (Success r) = Some m"
    and rep: "svccb_reply e i r nocache st = Inr st'"
  shows "nsvc (sxhs st' x) = nsvc (sxhs st x)"
proof -
  have inv0: "sinv0 st" using inv by (simp add: sinv_def)
  note ok = srv_okD [OF sinv0_srv [OF inv0 sv(1)]]
  have w: "i \<in> set (rtab sv)" "i \<notin> set (rq sv)" using waiting [OF inv0 s sv(1)] sv(2) by simp_all
  have send: "resumable_sendreply e a i (Some m) nocache st = Inr st'"
    using rep s sv enc by (simp add: svccb_reply_def sendreply_def getsb_def getsrv_def)
  then have nc: "\<not> nocache" by (auto simp: resumable_sendreply_def res_simps)
  obtain st1 where st1: "replay_sendreply e a i (Some m) False st = Inr st1"
    using send nc by (auto simp: resumable_sendreply_def res_simps)
  have v: "answered i s m st st1"
    using postD [OF post_replay_sendreply [OF inv s sv(1)] st1] sv(2) by simp
  have n1: "nsvc (sxhs st1 x) = nsvc (sxhs st x)"
    using st1 s(1) sv(1) by (auto simp: replay_sendreply_def getsrv_def getsb_def Let_def xh_send_def split: if_splits prod.splits)
  have a1: "asrvs st1 a = Some sv" using v sv(1) by (simp add: answered_def)
  obtain P off where "evict_while P a (rq sv @ [i]) (rq_insert_tail a i (upd_sb i (\<lambda>s. s\<lparr>soffset := off, srv := None\<rparr>) st1)) = Inr st'"
    using send nc st1 a1 by (auto simp: resumable_sendreply_def getsrv_def Let_def)
  then have "nsvc (sxhs st' x) = nsvc (sxhs (rq_insert_tail a i (upd_sb i (\<lambda>s. s\<lparr>soffset := off, srv := None\<rparr>) st1)) x)"
  proof (rule evict_while_nsvc)
    show "distinct (rq sv @ [i])" using ok(2) w(2) by simp
    fix j t assume j: "j \<in> set (rq sv @ [i])"
      "svccbs (rq_insert_tail a i (upd_sb i (\<lambda>s. s\<lparr>soffset := off, srv := None\<rparr>) st1)) j = Some t"
    show "srv t = None"
    proof (cases "j = i")
      case True
      then show ?thesis using j(2) v by (auto simp: rq_insert_tail_def answered_def)
    next
      case False
      then have "j \<in> set (rq sv)" "svccbs st j = Some t" using j v by (auto simp: rq_insert_tail_def answered_def)
      then show ?thesis using ok(3) ok(4) [of j] by (auto simp: entry_ok_def)
    qed
  qed
  then show ?thesis using n1 by (simp add: rq_insert_tail_def)
qed

definition sst2 :: sst where
  "sst2 = \<lparr>sxhs = \<lambda>x. sxh0\<lparr>sstab := [0], nsvc := 1, xconnected := True, xreliable := True\<rparr>,
     asrvs = [0 \<mapsto> (srv0 [0] [])\<lparr>akind := Resumable\<rparr>], svccbs = [0 \<mapsto> request call0 0 None], nextsb = 1, slog = []\<rparr>"

lemma sst2_sinv: "sinv sst2"
  by (simp add: sinv_def sinv0_def srv_ok_def sb_ok_def disj_ok_def bound_ok_def sst2_def srv0_def entry_ok_def request_def)

lemma sst2_reply: "\<exists>st'. svccb_reply senv0 0 3 False sst2 = Inr st'"
  by (simp add: svccb_reply_def sendreply_def resumable_sendreply_def replay_sendreply_def getsb_def getsrv_def sst2_def
      request_def srv0_def senv0_def Let_def xh_send_def rq_insert_tail_def sxh0_def known_received_def)

theorem resumable_reply_keeps_nsvc_witness:
  "\<exists>st'. svccb_reply senv0 0 3 False sst2 = Inr st' \<and> nsvc (sxhs st' 0) = 1"
proof -
  obtain st' where r: "svccb_reply senv0 0 3 False sst2 = Inr st'" using sst2_reply by blast
  have f: "svccbs sst2 0 = Some (request call0 0 None)" "srv (request call0 0 None) = Some 0"
    "asrvs sst2 0 = Some ((srv0 [0] [])\<lparr>akind := Resumable\<rparr>)" "akind ((srv0 [0] [])\<lparr>akind := Resumable\<rparr>) = Resumable"
    "xdr_replymsg senv0 (srpcvers (request call0 0 None)) (sxid (request call0 0 None)) (Success 3) = Some [9, 3]"
    by (simp_all add: sst2_def request_def senv0_def call0_def)
  have "nsvc (sxhs st' 0) = nsvc (sxhs sst2 0)" by (rule resumable_reply_keeps_nsvc [OF sst2_sinv f r])
  then show ?thesis using r by (simp add: sst2_def)
qed

section \<open>Calls for a version that is not served\<close>

definition served_versions :: "sst \<Rightarrow> txid \<Rightarrow> u32 \<Rightarrow> u32 list" where
  "served_versions st x prog =
     map (\<lambda>a. snd (pv (the (asrvs st a)))) (filter (\<lambda>a. case asrvs st a of None \<Rightarrow> False
        | Some sv \<Rightarrow> scb sv \<noteq> None \<and> fst (pv sv) = prog) (sstab (sxhs st x)))"

lemma acc_versions_gen:
  "(\<And>a. a \<in> set as \<Longrightarrow> A a \<noteq> None) \<Longrightarrow>
   vs = map (\<lambda>a. snd (pv (the (A a)))) (filter (\<lambda>a. case A a of None \<Rightarrow> False
        | Some sv \<Rightarrow> scb sv \<noteq> None \<and> fst (pv sv) = prog) as) \<Longrightarrow>
   vers \<notin> set vs \<Longrightarrow> stat \<noteq> PROC_UNAVAIL \<Longrightarrow>
   acc_versions A prog vers as (stat, low, high) =
     Inr (if vs = [] then stat else PROG_MISMATCH, fold min vs low, fold max vs high)"
proof (induction "as" arbitrary: vs stat low high)
  case (Cons a "as")
  obtain sv where sv: "A a = Some sv" using Cons.prems(1) [of a] by auto
  let ?ws = "map (\<lambda>a. snd (pv (the (A a)))) (filter (\<lambda>a. case A a of None \<Rightarrow> False
        | Some sv \<Rightarrow> scb sv \<noteq> None \<and> fst (pv sv) = prog) as)"
  show ?case
  proof (cases "scb sv \<noteq> None \<and> fst (pv sv) = prog")
    case True
    then have vs: "vs = snd (pv sv) # ?ws" using Cons.prems(2) sv by simp
    then have "acc_versions A prog vers as (PROG_MISMATCH, min (snd (pv sv)) low, max (snd (pv sv)) high) =
      Inr (PROG_MISMATCH, fold min ?ws (min (snd (pv sv)) low), fold max ?ws (max (snd (pv sv)) high))"
      using Cons.IH [of ?ws PROG_MISMATCH] Cons.prems(1,3) by simp
    moreover have "(if low > snd (pv sv) then snd (pv sv) else low) = min (snd (pv sv)) low"
      "(if high < snd (pv sv) then snd (pv sv) else high) = max (snd (pv sv)) high"
      by (auto simp: min_def max_def)
    ultimately show ?thesis
      using True sv vs Cons.prems(3,4) by auto
  next
    case False
    then have "vs = ?ws" using Cons.prems(2) sv by auto
    then show ?thesis using Cons.IH [of vs stat low high] Cons.prems False sv by auto
  qed
qed simp

lemma fold_min_eq: "vs \<noteq> [] \<Longrightarrow> (\<And>v. v \<in> set vs \<Longrightarrow> v \<le> b) \<Longrightarrow> fold min vs (b :: 'a :: linorder) = Min (set vs)"
  by (metis List.finite_set Min.set_eq_fold Min_in Min_insert list.simps(15) min.absorb2 min.commute set_empty)

lemma fold_max_eq: "vs \<noteq> [] \<Longrightarrow> (\<And>v. v \<in> set vs \<Longrightarrow> b \<le> v) \<Longrightarrow> fold max vs (b :: 'a :: linorder) = Max (set vs)"
  by (metis List.finite_set Max.set_eq_fold Max_in Max_insert list.simps(15) max.absorb2 set_empty)

text \<open>
  C28. The answer to a call no server takes. A call for a program and version that no server with a callback
  is registered for is answered, without a callback or a panic: by \<open>PROG_MISMATCH\<close> with the least and the
  greatest version there is, if the program is served in other versions, and by \<open>PROG_UNAVAIL\<close> if not.
\<close>

theorem accepterr_versions:
  assumes "list_all (\<lambda>a. asrvs st a \<noteq> None) (sstab (sxhs st x))" "vers \<notin> set (served_versions st x prog)"
  shows "asrv_accepterr e x addr PROG_UNAVAIL (xd, prog, vers) st =
    Inr (xh_reply e x addr xd
      (if served_versions st x prog = [] then AcceptErr PROG_UNAVAIL 0xffffffff 0
       else AcceptErr PROG_MISMATCH (Min (set (served_versions st x prog))) (Max (set (served_versions st x prog)))) st)"
proof -
  let ?vs = "served_versions st x prog"
  have "acc_versions (asrvs st) prog vers (sstab (sxhs st x)) (PROG_UNAVAIL, 0xffffffff, 0) =
    Inr (if ?vs = [] then PROG_UNAVAIL else PROG_MISMATCH, fold min ?vs 0xffffffff, fold max ?vs 0)"
    by (rule acc_versions_gen) (use assms in \<open>auto simp: list_all_iff served_versions_def\<close>)
  moreover have "fold min ?vs 0xffffffff = Min (set ?vs)" "fold max ?vs 0 = Max (set ?vs)" if "?vs \<noteq> []"
  proof -
    have "v \<le> 0xffffffff" for v :: u32
    proof -
      have "unat v < 4294967296" by (rule unat_bounds(2))
      then show ?thesis by (simp add: word_le_nat_alt del: unat_bounds)
    qed
    then show "fold min ?vs 0xffffffff = Min (set ?vs)" by (intro fold_min_eq that)
    show "fold max ?vs 0 = Max (set ?vs)" by (intro fold_max_eq that) simp
  qed
  ultimately show ?thesis by (auto simp: asrv_accepterr_def)
qed

theorem accepterr_versions_witness:
  "asrv_accepterr senv0 0 None PROG_UNAVAIL (5, 100, 7) (sst1 False) = Inr (xh_reply senv0 0 None 5 (AcceptErr PROG_MISMATCH 1 1) (sst1 False))"
proof -
  have vs: "served_versions (sst1 False) 0 100 = [1]" by (simp add: served_versions_def sst1_def srv0_def)
  have "list_all (\<lambda>a. asrvs (sst1 False) a \<noteq> None) (sstab (sxhs (sst1 False) 0))" by (simp add: sst1_def)
  from accepterr_versions [OF this, of 7 100 senv0 None 5] show ?thesis by (simp add: vs)
qed

section \<open>The delayed end of file\<close>

text \<open>
  What happens to an \<open>asrv_delayed_eof\<close>: \<open>dispatch\<close> counts a call and serves it, the user replies or
  drops it, and the transport ends.
\<close>

datatype daction = DCall sid | DReply sid "u8 list option" | DEof

fun dact :: "senv \<Rightarrow> srvid \<Rightarrow> daction \<Rightarrow> sst \<Rightarrow> sst res" where
  "dact e a (DCall i) st = bindR (inc_svccb_count a st) (call_cb e a (Some i))"
| "dact e a (DReply i x) st = sendreply e a i x False st"
| "dact e a DEof st = call_cb e a None st"

fun drun :: "senv \<Rightarrow> srvid \<Rightarrow> daction list \<Rightarrow> sst \<Rightarrow> sst res" where
  "drun e a [] st = Inr st"
| "drun e a (d # ds) st = bindR (dact e a d st) (drun e a ds)"

fun dcalls :: "daction list \<Rightarrow> sid list" where
  "dcalls [] = []"
| "dcalls (DCall i # ds) = i # dcalls ds"
| "dcalls (d # ds) = dcalls ds"

fun is_reply :: "daction \<Rightarrow> bool" where
  "is_reply (DReply i x) = True"
| "is_reply _ = False"

definition passive_srv :: "senv \<Rightarrow> bool" where
  "passive_srv e \<longleftrightarrow> (\<forall>ev st. suser e ev st = Inr st)"

lemma snotify_passive: "passive_srv e \<Longrightarrow> snotify e ev st = Inr (st\<lparr>slog := slog st @ [ev]\<rparr>)"
  by (simp add: passive_srv_def snotify_def)

text \<open>A server of this kind with its callback set.\<close>

definition delayed :: "srvid \<Rightarrow> nat \<Rightarrow> asrv \<Rightarrow> sst \<Rightarrow> bool" where
  "delayed a c sv st \<longleftrightarrow> asrvs st a = Some sv \<and> akind sv = DelayedEof \<and> scb sv \<noteq> None \<and> dasrv_cb sv = Some c"

lemma dact_call:
  assumes "passive_srv e" "delayed a c sv st"
  shows "\<exists>st'. dact e a (DCall i) st = Inr st' \<and> delayed a c (sv\<lparr>dcount := dcount sv + 1\<rparr>) st' \<and> slog st' = slog st @ [Served a c (Some i)]"
  using assms
  by (auto simp: delayed_def inc_svccb_count_def getsrv_def call_cb_def delayed_dispatch_def call_dasrv_cb_def snotify_passive)

lemma dec_before_eof:
  assumes "delayed a c sv st" "\<not> deof sv" "dec_svccb_count e a st = Inr st'"
  shows "delayed a c (sv\<lparr>dcount := dcount sv - 1\<rparr>) st' \<and> slog st' = slog st \<and> 1 \<le> dcount sv"
  using assms by (auto simp: delayed_def dec_svccb_count_def getsrv_def res_simps Let_def)

lemma svccb_delete_log: "svccb_delete i st = Inr st' \<Longrightarrow> slog st' = slog st"
  by (auto simp: svccb_delete_def svcdel_def res_simps split: option.splits)

lemma accepterr_log: "asrv_accepterr e x d stat m st = Inr st' \<Longrightarrow> slog st' = slog st"
  by (cases stat) (auto simp: asrv_accepterr_def res_simps split: prod.splits)

lemma delayed_view: "same_view st st' \<Longrightarrow> delayed a c sv st \<Longrightarrow> delayed a c sv st'"
  by (simp add: delayed_def same_view_def)

lemma plain_sendreply_split:
  assumes "plain_sendreply e a i x nc st = Inr st'"
  shows "\<exists>st1 st2. same_view st st1 \<and> slog st1 = slog st \<and> dec_svccb_count e a st1 = Inr st2 \<and> svccb_delete i st2 = Inr st'"
proof -
  obtain sv where "getsrv a st = Inr sv" and a1: "bindR (getsb i st) (\<lambda>s. bindR (case x of None \<Rightarrow> Inr st | Some m \<Rightarrow>
      if xi_ateof (sxi sv) st then Inr st
      else (case xh_send e (sxi sv) (saddr s) m st of (ok, st) \<Rightarrow>
              if \<not> ok \<and> \<not> xi_ateof (sxi sv) st
              then asrv_accepterr e (sxi sv) (saddr s) SYSTEM_ERR (sxid s, sprog s, svers s) st else Inr st))
      (\<lambda>st. bindR (dec_svccb_count e a st) (svccb_delete i))) = Inr st'"
    using assms unfolding plain_sendreply_def by (rule bindRE)
  obtain s where "getsb i st = Inr s" and a2: "bindR (case x of None \<Rightarrow> Inr st | Some m \<Rightarrow>
      if xi_ateof (sxi sv) st then Inr st
      else (case xh_send e (sxi sv) (saddr s) m st of (ok, st) \<Rightarrow>
              if \<not> ok \<and> \<not> xi_ateof (sxi sv) st
              then asrv_accepterr e (sxi sv) (saddr s) SYSTEM_ERR (sxid s, sprog s, svers s) st else Inr st))
      (\<lambda>st. bindR (dec_svccb_count e a st) (svccb_delete i)) = Inr st'"
    using a1 by (rule bindRE)
  obtain st1 where st1: "(case x of None \<Rightarrow> Inr st | Some m \<Rightarrow>
      if xi_ateof (sxi sv) st then Inr st
      else (case xh_send e (sxi sv) (saddr s) m st of (ok, st) \<Rightarrow>
              if \<not> ok \<and> \<not> xi_ateof (sxi sv) st
              then asrv_accepterr e (sxi sv) (saddr s) SYSTEM_ERR (sxid s, sprog s, svers s) st else Inr st)) = Inr st1"
    "bindR (dec_svccb_count e a st1) (svccb_delete i) = Inr st'"
    using a2 by (rule bindRE)
  have "same_view st st1 \<and> slog st1 = slog st"
  proof (cases "x = None \<or> xi_ateof (sxi sv) st")
    case True
    then have "st1 = st" using st1(1) by (cases x) auto
    then show ?thesis by (simp add: same_view_def)
  next
    case False
    then obtain m where m: "x = Some m" by (cases x) auto
    obtain ok st2 where r: "xh_send e (sxi sv) (saddr s) m st = (ok, st2)" by fastforce
    then have v: "same_view st st2" "slog st2 = slog st"
      using xh_send_sel [of e "sxi sv" "saddr s" m st] by (simp_all add: same_view_def)
    show ?thesis
    proof (cases "\<not> ok \<and> \<not> xi_ateof (sxi sv) st2")
      case True
      then have "asrv_accepterr e (sxi sv) (saddr s) SYSTEM_ERR (sxid s, sprog s, svers s) st2 = Inr st1"
        using st1(1) m r False by simp
      then show ?thesis
        using v postD [OF post_accepterr] accepterr_log by (auto simp: same_view_def)
    next
      case f: False
      have "st1 = st2" using st1(1) m r False f by simp (metis Inr_inject)
      then show ?thesis using v by simp
    qed
  qed
  then show ?thesis using st1(2) by (auto simp: res_simps)
qed

lemma reply_before_eof:
  assumes d: "delayed a c sv st" "\<not> deof sv" and r: "dact e a (DReply i x) st = Inr st'"
  shows "delayed a c (sv\<lparr>dcount := dcount sv - 1\<rparr>) st' \<and> slog st' = slog st \<and> 1 \<le> dcount sv"
proof -
  have "delayed_sendreply e a i x False st = Inr st'"
    using r d(1) by (simp add: sendreply_def getsrv_def delayed_def)
  then consider "dec_svccb_count e a st = Inr st'" | "plain_sendreply e a i x False st = Inr st'"
    using d by (auto simp: delayed_sendreply_def getsrv_def delayed_def split: if_splits)
  then show ?thesis
  proof cases
    case 1
    then show ?thesis by (rule dec_before_eof [OF d])
  next
    case 2
    then obtain st1 st2 where s: "same_view st st1" "slog st1 = slog st" "dec_svccb_count e a st1 = Inr st2" "svccb_delete i st2 = Inr st'"
      using plain_sendreply_split by blast
    have "asrvs st' = asrvs st2" using postD [OF post_svccb_delete s(4)] by (simp add: deleted_def)
    then show ?thesis
      using dec_before_eof [OF delayed_view [OF s(1) d(1)] d(2) s(3)] svccb_delete_log [OF s(4)] s(2) by (simp add: delayed_def)
  qed
qed

lemma drun_before_eof:
  assumes "passive_srv e"
  shows "delayed a c sv st \<Longrightarrow> \<not> deof sv \<Longrightarrow> drun e a ds st = Inr st' \<Longrightarrow> DEof \<notin> set ds \<Longrightarrow>
    (0 \<le> dcount sv \<longrightarrow> 0 \<le> dcount sv + int (length (dcalls ds)) - int (length (filter is_reply ds))) \<and>
    delayed a c (sv\<lparr>dcount := dcount sv + int (length (dcalls ds)) - int (length (filter is_reply ds))\<rparr>) st' \<and>
    slog st' = slog st @ map (\<lambda>i. Served a c (Some i)) (dcalls ds)"
proof (induction ds arbitrary: sv st)
  case (Cons d ds)
  obtain st1 where st1: "dact e a d st = Inr st1" "drun e a ds st1 = Inr st'" using Cons.prems(3) by (auto simp: res_simps)
  show ?case
  proof (cases d)
    case (DCall i)
    obtain st1' where "dact e a (DCall i) st = Inr st1'" "delayed a c (sv\<lparr>dcount := dcount sv + 1\<rparr>) st1'"
      "slog st1' = slog st @ [Served a c (Some i)]" using dact_call [OF assms Cons.prems(1)] by blast
    then show ?thesis
      using Cons.IH [of "sv\<lparr>dcount := dcount sv + 1\<rparr>" st1] Cons.prems(2,4) st1 DCall by (simp add: algebra_simps)
  next
    case (DReply i x)
    have "delayed a c (sv\<lparr>dcount := dcount sv - 1\<rparr>) st1 \<and> slog st1 = slog st \<and> 1 \<le> dcount sv"
      using reply_before_eof [OF Cons.prems(1,2)] st1(1) DReply by blast
    then show ?thesis
      using Cons.IH [of "sv\<lparr>dcount := dcount sv - 1\<rparr>" st1] Cons.prems(2,4) st1(2) DReply by (simp add: algebra_simps)
  qed (use Cons.prems(4) in simp)
qed (simp add: delayed_def)

lemma dec_after_eof:
  assumes "passive_srv e" "delayed a c sv st" "deof sv" "dec_svccb_count e a st = Inr st'"
  shows "delayed a c (sv\<lparr>dcount := dcount sv - 1\<rparr>) st' \<and> 1 \<le> dcount sv \<and> svccbs st' = svccbs st \<and>
    slog st' = slog st @ (if dcount sv = 1 then [Served a c None] else [])"
  using assms
  by (auto simp: delayed_def dec_svccb_count_def getsrv_def res_simps Let_def call_dasrv_cb_def snotify_passive split: if_splits)

lemma reply_after_eof:
  assumes "passive_srv e" "delayed a c sv st" "deof sv" "dact e a (DReply i x) st = Inr st'"
  shows "delayed a c (sv\<lparr>dcount := dcount sv - 1\<rparr>) st' \<and> 1 \<le> dcount sv \<and> svccbs st' = svccbs st \<and>
    slog st' = slog st @ (if dcount sv = 1 then [Served a c None] else [])"
proof (rule dec_after_eof [OF assms(1-3)])
  show "dec_svccb_count e a st = Inr st'"
    using assms(2-4) by (simp add: sendreply_def getsrv_def delayed_def delayed_sendreply_def)
qed

lemma drun_after_eof:
  assumes "passive_srv e"
  shows "delayed a c sv st \<Longrightarrow> deof sv \<Longrightarrow> drun e a ds st = Inr st' \<Longrightarrow> list_all is_reply ds \<Longrightarrow> 0 \<le> dcount sv \<Longrightarrow>
    delayed a c (sv\<lparr>dcount := dcount sv - int (length ds)\<rparr>) st' \<and> int (length ds) \<le> dcount sv \<and>
    slog st' = slog st @ (if dcount sv \<noteq> 0 \<and> dcount sv = int (length ds) then [Served a c None] else [])"
proof (induction ds arbitrary: sv st)
  case (Cons d ds)
  obtain i x where d: "d = DReply i x" using Cons.prems(4) by (cases d) auto
  obtain st1 where st1: "dact e a d st = Inr st1" "drun e a ds st1 = Inr st'" using Cons.prems(3) by (auto simp: res_simps)
  have r: "delayed a c (sv\<lparr>dcount := dcount sv - 1\<rparr>) st1 \<and> 1 \<le> dcount sv \<and> svccbs st1 = svccbs st \<and>
    slog st1 = slog st @ (if dcount sv = 1 then [Served a c None] else [])"
    using reply_after_eof [OF assms Cons.prems(1,2)] st1(1) d by blast
  have l: "list_all is_reply ds" using Cons.prems(4) by simp
  have "delayed a c (sv\<lparr>dcount := dcount sv - 1 - int (length ds)\<rparr>) st' \<and> int (length ds) \<le> dcount sv - 1 \<and>
    slog st' = slog st1 @ (if dcount sv - 1 \<noteq> 0 \<and> dcount sv - 1 = int (length ds) then [Served a c None] else [])"
    using Cons.IH [OF conjunct1 [OF r] _ st1(2) l] r Cons.prems(2) by simp
  then show ?case using r by (auto simp: algebra_simps)
qed (simp add: delayed_def)

text \<open>
  C27. The end of file is delayed until the last reply. Whatever calls a server of this kind has served and
  answered when its transport ends, and whatever replies follow: if no call was outstanding the user is
  told of the end of file at once; otherwise \<open>eofcb\<close> runs, and the end of file follows exactly once,
  after the reply to the last outstanding call.
\<close>

theorem delayed_eof_protocol:
  assumes e: "passive_srv e" and d: "delayed a c sv st" "\<not> deof sv" "dcount sv = 0" "slog st = []"
    and ds: "DEof \<notin> set pre" "list_all is_reply later"
    and run: "drun e a (pre @ DEof # later) st = Inr st'"
    and k: "k = int (length (dcalls pre)) - int (length (filter is_reply pre))"
  shows "int (length later) \<le> k \<and>
    slog st' = map (\<lambda>i. Served a c (Some i)) (dcalls pre) @
      (if k = 0 then [Served a c None]
       else (case deofcb sv of None \<Rightarrow> [] | Some f \<Rightarrow> [DelayedEofcb a f]) @
         (if k = int (length later) then [Served a c None] else []))"
proof -
  have app: "drun e a (ds @ es) = (\<lambda>s. bindR (drun e a ds s) (drun e a es))" for ds es
    by (induction ds) (auto simp: bindR_assoc intro!: ext)
  obtain st1 st2 where st1: "drun e a pre st = Inr st1" "dact e a DEof st1 = Inr st2" "drun e a later st2 = Inr st'"
    using run by (auto simp: app res_simps)
  let ?sv = "sv\<lparr>dcount := k\<rparr>"
  have b: "delayed a c ?sv st1" "slog st1 = map (\<lambda>i. Served a c (Some i)) (dcalls pre)"
    using drun_before_eof [OF e d(1,2) st1(1) ds(1)] d(3,4) k by simp_all
  have st2: "delayed a c (?sv\<lparr>deof := True, deofcb := None\<rparr>) st2"
    "slog st2 = slog st1 @ (if k = 0 then [Served a c None] else (case deofcb sv of None \<Rightarrow> [] | Some f \<Rightarrow> [DelayedEofcb a f]))"
    using st1(2) b(1) e
    by (auto simp: delayed_def call_cb_def getsrv_def delayed_dispatch_def Let_def call_dasrv_cb_def snotify_passive split: if_splits option.splits)
  have nonneg: "0 \<le> k" using drun_before_eof [OF e d(1,2) st1(1) ds(1)] d(3) k by simp
  show ?thesis
    using drun_after_eof [OF e st2(1) _ st1(3) ds(2)] st2(2) b(2) nonneg by auto
qed

lemma senv0_passive: "passive_srv senv0"
  by (simp add: passive_srv_def senv0_def)

definition sst3 :: sst where
  "sst3 = \<lparr>sxhs = \<lambda>x. sxh0, asrvs = [0 \<mapsto> (srv0 [] [])\<lparr>akind := DelayedEof, dasrv_cb := Some 7, deofcb := Some 8\<rparr>],
     svccbs = [0 \<mapsto> request call0 0 None], nextsb = 1, slog = []\<rparr>"

theorem delayed_eof_protocol_witness:
  "\<exists>st'. drun senv0 0 ([DCall 0] @ DEof # [DReply 0 None]) sst3 = Inr st' \<and>
    slog st' = [Served 0 7 (Some 0), DelayedEofcb 0 8, Served 0 7 None]"
proof -
  let ?sv = "(srv0 [] [])\<lparr>akind := DelayedEof, dasrv_cb := Some 7, deofcb := Some 8\<rparr>"
  have d: "delayed 0 7 ?sv sst3" "\<not> deof ?sv" "dcount ?sv = 0" "slog sst3 = []" by (simp_all add: delayed_def sst3_def srv0_def)
  have l: "DEof \<notin> set [DCall 0]" "list_all is_reply [DReply 0 None]" by simp_all
  have k: "1 = int (length (dcalls [DCall 0])) - int (length (filter is_reply [DCall 0]))" by simp
  obtain st' where r: "drun senv0 0 ([DCall 0] @ DEof # [DReply 0 None]) sst3 = Inr st'"
    by (simp add: sst3_def senv0_def srv0_def inc_svccb_count_def call_cb_def delayed_dispatch_def call_dasrv_cb_def getsrv_def
        snotify_def upd_srv_def sendreply_def delayed_sendreply_def dec_svccb_count_def Let_def)
  from delayed_eof_protocol [OF senv0_passive d l r k] r show ?thesis by (simp add: srv0_def)
qed

text \<open>
  Replies after the end of file leak. A server with a delayed end of file that has seen the end of its
  transport swallows a reply without deleting the request: the request stays allocated, and so does the
  server it refers to.
\<close>

theorem delayed_reply_leaks:
  assumes "passive_srv e" "delayed a c sv st" "deof sv" "svccbs st i = Some s" "sendreply e a i x nocache st = Inr st'"
  shows "svccbs st' i = Some s"
proof -
  have "dec_svccb_count e a st = Inr st'"
    using assms(2,3,5) by (simp add: sendreply_def getsrv_def delayed_def delayed_sendreply_def)
  from dec_after_eof [OF assms(1-3) this] assms(4) show ?thesis by simp
qed

theorem delayed_reply_leaks_witness:
  "\<exists>st'. sendreply senv0 0 0 None True (upd_srv 0 (\<lambda>sv. sv\<lparr>deof := True, dcount := 1\<rparr>) sst3) = Inr st' \<and>
    svccbs st' 0 = Some (request call0 0 None)"
proof -
  let ?sv = "(srv0 [] [])\<lparr>akind := DelayedEof, dasrv_cb := Some 7, deofcb := Some 8, deof := True, dcount := 1\<rparr>"
  let ?st = "upd_srv 0 (\<lambda>sv. sv\<lparr>deof := True, dcount := 1\<rparr>) sst3"
  have d: "delayed 0 7 ?sv ?st" "deof ?sv" "svccbs ?st 0 = Some (request call0 0 None)"
    by (simp_all add: delayed_def sst3_def srv0_def)
  obtain st' where r: "sendreply senv0 0 0 None True ?st = Inr st'"
    by (simp add: sst3_def senv0_def srv0_def call_dasrv_cb_def getsrv_def
        snotify_def upd_srv_def sendreply_def delayed_sendreply_def dec_svccb_count_def Let_def)
  from delayed_reply_leaks [OF senv0_passive d r] r show ?thesis by blast
qed

end
