(* ===== verification/Mdblock.thy ===== *)
theory Mdblock
  imports Serial
begin

text \<open>
  The block buffering and padding that the hash functions of \<open>crypt\<close> share, \<open>mdblock\<close> of
  \<open>crypt/crypthash.h\<close> and \<open>crypt/mdblock.C\<close>. The virtual function \<open>consume\<close> of the derived classes is an
  argument of the operations; it is told whether its block is \<open>buffer\<close> itself and returns what it left
  in the block. A locale states what the class expects of \<open>consume\<close>, and what a hash computes then:
  the padded message is consumed in blocks of 64 bytes, however it was cut into updates.
\<close>

section \<open>Definitions\<close>

abbreviation md_blocksize :: nat where
  "md_blocksize \<equiv> 64"

record 's mdblock =
  mcount :: u64
  mbuffer :: "u8 list"
  mstate :: 's

type_synonym 's consume = "bool \<Rightarrow> 's \<Rightarrow> u8 list \<Rightarrow> ('s \<times> u8 list) res"

definition memcpy_at :: "nat \<Rightarrow> 'a list \<Rightarrow> 'a list \<Rightarrow> 'a list res" where
  "memcpy_at k bs buf =
     (if k + length bs \<le> length buf then Inr (take k buf @ bs @ drop (k + length bs) buf) else Inl OutOfRange)"

definition bcount :: "'s mdblock \<Rightarrow> nat" where
  "bcount m = unat (mcount m mod of_nat md_blocksize)"

definition consume_buffer :: "'s consume \<Rightarrow> 's mdblock \<Rightarrow> 's mdblock res" where
  "consume_buffer f m = bindR (f True (mstate m) (mbuffer m)) (\<lambda>(s, b). Inr (m\<lparr>mstate := s, mbuffer := b\<rparr>))"

text \<open>The loop of \<open>update\<close> over the whole blocks of the data, and what is left of the data.\<close>

function (sequential) consume_blocks :: "'s consume \<Rightarrow> u8 list \<Rightarrow> 's \<Rightarrow> (u8 list \<times> 's) res" where
  "consume_blocks f d s =
     (if md_blocksize \<le> length d
      then bindR (f False s (take md_blocksize d)) (\<lambda>(s, _). consume_blocks f (drop md_blocksize d) s)
      else Inr (d, s))"
  by pat_completeness auto
termination
  by (relation "measure (\<lambda>(f, d, s). length d)") auto

declare consume_blocks.simps [simp del]

definition md_update :: "'s consume \<Rightarrow> u8 list \<Rightarrow> 's mdblock \<Rightarrow> 's mdblock res" where
  "md_update f d m =
     (let bc = bcount m; m = m\<lparr>mcount := mcount m + of_nat (length d)\<rparr>
      in if bc + length d < md_blocksize
         then bindR (memcpy_at bc d (mbuffer m)) (\<lambda>b. Inr (m\<lparr>mbuffer := b\<rparr>))
         else
           bindR (if bc \<noteq> 0
                  then let j = md_blocksize - bc
                       in bindR (memcpy_at bc (take j d) (mbuffer m)) (\<lambda>b.
                          bindR (consume_buffer f (m\<lparr>mbuffer := b\<rparr>)) (\<lambda>m. Inr (drop j d, m)))
                  else Inr (d, m)) (\<lambda>(d, m).
           bindR (consume_blocks f d (mstate m)) (\<lambda>(d, s).
           bindR (memcpy_at 0 d (mbuffer m)) (\<lambda>b. Inr (m\<lparr>mstate := s, mbuffer := b\<rparr>)))))"

text \<open>
  \<open>finish_le\<close> and \<open>finish_be\<close> differ in the padding byte and in the byte order of the length only.
\<close>

definition md_finish :: "u8 \<Rightarrow> (u64 \<Rightarrow> u8 list) \<Rightarrow> 's consume \<Rightarrow> 's mdblock \<Rightarrow> 's mdblock res" where
  "md_finish mark enc f m =
     (let bc = bcount m
      in bindR (if bc > md_blocksize - 9
                then
                  bindR (md_update f (mark # replicate (md_blocksize - bc - 1) 0) m) (\<lambda>m.
                    Inr (0, m\<lparr>mcount := mcount m - of_nat (md_blocksize - bc)\<rparr>))
                else
                  bindR (memcpy_at bc [mark] (mbuffer m)) (\<lambda>b. Inr (bc + 1, m\<lparr>mbuffer := b\<rparr>))) (\<lambda>(dp, m).
         bindR (memcpy_at dp (replicate (md_blocksize - 8 - dp) 0) (mbuffer m)) (\<lambda>b.
           let cnt = push_bit 3 (mcount m)
           in bindR (memcpy_at (md_blocksize - 8) (enc cnt) b) (\<lambda>b.
              consume_buffer f (m\<lparr>mcount := cnt, mbuffer := b\<rparr>)))))"

definition le64 :: "u64 \<Rightarrow> u8 list" where
  "le64 c = map (\<lambda>i. ucast (drop_bit (8 * i) c AND 0xff)) [0..<8]"

definition be64 :: "u64 \<Rightarrow> u8 list" where
  "be64 c = map (\<lambda>i. ucast (drop_bit (8 * (7 - i)) c AND 0xff)) [0..<8]"

definition finish_le :: "'s consume \<Rightarrow> 's mdblock \<Rightarrow> 's mdblock res" where
  "finish_le f m = md_finish 0x01 le64 f m"

definition finish_be :: "'s consume \<Rightarrow> 's mdblock \<Rightarrow> 's mdblock res" where
  "finish_be f m = md_finish 0x80 be64 f m"

fun updatev :: "'s consume \<Rightarrow> u8 list list \<Rightarrow> 's mdblock \<Rightarrow> 's mdblock res" where
  "updatev f [] m = Inr m"
| "updatev f (d # ds) m = bindR (md_update f d m) (updatev f ds)"

section \<open>Blocks and padding\<close>

function (sequential) blocks :: "'a list \<Rightarrow> 'a list list" where
  "blocks xs = (if md_blocksize \<le> length xs then take md_blocksize xs # blocks (drop md_blocksize xs) else [])"
  by pat_completeness auto
termination
  by (relation "measure length") auto

declare blocks.simps [simp del]

text \<open>What is left after the whole blocks.\<close>

definition partial :: "'a list \<Rightarrow> 'a list" where
  "partial xs = drop (md_blocksize * (length xs div md_blocksize)) xs"

definition md_pad :: "u8 \<Rightarrow> (u64 \<Rightarrow> u8 list) \<Rightarrow> u8 list \<Rightarrow> u8 list" where
  "md_pad mark enc msg =
     msg @ [mark] @ replicate ((119 - length msg mod 64) mod 64) 0 @ enc (of_nat (8 * length msg))"

lemma length_partial: "length (partial xs) = length xs mod 64"
  by (simp add: partial_def minus_mult_div_eq_mod)

lemma blocks_short [simp]: "length xs < 64 \<Longrightarrow> blocks xs = []"
  by (simp add: blocks.simps)

lemma partial_short [simp]: "length xs < 64 \<Longrightarrow> partial xs = xs"
  by (simp add: partial_def)

lemma blocks_Cons: "length b = 64 \<Longrightarrow> blocks (b @ xs) = b # blocks xs"
  by (simp add: blocks.simps [of "b @ xs"])

lemma partial_Cons: "length b = 64 \<Longrightarrow> partial (b @ xs) = partial xs"
  by (simp add: partial_def div_add_self1)

lemma split_block: "64 \<le> length xs \<Longrightarrow> xs = take 64 xs @ drop 64 xs \<and> length (take 64 xs) = 64"
  by simp

lemma blocks_append: "blocks (xs @ ys) = blocks xs @ blocks (partial xs @ ys)"
proof (induction xs rule: blocks.induct)
  case (1 xs)
  show ?case
  proof (cases "64 \<le> length xs")
    case True
    have "blocks (xs @ ys) = take 64 xs # blocks (drop 64 xs @ ys)"
      using blocks_Cons [of "take 64 xs" "drop 64 xs @ ys"] True by (simp add: append_assoc [symmetric] del: append_assoc)
    moreover have "blocks xs = take 64 xs # blocks (drop 64 xs)" using True by (simp add: blocks.simps [of xs])
    moreover have "partial xs = partial (drop 64 xs)" using partial_Cons [of "take 64 xs" "drop 64 xs"] True by simp
    ultimately show ?thesis using 1 True by simp
  qed simp
qed

lemma partial_append: "partial (xs @ ys) = partial (partial xs @ ys)"
proof (induction xs rule: blocks.induct)
  case (1 xs)
  show ?case
  proof (cases "64 \<le> length xs")
    case True
    have "partial (xs @ ys) = partial (drop 64 xs @ ys)"
      using partial_Cons [of "take 64 xs" "drop 64 xs @ ys"] True by (simp add: append_assoc [symmetric] del: append_assoc)
    moreover have "partial xs = partial (drop 64 xs)" using partial_Cons [of "take 64 xs" "drop 64 xs"] True by simp
    ultimately show ?thesis using 1 True by simp
  qed simp
qed

lemma memcpy_at_ok [simp]:
  "k + length bs \<le> length buf \<Longrightarrow> memcpy_at k bs buf = Inr (take k buf @ bs @ drop (k + length bs) buf)"
  by (simp add: memcpy_at_def)

lemma length_be64 [simp]: "length (be64 c) = 8" and length_le64 [simp]: "length (le64 c) = 8"
  by (simp_all add: be64_def le64_def)

section \<open>What the class promises\<close>

text \<open>
  \<open>step\<close> is the function of a block that \<open>consume\<close> computes. A state may insist that its next block be
  \<open>buffer\<close>, which is so once there are bytes in it.
\<close>

locale md_hash =
  fixes consume :: "'s consume" and step :: "'s \<Rightarrow> u8 list \<Rightarrow> 's" and good wants_buffer :: "'s \<Rightarrow> bool"
  assumes consume_step: "good s \<Longrightarrow> length b = md_blocksize \<Longrightarrow> (wants_buffer s \<Longrightarrow> isbuf) \<Longrightarrow>
      \<exists>b'. consume isbuf s b = Inr (step s b, b') \<and> length b' = md_blocksize"
    and good_step: "good s \<Longrightarrow> length b = md_blocksize \<Longrightarrow> good (step s b)"
    and wants_once: "length b = md_blocksize \<Longrightarrow> \<not> wants_buffer (step s b)"
begin

definition md_repr :: "'s \<Rightarrow> u8 list \<Rightarrow> 's mdblock \<Rightarrow> bool" where
  "md_repr s0 msg m \<longleftrightarrow>
     good s0 \<and> mcount m = of_nat (length msg) \<and> length (mbuffer m) = 64 \<and> mstate m = foldl step s0 (blocks msg) \<and>
     take (length msg mod 64) (mbuffer m) = partial msg"

lemma wants_foldl: "wants_buffer (foldl step s bs) \<Longrightarrow> (\<And>b. b \<in> set bs \<Longrightarrow> length b = 64) \<Longrightarrow> bs = []"
  by (cases bs rule: rev_cases) (auto dest: wants_once)

lemma blocks_length: "b \<in> set (blocks xs) \<Longrightarrow> length b = 64"
  by (induction xs rule: blocks.induct) (subst (asm) (2) blocks.simps, auto split: if_splits)

lemma good_foldl: "good s \<Longrightarrow> (\<And>b. b \<in> set bs \<Longrightarrow> length b = 64) \<Longrightarrow> good (foldl step s bs)"
  by (induction bs arbitrary: s) (auto intro: good_step)

lemma good_state: "md_repr s0 msg m \<Longrightarrow> good (mstate m)"
  by (auto simp: md_repr_def intro: good_foldl blocks_length)

lemma bcount_repr: "md_repr s0 msg m \<Longrightarrow> bcount m = length msg mod 64"
proof -
  assume "md_repr s0 msg m"
  then have "bcount m = unat (of_nat (length msg) mod 64 :: u64)" by (simp add: md_repr_def bcount_def)
  also have "\<dots> = length msg mod 2 ^ 64 mod 64" by (simp add: unat_mod unat_of_nat)
  also have "\<dots> = length msg mod 64" using mod_mod_cancel [of 64 "2 ^ 64" "length msg"] by simp
  finally show ?thesis .
qed

lemma consume_blocks_step:
  "good s \<Longrightarrow> \<not> wants_buffer s \<or> length d < 64 \<Longrightarrow> consume_blocks consume d s = Inr (partial d, foldl step s (blocks d))"
proof (induction d arbitrary: s rule: blocks.induct)
  case (1 d)
  show ?case
  proof (cases "64 \<le> length d")
    case True
    then have w: "\<not> wants_buffer s" using 1(3) by simp
    obtain b' where b: "consume False s (take 64 d) = Inr (step s (take 64 d), b')"
      using consume_step [of s "take 64 d" False] 1(2) True w by auto
    have "consume_blocks consume (drop 64 d) (step s (take 64 d)) =
        Inr (partial (drop 64 d), foldl step (step s (take 64 d)) (blocks (drop 64 d)))"
      by (rule 1(1)) (use True wants_once [of "take 64 d" s] good_step [OF 1(2), of "take 64 d"] in simp_all)
    moreover have "blocks d = take 64 d # blocks (drop 64 d)" using True by (simp add: blocks.simps [of d])
    moreover have "partial d = partial (drop 64 d)" using partial_Cons [of "take 64 d" "drop 64 d"] True by simp
    ultimately show ?thesis using b True by (simp add: consume_blocks.simps [of consume d])
  next
    case False
    then show ?thesis by (simp add: consume_blocks.simps [of consume d])
  qed
qed

text \<open>An update appends to the message, and touches no memory outside the buffer.\<close>

lemma update_repr:
  assumes r: "md_repr s0 msg m" and w: "wants_buffer s0 \<Longrightarrow> msg \<noteq> [] \<or> length d < 64"
  shows "\<exists>m'. md_update consume d m = Inr m' \<and> md_repr s0 (msg @ d) m'"
proof -
  let ?bc = "length msg mod 64"
  let ?p = "partial msg"
  have bc: "bcount m = ?bc" by (rule bcount_repr [OF r])
  have lp: "length ?p = ?bc" by (rule length_partial)
  note r' = r [unfolded md_repr_def]
  have cnt: "mcount m + of_nat (length d) = of_nat (length (msg @ d))" using r' by simp
  have bl: "blocks (msg @ d) = blocks msg @ blocks (?p @ d)" by (rule blocks_append)
  have pa: "partial (msg @ d) = partial (?p @ d)" by (rule partial_append)
  have lm: "length (msg @ d) mod 64 = length (?p @ d) mod 64" by (simp add: lp mod_add_left_eq)
  show ?thesis
  proof (cases "?bc + length d < 64")
    case True
    let ?b = "take ?bc (mbuffer m) @ d @ drop (?bc + length d) (mbuffer m)"
    have "md_update consume d m = Inr (m\<lparr>mcount := mcount m + of_nat (length d), mbuffer := ?b\<rparr>)"
      using True r' bc by (simp add: md_update_def)
    moreover have lt: "(length msg + length d) mod 64 = ?bc + length d" using True by (metis mod_add_left_eq mod_less)
    have "md_repr s0 (msg @ d) (m\<lparr>mcount := mcount m + of_nat (length d), mbuffer := ?b\<rparr>)"
      using True r' cnt lp lt by (simp add: md_repr_def bl pa)
    ultimately show ?thesis by blast
  next
    case False
    let ?j = "64 - ?bc"
    let ?m1 = "m\<lparr>mcount := mcount m + of_nat (length d)\<rparr>"
    have first: "\<exists>m2. (if ?bc \<noteq> 0 then bindR (memcpy_at ?bc (take ?j d) (mbuffer ?m1))
          (\<lambda>b. bindR (consume_buffer consume (?m1\<lparr>mbuffer := b\<rparr>)) (\<lambda>m. Inr (drop ?j d, m))) else Inr (d, ?m1)) =
        Inr (drop (if ?bc = 0 then 0 else ?j) d, m2) \<and> mcount m2 = of_nat (length (msg @ d)) \<and> length (mbuffer m2) = 64 \<and>
        mstate m2 = foldl step (mstate m) (if ?bc = 0 then [] else [?p @ take ?j d]) \<and> good (mstate m2)"
    proof (cases "?bc = 0")
      case True
      then show ?thesis using r' cnt good_state [OF r] by simp
    next
      case ne: False
      let ?b = "?p @ take ?j d"
      have lb: "length ?b = 64" using False lp by simp
      obtain b' where b': "consume True (mstate m) ?b = Inr (step (mstate m) ?b, b')" "length b' = 64"
        using consume_step [OF good_state [OF r] lb, of True] by auto
      have "memcpy_at ?bc (take ?j d) (mbuffer ?m1) = Inr ?b" using r' False lp by simp
      then show ?thesis using ne b' cnt good_step [OF good_state [OF r] lb] by (simp add: consume_buffer_def)
    qed
    then obtain m2 where m2: "(if ?bc \<noteq> 0 then bindR (memcpy_at ?bc (take ?j d) (mbuffer ?m1))
          (\<lambda>b. bindR (consume_buffer consume (?m1\<lparr>mbuffer := b\<rparr>)) (\<lambda>m. Inr (drop ?j d, m))) else Inr (d, ?m1)) =
        Inr (drop (if ?bc = 0 then 0 else ?j) d, m2)" "mcount m2 = of_nat (length (msg @ d))" "length (mbuffer m2) = 64"
        "mstate m2 = foldl step (mstate m) (if ?bc = 0 then [] else [?p @ take ?j d])" "good (mstate m2)" by blast
    let ?d = "drop (if ?bc = 0 then 0 else ?j) d"
    have pd: "blocks (?p @ d) = (if ?bc = 0 then [] else [?p @ take ?j d]) @ blocks ?d" "partial (?p @ d) = partial ?d"
    proof -
      have "?p @ d = (?p @ take ?j d) @ drop ?j d" by simp
      moreover have "length (?p @ take ?j d) = 64" using False lp by simp
      ultimately have "blocks (?p @ d) = (?p @ take ?j d) # blocks (drop ?j d)" "partial (?p @ d) = partial (drop ?j d)"
        using blocks_Cons partial_Cons by metis+
      then show "blocks (?p @ d) = (if ?bc = 0 then [] else [?p @ take ?j d]) @ blocks ?d" "partial (?p @ d) = partial ?d"
        using lp by auto
    qed
    have nw: "\<not> wants_buffer (mstate m2)"
    proof
      assume wm: "wants_buffer (mstate m2)"
      have ms: "mstate m2 = foldl step s0 (blocks msg @ (if ?bc = 0 then [] else [?p @ take ?j d]))"
        using m2(4) r' by simp
      have l: "length b = 64" if "b \<in> set (blocks msg @ (if ?bc = 0 then [] else [?p @ take ?j d]))" for b
        using that blocks_length False lp by (auto split: if_splits)
      have "blocks msg @ (if ?bc = 0 then [] else [?p @ take ?j d]) = []"
        using wants_foldl [OF wm [unfolded ms] l] by blast
      then have bc0: "?bc = 0" and "wants_buffer s0" and "blocks msg = []" using wm ms by (auto split: if_splits)
      moreover have "length msg < 64" using \<open>blocks msg = []\<close> by (simp add: blocks.simps [of msg] split: if_splits)
      ultimately show False using w False by simp
    qed
    have cb: "consume_blocks consume ?d (mstate m2) = Inr (partial ?d, foldl step (mstate m2) (blocks ?d))"
      using consume_blocks_step m2(5) nw by blast
    have lq: "length (partial ?d) = length (msg @ d) mod 64" using length_partial [of "msg @ d"] pa pd(2) by simp
    let ?m' = "m2\<lparr>mstate := foldl step (mstate m2) (blocks ?d), mbuffer := partial ?d @ drop (length (partial ?d)) (mbuffer m2)\<rparr>"
    have "md_update consume d m = Inr ?m'"
    proof -
      have "memcpy_at 0 (partial ?d) (mbuffer m2) = Inr (partial ?d @ drop (length (partial ?d)) (mbuffer m2))"
        using m2(3) length_partial [of ?d] by simp
      then show ?thesis
        unfolding md_update_def Let_def bc if_not_P [OF False] m2(1) bindR_Inr prod.case cb by simp
    qed
    moreover have "md_repr s0 (msg @ d) ?m'"
      using m2 r' lq by (simp add: md_repr_def bl pa pd)
    ultimately show ?thesis by blast
  qed
qed

lemma updatev_repr:
  "md_repr s0 msg m \<Longrightarrow> (wants_buffer s0 \<Longrightarrow> msg \<noteq> []) \<Longrightarrow> \<exists>m'. updatev consume ds m = Inr m' \<and> md_repr s0 (msg @ concat ds) m'"
proof (induction ds arbitrary: msg m)
  case (Cons d ds)
  obtain m1 where m1: "md_update consume d m = Inr m1" "md_repr s0 (msg @ d) m1"
    using update_repr [OF Cons.prems(1)] Cons.prems(2) by blast
  obtain m' where "updatev consume ds m1 = Inr m'" "md_repr s0 ((msg @ d) @ concat ds) m'"
    using Cons.IH [OF m1(2)] Cons.prems(2) by blast
  then show ?case using m1(1) by simp
qed simp

text \<open>
  The last block. \<open>q\<close> is what the buffer holds before the zeros and the length.
\<close>

lemma finish_tail:
  assumes g: "good (mstate m)" and q: "length q \<le> 56" "take (length q) (mbuffer m) = q" "length (mbuffer m) = 64" and enc: "\<And>c. length (enc c) = 8"
  shows "\<exists>m'. bindR (memcpy_at (length q) (replicate (64 - 8 - length q) 0) (mbuffer m)) (\<lambda>b.
      let cnt = push_bit 3 (mcount m)
      in bindR (memcpy_at (64 - 8) (enc cnt) b) (\<lambda>b. consume_buffer consume (m\<lparr>mcount := cnt, mbuffer := b\<rparr>))) = Inr m' \<and>
    mstate m' = step (mstate m) (q @ replicate (56 - length q) 0 @ enc (push_bit 3 (mcount m))) \<and> length (mbuffer m') = 64"
proof -
  let ?b = "q @ replicate (56 - length q) 0 @ enc (push_bit 3 (mcount m))"
  have l: "length ?b = 64" using q(1) enc by simp
  obtain b' where "consume True (mstate m) ?b = Inr (step (mstate m) ?b, b')" "length b' = 64"
    using consume_step [OF g l, of True] by auto
  moreover have "memcpy_at (length q) (replicate (64 - 8 - length q) 0) (mbuffer m) = Inr (q @ replicate (56 - length q) 0 @ drop 56 (mbuffer m))"
    using q by simp
  moreover have "memcpy_at (64 - 8) (enc c) (q @ replicate (56 - length q) 0 @ drop 56 (mbuffer m)) =
      Inr (q @ replicate (56 - length q) 0 @ enc c)" for c
    using q(1,3) enc by simp
  ultimately show ?thesis by (simp add: consume_buffer_def Let_def)
qed

text \<open>Finishing consumes the padded message.\<close>

lemma finish_repr:
  assumes r: "md_repr s0 msg m" and w: "wants_buffer s0 \<Longrightarrow> msg \<noteq> []" and enc: "\<And>c. length (enc c) = 8"
  shows "\<exists>m'. md_finish mark enc consume m = Inr m' \<and> mstate m' = foldl step s0 (blocks (md_pad mark enc msg)) \<and>
    length (mbuffer m') = 64"
proof -
  let ?bc = "length msg mod 64"
  have bc: "bcount m = ?bc" by (rule bcount_repr [OF r])
  note r' = r [unfolded md_repr_def]
  have lp: "length (partial msg) = ?bc" by (rule length_partial)
  have lt: "?bc < 64" by simp
  have bits: "push_bit 3 (of_nat (length msg) :: u64) = of_nat (8 * length msg)" by (simp add: push_bit_eq_mult)
  show ?thesis
  proof (cases "?bc > 55")
    case True
    let ?t = "mark # replicate (64 - ?bc - 1) 0"
    have lt': "length ?t = 64 - ?bc" using lt by simp
    obtain m1 where m1: "md_update consume ?t m = Inr m1" "md_repr s0 (msg @ ?t) m1"
      using update_repr [OF r, of ?t] w by blast
    note m1' = m1(2) [unfolded md_repr_def]
    let ?m2 = "m1\<lparr>mcount := mcount m1 - of_nat (64 - ?bc)\<rparr>"
    have "of_nat (length (msg @ ?t)) = (of_nat (length msg) + of_nat (64 - ?bc) :: u64)" by (simp only: length_append lt' of_nat_add)
    then have c2: "mcount ?m2 = of_nat (length msg)" using m1' by simp
    obtain m' where m': "bindR (memcpy_at 0 (replicate (64 - 8 - 0) 0) (mbuffer ?m2)) (\<lambda>b.
      let cnt = push_bit 3 (mcount ?m2)
      in bindR (memcpy_at (64 - 8) (enc cnt) b) (\<lambda>b. consume_buffer consume (?m2\<lparr>mcount := cnt, mbuffer := b\<rparr>))) = Inr m'"
      "mstate m' = step (mstate ?m2) (replicate 56 0 @ enc (of_nat (8 * length msg)))" "length (mbuffer m') = 64"
      using finish_tail [of ?m2 "[]" enc] good_state [OF m1(2)] m1' enc c2 bits by auto
    have "md_finish mark enc consume m = Inr m'"
      using True bc m1(1) m'(1) by (simp add: md_finish_def Let_def)
    moreover have "blocks (md_pad mark enc msg) = blocks (msg @ ?t) @ [replicate 56 0 @ enc (of_nat (8 * length msg))]"
    proof -
      have k: "(119 - ?bc) mod 64 = 64 - ?bc - 1 + 56" using True lt by (simp add: le_mod_geq)
      have pad: "md_pad mark enc msg = (msg @ ?t) @ (replicate 56 0 @ enc (of_nat (8 * length msg)))"
        by (simp only: md_pad_def k replicate_add) simp
      have "(length msg + (64 - ?bc)) mod 64 = 0" using lt by presburger
      then have "length (partial (msg @ ?t)) = 0" by (simp only: length_partial length_append lt')
      then have "partial (msg @ ?t) = []" by simp
      moreover have "blocks (replicate 56 0 @ enc (of_nat (8 * length msg))) = [replicate 56 0 @ enc (of_nat (8 * length msg))]"
        using blocks_Cons [of "replicate 56 0 @ enc (of_nat (8 * length msg))" "[]"] enc by simp
      ultimately show ?thesis by (simp only: pad blocks_append [of "msg @ ?t"] append_Nil)
    qed
    ultimately show ?thesis using m'(2,3) m1' by auto
  next
    case False
    let ?q = "partial msg @ [mark]"
    let ?m2 = "m\<lparr>mbuffer := take ?bc (mbuffer m) @ [mark] @ drop (?bc + 1) (mbuffer m)\<rparr>"
    have q: "length ?q \<le> 56" "take (length ?q) (mbuffer ?m2) = ?q" "length (mbuffer ?m2) = 64"
      using False lp r' by simp_all
    have gm: "good (mstate ?m2)" using good_state [OF r] by simp
    have lq: "length ?q = ?bc + 1" and c2: "mcount ?m2 = of_nat (length msg)" using lp r' by simp_all
    obtain m' where m': "bindR (memcpy_at (?bc + 1) (replicate (64 - 8 - (?bc + 1)) 0) (mbuffer ?m2)) (\<lambda>b.
      let cnt = push_bit 3 (mcount ?m2)
      in bindR (memcpy_at (64 - 8) (enc cnt) b) (\<lambda>b. consume_buffer consume (?m2\<lparr>mcount := cnt, mbuffer := b\<rparr>))) = Inr m'"
      "mstate m' = step (mstate ?m2) (?q @ replicate (56 - (?bc + 1)) 0 @ enc (of_nat (8 * length msg)))" "length (mbuffer m') = 64"
      using finish_tail [of ?m2 ?q enc, OF gm q enc] unfolding lq c2 bits by blast
    have "memcpy_at ?bc [mark] (mbuffer m) = Inr (mbuffer ?m2)" using False r' by simp
    then have "md_finish mark enc consume m = Inr m'"
      using False bc m'(1) by (simp add: md_finish_def Let_def)
    moreover have "blocks (md_pad mark enc msg) = blocks msg @ [?q @ replicate (56 - (?bc + 1)) 0 @ enc (of_nat (8 * length msg))]"
    proof -
      have k: "(119 - ?bc) mod 64 = 56 - (?bc + 1)" using False by (simp add: le_mod_geq)
      have "blocks (?q @ replicate (56 - (?bc + 1)) 0 @ enc (of_nat (8 * length msg))) = [?q @ replicate (56 - (?bc + 1)) 0 @ enc (of_nat (8 * length msg))]"
        using blocks_Cons [of "?q @ replicate (56 - (?bc + 1)) 0 @ enc (of_nat (8 * length msg))" "[]"] enc lp False by simp
      then show ?thesis by (simp add: md_pad_def k blocks_append [of msg])
    qed
    ultimately show ?thesis using m'(2,3) r' by auto
  qed
qed

end

end
