(* ===== verification/Sha1.thy ===== *)
theory Sha1
  imports Mdblock
begin

text \<open>
  SHA-1 and HMAC-SHA-1 of \<open>crypt/sha1.h\<close> and \<open>crypt/sha1.C\<close>. The unrolled \<open>transform\<close>, with its rotating
  variables and its window of sixteen words, is the list of its eighty macro calls and an interpreter
  of the macros; it is shown to compute the compression function of FIPS 180-1, with its schedule of
  eighty words. With the padding of \<open>Mdblock\<close> the context computes the SHA-1 of the concatenation of
  its updates, and \<open>sha1hmac\<close> the HMAC of RFC 2104. Last comes the random oracle of
  \<open>crypt/sha1oracle.C\<close>, several contexts fed side by side.
\<close>

section \<open>The transformation\<close>

definition rol :: "u32 \<Rightarrow> nat \<Rightarrow> u32" where
  "rol v n = push_bit n v OR drop_bit (32 - n) v"

definition newstate :: "u32 list" where
  "newstate = [0x67452301, 0xefcdab89, 0x98badcfe, 0x10325476, 0xc3d2e1f0]"

text \<open>The macros \<open>R0\<close> to \<open>R4\<close>, applied to the variables \<open>a\<close> to \<open>e\<close> by their positions.\<close>

datatype rop =
    R0 nat nat nat nat nat nat | R1 nat nat nat nat nat nat | R2 nat nat nat nat nat nat
  | R3 nat nat nat nat nat nat | R4 nat nat nat nat nat nat

definition getint_blk :: "u8 list \<Rightarrow> nat \<Rightarrow> u32 res" where
  "getint_blk block i = getint (drop (4 * i) block)"

text \<open>\<open>blk0\<close> and \<open>blk\<close> store the word they compute in the window \<open>tmp\<close>.\<close>

definition blk0 :: "u8 list \<Rightarrow> nat \<Rightarrow> u32 list \<Rightarrow> (u32 \<times> u32 list) res" where
  "blk0 block i tmp = bindR (getint_blk block i) (\<lambda>w. bindR (wr tmp i w) (\<lambda>tmp. Inr (w, tmp)))"

definition blk :: "nat \<Rightarrow> u32 list \<Rightarrow> (u32 \<times> u32 list) res" where
  "blk i tmp =
     bindR (rd tmp ((i + 13) mod 16)) (\<lambda>w3. bindR (rd tmp ((i + 8) mod 16)) (\<lambda>w8.
     bindR (rd tmp ((i + 2) mod 16)) (\<lambda>w14. bindR (rd tmp (i mod 16)) (\<lambda>w16.
       let w = rol (w3 XOR w8 XOR w14 XOR w16) 1
       in bindR (wr tmp (i mod 16) w) (\<lambda>tmp. Inr (w, tmp))))))"

text \<open>\<open>z += f (w, x, y) + word + k + rol (v, 5); w = rol (w, 30);\<close>\<close>

definition rstep :: "(u32 \<Rightarrow> u32 \<Rightarrow> u32 \<Rightarrow> u32) \<Rightarrow> u32 \<Rightarrow> nat \<Rightarrow> nat \<Rightarrow> nat \<Rightarrow> nat \<Rightarrow> nat \<Rightarrow> u32 \<Rightarrow> u32 list \<Rightarrow> u32 list res" where
  "rstep f k v w x y z word r =
     bindR (rd r v) (\<lambda>rv. bindR (rd r w) (\<lambda>rw. bindR (rd r x) (\<lambda>rx. bindR (rd r y) (\<lambda>ry. bindR (rd r z) (\<lambda>rz.
     bindR (wr r z (rz + (f rw rx ry + word + k + rol rv 5))) (\<lambda>r. wr r w (rol rw 30)))))))"

fun run_op :: "u8 list \<Rightarrow> rop \<Rightarrow> u32 list \<times> u32 list \<Rightarrow> (u32 list \<times> u32 list) res" where
  "run_op block (R0 v w x y z i) (r, tmp) =
     bindR (blk0 block i tmp) (\<lambda>(m, tmp).
     bindR (rstep (\<lambda>w x y. (w AND (x XOR y)) XOR y) 0x5A827999 v w x y z m r) (\<lambda>r. Inr (r, tmp)))"
| "run_op block (R1 v w x y z i) (r, tmp) =
     bindR (blk i tmp) (\<lambda>(m, tmp).
     bindR (rstep (\<lambda>w x y. (w AND (x XOR y)) XOR y) 0x5A827999 v w x y z m r) (\<lambda>r. Inr (r, tmp)))"
| "run_op block (R2 v w x y z i) (r, tmp) =
     bindR (blk i tmp) (\<lambda>(m, tmp).
     bindR (rstep (\<lambda>w x y. w XOR x XOR y) 0x6ED9EBA1 v w x y z m r) (\<lambda>r. Inr (r, tmp)))"
| "run_op block (R3 v w x y z i) (r, tmp) =
     bindR (blk i tmp) (\<lambda>(m, tmp).
     bindR (rstep (\<lambda>w x y. ((w OR x) AND y) OR (w AND x)) 0x8F1BBCDC v w x y z m r) (\<lambda>r. Inr (r, tmp)))"
| "run_op block (R4 v w x y z i) (r, tmp) =
     bindR (blk i tmp) (\<lambda>(m, tmp).
     bindR (rstep (\<lambda>w x y. w XOR x XOR y) 0xCA62C1D6 v w x y z m r) (\<lambda>r. Inr (r, tmp)))"

fun run_ops :: "u8 list \<Rightarrow> rop list \<Rightarrow> u32 list \<times> u32 list \<Rightarrow> (u32 list \<times> u32 list) res" where
  "run_ops block [] s = Inr s"
| "run_ops block (p # ps) s = bindR (run_op block p s) (run_ops block ps)"

definition transform_ops :: "rop list" where
  "transform_ops =
    [
     R0 0 1 2 3 4 0, R0 4 0 1 2 3 1, R0 3 4 0 1 2 2, R0 2 3 4 0 1 3,
     R0 1 2 3 4 0 4, R0 0 1 2 3 4 5, R0 4 0 1 2 3 6, R0 3 4 0 1 2 7,
     R0 2 3 4 0 1 8, R0 1 2 3 4 0 9, R0 0 1 2 3 4 10, R0 4 0 1 2 3 11,
     R0 3 4 0 1 2 12, R0 2 3 4 0 1 13, R0 1 2 3 4 0 14, R0 0 1 2 3 4 15,
     R1 4 0 1 2 3 16, R1 3 4 0 1 2 17, R1 2 3 4 0 1 18, R1 1 2 3 4 0 19,
     R2 0 1 2 3 4 20, R2 4 0 1 2 3 21, R2 3 4 0 1 2 22, R2 2 3 4 0 1 23,
     R2 1 2 3 4 0 24, R2 0 1 2 3 4 25, R2 4 0 1 2 3 26, R2 3 4 0 1 2 27,
     R2 2 3 4 0 1 28, R2 1 2 3 4 0 29, R2 0 1 2 3 4 30, R2 4 0 1 2 3 31,
     R2 3 4 0 1 2 32, R2 2 3 4 0 1 33, R2 1 2 3 4 0 34, R2 0 1 2 3 4 35,
     R2 4 0 1 2 3 36, R2 3 4 0 1 2 37, R2 2 3 4 0 1 38, R2 1 2 3 4 0 39,
     R3 0 1 2 3 4 40, R3 4 0 1 2 3 41, R3 3 4 0 1 2 42, R3 2 3 4 0 1 43,
     R3 1 2 3 4 0 44, R3 0 1 2 3 4 45, R3 4 0 1 2 3 46, R3 3 4 0 1 2 47,
     R3 2 3 4 0 1 48, R3 1 2 3 4 0 49, R3 0 1 2 3 4 50, R3 4 0 1 2 3 51,
     R3 3 4 0 1 2 52, R3 2 3 4 0 1 53, R3 1 2 3 4 0 54, R3 0 1 2 3 4 55,
     R3 4 0 1 2 3 56, R3 3 4 0 1 2 57, R3 2 3 4 0 1 58, R3 1 2 3 4 0 59,
     R4 0 1 2 3 4 60, R4 4 0 1 2 3 61, R4 3 4 0 1 2 62, R4 2 3 4 0 1 63,
     R4 1 2 3 4 0 64, R4 0 1 2 3 4 65, R4 4 0 1 2 3 66, R4 3 4 0 1 2 67,
     R4 2 3 4 0 1 68, R4 1 2 3 4 0 69, R4 0 1 2 3 4 70, R4 4 0 1 2 3 71,
     R4 3 4 0 1 2 72, R4 2 3 4 0 1 73, R4 1 2 3 4 0 74, R4 0 1 2 3 4 75,
     R4 4 0 1 2 3 76, R4 3 4 0 1 2 77, R4 2 3 4 0 1 78, R4 1 2 3 4 0 79
    ]"

text \<open>The window is not initialised; its first contents do not matter.\<close>

definition transform :: "u32 list \<Rightarrow> u8 list \<Rightarrow> u32 list res" where
  "transform st block =
     bindR (run_ops block transform_ops (st, replicate 16 0)) (\<lambda>(r, tmp). Inr (map2 (+) st r))"

definition state2bytes :: "u32 list \<Rightarrow> u8 list" where
  "state2bytes st = concat (map (\<lambda>v. [ucast (drop_bit 24 v), ucast (drop_bit 16 v), ucast (drop_bit 8 v), ucast v]) st)"

section \<open>FIPS 180-1\<close>

definition fips_f :: "nat \<Rightarrow> u32 \<Rightarrow> u32 \<Rightarrow> u32 \<Rightarrow> u32" where
  "fips_f t b c d =
     (if t < 20 then (b AND c) OR (NOT b AND d) else if t < 40 then b XOR c XOR d
      else if t < 60 then (b AND c) OR (b AND d) OR (c AND d) else b XOR c XOR d)"

definition fips_k :: "nat \<Rightarrow> u32" where
  "fips_k t = (if t < 20 then 0x5A827999 else if t < 40 then 0x6ED9EBA1 else if t < 60 then 0x8F1BBCDC else 0xCA62C1D6)"

definition block_word :: "u8 list \<Rightarrow> nat \<Rightarrow> u32" where
  "block_word block i =
     push_bit 24 (ucast (block ! (4 * i))) OR push_bit 16 (ucast (block ! (4 * i + 1))) OR
     push_bit 8 (ucast (block ! (4 * i + 2))) OR ucast (block ! (4 * i + 3))"

fun fips_w :: "u8 list \<Rightarrow> nat \<Rightarrow> u32" where
  "fips_w block t =
     (if t < 16 then block_word block t
      else rol (fips_w block (t - 3) XOR fips_w block (t - 8) XOR fips_w block (t - 14) XOR fips_w block (t - 16)) 1)"

declare fips_w.simps [simp del]

fun fips_round :: "u8 list \<Rightarrow> nat \<Rightarrow> u32 \<times> u32 \<times> u32 \<times> u32 \<times> u32 \<Rightarrow> u32 \<times> u32 \<times> u32 \<times> u32 \<times> u32" where
  "fips_round block t (a, b, c, d, e) = (rol a 5 + fips_f t b c d + e + fips_w block t + fips_k t, a, rol b 30, c, d)"

fun fips_rounds :: "u8 list \<Rightarrow> nat \<Rightarrow> u32 \<times> u32 \<times> u32 \<times> u32 \<times> u32 \<Rightarrow> u32 \<times> u32 \<times> u32 \<times> u32 \<times> u32" where
  "fips_rounds block 0 s = s"
| "fips_rounds block (Suc t) s = fips_round block t (fips_rounds block t s)"

fun quint :: "'a list \<Rightarrow> 'a \<times> 'a \<times> 'a \<times> 'a \<times> 'a" where
  "quint [a, b, c, d, e] = (a, b, c, d, e)"
| "quint _ = undefined"

definition fips_compress :: "u32 list \<Rightarrow> u8 list \<Rightarrow> u32 list" where
  "fips_compress st block =
     (case fips_rounds block 80 (quint st) of (a, b, c, d, e) \<Rightarrow> map2 (+) st [a, b, c, d, e])"

section \<open>The unrolled rounds\<close>

lemma f_ch: "(w AND (x XOR y)) XOR y = (w AND x) OR (NOT w AND (y :: u32))"
  by (rule bit_eqI) (auto simp: bit_simps)

lemma f_maj: "((w OR x) AND y) OR (w AND x) = (w AND x) OR (w AND y) OR (x AND (y :: u32))"
  by (rule bit_eqI) (auto simp: bit_simps)

text \<open>The call of step \<open>i\<close>: the variables are passed rotated by \<open>i\<close> places.\<close>

definition reg :: "nat \<Rightarrow> nat \<Rightarrow> nat" where
  "reg i k = (k + 4 * i) mod 5"

definition op_at :: "nat \<Rightarrow> rop" where
  "op_at i = (if i < 16 then R0 else if i < 20 then R1 else if i < 40 then R2 else if i < 60 then R3 else R4)
     (reg i 0) (reg i 1) (reg i 2) (reg i 3) (reg i 4) i"

lemma transform_ops_eq: "transform_ops = map op_at [0..<80]"
  by code_simp

lemma getint_blk_word:
  assumes "length block = 64" "i < 16"
  shows "getint_blk block i = Inr (block_word block i)"
proof -
  have "drop (4 * i) block = block ! (4 * i) # block ! (4 * i + 1) # block ! (4 * i + 2) # block ! (4 * i + 3) # drop (4 * i + 4) block"
    using assms by (simp add: Cons_nth_drop_Suc numeral_eq_Suc)
  then show ?thesis by (simp add: getint_blk_def block_word_def)
qed

lemma reg_less [simp]: "reg i k < 5"
  by (simp add: reg_def)

lemma reg_mod: "reg i k = (k + 4 * (i mod 5)) mod 5"
  unfolding reg_def by (metis mod_add_right_eq mod_mult_right_eq)

lemma mod5_cases: "i mod 5 = 0 \<or> i mod 5 = 1 \<or> i mod 5 = 2 \<or> i mod 5 = 3 \<or> i mod 5 = (4 :: nat)"
  by linarith

lemma reg_neq [simp]:
  "reg i 0 \<noteq> reg i (Suc 0)" "reg i 0 \<noteq> reg i 2" "reg i 0 \<noteq> reg i 3" "reg i 0 \<noteq> reg i 4" "reg i (Suc 0) \<noteq> reg i 0"
  "reg i (Suc 0) \<noteq> reg i 2" "reg i (Suc 0) \<noteq> reg i 3" "reg i (Suc 0) \<noteq> reg i 4" "reg i 2 \<noteq> reg i 0" "reg i 2 \<noteq> reg i (Suc 0)"
  "reg i 2 \<noteq> reg i 3" "reg i 2 \<noteq> reg i 4" "reg i 3 \<noteq> reg i 0" "reg i 3 \<noteq> reg i (Suc 0)" "reg i 3 \<noteq> reg i 2" "reg i 3 \<noteq> reg i 4"
  "reg i 4 \<noteq> reg i 0" "reg i 4 \<noteq> reg i (Suc 0)" "reg i 4 \<noteq> reg i 2" "reg i 4 \<noteq> reg i 3"
  using mod5_cases [of i] by (auto simp: reg_mod)

lemma reg_Suc: "reg (Suc i) 0 = reg i 4" "reg (Suc i) (Suc 0) = reg i 0" "reg (Suc i) 2 = reg i (Suc 0)" "reg (Suc i) 3 = reg i 2" "reg (Suc i) 4 = reg i 3"
  using mod5_cases [of i] by (auto simp: reg_mod mod_Suc)

text \<open>The last sixteen words of the schedule are in the window.\<close>

definition window :: "u8 list \<Rightarrow> nat \<Rightarrow> u32 list \<Rightarrow> bool" where
  "window block i tmp \<longleftrightarrow> length tmp = 16 \<and> (\<forall>j<i. i \<le> j + 16 \<longrightarrow> tmp ! (j mod 16) = fips_w block j)"

lemma window_put:
  assumes "window block i tmp"
  shows "window block (Suc i) (tmp[i mod 16 := fips_w block i])"
proof -
  have "tmp[i mod 16 := fips_w block i] ! (j mod 16) = fips_w block j" if "j < Suc i" "Suc i \<le> j + 16" for j
  proof (cases "j = i")
    case False
    have "j mod 16 \<noteq> i mod 16"
    proof
      assume "j mod 16 = i mod 16"
      then have "16 dvd i - j" using that by (metis mod_eq_dvd_iff_nat less_Suc_eq_le)
      then show False using that False by (auto dest: dvd_imp_le)
    qed
    then show ?thesis using assms that False by (simp add: window_def)
  qed (use assms in \<open>simp add: window_def\<close>)
  then show ?thesis using assms by (simp add: window_def)
qed

lemma window_blk0:
  assumes "window block i tmp" "length block = 64" "i < 16"
  shows "blk0 block i tmp = Inr (fips_w block i, tmp[i mod 16 := fips_w block i])"
  using assms by (simp add: blk0_def getint_blk_word fips_w.simps [of block i] window_def)

lemma window_blk:
  assumes w: "window block i tmp" and i: "16 \<le> i"
  shows "blk i tmp = Inr (fips_w block i, tmp[i mod 16 := fips_w block i])"
proof -
  have m: "(i + 13) mod 16 = (i - 3) mod 16" "(i + 8) mod 16 = (i - 8) mod 16" "(i + 2) mod 16 = (i - 14) mod 16"
    "i mod 16 = (i - 16) mod 16"
  proof -
    have "i + 13 = (i - 3) + 16" "i + 8 = (i - 8) + 16" "i + 2 = (i - 14) + 16" "i = (i - 16) + 16" using i by simp_all
    then show "(i + 13) mod 16 = (i - 3) mod 16" "(i + 8) mod 16 = (i - 8) mod 16" "(i + 2) mod 16 = (i - 14) mod 16"
      "i mod 16 = (i - 16) mod 16" by (metis mod_add_self2)+
  qed
  have "tmp ! ((i - k) mod 16) = fips_w block (i - k)" if "k \<in> {3, 8, 14, 16}" for k
    using w i that unfolding window_def by auto
  then have "tmp ! ((i + 13) mod 16) = fips_w block (i - 3)" "tmp ! ((i + 8) mod 16) = fips_w block (i - 8)"
    "tmp ! ((i + 2) mod 16) = fips_w block (i - 14)" "tmp ! (i mod 16) = fips_w block (i - 16)"
    using m by simp_all
  moreover have "length tmp = 16" using w by (simp add: window_def)
  ultimately show ?thesis using i by (simp add: blk_def fips_w.simps [of block i] Let_def)
qed

definition regs_ok :: "nat \<Rightarrow> u32 \<times> u32 \<times> u32 \<times> u32 \<times> u32 \<Rightarrow> u32 list \<Rightarrow> bool" where
  "regs_ok i s r \<longleftrightarrow> length r = 5 \<and> s = (r ! reg i 0, r ! reg i 1, r ! reg i 2, r ! reg i 3, r ! reg i 4)"

lemma rstep_regs:
  assumes "regs_ok i (a, b, c, d, e) r"
  shows "\<exists>r'. rstep f k (reg i 0) (reg i 1) (reg i 2) (reg i 3) (reg i 4) m r = Inr r' \<and>
    regs_ok (Suc i) (e + (f b c d + m + k + rol a 5), a, rol b 30, c, d) r'"
  using assms by (simp add: rstep_def regs_ok_def reg_Suc nth_list_update)

lemma run_op_step:
  assumes r: "regs_ok i s r" and w: "window block i tmp" and b: "length block = 64" and i: "i < 80"
  shows "\<exists>r' tmp'. run_op block (op_at i) (r, tmp) = Inr (r', tmp') \<and> regs_ok (Suc i) (fips_round block i s) r' \<and> window block (Suc i) tmp'"
proof -
  obtain A B C D E where s: "s = (A, B, C, D, E)" by (cases s) auto
  let ?m = "fips_w block i"
  let ?tmp = "tmp[i mod 16 := ?m]"
  have w': "window block (Suc i) ?tmp" by (rule window_put [OF w])
  have step: "\<exists>r'. rstep f k (reg i 0) (reg i 1) (reg i 2) (reg i 3) (reg i 4) ?m r = Inr r' \<and> regs_ok (Suc i) (fips_round block i s) r'"
    if "f B C D = fips_f i B C D" "k = fips_k i" for f k
    using rstep_regs [OF r [unfolded s], of f k ?m] that by (simp add: s algebra_simps)
  have k: "\<exists>f k. f B C D = fips_f i B C D \<and> k = fips_k i \<and>
      run_op block (op_at i) (r, tmp) = bindR (rstep f k (reg i 0) (reg i 1) (reg i 2) (reg i 3) (reg i 4) ?m r) (\<lambda>r. Inr (r, ?tmp))"
  proof -
    consider "i < 16" | "16 \<le> i" "i < 20" | "20 \<le> i" "i < 40" | "40 \<le> i" "i < 60" | "60 \<le> i" by linarith
    then show ?thesis
    proof cases
      case 1
      then show ?thesis
        using window_blk0 [OF w b] by (intro exI [of _ "\<lambda>w x y. (w AND (x XOR y)) XOR y"] exI [of _ "0x5A827999"])
          (simp add: op_at_def f_ch fips_f_def fips_k_def)
    next
      case 2
      then show ?thesis
        using window_blk [OF w] by (intro exI [of _ "\<lambda>w x y. (w AND (x XOR y)) XOR y"] exI [of _ "0x5A827999"])
          (simp add: op_at_def f_ch fips_f_def fips_k_def)
    next
      case 3
      then show ?thesis
        using window_blk [OF w] by (intro exI [of _ "\<lambda>w x y. w XOR x XOR y"] exI [of _ "0x6ED9EBA1"])
          (simp add: op_at_def fips_f_def fips_k_def)
    next
      case 4
      then show ?thesis
        using window_blk [OF w] by (intro exI [of _ "\<lambda>w x y. ((w OR x) AND y) OR (w AND x)"] exI [of _ "0x8F1BBCDC"])
          (simp add: op_at_def f_maj fips_f_def fips_k_def)
    next
      case 5
      then show ?thesis
        using window_blk [OF w] by (intro exI [of _ "\<lambda>w x y. w XOR x XOR y"] exI [of _ "0xCA62C1D6"])
          (simp add: op_at_def fips_f_def fips_k_def)
    qed
  qed
  then obtain f k where fk: "f B C D = fips_f i B C D" "k = fips_k i"
    "run_op block (op_at i) (r, tmp) = bindR (rstep f k (reg i 0) (reg i 1) (reg i 2) (reg i 3) (reg i 4) ?m r) (\<lambda>r. Inr (r, ?tmp))" by blast
  obtain r' where "rstep f k (reg i 0) (reg i 1) (reg i 2) (reg i 3) (reg i 4) ?m r = Inr r'" "regs_ok (Suc i) (fips_round block i s) r'"
    using step [of f k] fk(1,2) by blast
  then show ?thesis using fk(3) w' by auto
qed

lemma run_ops_append: "run_ops block (ps @ qs) s = bindR (run_ops block ps s) (run_ops block qs)"
  by (induction ps arbitrary: s) (simp_all add: bindR_assoc cong: bindR_cong)

lemma run_ops_rounds:
  assumes "length block = 64" "length st = 5" "length tmp = 16"
  shows "i \<le> 80 \<Longrightarrow> \<exists>r tmp'. run_ops block (map op_at [0..<i]) (st, tmp) = Inr (r, tmp') \<and>
    regs_ok i (fips_rounds block i (quint st)) r \<and> window block i tmp'"
proof (induction i)
  case 0
  obtain a b c d e where "st = [a, b, c, d, e]" using assms(2) by (auto simp: length_Suc_conv numeral_eq_Suc)
  then show ?case using assms(3) by (simp add: regs_ok_def window_def reg_def)
next
  case (Suc i)
  obtain r tmp1 where r: "run_ops block (map op_at [0..<i]) (st, tmp) = Inr (r, tmp1)"
    "regs_ok i (fips_rounds block i (quint st)) r" "window block i tmp1" using Suc by auto
  obtain r' tmp' where "run_op block (op_at i) (r, tmp1) = Inr (r', tmp')"
    "regs_ok (Suc i) (fips_round block i (fips_rounds block i (quint st))) r'" "window block (Suc i) tmp'"
    using run_op_step [OF r(2,3) assms(1)] Suc.prems by auto
  then show ?case using r(1) by (simp add: run_ops_append)
qed

lemma transform_rounds:
  assumes "length block = 64" "length st = 5" "length tmp = 16"
  shows "bindR (run_ops block transform_ops (st, tmp)) (\<lambda>(r, tmp). Inr (map2 (+) st r)) = Inr (fips_compress st block)"
proof -
  obtain r tmp' where r: "run_ops block transform_ops (st, tmp) = Inr (r, tmp')" "regs_ok 80 (fips_rounds block 80 (quint st)) r"
    using run_ops_rounds [OF assms, of 80] by (auto simp: transform_ops_eq)
  have "r = [r ! 0, r ! 1, r ! 2, r ! 3, r ! 4]" using r(2) by (auto simp: regs_ok_def length_Suc_conv numeral_eq_Suc)
  moreover have "reg 80 k = k" if "k < 5" for k using that by (simp add: reg_mod)
  ultimately have "fips_compress st block = map2 (+) st r" using r(2) by (simp add: fips_compress_def regs_ok_def)
  then show ?thesis using r(1) by simp
qed

text \<open>
  The unrolled transformation is the compression function of FIPS 180-1. For every state of five words
  and block of 64 bytes, \<open>sha1::transform\<close> reads and writes inside its arrays and computes the compression
  function with the schedule of eighty words and the round functions of the standard.
\<close>

lemma transform_fips:
  assumes "length st = 5" "length block = 64"
  shows "transform st block = Inr (fips_compress st block)"
  using transform_rounds [OF assms(2,1), of "replicate 16 0"] by (simp add: transform_def)

section \<open>Contexts\<close>

definition sha1_consume :: "u32 list consume" where
  "sha1_consume isbuf s p = bindR (transform s p) (\<lambda>s. Inr (s, p))"

text \<open>The constructor leaves the buffer uninitialised: its contents are an argument.\<close>

definition sha1ctx_new :: "u8 list \<Rightarrow> u32 list mdblock" where
  "sha1ctx_new junk = \<lparr>mcount = 0, mbuffer = junk, mstate = newstate\<rparr>"

definition sha1ctx_reset :: "u32 list mdblock \<Rightarrow> u32 list mdblock" where
  "sha1ctx_reset m = m\<lparr>mcount := 0, mstate := newstate\<rparr>"

definition sha1ctx_final :: "u32 list mdblock \<Rightarrow> (u8 list \<times> u32 list mdblock) res" where
  "sha1ctx_final m =
     bindR (finish_be sha1_consume m) (\<lambda>m. Inr (state2bytes (mstate m), m\<lparr>mstate := replicate 5 0\<rparr>))"

definition sha1_hash :: "u8 list \<Rightarrow> u8 list \<Rightarrow> u8 list res" where
  "sha1_hash junk d =
     bindR (md_update sha1_consume d (sha1ctx_new junk)) (\<lambda>m. bindR (sha1ctx_final m) (\<lambda>(h, _). Inr h))"

definition sha1_hashv :: "u8 list \<Rightarrow> u8 list list \<Rightarrow> u8 list res" where
  "sha1_hashv junk iov =
     bindR (updatev sha1_consume iov (sha1ctx_new junk)) (\<lambda>m. bindR (sha1ctx_final m) (\<lambda>(h, _). Inr h))"

record sha1hmac =
  hctx :: "u32 list mdblock"
  istate :: "u32 list"
  ostate :: "u32 list"

definition hmac_reset :: "sha1hmac \<Rightarrow> sha1hmac" where
  "hmac_reset h = h\<lparr>hctx := (hctx h)\<lparr>mcount := 64, mstate := istate h\<rparr>\<rparr>"

definition hmac_setkey :: "u8 list \<Rightarrow> sha1hmac \<Rightarrow> sha1hmac res" where
  "hmac_setkey key h =
     bindR (guardR AssertFail (length key < 64)) (\<lambda>_.
       let k = map (\<lambda>b. b XOR 0x36) key @ replicate (64 - length key) 0x36
       in bindR (transform newstate k) (\<lambda>is.
          let k = map (\<lambda>b. b XOR (0x36 XOR 0x5c)) k
          in bindR (transform newstate k) (\<lambda>os. Inr (hmac_reset (h\<lparr>istate := is, ostate := os\<rparr>)))))"

definition hmac_final :: "sha1hmac \<Rightarrow> (u8 list \<times> sha1hmac) res" where
  "hmac_final h =
     bindR (finish_be sha1_consume (hctx h)) (\<lambda>m.
       let x = state2bytes (mstate m)
       in bindR (md_update sha1_consume x (m\<lparr>mcount := 64, mstate := ostate h\<rparr>)) (\<lambda>m.
          bindR (finish_be sha1_consume m) (\<lambda>m. Inr (state2bytes (mstate m), hmac_reset (h\<lparr>hctx := m\<rparr>)))))"

definition sha1_hmac :: "u8 list \<Rightarrow> u8 list \<Rightarrow> u8 list \<Rightarrow> u8 list res" where
  "sha1_hmac junk key msg =
     bindR (hmac_setkey key \<lparr>hctx = sha1ctx_new junk, istate = replicate 5 0, ostate = replicate 5 0\<rparr>) (\<lambda>h.
     bindR (md_update sha1_consume msg (hctx h)) (\<lambda>m.
     bindR (hmac_final (h\<lparr>hctx := m\<rparr>)) (\<lambda>(d, _). Inr d)))"

section \<open>Reference definitions\<close>

definition fips_sha1 :: "u8 list \<Rightarrow> u8 list" where
  "fips_sha1 msg = state2bytes (foldl fips_compress newstate (blocks (md_pad 0x80 be64 msg)))"

text \<open>RFC 2104, for a key shorter than a block.\<close>

definition rfc_hmac :: "u8 list \<Rightarrow> u8 list \<Rightarrow> u8 list" where
  "rfc_hmac key msg =
     (let k = key @ replicate (64 - length key) 0
      in fips_sha1 (map (\<lambda>b. b XOR 0x5c) k @ fips_sha1 (map (\<lambda>b. b XOR 0x36) k @ msg)))"

lemma quint_cases: "length st = 5 \<Longrightarrow> \<exists>a b c d e. st = [a, b, c, d, e]"
  by (auto simp: length_Suc_conv numeral_eq_Suc)

lemma length_compress [simp]: "length st = 5 \<Longrightarrow> length (fips_compress st block) = 5"
  by (auto simp: fips_compress_def split: prod.split)

lemma length_state2bytes [simp]: "length st = 5 \<Longrightarrow> length (state2bytes st) = 20"
  using quint_cases [of st] by (auto simp: state2bytes_def)

interpretation sha1: md_hash sha1_consume fips_compress "\<lambda>s. length s = 5" "\<lambda>s. False"
  by unfold_locales (simp_all add: sha1_consume_def transform_fips)

lemma new_repr: "length junk = 64 \<Longrightarrow> sha1.md_repr newstate [] (sha1ctx_new junk)"
  by (simp add: sha1.md_repr_def sha1ctx_new_def newstate_def)

lemma finish_be_repr:
  "sha1.md_repr newstate msg m \<Longrightarrow> \<exists>m'. finish_be sha1_consume m = Inr m' \<and> state2bytes (mstate m') = fips_sha1 msg \<and> length (mbuffer m') = 64"
  using sha1.finish_repr [of newstate msg m be64 "0x80"] by (auto simp: finish_be_def fips_sha1_def)

lemma length_fips_sha1 [simp]: "length (fips_sha1 msg) = 20"
proof -
  have "length (foldl fips_compress newstate (blocks (md_pad 0x80 be64 msg))) = 5"
    by (rule sha1.good_foldl) (auto simp: newstate_def intro: sha1.blocks_length)
  then show ?thesis by (simp add: fips_sha1_def)
qed

lemma sha1_hashv_hash:
  assumes "length junk = 64"
  shows "sha1_hashv junk iov = Inr (fips_sha1 (concat iov))"
proof -
  obtain m where m: "updatev sha1_consume iov (sha1ctx_new junk) = Inr m" "sha1.md_repr newstate (concat iov) m"
    using sha1.updatev_repr [OF new_repr [OF assms]] by auto
  then show ?thesis using finish_be_repr [OF m(2)] by (auto simp: sha1_hashv_def sha1ctx_final_def)
qed


lemma transform_block: "length b = 64 \<Longrightarrow> transform newstate b = Inr (fips_compress newstate b)"
  by (rule transform_fips) (simp_all add: newstate_def)

text \<open>A context whose first block has been consumed ahead of time.\<close>

lemma primed_repr:
  assumes "length k = 64" "length (mbuffer m) = 64"
  shows "sha1.md_repr newstate k (m\<lparr>mcount := 64, mstate := fips_compress newstate k\<rparr>)"
  using assms blocks_Cons [of k "[]"] partial_Cons [of k "[]"] by (simp add: sha1.md_repr_def newstate_def)

text \<open>
  C14. HMAC. For every key of fewer than 64 bytes and every message \<open>sha1_hmac\<close> computes the HMAC of RFC 2104
  over SHA-1, and a longer key fails the assertion of \<open>setkey\<close>.
\<close>

theorem sha1_hmac_rfc:
  assumes "length junk = 64"
  shows "sha1_hmac junk key msg = (if length key < 64 then Inr (rfc_hmac key msg) else Inl AssertFail)"
proof (cases "length key < 64")
  case True
  let ?k = "key @ replicate (64 - length key) 0"
  define ki ko where "ki = map (\<lambda>b. b XOR 0x36) ?k" and "ko = map (\<lambda>b. b XOR 0x5c) ?k"
  have ki: "map (\<lambda>b. b XOR 0x36) key @ replicate (64 - length key) 0x36 = ki" by (simp add: ki_def)
  have ko: "map (\<lambda>b. b XOR (0x36 XOR 0x5c)) ki = ko" by (simp add: ki_def ko_def xor.assoc comp_def)
  have l: "length ki = 64" "length ko = 64" using True by (simp_all add: ki_def ko_def)
  let ?h = "hmac_reset \<lparr>hctx = sha1ctx_new junk, istate = fips_compress newstate ki, ostate = fips_compress newstate ko\<rparr>"
  have set: "hmac_setkey key \<lparr>hctx = sha1ctx_new junk, istate = replicate 5 0, ostate = replicate 5 0\<rparr> = Inr ?h"
    unfolding hmac_setkey_def ki Let_def ko using True l by (simp add: transform_block del: map_append)
  have "sha1.md_repr newstate ki (hctx ?h)"
    using primed_repr [OF l(1), of "sha1ctx_new junk"] assms by (simp add: hmac_reset_def sha1ctx_new_def)
  then obtain m where m: "md_update sha1_consume msg (hctx ?h) = Inr m" "sha1.md_repr newstate (ki @ msg) m"
    using sha1.update_repr by blast
  obtain m1 where m1: "finish_be sha1_consume m = Inr m1" "state2bytes (mstate m1) = fips_sha1 (ki @ msg)" "length (mbuffer m1) = 64"
    using finish_be_repr [OF m(2)] by blast
  have os: "ostate (?h\<lparr>hctx := m\<rparr>) = fips_compress newstate ko" by (simp add: hmac_reset_def)
  obtain m2 where m2: "md_update sha1_consume (fips_sha1 (ki @ msg)) (m1\<lparr>mcount := 64, mstate := fips_compress newstate ko\<rparr>) = Inr m2"
    "sha1.md_repr newstate (ko @ fips_sha1 (ki @ msg)) m2"
    using sha1.update_repr [OF primed_repr [OF l(2) m1(3)]] by blast
  obtain m3 where m3: "finish_be sha1_consume m2 = Inr m3" "state2bytes (mstate m3) = fips_sha1 (ko @ fips_sha1 (ki @ msg))"
    using finish_be_repr [OF m2(2)] by blast
  have "hmac_final (?h\<lparr>hctx := m\<rparr>) = Inr (fips_sha1 (ko @ fips_sha1 (ki @ msg)), hmac_reset (?h\<lparr>hctx := m3\<rparr>))"
    unfolding hmac_final_def os by (simp add: m1 m2(1) m3)
  then show ?thesis
    using True m(1) set by (simp add: sha1_hmac_def rfc_hmac_def Let_def ki_def [symmetric] ko_def [symmetric] del: map_append)
next
  case False
  then show ?thesis by (simp add: sha1_hmac_def hmac_setkey_def guardR_False)
qed


theorem sha1_hmac_rfc_witness:
  "sha1_hmac (replicate 64 0) [1, 2] [97] = Inr (rfc_hmac [1, 2] [97])"
  using sha1_hmac_rfc [of "replicate 64 0" "[1, 2]" "[97]"] by simp

section \<open>The random oracle\<close>

text \<open>
  \<open>sha1oracle\<close> of \<open>crypt/sha1oracle.C\<close>: several contexts side by side, which differ in the first eight
  bytes of the first block only. The state is the list of their states and the flag \<open>firstblock\<close>. On a
  little-endian host \<open>htonq\<close> stores the bytes of a number in big-endian order.
\<close>

type_synonym ora_state = "u32 list list \<times> bool"

fun transform_all :: "u8 list \<Rightarrow> u32 list list \<Rightarrow> u32 list list res" where
  "transform_all p [] = Inr []"
| "transform_all p (s # ss) = bindR (transform s p) (\<lambda>s. bindR (transform_all p ss) (\<lambda>ss. Inr (s # ss)))"

text \<open>The loop over the contexts for the first block; \<open>i\<close> counts them.\<close>

fun transform_first :: "nat \<Rightarrow> u8 list \<Rightarrow> u32 list list \<Rightarrow> (u32 list list \<times> u8 list) res" where
  "transform_first i buf [] = Inr ([], buf)"
| "transform_first i buf (s # ss) =
     bindR (memcpy_at 0 (be64 (of_nat i)) buf) (\<lambda>buf.
     bindR (transform s buf) (\<lambda>s.
     bindR (transform_first (i + 1) buf ss) (\<lambda>(ss, buf). Inr (s # ss, buf))))"

definition oracle_consume :: "ora_state consume" where
  "oracle_consume isbuf st p =
     (case st of (ss, firstblock) \<Rightarrow>
        if \<not> firstblock then bindR (transform_all p ss) (\<lambda>ss. Inr ((ss, False), p))
        else
          bindR (guardR AssertFail isbuf) (\<lambda>_.
          bindR (transform_first 0 p ss) (\<lambda>(ss, buf). Inr ((ss, False), buf))))"

definition oracle_reset :: "nat \<Rightarrow> u64 \<Rightarrow> ora_state mdblock \<Rightarrow> ora_state mdblock res" where
  "oracle_reset nctx idx m =
     md_update oracle_consume (be64 0 @ be64 idx) (m\<lparr>mcount := 0, mstate := (replicate nctx newstate, True)\<rparr>)"

definition oracle_nctx :: "nat \<Rightarrow> nat \<Rightarrow> nat" where
  "oracle_nctx nbytes hashused = (nbytes + hashused - 1) div hashused"

definition oracle_new :: "u8 list \<Rightarrow> nat \<Rightarrow> u64 \<Rightarrow> nat \<Rightarrow> ora_state mdblock res" where
  "oracle_new junk nbytes idx hashused =
     oracle_reset (oracle_nctx nbytes hashused) idx \<lparr>mcount = 0, mbuffer = junk, mstate = ([], True)\<rparr>"

text \<open>The loop of \<open>final\<close> that writes whole hashes, each over the tail of the one before.\<close>

fun oracle_full :: "nat \<Rightarrow> nat \<Rightarrow> u32 list list \<Rightarrow> u8 list \<Rightarrow> (nat \<times> u32 list list \<times> u8 list) res" where
  "oracle_full used p [] out = (if p + 20 \<le> length out then Inl OutOfRange else Inr (p, [], out))"
| "oracle_full used p (s # ss) out =
     (if p + 20 \<le> length out
      then bindR (memcpy_at p (state2bytes s) out) (\<lambda>out. oracle_full used (p + used) ss out)
      else Inr (p, s # ss, out))"

definition oracle_part :: "nat \<Rightarrow> nat \<Rightarrow> u32 list list \<Rightarrow> u8 list \<Rightarrow> u8 list res" where
  "oracle_part n p ss out =
     (case ss of
        [] \<Rightarrow> Inl OutOfRange
      | s # _ \<Rightarrow> bindR (guardR OutOfRange (n \<le> length (state2bytes s))) (\<lambda>_. memcpy_at p (take n (state2bytes s)) out))"

definition oracle_final :: "nat \<Rightarrow> u8 list \<Rightarrow> ora_state mdblock \<Rightarrow> u8 list res" where
  "oracle_final used out m =
     bindR (finish_be oracle_consume m) (\<lambda>m.
     bindR (oracle_full used 0 (fst (mstate m)) out) (\<lambda>(p, ss, out).
     bindR (if p + used \<le> length out
            then bindR (oracle_part used p ss out) (\<lambda>out. Inr (p + used, tl ss, out))
            else Inr (p, ss, out)) (\<lambda>(p, ss, out).
       if p < length out then oracle_part (length out - p) p ss out else Inr out)))"

text \<open>An oracle fed with a message in pieces; \<open>out\<close> is the memory the result is written to.\<close>

definition oracle_hash :: "u8 list \<Rightarrow> u64 \<Rightarrow> nat \<Rightarrow> u8 list list \<Rightarrow> u8 list \<Rightarrow> u8 list res" where
  "oracle_hash junk idx used iov out =
     bindR (oracle_new junk (length out) idx used) (\<lambda>m.
     bindR (updatev oracle_consume iov m) (oracle_final used out))"

definition oracle_step :: "ora_state \<Rightarrow> u8 list \<Rightarrow> ora_state" where
  "oracle_step st b =
     (map (\<lambda>(i, s). fips_compress s (if snd st then be64 (of_nat i) @ drop 8 b else b)) (enumerate 0 (fst st)), False)"

definition oracle_good :: "ora_state \<Rightarrow> bool" where
  "oracle_good st \<longleftrightarrow> (\<forall>s\<in>set (fst st). length s = 5)"

lemma transform_all_ok:
  "length p = 64 \<Longrightarrow> (\<And>s. s \<in> set ss \<Longrightarrow> length s = 5) \<Longrightarrow> transform_all p ss = Inr (map (\<lambda>s. fips_compress s p) ss)"
  by (induction ss) (simp_all add: transform_fips)

lemma transform_first_ok:
  "length p = 64 \<Longrightarrow> (\<And>s. s \<in> set ss \<Longrightarrow> length s = 5) \<Longrightarrow>
     \<exists>b. transform_first i p ss = Inr (map (\<lambda>(i, s). fips_compress s (be64 (of_nat i) @ drop 8 p)) (enumerate i ss), b) \<and> length b = 64"
proof (induction ss arbitrary: i p)
  case (Cons s ss)
  let ?p = "be64 (of_nat i) @ drop 8 p"
  have l: "length ?p = 64" using Cons.prems(1) by simp
  obtain b where "transform_first (i + 1) ?p ss = Inr (map (\<lambda>(i, s). fips_compress s (be64 (of_nat i) @ drop 8 ?p)) (enumerate (i + 1) ss), b)"
    "length b = 64" using Cons.IH [OF l] Cons.prems(2) by auto
  moreover have "transform s ?p = Inr (fips_compress s ?p)" using transform_fips [OF _ l] Cons.prems(2) by simp
  ultimately show ?case using Cons.prems(1) by simp
qed simp

interpretation ora: md_hash oracle_consume oracle_step oracle_good snd
proof
  fix s :: ora_state and b :: "u8 list" and isbuf
  assume g: "oracle_good s" "length b = 64" "snd s \<Longrightarrow> isbuf"
  show "\<exists>b'. oracle_consume isbuf s b = Inr (oracle_step s b, b') \<and> length b' = 64"
  proof (cases "snd s")
    case False
    have "map (\<lambda>(i, s). fips_compress s b) (enumerate 0 (fst s)) = map (\<lambda>s. fips_compress s b) (fst s)"
      by (rule nth_equalityI) (simp_all add: nth_enumerate_eq)
    then show ?thesis
      using False g(1,2) transform_all_ok [of b "fst s"]
      by (cases s) (simp add: oracle_consume_def oracle_step_def oracle_good_def)
  next
    case True
    obtain b' where "transform_first 0 b (fst s) = Inr (map (\<lambda>(i, s). fips_compress s (be64 (of_nat i) @ drop 8 b)) (enumerate 0 (fst s)), b')"
      "length b' = 64" using transform_first_ok [OF g(2), of "fst s" 0] g(1) by (auto simp: oracle_good_def)
    then show ?thesis using True g(3) by (cases s) (simp add: oracle_consume_def oracle_step_def)
  qed
next
  fix s :: ora_state and b :: "u8 list"
  assume "oracle_good s" "length b = 64"
  then show "oracle_good (oracle_step s b)" by (auto simp: oracle_good_def oracle_step_def in_set_enumerate_eq)
qed (simp add: oracle_step_def)

lemma foldl_oracle_later:
  "foldl oracle_step (ss, False) bs = (map (\<lambda>s. foldl fips_compress s bs) ss, False)"
proof (induction bs arbitrary: ss)
  case (Cons b bs)
  have "map (\<lambda>(i, s). fips_compress s b) (enumerate 0 ss) = map (\<lambda>s. fips_compress s b) ss"
    by (rule nth_equalityI) (simp_all add: nth_enumerate_eq)
  then have "oracle_step (ss, False) b = (map (\<lambda>s. fips_compress s b) ss, False)" by (simp add: oracle_step_def)
  then show ?case using Cons.IH [of "map (\<lambda>s. fips_compress s b) ss"] by (simp add: comp_def)
qed simp

lemma foldl_oracle_first:
  "foldl oracle_step (replicate n s, True) (b # bs) =
     (map (\<lambda>i. foldl fips_compress s ((be64 (of_nat i) @ drop 8 b) # bs)) [0..<n], False)"
proof -
  have "map (\<lambda>(i, s). fips_compress s (be64 (of_nat i) @ drop 8 b)) (enumerate 0 (replicate n s)) =
      map (\<lambda>i. fips_compress s (be64 (of_nat i) @ drop 8 b)) [0..<n]"
    by (rule nth_equalityI) (simp_all add: nth_enumerate_eq)
  then have "oracle_step (replicate n s, True) b = (map (\<lambda>i. fips_compress s (be64 (of_nat i) @ drop 8 b)) [0..<n], False)"
    by (simp add: oracle_step_def)
  then show ?thesis by (simp add: foldl_oracle_later comp_def)
qed

lemma length_md_pad: "(\<And>c. length (enc c) = 8) \<Longrightarrow> 64 \<le> length (md_pad mark enc msg)"
proof -
  assume enc: "\<And>c. length (enc c) = 8"
  have "55 \<le> length msg + (119 - length msg mod 64) mod 64"
  proof (cases "length msg < 56")
    case True
    have "(119 - length msg) mod 64 = 55 - length msg"
      using True mod_if [of "119 - length msg" 64] by simp
    then show ?thesis using True by simp
  qed simp
  then show ?thesis using enc by (simp add: md_pad_def)
qed

text \<open>Padded messages that differ in the first eight bytes differ in the first block only.\<close>

lemma blocks_prefix:
  "\<exists>t bs. length t = 56 \<and> (\<forall>x. length x = 8 \<longrightarrow> blocks (md_pad 0x80 be64 (x @ r)) = (x @ t) # bs)"
proof -
  define tail where "tail = r @ [0x80] @ replicate ((119 - (8 + length r) mod 64) mod 64) 0 @ be64 (of_nat (8 * (8 + length r)))"
  have pad: "md_pad 0x80 be64 (x @ r) = x @ tail" if "length x = 8" for x using that by (simp add: md_pad_def tail_def)
  have l: "56 \<le> length tail" using length_md_pad [of be64 "0x80" "replicate 8 0 @ r"] pad [of "replicate 8 0"] by simp
  have "blocks (md_pad 0x80 be64 (x @ r)) = (x @ take 56 tail) # blocks (drop 56 tail)" if x: "length x = 8" for x
  proof -
    have "blocks ((x @ take 56 tail) @ drop 56 tail) = (x @ take 56 tail) # blocks (drop 56 tail)"
      by (rule blocks_Cons) (use x l in simp)
    then show ?thesis using pad [OF x] by simp
  qed
  moreover have "length (take 56 tail) = 56" using l by simp
  ultimately show ?thesis by blast
qed

definition oracle_state :: "nat \<Rightarrow> u8 list \<Rightarrow> u32 list" where
  "oracle_state i r = foldl fips_compress newstate (blocks (md_pad 0x80 be64 (be64 (of_nat i) @ r)))"

lemma length_oracle_state: "length (oracle_state i r) = 5"
  unfolding oracle_state_def by (rule sha1.good_foldl) (auto simp: newstate_def intro: sha1.blocks_length)

lemma oracle_states:
  "fst (foldl oracle_step (replicate n newstate, True) (blocks (md_pad 0x80 be64 (be64 0 @ r)))) =
     map (\<lambda>i. oracle_state i r) [0..<n]"
proof -
  obtain t bs where t: "length t = 56" "\<forall>x. length x = 8 \<longrightarrow> blocks (md_pad 0x80 be64 (x @ r)) = (x @ t) # bs"
    using blocks_prefix by blast
  then have e: "blocks (md_pad 0x80 be64 (be64 c @ r)) = (be64 c @ t) # bs" for c by simp
  show ?thesis unfolding oracle_state_def e foldl_oracle_first by simp
qed

text \<open>All contexts have consumed the message when \<open>final\<close> starts to write.\<close>

lemma oracle_finished:
  assumes "length junk = 64"
  shows "\<exists>m m'. oracle_new junk nbytes idx used = Inr m \<and>
    bindR (updatev oracle_consume iov m) (finish_be oracle_consume) = Inr m' \<and>
    fst (mstate m') = map (\<lambda>i. oracle_state i (be64 idx @ concat iov)) [0..<oracle_nctx nbytes used]"
proof -
  define n where "n = oracle_nctx nbytes used"
  define s0 :: ora_state where "s0 = (replicate n newstate, True)"
  have g: "oracle_good s0" by (simp add: oracle_good_def s0_def newstate_def)
  let ?m = "\<lparr>mcount = 0, mbuffer = junk, mstate = s0\<rparr>"
  have "ora.md_repr s0 [] ?m" using assms g by (simp add: ora.md_repr_def)
  then obtain m where m: "md_update oracle_consume (be64 0 @ be64 idx) ?m = Inr m" "ora.md_repr s0 (be64 0 @ be64 idx) m"
    using ora.update_repr [of s0 "[]" ?m "be64 0 @ be64 idx"] by auto
  have ne: "be64 0 @ be64 idx \<noteq> []" using length_be64 [of 0] by (metis append_is_Nil_conv list.size(3) zero_neq_numeral)
  obtain m1 where m1: "updatev oracle_consume iov m = Inr m1" "ora.md_repr s0 ((be64 0 @ be64 idx) @ concat iov) m1"
    using ora.updatev_repr [OF m(2)] ne by blast
  obtain m' where "finish_be oracle_consume m1 = Inr m'"
    "mstate m' = foldl oracle_step s0 (blocks (md_pad 0x80 be64 ((be64 0 @ be64 idx) @ concat iov)))"
    using ora.finish_repr [OF m1(2), of be64 "0x80"] ne by (auto simp: finish_be_def)
  then show ?thesis
    using m(1) m1(1) oracle_states [of n "be64 idx @ concat iov"]
    by (simp add: oracle_new_def oracle_reset_def s0_def n_def)
qed

section \<open>Writing the result\<close>

definition pieces :: "nat \<Rightarrow> u32 list list \<Rightarrow> u8 list" where
  "pieces used ss = concat (map (\<lambda>s. take used (state2bytes s)) ss)"

lemma pieces_simps [simp]:
  "pieces used [] = []" "pieces used (s # ss) = take used (state2bytes s) @ pieces used ss"
  by (simp_all add: pieces_def)

lemma oracle_full_writes:
  assumes "\<And>s. s \<in> set ss \<Longrightarrow> length s = 5" "used \<le> 20" "0 < used" "length out \<le> p + used * length ss" "p \<le> length out"
  shows "\<exists>k ss' out'. oracle_full used p ss out = Inr (p + used * k, ss', out') \<and> length out' = length out \<and>
    set ss' \<subseteq> set ss \<and> length ss = k + length ss' \<and> length out < p + used * k + 20 \<and> p + used * k \<le> length out \<and>
    take (p + used * k) out' @ pieces used ss' = take p out @ pieces used ss"
  using assms
proof (induction ss arbitrary: p out)
  case Nil
  then show ?case by (intro exI [of _ 0]) simp
next
  case (Cons s ss)
  show ?case
  proof (cases "p + 20 \<le> length out")
    case True
    let ?o = "take p out @ state2bytes s @ drop (p + 20) out"
    have l: "length (state2bytes s) = 20" using Cons.prems(1) by simp
    have lo: "length ?o = length out" using True l by simp
    have h: "\<And>s. s \<in> set ss \<Longrightarrow> length s = 5" "length ?o \<le> p + used + used * length ss" "p + used \<le> length ?o"
      using Cons.prems True unfolding lo by auto
    obtain k ss' out' where k: "oracle_full used (p + used) ss ?o = Inr (p + used + used * k, ss', out')"
      "length out' = length ?o" "set ss' \<subseteq> set ss" "length ss = k + length ss'" "length ?o < p + used + used * k + 20"
      "p + used + used * k \<le> length ?o" "take (p + used + used * k) out' @ pieces used ss' = take (p + used) ?o @ pieces used ss"
      using Cons.IH [OF h(1) Cons.prems(2,3) h(2,3)] by blast
    have "oracle_full used p (s # ss) out = Inr (p + used * Suc k, ss', out')" using True l k(1) by (simp add: algebra_simps)
    moreover have "take (p + used * Suc k) out' @ pieces used ss' = take p out @ pieces used (s # ss)"
      using k(7) True l Cons.prems(2,5) by (simp add: algebra_simps)
    moreover have "length out < p + used * Suc k + 20" "p + used * Suc k \<le> length out" using k(5,6) unfolding lo by simp_all
    moreover have "length out' = length out" "set ss' \<subseteq> set (s # ss)" "length (s # ss) = Suc k + length ss'"
      using k(2,3,4) unfolding lo by auto
    ultimately show ?thesis by blast
  next
    case False
    then show ?thesis using Cons.prems(5) by (intro exI [of _ 0]) simp
  qed
qed

lemma length_pieces: "(\<And>s. s \<in> set ss \<Longrightarrow> length s = 5) \<Longrightarrow> used \<le> 20 \<Longrightarrow> length (pieces used ss) = used * length ss"
  by (induction ss) simp_all

lemma oracle_part_writes:
  assumes "length s = 5" "n \<le> 20" "p + n \<le> length out"
  shows "oracle_part n p (s # ss) out = Inr (take p out @ take n (state2bytes s) @ drop (p + n) out)"
  using assms by (simp add: oracle_part_def)

text \<open>The two steps after the loop write what is left, when that is at most two pieces.\<close>

lemma oracle_tail_writes:
  assumes g: "\<And>s. s \<in> set ss \<Longrightarrow> length s = 5" and u: "used \<le> 20" "0 < used" and p: "p \<le> length out"
    and r: "length out - p \<le> 2 * used" "length out \<le> p + used * length ss"
  shows "bindR (if p + used \<le> length out
            then bindR (oracle_part used p ss out) (\<lambda>out. Inr (p + used, tl ss, out))
            else Inr (p, ss, out)) (\<lambda>(p, ss, out).
       if p < length out then oracle_part (length out - p) p ss out else Inr out) =
     Inr (take (length out) (take p out @ pieces used ss))"
proof (cases "p < length out")
  case False
  then show ?thesis using p u by simp
next
  case True
  then obtain s ss' where ss: "ss = s # ss'" using r(2) by (cases ss) auto
  have s: "length s = 5" "length (state2bytes s) = 20" using g ss by simp_all
  show ?thesis
  proof (cases "p + used \<le> length out")
    case False
    then show ?thesis using True s u oracle_part_writes [of s "length out - p" p out ss'] by (simp add: ss)
  next
    case full: True
    let ?o = "take p out @ take used (state2bytes s) @ drop (p + used) out"
    have lo: "length ?o = length out" using full s u by simp
    have w: "oracle_part used p ss out = Inr ?o" using oracle_part_writes [OF s(1) u(1), of p out ss'] full ss by simp
    show ?thesis
    proof (cases "p + used < length out")
      case False
      then have "used = length out - p" using full by simp
      then have "take (length out - p) (state2bytes s) = take used (state2bytes s)" by (rule arg_cong [symmetric])
      then show ?thesis using False full w s u by (simp add: ss)
    next
      case more: True
      then obtain t ss'' where ss': "ss' = t # ss''" using r(2) ss by (cases ss') auto
      have t: "length t = 5" "length (state2bytes t) = 20" using g ss ss' by simp_all
      have "oracle_part (length out - (p + used)) (p + used) (t # ss'') ?o =
          Inr (take (p + used) ?o @ take (length out - (p + used)) (state2bytes t) @ drop (p + used + (length out - (p + used))) ?o)"
        by (rule oracle_part_writes [OF t(1)]) (use more r(1) u lo in simp_all)
      then show ?thesis using full more w s t u r(1) by (simp add: ss ss' lo)
    qed
  qed
qed

lemma nctx_enough: "0 < used \<Longrightarrow> nbytes \<le> used * oracle_nctx nbytes used"
  using mult_div_mod_eq [of used "nbytes + used - 1"] mod_less_divisor [of used "nbytes + used - 1"]
  unfolding oracle_nctx_def by linarith

lemma left_at_most_two:
  assumes "10 \<le> used \<or> (7 \<le> used \<and> used dvd n)" "(n :: nat) < used * k + 20" "used * k \<le> n"
  shows "n - used * k \<le> 2 * used"
  using assms(1)
proof
  assume u: "7 \<le> used \<and> used dvd n"
  then have "used dvd n - used * k" by (simp add: dvd_diff_nat)
  then obtain j where j: "n - used * k = used * j" by blast
  have "j \<le> 2"
  proof (rule ccontr)
    assume "\<not> j \<le> 2"
    then have "7 * 3 \<le> used * j" using u by (intro mult_le_mono) auto
    then show False using j assms(2) by simp
  qed
  then show ?thesis using j by simp
qed (use assms(2) in simp)

text \<open>
  C31. The random oracle. When at least ten bytes of each hash are used, or at least seven and the size of
  the result is a multiple of that number (as for \<open>rnd_input\<close>, with 64 bytes in pieces of 8), the oracle
  writes the first bytes of the concatenation of the pieces of \<open>SHA1(<i> || <index> || M)\<close> for
  \<open>i = 0, 1, ...\<close>, for every message \<open>M\<close> in any pieces, and never touches memory outside its buffers.
\<close>

theorem oracle_hash_concat:
  assumes "length junk = 64" "used \<le> 20" "10 \<le> used \<or> (7 \<le> used \<and> used dvd length out)"
  shows "oracle_hash junk idx used iov out =
    Inr (take (length out) (concat (map (\<lambda>i. take used (fips_sha1 (be64 (of_nat i) @ be64 idx @ concat iov)))
      [0..<oracle_nctx (length out) used])))"
proof -
  define n where "n = oracle_nctx (length out) used"
  define ss where "ss = map (\<lambda>i. oracle_state i (be64 idx @ concat iov)) [0..<n]"
  have used0: "0 < used" using assms(3) by auto
  obtain m m1 m' where m: "oracle_new junk (length out) idx used = Inr m" "updatev oracle_consume iov m = Inr m1"
    "finish_be oracle_consume m1 = Inr m'" "fst (mstate m') = ss"
    using oracle_finished [OF assms(1), of "length out" idx used iov] unfolding n_def [symmetric] ss_def [symmetric]
    by (auto elim!: bindRE)
  have g: "\<And>s. s \<in> set ss \<Longrightarrow> length s = 5" by (auto simp: ss_def length_oracle_state)
  have big: "length out \<le> 0 + used * length ss" using nctx_enough [OF used0, of "length out"] by (simp add: ss_def n_def)
  obtain k ss' out' where k: "oracle_full used 0 ss out = Inr (used * k, ss', out')" "length out' = length out" "set ss' \<subseteq> set ss"
    "length ss = k + length ss'" "length out < used * k + 20" "used * k \<le> length out"
    "take (used * k) out' @ pieces used ss' = pieces used ss"
    using oracle_full_writes [OF g assms(2) used0 big] by auto
  have g': "\<And>s. s \<in> set ss' \<Longrightarrow> length s = 5" using k(3) g by blast
  have h: "used * k \<le> length out'" "length out' - used * k \<le> 2 * used" "length out' \<le> used * k + used * length ss'"
    using k left_at_most_two [OF assms(3) k(5,6)] big by (simp_all add: add_mult_distrib2)
  note oracle_tail_writes [OF g' assms(2) used0 h]
  then have "oracle_final used out m1 = Inr (take (length out) (pieces used ss))"
    by (simp add: oracle_final_def m(3,4) k(1,2,7))
  then have "oracle_hash junk idx used iov out = Inr (take (length out) (pieces used ss))"
    using m(1,2) by (simp add: oracle_hash_def)
  then show ?thesis by (simp add: pieces_def ss_def n_def oracle_state_def fips_sha1_def comp_def)
qed

theorem oracle_hash_concat_witness:
  "oracle_hash (replicate 64 0) 0 8 [[1, 2], [3]] (replicate 64 0) =
    Inr (take 64 (concat (map (\<lambda>i. take 8 (fips_sha1 (be64 (of_nat i) @ be64 0 @ [1, 2, 3]))) [0..<oracle_nctx 64 8])))"
  using oracle_hash_concat [of "replicate 64 0" 8 "replicate 64 0" 0 "[[1, 2], [3]]"] by simp

text \<open>
  Where the oracle departs from its description. For a result of 27 bytes in pieces of 8 the last eleven
  bytes all come from the third hash, although the description takes eight of them from the third and three
  from the fourth; the state of the fourth context is computed and not used.
\<close>

lemma oracle_short_tail:
  assumes "length junk = 64" "length out = 27"
  shows "oracle_hash junk idx 8 iov out =
    Inr (take 8 (fips_sha1 (be64 0 @ be64 idx @ concat iov)) @ take 8 (fips_sha1 (be64 1 @ be64 idx @ concat iov)) @
         take 11 (fips_sha1 (be64 2 @ be64 idx @ concat iov))) \<and> oracle_nctx (length out) 8 = 4"
proof -
  let ?s = "\<lambda>i. oracle_state i (be64 idx @ concat iov)"
  have four: "[0..<4] = [0, 1, 2, 3 :: nat]" by code_simp
  obtain m m1 m' where m: "oracle_new junk 27 idx 8 = Inr m" "updatev oracle_consume iov m = Inr m1"
    "finish_be oracle_consume m1 = Inr m'" "fst (mstate m') = [?s 0, ?s 1, ?s 2, ?s 3]"
    using oracle_finished [OF assms(1), of 27 idx 8 iov] four by (auto simp: oracle_nctx_def elim!: bindRE)
  have l: "length (?s i) = 5" for i by (rule length_oracle_state)
  have "oracle_final 8 out m1 = Inr (take 8 (state2bytes (?s 0)) @ take 8 (state2bytes (?s 1)) @ take 11 (state2bytes (?s 2)))"
    using assms(2) l by (simp add: oracle_final_def m(3,4) oracle_part_def)
  then show ?thesis using m(1,2) assms(2) by (simp add: oracle_hash_def oracle_state_def fips_sha1_def oracle_nctx_def)
qed

lemma oracle_short_tail_witness:
  "oracle_hash (replicate 64 0) 0 8 [[1]] (replicate 27 0) =
    Inr (take 8 (fips_sha1 (be64 0 @ be64 0 @ [1])) @ take 8 (fips_sha1 (be64 1 @ be64 0 @ [1])) @
         take 11 (fips_sha1 (be64 2 @ be64 0 @ [1]))) \<and> oracle_nctx 27 8 = 4"
  using oracle_short_tail [of "replicate 64 0" "replicate 27 0" 0 "[[1]]"] by simp

end
