(* ===== verification/Cbuf.thy ===== *)
theory Cbuf
  imports Mdblock
begin

text \<open>
  The circular buffer of \<open>async/cbuf.h\<close> and \<open>async/cbuf.C\<close>. Lengths and positions are natural numbers:
  in every state the operations lead to, the differences the code computes in \<open>size_t\<close> are not negative,
  and \<open>resize\<close> keeps the size in an \<open>int\<close>, so that buffers are shorter than 2 GB. A locale states what a
  bounded queue of bytes promises, and the buffer is shown to keep that promise; \<open>clear\<close> and \<open>resize\<close>
  do not.
\<close>

section \<open>Definitions\<close>

record cbuf =
  cb_buf :: "u8 list"
  cb_empty :: bool
  cb_start :: nat
  cb_end :: nat

abbreviation buflen :: "cbuf \<Rightarrow> nat" where
  "buflen c \<equiv> length (cb_buf c)"

text \<open>The memory that \<open>xmalloc\<close> returns is not initialised: its contents are an argument.\<close>

definition cbuf_new :: "u8 list \<Rightarrow> cbuf" where
  "cbuf_new mem = \<lparr>cb_buf = mem, cb_empty = True, cb_start = 0, cb_end = 0\<rparr>"

definition cbuf_clear :: "cbuf \<Rightarrow> cbuf" where
  "cbuf_clear c = c\<lparr>cb_empty := False, cb_start := 0, cb_end := 0\<rparr>"

definition cb_space :: "cbuf \<Rightarrow> nat" where
  "cb_space c = (if cb_empty c \<or> cb_start c < cb_end c then buflen c else 0) + cb_start c - cb_end c"

definition cb_bytes :: "cbuf \<Rightarrow> nat" where
  "cb_bytes c = buflen c - cb_space c"

definition cb_size :: "cbuf \<Rightarrow> nat" where
  "cb_size c = (if cb_empty c \<or> cb_start c < cb_end c then 0 else buflen c) + cb_end c - cb_start c"

text \<open>An I/O vector is a position in the buffer and a length; the unused second one has length 0.\<close>

definition iniov :: "cbuf \<Rightarrow> (nat \<times> nat) list" where
  "iniov c =
     (if cb_empty c \<or> cb_start c < cb_end c
      then [(cb_end c, buflen c - cb_end c), (0, cb_start c)]
      else [(cb_end c, cb_start c - cb_end c), (0, 0)])"

definition iniovcnt :: "cbuf \<Rightarrow> nat" where
  "iniovcnt c =
     (if cb_empty c \<or> cb_start c < cb_end c then 1 + (if cb_start c \<noteq> 0 then 1 else 0)
      else if cb_start c \<noteq> cb_end c then 1 else 0)"

definition addbytes :: "nat \<Rightarrow> cbuf \<Rightarrow> cbuf res" where
  "addbytes n c =
     (if n \<noteq> 0
      then bindR (guardR AssertFail (n \<le> cb_space c)) (\<lambda>_.
             let e = cb_end c + n
             in Inr (c\<lparr>cb_empty := False, cb_end := if e \<ge> buflen c then e - buflen c else e\<rparr>))
      else Inr c)"

definition cb_at :: "cbuf \<Rightarrow> nat \<Rightarrow> u8 res" where
  "cb_at c n = bindR (guardR AssertFail (n < cb_size c)) (\<lambda>_. rd (cb_buf c) ((n + cb_start c) mod buflen c))"

fun memchr :: "u8 \<Rightarrow> u8 list \<Rightarrow> nat option" where
  "memchr x [] = None"
| "memchr x (y # ys) = (if x = y then Some 0 else map_option Suc (memchr x ys))"

text \<open>The bytes that a pointer and a length denote.\<close>

definition slice :: "u8 list \<Rightarrow> nat \<Rightarrow> nat \<Rightarrow> u8 list res" where
  "slice buf p n = (if p + n \<le> length buf then Inr (take n (drop p buf)) else Inl OutOfRange)"

definition cb_find :: "u8 \<Rightarrow> cbuf \<Rightarrow> int res" where
  "cb_find x c =
     (if cb_empty c then Inr (- 1)
      else if cb_start c < cb_end c
      then bindR (slice (cb_buf c) (cb_start c) (cb_end c - cb_start c)) (\<lambda>bs.
             case memchr x bs of Some p \<Rightarrow> Inr (int p) | None \<Rightarrow> Inr (- 1))
      else bindR (slice (cb_buf c) (cb_start c) (buflen c - cb_start c)) (\<lambda>bs.
             case memchr x bs of Some p \<Rightarrow> Inr (int p)
             | None \<Rightarrow> bindR (slice (cb_buf c) 0 (cb_end c)) (\<lambda>bs.
                 case memchr x bs of Some p \<Rightarrow> Inr (int (p + buflen c - cb_start c)) | None \<Rightarrow> Inr (- 1))))"

definition outiov :: "cbuf \<Rightarrow> (nat \<times> nat) list" where
  "outiov c =
     (if cb_start c \<ge> cb_end c \<and> \<not> cb_empty c
      then [(cb_start c, buflen c - cb_start c), (0, cb_end c)]
      else [(cb_start c, cb_end c - cb_start c), (0, 0)])"

definition outiovcnt :: "cbuf \<Rightarrow> nat" where
  "outiovcnt c =
     (if cb_empty c then 0 else if cb_start c < cb_end c then 1 else 1 + (if cb_end c \<noteq> 0 then 1 else 0))"

definition cb_rembytes :: "nat \<Rightarrow> cbuf \<Rightarrow> cbuf res" where
  "cb_rembytes n c =
     (if n \<noteq> 0
      then bindR (guardR AssertFail (n \<le> cb_size c)) (\<lambda>_.
             let s = (cb_start c + n) mod buflen c
             in Inr (c\<lparr>cb_start := s, cb_empty := (s = cb_end c)\<rparr>))
      else Inr c)"

definition unrembytes :: "nat \<Rightarrow> cbuf \<Rightarrow> cbuf res" where
  "unrembytes n c =
     (if n \<noteq> 0
      then bindR (guardR AssertFail (n \<le> cb_space c)) (\<lambda>_.
             Inr (c\<lparr>cb_start := (if cb_start c \<ge> n then 0 else buflen c) + cb_start c - n, cb_empty := False\<rparr>))
      else Inr c)"

text \<open>\<open>copyout\<close> writes to \<open>dst\<close>, the memory from the pointer it is given on.\<close>

definition cb_copyout :: "u8 list \<Rightarrow> nat \<Rightarrow> cbuf \<Rightarrow> (u8 list \<times> cbuf) res" where
  "cb_copyout dst len c =
     bindR (guardR AssertFail (len \<le> cb_size c)) (\<lambda>_.
     bindR (if cb_empty c \<or> cb_start c < cb_end c
            then bindR (slice (cb_buf c) (cb_start c) (min len (cb_end c - cb_start c))) (\<lambda>bs. memcpy_at 0 bs dst)
            else let n = min len (buflen c - cb_start c)
                 in bindR (slice (cb_buf c) (cb_start c) n) (\<lambda>bs.
                    bindR (memcpy_at 0 bs dst) (\<lambda>dst.
                    if len > n then bindR (slice (cb_buf c) 0 (len - n)) (\<lambda>bs. memcpy_at n bs dst) else Inr dst))) (\<lambda>dst.
     bindR (cb_rembytes len c) (\<lambda>c. Inr (dst, c))))"

definition cbuf_resize :: "u8 list \<Rightarrow> cbuf \<Rightarrow> cbuf res" where
  "cbuf_resize mem c =
     (let nend = cb_size c
      in bindR (cb_copyout mem nend c) (\<lambda>(nbuf, c).
           Inr \<lparr>cb_buf = nbuf, cb_empty = (nend \<noteq> 0), cb_start = 0, cb_end = nend\<rparr>))"

section \<open>Reading into the buffer and writing from it\<close>

text \<open>
  How the vectors are used: \<open>readv\<close> stores what has arrived into the vectors in turn, as much as they
  hold, and \<open>addbytes\<close> is told how much that was; \<open>writev\<close> sends some of the bytes of the vectors, and
  \<open>rembytes\<close> is told how many.
\<close>

fun readv :: "(nat \<times> nat) list \<Rightarrow> u8 list \<Rightarrow> u8 list \<Rightarrow> (nat \<times> u8 list) res" where
  "readv [] bs buf = Inr (0, buf)"
| "readv ((p, n) # iov) bs buf =
     bindR (guardR OutOfRange (p + n \<le> length buf)) (\<lambda>_.
     bindR (memcpy_at p (take n bs) buf) (\<lambda>buf.
     bindR (readv iov (drop n bs) buf) (\<lambda>(k, buf). Inr (length (take n bs) + k, buf))))"

fun gather :: "(nat \<times> nat) list \<Rightarrow> u8 list \<Rightarrow> u8 list res" where
  "gather [] buf = Inr []"
| "gather ((p, n) # iov) buf = bindR (slice buf p n) (\<lambda>bs. bindR (gather iov buf) (\<lambda>cs. Inr (bs @ cs)))"

definition cb_input :: "u8 list \<Rightarrow> cbuf \<Rightarrow> (nat \<times> cbuf) res" where
  "cb_input bs c =
     bindR (readv (take (iniovcnt c) (iniov c)) bs (cb_buf c)) (\<lambda>(k, buf).
     bindR (addbytes k (c\<lparr>cb_buf := buf\<rparr>)) (\<lambda>c. Inr (k, c)))"

definition cb_output :: "nat \<Rightarrow> cbuf \<Rightarrow> (u8 list \<times> cbuf) res" where
  "cb_output n c =
     bindR (gather (take (outiovcnt c) (outiov c)) (cb_buf c)) (\<lambda>bs.
     bindR (cb_rembytes (length (take n bs)) c) (\<lambda>c. Inr (take n bs, c)))"

section \<open>What a bounded queue of bytes promises\<close>

datatype qop = QInput "u8 list" | QOutput nat | QRem nat | QCopyout nat "u8 list" | QFind u8 | QAt nat
datatype qres = QCount nat | QBytes "u8 list" | QPos int | QByte u8 | QDone

definition index_of :: "u8 \<Rightarrow> u8 list \<Rightarrow> int" where
  "index_of x xs = (case memchr x xs of Some p \<Rightarrow> int p | None \<Rightarrow> - 1)"

text \<open>The abstract queue: a capacity and the bytes in it.\<close>

fun queue_op :: "nat \<Rightarrow> qop \<Rightarrow> u8 list \<Rightarrow> (qres \<times> u8 list) res" where
  "queue_op cap (QInput bs) q = (let t = take (cap - length q) bs in Inr (QCount (length t), q @ t))"
| "queue_op cap (QOutput n) q = Inr (QBytes (take n q), drop n q)"
| "queue_op cap (QRem n) q = (if n \<le> length q then Inr (QDone, drop n q) else Inl AssertFail)"
| "queue_op cap (QCopyout n dst) q =
     (if length q < n then Inl AssertFail
      else if length dst < n then Inl OutOfRange else Inr (QBytes (take n q @ drop n dst), drop n q))"
| "queue_op cap (QFind x) q = Inr (QPos (index_of x q), q)"
| "queue_op cap (QAt n) q = (if n < length q then Inr (QByte (q ! n), q) else Inl AssertFail)"

fun queue_run :: "nat \<Rightarrow> qop list \<Rightarrow> u8 list \<Rightarrow> (qres list \<times> u8 list) res" where
  "queue_run cap [] q = Inr ([], q)"
| "queue_run cap (p # ps) q =
     bindR (queue_op cap p q) (\<lambda>(r, q). bindR (queue_run cap ps q) (\<lambda>(rs, q). Inr (r # rs, q)))"

fun run_queue :: "(qop \<Rightarrow> 'c \<Rightarrow> (qres \<times> 'c) res) \<Rightarrow> qop list \<Rightarrow> 'c \<Rightarrow> (qres list \<times> 'c) res" where
  "run_queue f [] c = Inr ([], c)"
| "run_queue f (p # ps) c = bindR (f p c) (\<lambda>(r, c). bindR (run_queue f ps c) (\<lambda>(rs, c). Inr (r # rs, c)))"

definition map_res :: "('a \<Rightarrow> 'b) \<Rightarrow> 'a res \<Rightarrow> 'b res" where
  "map_res f m = bindR m (\<lambda>x. Inr (f x))"

lemma map_res_simps [simp]: "map_res f (Inr x) = Inr (f x)" "map_res f (Inl e) = Inl e"
  by (simp_all add: map_res_def)

locale bounded_queue =
  fixes exec :: "qop \<Rightarrow> 'c \<Rightarrow> (qres \<times> 'c) res" and wf :: "'c \<Rightarrow> bool" and cap :: "'c \<Rightarrow> nat" and contents :: "'c \<Rightarrow> u8 list"
  assumes exec_refines: "wf c \<Longrightarrow> map_res (apsnd contents) (exec p c) = queue_op (cap c) p (contents c)"
    and exec_wf: "wf c \<Longrightarrow> exec p c = Inr (r, c') \<Longrightarrow> wf c' \<and> cap c' = cap c"
    and fits: "wf c \<Longrightarrow> length (contents c) \<le> cap c"
begin

lemma run_refines:
  "wf c \<Longrightarrow> map_res (apsnd contents) (run_queue exec ps c) = queue_run (cap c) ps (contents c)"
proof (induction ps arbitrary: c)
  case (Cons p ps)
  note r = exec_refines [OF Cons.prems, of p]
  show ?case
  proof (cases "exec p c")
    case (Inl e)
    then show ?thesis using r by (simp add: r [symmetric])
  next
    case (Inr rc)
    obtain r' c' where rc: "rc = (r', c')" by force
    have w: "wf c'" "cap c' = cap c" using exec_wf [OF Cons.prems] Inr rc by blast+
    have "queue_run (cap c) ps (contents c') = map_res (apsnd contents) (run_queue exec ps c')" using Cons.IH [OF w(1)] w(2) by simp
    then show ?thesis using r Inr rc by (cases "run_queue exec ps c'") (auto simp: r [symmetric])
  qed
qed simp

lemma run_wf: "wf c \<Longrightarrow> run_queue exec ps c = Inr (rs, c') \<Longrightarrow> wf c' \<and> cap c' = cap c"
  by (induction ps arbitrary: c rs) (fastforce elim!: bindRE dest: exec_wf)+

end

section \<open>The circular buffer is a bounded queue\<close>

fun cbuf_op :: "qop \<Rightarrow> cbuf \<Rightarrow> (qres \<times> cbuf) res" where
  "cbuf_op (QInput bs) c = map_res (apfst QCount) (cb_input bs c)"
| "cbuf_op (QOutput n) c = map_res (apfst QBytes) (cb_output n c)"
| "cbuf_op (QRem n) c = map_res (Pair QDone) (cb_rembytes n c)"
| "cbuf_op (QCopyout n dst) c = map_res (apfst QBytes) (cb_copyout dst n c)"
| "cbuf_op (QFind x) c = map_res (\<lambda>p. (QPos p, c)) (cb_find x c)"
| "cbuf_op (QAt n) c = map_res (\<lambda>b. (QByte b, c)) (cb_at c n)"

definition cb_contents :: "cbuf \<Rightarrow> u8 list" where
  "cb_contents c =
     (if cb_empty c then []
      else if cb_start c < cb_end c then take (cb_end c - cb_start c) (drop (cb_start c) (cb_buf c))
      else drop (cb_start c) (cb_buf c) @ take (cb_end c) (cb_buf c))"

definition cb_wf :: "cbuf \<Rightarrow> bool" where
  "cb_wf c \<longleftrightarrow>
     (cb_empty c \<longrightarrow> cb_start c = cb_end c) \<and>
     (cb_start c < buflen c \<and> cb_end c < buflen c \<or> cb_empty c \<and> cb_start c = 0 \<and> buflen c = 0)"

lemma cb_size_contents: "cb_wf c \<Longrightarrow> cb_size c = length (cb_contents c)"
  by (auto simp: cb_wf_def cb_size_def cb_contents_def)

lemma cb_space_contents: "cb_wf c \<Longrightarrow> cb_space c = buflen c - length (cb_contents c) \<and> length (cb_contents c) \<le> buflen c"
  by (auto simp: cb_wf_def cb_space_def cb_contents_def)

text \<open>The buffer read around from the first byte, and the contents as a part of it.\<close>

lemma contents_rotate:
  assumes "cb_wf c"
  shows "cb_contents c = take (cb_size c) (drop (cb_start c) (cb_buf c) @ take (cb_start c) (cb_buf c))"
  using assms by (auto simp: cb_wf_def cb_size_def cb_contents_def min_def)

lemma contents_nth:
  assumes w: "cb_wf c" and n: "n < cb_size c"
  shows "cb_contents c ! n = cb_buf c ! ((n + cb_start c) mod buflen c)"
proof -
  have s: "cb_start c < buflen c" and le: "cb_size c \<le> buflen c"
    using w n cb_size_contents [OF w] cb_space_contents [OF w] by (auto simp: cb_wf_def cb_size_def)
  have "cb_contents c ! n = (drop (cb_start c) (cb_buf c) @ take (cb_start c) (cb_buf c)) ! n"
    using n by (subst contents_rotate [OF w]) (simp del: take_append)
  also have "\<dots> = cb_buf c ! ((n + cb_start c) mod buflen c)"
  proof (cases "n + cb_start c < buflen c")
    case True
    then have "n < buflen c - cb_start c" by simp
    then show ?thesis using True s by (simp add: nth_append add.commute)
  next
    case False
    then have "(n + cb_start c) mod buflen c = n + cb_start c - buflen c" using s n le by (simp add: mod_if)
    moreover have "\<not> n < buflen c - cb_start c" "n + cb_start c - buflen c < cb_start c" using False s n le by linarith+
    ultimately show ?thesis using s by (simp add: nth_append)
  qed
  finally show ?thesis .
qed

lemma at_contents: "cb_wf c \<Longrightarrow> cb_at c n = (if n < length (cb_contents c) then Inr (cb_contents c ! n) else Inl AssertFail)"
proof (cases "n < length (cb_contents c)")
  case True
  moreover assume w: "cb_wf c"
  ultimately have "cb_buf c \<noteq> []" using cb_space_contents [OF w] by auto
  then show ?thesis using True w contents_nth [OF w, of n] by (simp add: cb_at_def cb_size_contents)
next
  case False
  moreover assume w: "cb_wf c"
  ultimately show ?thesis by (simp add: cb_at_def cb_size_contents guardR_False)
qed

text \<open>Removing bytes.\<close>

lemma rembytes_contents:
  assumes w: "cb_wf c" and n: "n \<le> length (cb_contents c)"
  shows "\<exists>c'. cb_rembytes n c = Inr c' \<and> cb_wf c' \<and> cb_contents c' = drop n (cb_contents c) \<and> cb_buf c' = cb_buf c"
proof (cases "n = 0")
  case True
  then show ?thesis using w by (simp add: cb_rembytes_def)
next
  case False
  define s where "s = (cb_start c + n) mod buflen c"
  have bl: "cb_start c < buflen c" "cb_end c < buflen c" "\<not> cb_empty c" "n \<le> buflen c"
    using w n False cb_space_contents [OF w] by (auto simp: cb_wf_def cb_contents_def)
  let ?c = "c\<lparr>cb_start := s, cb_empty := (s = cb_end c)\<rparr>"
  have ok: "cb_rembytes n c = Inr ?c" using False n w by (simp add: cb_rembytes_def cb_size_contents s_def Let_def)
  have "s < buflen c" unfolding s_def by (rule mod_less_divisor) (use bl in linarith)
  then have w': "cb_wf ?c" using bl by (simp add: cb_wf_def)
  have s: "s = (if cb_start c + n < buflen c then cb_start c + n else cb_start c + n - buflen c)"
    using bl by (simp add: s_def mod_if)
  have "cb_contents ?c = drop n (cb_contents c)"
  proof (cases "cb_start c < cb_end c")
    case True
    then have "n \<le> cb_end c - cb_start c" using n bl by (simp add: cb_contents_def)
    then show ?thesis using True bl s False by (auto simp: cb_contents_def drop_take add.commute)
  next
    case wrap: False
    then have le: "n \<le> buflen c - cb_start c + cb_end c" using n bl by (simp add: cb_contents_def)
    show ?thesis
    proof (cases "cb_start c + n < buflen c")
      case True
      then show ?thesis using wrap bl s False by (auto simp: cb_contents_def add.commute)
    next
      case far: False
      then have s': "s = n - (buflen c - cb_start c)" using s bl by simp
      have se: "s \<le> cb_end c" using s' le by simp
      have "drop n (cb_contents c) = drop s (take (cb_end c) (cb_buf c))"
        using wrap bl s' far by (simp add: cb_contents_def)
      then show ?thesis using se by (auto simp: cb_contents_def drop_take)
    qed
  qed
  then show ?thesis using ok w' by simp
qed

lemma rembytes_refuses: "cb_wf c \<Longrightarrow> length (cb_contents c) < n \<Longrightarrow> cb_rembytes n c = Inl AssertFail"
  by (simp add: cb_rembytes_def cb_size_contents guardR_False)

text \<open>The vectors for output denote the contents.\<close>

lemma gather_contents: "cb_wf c \<Longrightarrow> gather (take (outiovcnt c) (outiov c)) (cb_buf c) = Inr (cb_contents c)"
  by (auto simp: cb_wf_def outiovcnt_def outiov_def cb_contents_def slice_def)

lemma output_contents:
  assumes "cb_wf c"
  shows "\<exists>c'. cb_output n c = Inr (take n (cb_contents c), c') \<and> cb_wf c' \<and> cb_contents c' = drop n (cb_contents c) \<and> cb_buf c' = cb_buf c"
proof -
  obtain c' where "cb_rembytes (length (take n (cb_contents c))) c = Inr c'" "cb_wf c'"
    "cb_contents c' = drop (length (take n (cb_contents c))) (cb_contents c)" "cb_buf c' = cb_buf c"
    using rembytes_contents [OF assms, of "length (take n (cb_contents c))"] by auto
  moreover have "drop (length (take n (cb_contents c))) (cb_contents c) = drop n (cb_contents c)"
    by (cases "n \<le> length (cb_contents c)") simp_all
  ultimately show ?thesis using gather_contents [OF assms] by (simp add: cb_output_def)
qed

text \<open>\<open>copyout\<close>.\<close>

lemma copyout_contents:
  assumes w: "cb_wf c"
  shows "cb_copyout dst n c =
    (if length (cb_contents c) < n then Inl AssertFail
     else if length dst < n then Inl OutOfRange
     else bindR (cb_rembytes n c) (\<lambda>c'. Inr (take n (cb_contents c) @ drop n dst, c')))"
proof (cases "length (cb_contents c) < n")
  case True
  then show ?thesis using w by (simp add: cb_copyout_def cb_size_contents guardR_False)
next
  case le: False
  then have g: "n \<le> cb_size c" using w by (simp add: cb_size_contents)
  show ?thesis
  proof (cases "cb_empty c \<or> cb_start c < cb_end c")
    case True
    then have "n \<le> cb_end c - cb_start c" using g by (simp add: cb_size_def)
    moreover have "n = 0" if "cb_empty c" using that le by (simp add: cb_contents_def)
    ultimately show ?thesis using True le g w
      by (auto simp: cb_copyout_def slice_def cb_contents_def cb_wf_def min_def memcpy_at_def)
  next
    case False
    define k where "k = buflen c - cb_start c"
    have b: "cb_start c < buflen c" "cb_end c < buflen c" "cb_end c \<le> cb_start c" "\<not> cb_empty c"
      using w False by (auto simp: cb_wf_def)
    have nk: "n \<le> k + cb_end c" using g b False by (simp add: cb_size_def k_def)
    have c: "cb_contents c = drop (cb_start c) (cb_buf c) @ take (cb_end c) (cb_buf c)" using b by (simp add: cb_contents_def)
    have s1: "slice (cb_buf c) (cb_start c) (min n k) = Inr (take (min n k) (drop (cb_start c) (cb_buf c)))"
      using b by (simp add: slice_def k_def)
    have lk: "length (drop (cb_start c) (cb_buf c)) = k" by (simp add: k_def)
    have s2: "slice (cb_buf c) 0 (n - min n k) = Inr (take (n - min n k) (cb_buf c))" using b nk by (simp add: slice_def)
    show ?thesis
    proof (cases "n \<le> k")
      case True
      then show ?thesis
        unfolding cb_copyout_def Let_def k_def [symmetric] s1 s2 using g False b le lk
        by (simp add: c memcpy_at_def)
    next
      case far: False
      have t: "take n (cb_contents c) = drop (cb_start c) (cb_buf c) @ take (n - k) (cb_buf c)"
        using far nk lk by (simp add: c)
      have "bindR (memcpy_at 0 (drop (cb_start c) (cb_buf c)) dst) (memcpy_at k (take (n - k) (cb_buf c))) =
          (if length dst < n then Inl OutOfRange else Inr (take n (cb_contents c) @ drop n dst))"
        unfolding t using far b nk lk by (auto simp: memcpy_at_def)
      then show ?thesis
        unfolding cb_copyout_def Let_def k_def [symmetric] s1 s2 using g False b le lk far
        by simp
    qed
  qed
qed

text \<open>Searching.\<close>

lemma memchr_append: "memchr x (xs @ ys) = (case memchr x xs of Some p \<Rightarrow> Some p | None \<Rightarrow> map_option ((+) (length xs)) (memchr x ys))"
proof (induction xs)
  case Nil
  then show ?case by (cases "memchr x ys") simp_all
next
  case (Cons a xs)
  then show ?case by (cases "memchr x ys") (auto split: option.splits)
qed

lemma find_contents: "cb_wf c \<Longrightarrow> cb_find x c = Inr (index_of x (cb_contents c))"
  by (auto simp: cb_wf_def cb_find_def cb_contents_def index_of_def slice_def memchr_append split: option.split)

text \<open>Reading into the buffer.\<close>

lemma input_contents:
  assumes w: "cb_wf c"
  shows "\<exists>c'. cb_input bs c = Inr (length (take (buflen c - length (cb_contents c)) bs), c') \<and> cb_wf c' \<and>
    cb_contents c' = cb_contents c @ take (buflen c - length (cb_contents c)) bs \<and> buflen c' = buflen c"
proof (cases "cb_empty c \<or> cb_start c < cb_end c")
  case False
  define n where "n = cb_start c - cb_end c"
  have b: "cb_start c < buflen c" "cb_end c \<le> cb_start c" "\<not> cb_empty c" using w False by (auto simp: cb_wf_def)
  have sp: "buflen c - length (cb_contents c) = n" using b by (simp add: cb_contents_def n_def)
  define buf where "buf = take (cb_end c) (cb_buf c) @ take n bs @ drop (cb_end c + length (take n bs)) (cb_buf c)"
  have lb: "length buf = buflen c" using b by (simp add: buf_def n_def)
  have dr: "drop (cb_start c) buf = drop (cb_start c) (cb_buf c)" using b by (auto simp: buf_def n_def)
  have tk: "take (cb_end c + length (take n bs)) buf = take (cb_end c) (cb_buf c) @ take n bs" using b by (auto simp: buf_def min_def)
  have rv: "readv (take (iniovcnt c) (iniov c)) bs (cb_buf c) = Inr (length (take n bs), if n = 0 then cb_buf c else buf)"
    using False b by (auto simp: iniovcnt_def iniov_def n_def buf_def)
  have buf0: "buf = cb_buf c" if "n = 0" using that by (simp add: buf_def)
  let ?c = "c\<lparr>cb_buf := buf, cb_end := cb_end c + length (take n bs)\<rparr>"
  have spc: "cb_space (c\<lparr>cb_buf := buf\<rparr>) = n" using b by (simp add: cb_space_def n_def lb)
  have "addbytes (length (take n bs)) (c\<lparr>cb_buf := buf\<rparr>) = Inr ?c"
  proof (cases "length (take n bs) = 0")
    case True
    then show ?thesis by (simp add: addbytes_def)
  next
    case False
    have "cb_end c + length (take n bs) < buflen c" using b by (simp add: n_def)
    then show ?thesis unfolding addbytes_def spc using False b lb by (simp add: Let_def)
  qed
  moreover have "cb_wf ?c" using b lb by (simp add: cb_wf_def n_def)
  moreover have "\<not> cb_start c < cb_end c + length (take n bs)" using b by (simp add: n_def)
  then have "cb_contents ?c = cb_contents c @ take n bs" using b dr tk by (simp add: cb_contents_def)
  ultimately show ?thesis unfolding sp using rv buf0 lb by (auto simp: cb_input_def)
next
  case True
  have b: "cb_start c \<le> cb_end c" "cb_end c \<le> buflen c" "cb_end c < buflen c \<or> buflen c = 0 \<and> cb_empty c \<and> cb_start c = 0"
    using w True by (auto simp: cb_wf_def)
  define k where "k = buflen c - cb_end c"
  have cc: "cb_contents c = drop (cb_start c) (take (cb_end c) (cb_buf c))"
    using w True by (auto simp: cb_wf_def cb_contents_def drop_take)
  have sp: "buflen c - length (cb_contents c) = k + cb_start c" using b by (simp add: cc k_def)
  have spc: "cb_space (c\<lparr>cb_buf := buf\<rparr>) = k + cb_start c" if "length buf = buflen c" for buf
    using that True b by (simp add: cb_space_def k_def)
  show ?thesis
  proof (cases "length bs < k")
    case short: True
    define buf where "buf = take (cb_end c) (cb_buf c) @ bs @ drop (cb_end c + length bs) (cb_buf c)"
    have lb: "length buf = buflen c" using b short by (simp add: buf_def k_def)
    have rv: "readv (take (iniovcnt c) (iniov c)) bs (cb_buf c) = Inr (length bs, buf)"
      using True b short by (simp add: iniovcnt_def iniov_def buf_def k_def)
    let ?c = "c\<lparr>cb_buf := buf, cb_empty := cb_empty c \<and> bs = [], cb_end := cb_end c + length bs\<rparr>"
    have "addbytes (length bs) (c\<lparr>cb_buf := buf\<rparr>) = Inr ?c"
      unfolding addbytes_def spc [OF lb] using short b lb by (simp add: Let_def k_def)
    moreover have "cb_wf ?c" using w b lb short by (auto simp: cb_wf_def k_def)
    moreover have "cb_contents ?c = cb_contents c @ bs"
      using w b lb True by (auto simp: cb_wf_def cb_contents_def buf_def drop_take)
    ultimately show ?thesis unfolding sp using rv lb short by (simp add: cb_input_def)
  next
    case long: False
    define u where "u = take (cb_start c) (drop k bs)"
    define b1 where "b1 = take (cb_end c) (cb_buf c) @ take k bs"
    define buf where "buf = u @ drop (length u) b1"
    have l1: "length b1 = buflen c" using b long by (simp add: b1_def k_def)
    have lu: "length u \<le> cb_start c" by (simp add: u_def)
    have lb: "length buf = buflen c" using b lu l1 by (simp add: buf_def)
    have t: "take (k + cb_start c) bs = take k bs @ u" by (simp add: u_def take_add)
    have first: "memcpy_at (cb_end c) (take k bs) (cb_buf c) = Inr b1" using b long by (simp add: b1_def k_def)
    have "readv [(cb_end c, k), (0, cb_start c)] bs (cb_buf c) = Inr (k + length u, buf)"
      using first b long l1 lu by (simp add: k_def [symmetric] u_def [symmetric] buf_def) (simp add: k_def)
    moreover have "readv [(cb_end c, k)] bs (cb_buf c) = Inr (k + length u, buf)" if "cb_start c = 0"
      using first b long that by (simp add: u_def buf_def) (simp add: k_def)
    ultimately have rv: "readv (take (iniovcnt c) (iniov c)) bs (cb_buf c) = Inr (k + length u, buf)"
      using True by (simp add: iniovcnt_def iniov_def k_def)
    let ?c = "c\<lparr>cb_buf := buf, cb_empty := (buflen c = 0), cb_end := length u\<rparr>"
    have "addbytes (k + length u) (c\<lparr>cb_buf := buf\<rparr>) = Inr ?c"
    proof (cases "buflen c = 0")
      case True
      then show ?thesis using b lb lu by (auto simp: addbytes_def k_def)
    next
      case False
      then have "cb_buf c \<noteq> []" by auto
      then show ?thesis unfolding addbytes_def spc [OF lb] using False b lb lu by (auto simp: Let_def k_def)
    qed
    moreover have "cb_wf ?c" using b lb lu by (auto simp: cb_wf_def)
    moreover have "cb_contents ?c = cb_contents c @ take k bs @ u"
    proof -
      have "drop (cb_start c) buf = drop (cb_start c) b1" using lu by (simp add: buf_def)
      moreover have "drop (cb_start c) b1 = cb_contents c @ take k bs" using b by (simp add: b1_def cc)
      moreover have "take (length u) buf = u" by (simp add: buf_def)
      moreover have "cb_contents ?c = drop (cb_start c) buf @ take (length u) buf"
        using lu b lb by (auto simp: cb_contents_def)
      ultimately show ?thesis by simp
    qed
    ultimately show ?thesis unfolding sp t using rv lb long by (auto simp: cb_input_def)
  qed
qed

interpretation cb: bounded_queue cbuf_op cb_wf buflen cb_contents
proof
  fix c p
  assume w: "cb_wf c"
  show "map_res (apsnd cb_contents) (cbuf_op p c) = queue_op (buflen c) p (cb_contents c)"
  proof (cases p)
    case (QInput bs)
    then show ?thesis using input_contents [OF w, of bs] by (auto simp: Let_def)
  next
    case (QOutput n)
    then show ?thesis using output_contents [OF w, of n] by auto
  next
    case (QRem n)
    then show ?thesis using rembytes_contents [OF w, of n] rembytes_refuses [OF w, of n] by (cases "n \<le> length (cb_contents c)") auto
  next
    case (QCopyout n dst)
    then show ?thesis using copyout_contents [OF w, of dst n] rembytes_contents [OF w, of n] by auto
  qed (simp_all add: find_contents [OF w] at_contents [OF w])
next
  fix c p r c'
  assume w: "cb_wf c" and r: "cbuf_op p c = Inr (r, c')"
  show "cb_wf c' \<and> buflen c' = buflen c"
  proof (cases p)
    case (QInput bs)
    then show ?thesis using r input_contents [OF w, of bs] by auto
  next
    case (QOutput n)
    then show ?thesis using r output_contents [OF w, of n] by auto
  next
    case (QRem n)
    then show ?thesis using r rembytes_contents [OF w, of n] rembytes_refuses [OF w, of n] by (cases "n \<le> length (cb_contents c)") auto
  next
    case (QCopyout n dst)
    then show ?thesis using r copyout_contents [OF w, of dst n] rembytes_contents [OF w, of n] by (auto split: if_splits)
  qed (use w r in \<open>simp_all add: find_contents [OF w] at_contents [OF w] split: if_splits\<close>)
next
  fix c
  assume "cb_wf c"
  then show "length (cb_contents c) \<le> buflen c" using cb_space_contents by blast
qed

lemma new_wf: "cb_wf (cbuf_new mem)" "cb_contents (cbuf_new mem) = []" "buflen (cbuf_new mem) = length mem"
  by (auto simp: cb_wf_def cb_contents_def cbuf_new_def)

text \<open>
  C7. The buffer is a bounded queue. From a new buffer any sequence of inputs through the input vectors,
  outputs through the output vectors, removals, copies, searches and lookups gives, step by step, the
  results of the same sequence on a queue of at most as many bytes as the buffer is long, and stops at an
  assertion or outside the memory of the caller exactly where that queue says so.
\<close>

theorem cbuf_refines_queue:
  "map_res (apsnd cb_contents) (run_queue cbuf_op ps (cbuf_new mem)) = queue_run (length mem) ps []"
  using cb.run_refines [OF new_wf(1), of ps mem] by (simp add: new_wf)

text \<open>Putting back what was removed.\<close>

lemma rem_start:
  "cb_wf c \<Longrightarrow> 0 < n \<Longrightarrow> n \<le> length (cb_contents c) \<Longrightarrow>
     cb_rembytes n c = Inr (c\<lparr>cb_start := (cb_start c + n) mod buflen c, cb_empty := ((cb_start c + n) mod buflen c = cb_end c)\<rparr>)"
  by (simp add: cb_rembytes_def cb_size_contents Let_def)

text \<open>
  \<open>unrembytes\<close> undoes \<open>rembytes\<close>: after a removal of \<open>n\<close> bytes, taking back the last \<open>k \<le> n\<close> of them
  leaves what removing \<open>n - k\<close> bytes leaves.
\<close>

lemma unrembytes_undoes:
  assumes "cb_wf c" "n \<le> length (cb_contents c)" "k \<le> n" "cb_rembytes n c = Inr c'"
  shows "\<exists>c''. unrembytes k c' = Inr c'' \<and> cb_wf c'' \<and> cb_contents c'' = drop (n - k) (cb_contents c)"
proof (cases "k = 0")
  case True
  then show ?thesis using assms rembytes_contents [OF assms(1,2)] by (auto simp: unrembytes_def)
next
  case False
  define L where "L = buflen c"
  define s where "s = (cb_start c + n) mod L"
  have bl: "cb_start c < L" "cb_end c < L" "\<not> cb_empty c" "n \<le> L"
    using assms(1-3) False cb_space_contents [OF assms(1)] by (auto simp: cb_wf_def cb_contents_def L_def)
  have c': "c' = c\<lparr>cb_start := s, cb_empty := (s = cb_end c)\<rparr>"
    using rem_start [OF assms(1) _ assms(2)] assms(3,4) False by (simp add: s_def L_def)
  obtain c1 where c1: "cb_rembytes n c = Inr c1" "cb_wf c1" "cb_contents c1 = drop n (cb_contents c)" "cb_buf c1 = cb_buf c"
    using rembytes_contents [OF assms(1,2)] by blast
  have sp: "k \<le> cb_space c'"
    using cb_space_contents [OF c1(2)] c1 assms(3,4) cb_space_contents [OF assms(1)] assms(2) by auto
  let ?t = "(if s \<ge> k then 0 else L) + s - k"
  have u: "unrembytes k c' = Inr (c'\<lparr>cb_start := ?t, cb_empty := False\<rparr>)"
    using False sp by (simp add: unrembytes_def c' L_def)
  have s: "s = (if cb_start c + n < L then cb_start c + n else cb_start c + n - L)"
    using bl by (simp add: s_def mod_if)
  have t: "?t = (cb_start c + (n - k)) mod L" using s bl assms(3) by (auto simp: mod_if)
  obtain c2 where c2: "cb_rembytes (n - k) c = Inr c2" "cb_wf c2" "cb_contents c2 = drop (n - k) (cb_contents c)"
    using rembytes_contents [OF assms(1) order_trans [OF diff_le_self assms(2), of k]] by blast
  have ne: "cb_contents c2 \<noteq> []" using c2(3) assms(2,3) False by simp
  have "c2 = c'\<lparr>cb_start := ?t, cb_empty := False\<rparr>"
  proof (cases "n - k = 0")
    case True
    then show ?thesis using c2(1) t bl by (simp add: cb_rembytes_def c')
  next
    case False
    then have "c2 = c\<lparr>cb_start := ?t, cb_empty := (?t = cb_end c)\<rparr>"
      using rem_start [OF assms(1), of "n - k"] assms(2) c2(1) t by (simp add: L_def)
    moreover have "\<not> cb_empty c2" using ne by (auto simp: cb_contents_def)
    ultimately show ?thesis by (simp add: c' del: One_nat_def)
  qed
  then show ?thesis using u c2(2,3) by blast
qed

text \<open>
  \<open>clear\<close> and \<open>resize\<close> do not leave an empty buffer empty: afterwards the whole buffer, whatever memory
  it has, counts as contents, and there is no space in it.
\<close>

lemma clear_fills_buffer:
  assumes "cb_wf c" "mem \<noteq> []"
  shows "cb_size (cbuf_clear c) = buflen c \<and> cb_space (cbuf_clear c) = 0 \<and> cb_contents (cbuf_clear c) = cb_buf c \<and>
    map_res cb_contents (cbuf_resize mem (cbuf_new [])) = Inr mem"
  using assms by (simp add: cbuf_clear_def cb_size_def cb_space_def cb_contents_def cbuf_resize_def cbuf_new_def cb_copyout_def slice_def cb_rembytes_def)

lemma clear_fills_buffer_witness:
  "cb_contents (cbuf_clear (cbuf_new [7, 8])) = [7, 8] \<and> map_res cb_contents (cbuf_resize [1] (cbuf_new [])) = Inr [1]"
  using clear_fills_buffer [of "cbuf_new [7, 8]" "[1]"] new_wf by (simp add: cbuf_new_def)

text \<open>
  C32. After \<open>resize\<close> of a buffer with bytes in it, to a length that holds them, \<open>size\<close>, \<open>space\<close> and the bytes
  at each position are right, but the buffer claims to be empty: \<open>find\<close> finds nothing, and \<open>outiovcnt\<close> is 0.
  A shorter length writes past the end of the new memory.
\<close>

theorem resize_hides_contents:
  assumes w: "cb_wf c" and ne: "cb_contents c \<noteq> []"
  shows "(if length mem < length (cb_contents c) then cbuf_resize mem c = Inl OutOfRange
    else \<exists>c'. cbuf_resize mem c = Inr c' \<and> cb_size c' = length (cb_contents c) \<and> cb_space c' = length mem - length (cb_contents c) \<and>
      list_all (\<lambda>n. cb_at c' n = Inr (cb_contents c ! n)) [0..<length (cb_contents c)] \<and> cb_find x c' = Inr (- 1) \<and> outiovcnt c' = 0)"
proof -
  obtain c1 where c1: "cb_rembytes (length (cb_contents c)) c = Inr c1" using rembytes_contents [OF w order_refl] by blast
  show ?thesis
  proof (cases "length mem < length (cb_contents c)")
    case True
    then show ?thesis by (simp add: cbuf_resize_def cb_size_contents [OF w] copyout_contents [OF w])
  next
    case False
    let ?c = "\<lparr>cb_buf = cb_contents c @ drop (length (cb_contents c)) mem, cb_empty = True, cb_start = 0, cb_end = length (cb_contents c)\<rparr>"
    have "cbuf_resize mem c = Inr ?c"
      using False ne c1 by (simp add: cbuf_resize_def Let_def cb_size_contents [OF w] copyout_contents [OF w])
    moreover have "cb_at ?c n = Inr (cb_contents c ! n)" if "n < length (cb_contents c)" for n
      using that False by (simp add: cb_at_def cb_size_def nth_append)
    ultimately show ?thesis using False
      by (auto simp: cb_size_def cb_space_def cb_find_def outiovcnt_def list_all_iff)
  qed
qed

theorem resize_hides_contents_witness:
  "\<exists>c'. cbuf_resize [0, 0, 0] \<lparr>cb_buf = [7, 8], cb_empty = False, cb_start = 0, cb_end = 1\<rparr> = Inr c' \<and> cb_find 7 c' = Inr (- 1)"
  using resize_hides_contents [of "\<lparr>cb_buf = [7, 8], cb_empty = False, cb_start = 0, cb_end = 1\<rparr>" "[0, 0, 0]" 7]
  by (auto simp: cb_wf_def cb_contents_def)

end
