(* ===== verification/Arc4.thy ===== *)
theory Arc4
  imports Prelude "HOL-Library.Multiset"
begin

text \<open>
  The stream generator of \<open>crypt/arc4.h\<close> and \<open>crypt/arc4.C\<close>. The indices are bytes and the table has 256
  entries, so that its accesses are always inside; a key is the memory from the pointer on, and reading
  past its end is a fault. The table stays a permutation, and a key of at most 128 bytes gives the key
  schedule of the literature; longer keys are read wrongly.
\<close>

section \<open>Definitions\<close>

record arc4 =
  rc_i :: u8
  rc_j :: u8
  rc_s :: "u8 list"

definition sbox :: "arc4 \<Rightarrow> u8 \<Rightarrow> u8" where
  "sbox a k = rc_s a ! unat k"

definition setbox :: "u8 \<Rightarrow> u8 \<Rightarrow> arc4 \<Rightarrow> arc4" where
  "setbox k v a = a\<lparr>rc_s := (rc_s a)[unat k := v]\<rparr>"

definition arc4_reset :: arc4 where
  "arc4_reset = \<lparr>rc_i = 0xff, rc_j = 0, rc_s = map of_nat [0..<256]\<rparr>"

text \<open>One turn of the loop of \<open>_setkey\<close>.\<close>

definition setkey_step :: "u8 \<Rightarrow> arc4 \<Rightarrow> arc4" where
  "setkey_step kb a =
     (let a = a\<lparr>rc_i := rc_i a + 1\<rparr>;
          si = sbox a (rc_i a);
          a = a\<lparr>rc_j := rc_j a + si + kb\<rparr>;
          a = setbox (rc_i a) (sbox a (rc_j a)) a
      in setbox (rc_j a) si a)"

fun setkey_loop :: "nat \<Rightarrow> nat \<Rightarrow> u8 list \<Rightarrow> nat \<Rightarrow> arc4 \<Rightarrow> arc4 res" where
  "setkey_loop 0 keypos key keylen a = Inr a"
| "setkey_loop (Suc n) keypos key keylen a =
     (let keypos = (if keypos \<ge> keylen then 0 else keypos)
      in bindR (rd key keypos) (\<lambda>kb. setkey_loop n (keypos + 1) key keylen (setkey_step kb a)))"

definition setkey0 :: "u8 list \<Rightarrow> nat \<Rightarrow> arc4 \<Rightarrow> arc4 res" where
  "setkey0 key keylen a = setkey_loop 256 0 key keylen a"

text \<open>The loop of \<open>setkey\<close> over a long key: the pointer is advanced before the block is used.\<close>

function setkey_long :: "u8 list \<Rightarrow> nat \<Rightarrow> arc4 \<Rightarrow> (u8 list \<times> nat \<times> arc4) res" where
  "setkey_long key len a =
     (if 128 < len
      then bindR (setkey0 (drop 128 key) 128 a) (\<lambda>a. setkey_long (drop 128 key) (len - 128) a)
      else Inr (key, len, a))"
  by pat_completeness auto
termination
  by (relation "measure (\<lambda>(key, len, a). len)") auto

declare setkey_long.simps [simp del]

definition arc4_setkey :: "u8 list \<Rightarrow> arc4 \<Rightarrow> arc4 res" where
  "arc4_setkey key a =
     bindR (setkey_long key (length key) a) (\<lambda>(key, len, a).
     bindR (if len > 0 then setkey0 key len a else Inr a) (\<lambda>a. Inr (a\<lparr>rc_j := rc_i a\<rparr>)))"

definition getbyte :: "arc4 \<Rightarrow> u8 \<times> arc4" where
  "getbyte a =
     (let a = a\<lparr>rc_i := rc_i a + 1\<rparr>;
          si = sbox a (rc_i a);
          a = a\<lparr>rc_j := rc_j a + si\<rparr>;
          sj = sbox a (rc_j a);
          a = setbox (rc_i a) sj a;
          a = setbox (rc_j a) si a
      in (sbox a (si + sj), a))"

fun getbytes :: "nat \<Rightarrow> arc4 \<Rightarrow> u8 list \<times> arc4" where
  "getbytes 0 a = ([], a)"
| "getbytes (Suc n) a = (let (b, a) = getbyte a; (bs, a) = getbytes n a in (b # bs, a))"

section \<open>The table\<close>

definition arc4_wf :: "arc4 \<Rightarrow> bool" where
  "arc4_wf a \<longleftrightarrow> length (rc_s a) = 256 \<and> distinct (rc_s a)"

lemma swap_wf:
  assumes "length xs = 256" "distinct xs"
  shows "distinct ((xs[unat (k :: u8) := xs ! unat l])[unat (l :: u8) := xs ! unat k])"
proof -
  have "unat k < length xs" "unat l < length xs" using assms(1) unat_bounds(1) by auto
  then have "mset ((xs[unat k := xs ! unat l])[unat l := xs ! unat k]) = mset xs" using mset_swap [of "unat l" xs "unat k"] by simp
  then show ?thesis using assms(2) mset_eq_imp_distinct_iff by blast
qed

lemma eight_pow: "(2 :: nat) ^ LENGTH(8) = 256"
  by simp

lemma reset_wf: "arc4_wf arc4_reset"
proof -
  have "inj_on (of_nat :: nat \<Rightarrow> u8) {0..<256}"
  proof (rule inj_onI)
    fix x y :: nat
    assume "x \<in> {0..<256}" "y \<in> {0..<256}" "(of_nat x :: u8) = of_nat y"
    then show "x = y" by (metis atLeastLessThan_iff len_num1 len_bit0 unat_of_nat mod_less eight_pow)
  qed
  then show ?thesis by (simp add: arc4_wf_def arc4_reset_def distinct_map)
qed

lemma setkey_step_wf: "arc4_wf a \<Longrightarrow> arc4_wf (setkey_step kb a)"
  using swap_wf [of "rc_s a" "rc_i a + 1" "rc_j a + rc_s a ! unat (rc_i a + 1) + kb"]
  by (simp add: arc4_wf_def setkey_step_def Let_def setbox_def sbox_def)

lemma getbyte_wf: "arc4_wf a \<Longrightarrow> arc4_wf (snd (getbyte a))"
  using swap_wf [of "rc_s a" "rc_i a + 1" "rc_j a + rc_s a ! unat (rc_i a + 1)"]
  by (simp add: arc4_wf_def getbyte_def Let_def setbox_def sbox_def)

lemma getbytes_wf: "arc4_wf a \<Longrightarrow> arc4_wf (snd (getbytes n a))"
proof (induction n arbitrary: a)
  case (Suc n)
  then show ?case using Suc.IH [OF getbyte_wf [OF Suc.prems]] by (simp add: Let_def case_prod_beta)
qed simp

section \<open>The key schedule\<close>

text \<open>The schedule of the literature, on a table of 256 entries.\<close>

fun rc4_ksa :: "u8 list \<Rightarrow> nat \<Rightarrow> u8 \<times> u8 list \<Rightarrow> u8 \<times> u8 list" where
  "rc4_ksa key 0 (j, s) = (j, s)"
| "rc4_ksa key (Suc n) (j, s) =
     (case rc4_ksa key n (j, s) of
        (j, s) \<Rightarrow> let j = j + s ! n + key ! (n mod length key) in (j, s[n := s ! unat j, unat j := s ! n]))"

lemma setkey_loop_fold:
  assumes "0 < kl" "kl \<le> length key" "kp \<le> kl"
  shows "setkey_loop n kp key kl a = Inr (fold setkey_step (map (\<lambda>m. key ! ((kp + m) mod kl)) [0..<n]) a)"
  using assms(3)
proof (induction n arbitrary: kp a)
  case (Suc n)
  define kq where "kq = (if kp \<ge> kl then 0 else kp)"
  have kq: "kq < kl" "kq = kp mod kl" using assms(1) Suc.prems by (auto simp: kq_def)
  have "setkey_loop (Suc n) kp key kl a = setkey_loop n (kq + 1) key kl (setkey_step (key ! kq) a)"
    using kq(1) assms(2) by (simp add: Let_def kq_def)
  also have "\<dots> = Inr (fold setkey_step (map (\<lambda>m. key ! ((kq + 1 + m) mod kl)) [0..<n]) (setkey_step (key ! kq) a))"
    by (rule Suc.IH) (use kq(1) in simp)
  also have "map (\<lambda>m. key ! ((kq + 1 + m) mod kl)) [0..<n] = map (\<lambda>m. key ! ((kp + Suc m) mod kl)) [0..<n]"
  proof (rule map_cong)
    fix m
    have "(kq + 1 + m) mod kl = (kp mod kl + (1 + m)) mod kl" by (simp add: kq(2) add.assoc)
    also have "\<dots> = (kp + (1 + m)) mod kl" by (rule mod_add_left_eq)
    finally show "key ! ((kq + 1 + m) mod kl) = key ! ((kp + Suc m) mod kl)" by simp
  qed simp
  finally show ?case by (simp only: upt_rec [of 0 "Suc n"] map_Suc_upt [symmetric] if_True zero_less_Suc list.map fold.simps comp_def
        map_map kq(2) add_0_right id_apply)
qed simp

lemma fold_ksa:
  assumes "rc_i a = 0xff" "n \<le> 256"
  shows "fold setkey_step (map (\<lambda>m. key ! (m mod length key)) [0..<n]) a =
    (case rc4_ksa key n (rc_j a, rc_s a) of (j, s) \<Rightarrow> a\<lparr>rc_i := of_nat n - 1, rc_j := j, rc_s := s\<rparr>)"
  using assms(2)
proof (induction n)
  case 0
  then show ?case using assms(1) by simp
next
  case (Suc n)
  obtain j s where js: "rc4_ksa key n (rc_j a, rc_s a) = (j, s)" by fastforce
  have "unat (of_nat n :: u8) = n" using Suc.prems by (simp add: unat_of_nat)
  then show ?case using Suc js by (simp add: setkey_step_def sbox_def setbox_def Let_def)
qed

lemma arc4_setkey_short:
  assumes "key \<noteq> []" "length key \<le> 128"
  shows "arc4_setkey key arc4_reset =
    Inr \<lparr>rc_i = 0xff, rc_j = 0xff, rc_s = snd (rc4_ksa key 256 (0, map of_nat [0..<256]))\<rparr>"
proof -
  have l: "0 < length key" using assms(1) by simp
  have "setkey0 key (length key) arc4_reset = Inr (fold setkey_step (map (\<lambda>m. key ! (m mod length key)) [0..<256]) arc4_reset)"
    unfolding setkey0_def using setkey_loop_fold [OF l order_refl, of 0 256 arc4_reset] by (simp only: add_0 le0)
  moreover note fold_ksa [of arc4_reset 256 key]
  ultimately show ?thesis
    using assms(2) l by (simp add: arc4_setkey_def setkey_long.simps arc4_reset_def split: prod.split)
qed

text \<open>
  C35. The key schedule of short keys. A key of 1 to 128 bytes, set on a fresh object, is never read outside,
  and leaves the table of the schedule of the literature, with both indices 255.
\<close>

theorem arc4_setkey_ksa:
  assumes "key \<noteq> []" "length key \<le> 128"
  shows "arc4_setkey key arc4_reset =
    Inr \<lparr>rc_i = 0xff, rc_j = 0xff, rc_s = snd (rc4_ksa key 256 (0, map of_nat [0..<256]))\<rparr>"
  by (rule arc4_setkey_short [OF assms])

theorem arc4_setkey_ksa_witness:
  "arc4_setkey [1, 2, 3] arc4_reset = Inr \<lparr>rc_i = 0xff, rc_j = 0xff, rc_s = snd (rc4_ksa [1, 2, 3] 256 (0, map of_nat [0..<256]))\<rparr>"
  by (rule arc4_setkey_ksa) simp_all

section \<open>Long keys\<close>

lemma setkey0_short:
  assumes "length key < 128"
  shows "setkey0 key 128 a = Inl OutOfRange"
proof -
  have "setkey_loop (Suc (length key - kp + n)) kp key 128 a = Inl OutOfRange" if "kp \<le> length key" for kp n a
    using that
  proof (induction "length key - kp" arbitrary: kp a)
    case 0
    then show ?case using assms by (simp add: rd_def)
  next
    case (Suc m)
    then have lt: "kp < length key" by simp
    have e: "length key - kp = Suc (length key - (kp + 1))" using lt by simp
    have "setkey_loop (Suc (length key - (kp + 1) + n)) (kp + 1) key 128 (setkey_step (key ! kp) a) = Inl OutOfRange"
      by (rule Suc.hyps(1)) (use Suc.hyps(2) lt in simp_all)
    then show ?case using lt assms by (subst e) (simp add: Let_def)
  qed
  from this [of 0 "255 - length key" a] assms show ?thesis by (simp add: setkey0_def)
qed

lemma setkey_long_over:
  "128 < length key \<Longrightarrow> \<not> 128 dvd length key \<Longrightarrow> setkey_long key (length key) a = Inl OutOfRange"
proof (induction "length key" arbitrary: key a rule: less_induct)
  case less
  let ?r = "drop 128 key"
  show ?case
  proof (cases "length ?r < 128")
    case True
    then show ?thesis using less.prems setkey0_short [of ?r a] by (simp add: setkey_long.simps [of key])
  next
    case False
    have nd: "\<not> 128 dvd length ?r" using less.prems by (simp add: dvd_minus_self)
    then have "128 < length ?r" using False by (metis dvd_refl linorder_neqE_nat)
    moreover obtain a' where "setkey0 ?r 128 a = Inr a'"
      using setkey_loop_fold [of 128 ?r 0 256 a] False unfolding setkey0_def by (metis le0 not_less zero_less_numeral)
    ultimately show ?thesis using less.hyps [of ?r a'] nd less.prems by (simp add: setkey_long.simps [of key])
  qed
qed

text \<open>
  C34. Long keys are read wrongly. Of a key of more than 128 bytes the first 128 have no influence; and unless its
  length is a multiple of 128, it is read past its end.
\<close>

theorem arc4_setkey_overread:
  assumes "length k1 = 128" "length k2 = 128" "rest \<noteq> []"
  shows "arc4_setkey (k1 @ rest) a = (if 128 dvd length rest then arc4_setkey (k2 @ rest) a else Inl OutOfRange)"
proof (cases "128 dvd length rest")
  case True
  have "setkey_long (k @ rest) (length (k @ rest)) a = bindR (setkey0 rest 128 a) (\<lambda>a. setkey_long rest (length rest) a)"
    if "length k = 128" for k using that assms(3) by (simp add: setkey_long.simps [of "k @ rest"])
  then show ?thesis using True assms(1,2) by (simp add: arc4_setkey_def)
next
  case False
  then show ?thesis using setkey_long_over [of "k1 @ rest" a] assms(1,3) by (simp add: arc4_setkey_def)
qed

theorem arc4_setkey_overread_witness: "arc4_setkey (replicate 128 7 @ [1]) arc4_reset = Inl OutOfRange"
  using arc4_setkey_overread [of "replicate 128 7" "replicate 128 0" "[1]" arc4_reset] by simp

end
