(* ===== verification/Axprt_Crypt.thy ===== *)
theory Axprt_Crypt
  imports Axprt_Pipe Arc4 Sha1
begin

text \<open>
  The encrypting transport of \<open>crypt/axprt_crypt.C\<close>. Its state is a record of its own fields beside the
  state of the stream it extends. The buffer of a fresh hash context is not initialised, and is the
  argument \<open>jk\<close>; the receive callback works on the stream, not on the keys. The four calls of \<open>getbyte\<close>
  in one expression are made from left to right. The first guard of \<open>sendv\<close> compares the address of the
  function \<open>writefd\<close> with 0 and is never taken.
\<close>

section \<open>Definitions\<close>

record axprt_crypt =
  ctx_send :: arc4
  ctx_recv :: arc4
  cryptsend :: bool
  cryptrecv :: bool
  macset :: bool
  mackey1 :: "u8 list"
  mackey2 :: "u8 list"
  lenpad :: u32

type_synonym xst = "axprt_crypt \<times> pst"

definition axprt_crypt_new :: "axprt_crypt" where
  "axprt_crypt_new =
     \<lparr>ctx_send = arc4_reset, ctx_recv = arc4_reset, cryptsend = False, cryptrecv = False, macset = False,
      mackey1 = replicate 16 0, mackey2 = replicate 16 0, lenpad = 0\<rparr>"

definition xor_bytes :: "u8 list \<Rightarrow> u8 list \<Rightarrow> u8 list" where
  "xor_bytes xs ys = map2 (XOR) xs ys"

definition load_mac :: "axprt_crypt \<Rightarrow> axprt_crypt" where
  "load_mac x =
     (let (k1, a) = getbytes 16 (ctx_recv x);
          (k2, a) = getbytes 16 a;
          (b0, a) = getbyte a; (b1, a) = getbyte a; (b2, a) = getbyte a; (b3, a) = getbyte a
      in x\<lparr>ctx_recv := a, mackey1 := k1, mackey2 := k2, macset := True,
           lenpad := push_bit 24 (ucast b0) OR push_bit 16 (ucast b1) OR push_bit 8 (ucast b2) OR ucast b3\<rparr>)"

definition crypt_getpkt :: "client \<Rightarrow> u8 list \<Rightarrow> nat \<Rightarrow> nat \<Rightarrow> xst \<Rightarrow> (bool \<times> nat \<times> xst) res" where
  "crypt_getpkt k jk cp eom st =
     (case st of (x, (w, p)) \<Rightarrow>
        if \<not> cryptrecv x then bindR (getpkt k cp eom (w, p)) (\<lambda>(go, cp, st). Inr (go, cp, (x, st)))
        else
          let x = (if macset x then x else load_mac x)
          in if \<not> cb p \<or> eom - cp < 4 then Inr (False, cp, (x, (w, p)))
             else
               bindR (case pktbuf p of None \<Rightarrow> Inl OutOfRange | Some b \<Rightarrow> Inr b) (\<lambda>buf.
               bindR (getint (drop cp buf)) (\<lambda>raw.
                 let len = raw XOR lenpad x; cp' = cp + 4
                 in if len = 0 then bindR (recvbreak k (w, p)) (\<lambda>st. Inr (True, cp', (x, st)))
                    else bindR (checklen k len (w, p)) (\<lambda>(r, (w, p)).
                      case r of
                        None \<Rightarrow> Inr (False, cp, (x, (w, p)))
                      | Some n \<Rightarrow>
                          let pktlim = cp' + unat n + 16
                          in if eom < pktlim then Inr (False, cp, (x, (w, p)))
                             else
                               let (pad, a) = getbytes (unat n + 16) (ctx_recv x);
                                   dec = xor_bytes (take (unat n + 16) (drop cp' buf)) pad;
                                   x = x\<lparr>macset := False, ctx_recv := a\<rparr>;
                                   p = p\<lparr>pktbuf := Some (take cp' buf @ dec @ drop pktlim buf)\<rparr>
                               in bindR (sha1_hashv jk [mackey1 x, putint len, take (unat n) dec, mackey2 x]) (\<lambda>mac.
                                    if take 16 mac \<noteq> drop (unat n) dec
                                    then bindR (fail k (w, p)) (\<lambda>st. Inr (False, cp, (x, st)))
                                    else bindR (callcb k (Pkt (take (unat n) dec)) (w, p)) (\<lambda>st.
                                           Inr (True, pktlim, (x, st))))))))"

lemma crypt_getpkt_progress:
  "crypt_getpkt k jk cp eom st = Inr (True, cp', st') \<Longrightarrow> cp + 4 \<le> cp' \<and> cp + 4 \<le> eom"
  by (auto simp: crypt_getpkt_def Let_def bindR_eq_Inr case_prod_unfold split: if_splits option.splits dest: getpkt_progress)

text \<open>\<open>while (cb && getpkt (&cp, eom))\<close> of \<open>callgetpkt\<close>, with the virtual function of this class.\<close>

function crypt_getpkts :: "client \<Rightarrow> u8 list \<Rightarrow> nat \<Rightarrow> nat \<Rightarrow> xst \<Rightarrow> (nat \<times> xst) res" where
  "crypt_getpkts k jk cp eom st =
     (if \<not> cb (snd (snd st)) then Inr (cp, st)
      else bindR (crypt_getpkt k jk cp eom st) (\<lambda>(go, cp', st').
             if go then crypt_getpkts k jk cp' eom st' else Inr (cp', st')))"
  by pat_completeness auto
termination
  by (relation "measure (\<lambda>(k, jk, cp, eom, st). eom - cp)") (auto dest!: crypt_getpkt_progress)

declare crypt_getpkts.simps [simp del]

definition crypt_sendv :: "allocator \<Rightarrow> client \<Rightarrow> u8 list \<Rightarrow> u8 list list \<Rightarrow> wres list \<Rightarrow> xst \<Rightarrow> (bool \<times> xst) res" where
  "crypt_sendv al k jk iov script st =
     (case st of (x, (w, p)) \<Rightarrow>
        if \<not> cryptsend x then bindR (sendv al k iov script (w, p)) (\<lambda>(_, st). Inr (True, (x, st)))
        else
          let blocked = (resid (outq p) \<noteq> 0);
              len = (word_of_nat (iovsize iov) :: u32)
          in if pktsize p < unat len then bindR (fail k (w, p)) (\<lambda>st. Inr (False, (x, st)))
             else
               let (mk1, a) = getbytes 16 (ctx_send x);
                   (mk2, a) = getbytes 16 a
               in case getspace al (unat len + 20) (w, outq p) of
                    (msgbuf, (w, s)) \<Rightarrow>
                      let msg = putint (0x80000000 OR len) @ concat iov
                      in bindR (guardR OutOfRange (msgbuf + length msg + 16 \<le> scratch_lim s)) (\<lambda>_.
                         let (pad, a) = getbytes (unat len + 4) a
                         in bindR (sha1_hashv jk [mk1, take (unat len + 4) msg, mk2]) (\<lambda>mac.
                            let (pad2, a) = getbytes 16 a;
                                enc = xor_bytes msg pad @ xor_bytes (take 16 mac) pad2
                            in bindR (guardR AssertFail (length enc = unat len + 20)) (\<lambda>_.
                               bindR (suio_print al msgbuf (length enc) (w\<lparr>mem := memwrite msgbuf enc (mem w)\<rparr>, s)) (\<lambda>(w, s).
                                 let p = p\<lparr>outq := s, raw_bytes_sent := raw_bytes_sent p + length enc\<rparr>
                                 in bindR (if blocked then Inr (w, p) else axprt_output k script (w, p)) (\<lambda>st.
                                    Inr (True, (x\<lparr>ctx_send := a\<rparr>, st))))))))"

text \<open>\<open>encrypt\<close>; \<open>svcnum\<close> is the number of calls the transport is serving.\<close>

definition crypt_encrypt :: "client \<Rightarrow> nat \<Rightarrow> u8 list \<Rightarrow> u8 list \<Rightarrow> xst \<Rightarrow> xst res" where
  "crypt_encrypt k svcnum sendkey recvkey st =
     (case st of (x, st) \<Rightarrow>
        if svcnum \<noteq> 0 then bindR (fail k st) (\<lambda>st. Inr (x, st))
        else
          bindR (arc4_setkey sendkey (ctx_send x)) (\<lambda>s.
          bindR (arc4_setkey recvkey (ctx_recv x)) (\<lambda>r.
            Inr (x\<lparr>ctx_send := s, ctx_recv := r, cryptsend := True, cryptrecv := True\<rparr>, st))))"

section \<open>The format of the wire\<close>

text \<open>
  The frame as the comment at the head of \<open>axprt_crypt.C\<close> describes it: \<open>A\<close> is the key stream, \<open>P\<close> the plain
  frame with its MAC, and \<open>R\<close> their exclusive or.
\<close>

definition cframe :: "arc4 \<Rightarrow> u8 list \<Rightarrow> u8 list \<times> arc4" where
  "cframe a m =
     (let (A, a') = getbytes (length m + 52) a;
          mk1 = take 16 A; mk2 = take 16 (drop 16 A);
          hdr = rechdr (word_of_nat (length m));
          P = hdr @ m @ take 16 (fips_sha1 (mk1 @ hdr @ m @ mk2))
      in (xor_bytes P (drop 32 A), a'))"

fun cframes :: "arc4 \<Rightarrow> u8 list list \<Rightarrow> u8 list" where
  "cframes a [] = []"
| "cframes a (m # ms) = fst (cframe a m) @ cframes (snd (cframe a m)) ms"

lemma length_xor_bytes [simp]: "length (xor_bytes xs ys) = min (length xs) (length ys)"
  by (simp add: xor_bytes_def)

lemma xor_bytes_append: "length xs = length as \<Longrightarrow> xor_bytes (xs @ ys) (as @ bs) = xor_bytes xs as @ xor_bytes ys bs"
  by (simp add: xor_bytes_def)

lemma xor_bytes_twice: "length xs \<le> length ys \<Longrightarrow> xor_bytes (xor_bytes xs ys) ys = xs"
  by (rule nth_equalityI) (auto simp: xor_bytes_def xor.assoc)

lemma length_getbytes [simp]: "length (fst (getbytes n a)) = n"
  by (induction n arbitrary: a) (simp_all add: Let_def case_prod_beta)

lemma getbytes_add:
  "getbytes (m + n) a =
     (fst (getbytes m a) @ fst (getbytes n (snd (getbytes m a))), snd (getbytes n (snd (getbytes m a))))"
  by (induction m arbitrary: a) (simp_all add: Let_def case_prod_beta)

text \<open>The parts of the stream a frame uses.\<close>

definition kparts :: "arc4 \<Rightarrow> nat \<Rightarrow> (u8 list \<times> u8 list \<times> u8 list \<times> u8 list) \<times> arc4" where
  "kparts a n =
     (let (k1, a) = getbytes 16 a; (k2, a) = getbytes 16 a; (h, a) = getbytes 4 a; (b, a) = getbytes (n + 16) a
      in ((k1, k2, h, b), a))"

lemma kparts_split:
  assumes "kparts a n = ((k1, k2, h, b), a')"
  shows "getbytes (n + 52) a = (k1 @ k2 @ h @ b, a')" "length k1 = 16" "length k2 = 16" "length h = 4" "length b = n + 16"
proof -
  have e: "n + 52 = 16 + (16 + (4 + (n + 16)))" by simp
  show "getbytes (n + 52) a = (k1 @ k2 @ h @ b, a')"
    using assms unfolding e getbytes_add kparts_def by (auto simp: Let_def case_prod_beta)
  show "length k1 = 16" "length k2 = 16" "length h = 4" "length b = n + 16"
    using assms by (auto simp: kparts_def Let_def case_prod_beta)
qed

lemma length_rechdr [simp]: "length (rechdr len) = 4"
  by (simp add: rechdr_def)

lemma cframe_kparts:
  assumes "kparts a (length m) = ((k1, k2, h, b), a')"
  shows "cframe a m = (xor_bytes (rechdr (word_of_nat (length m))) h @
      xor_bytes (m @ take 16 (fips_sha1 (k1 @ rechdr (word_of_nat (length m)) @ m @ k2))) b, a')"
  using kparts_split [OF assms] by (simp add: cframe_def xor_bytes_append Let_def)

lemma length_cframe [simp]: "length (fst (cframe a m)) = length m + 20"
proof -
  obtain k1 k2 h b a' where k: "kparts a (length m) = ((k1, k2, h, b), a')" by (metis prod.collapse)
  show ?thesis using kparts_split [OF k] by (simp add: cframe_kparts [OF k])
qed

section \<open>Sending\<close>

lemma getspace_spec:
  assumes "alloc_ok al" "suio_inv ws"
  shows "\<exists>ws'. getspace al n ws = (scratch_pos (snd ws'), ws') \<and> suio_inv ws' \<and> contents ws' = contents ws \<and>
    scratch_pos (snd ws') + n \<le> scratch_lim (snd ws')"
proof (cases "n \<le> scratch_lim (snd ws) - scratch_pos (snd ws)")
  case True
  moreover have "scratch_pos (snd ws) \<le> scratch_lim (snd ws)"
    using assms(2) by (auto simp: suio_inv_def scratch_ok_def)
  ultimately show ?thesis using assms(2) by (intro exI [of _ ws]) (simp add: getspace_def)
next
  case False
  then show ?thesis using morescratch_spec [OF assms, of n]
    by (intro exI [of _ "morescratch al n ws"]) (simp add: getspace_def Let_def)
qed

lemma print_space:
  assumes "suio_inv (w, s)" "scratch_pos s + length bs \<le> scratch_lim s"
  shows "appends (suio_print al (scratch_pos s) (length bs) (w\<lparr>mem := memwrite (scratch_pos s) bs (mem w)\<rparr>, s)) (w, s) bs"
  using put_scratch_appends [of "(w, s)" bs] assms by (simp add: suio_print_def put_scratch_def)

lemma crypt_mac: "length jk = 64 \<Longrightarrow> sha1_hashv jk iov = Inr (fips_sha1 (concat iov))"
  by (rule sha1_hashv_hash)

lemma cframe_sender:
  assumes "getbytes 16 a = (k1, a1)" "getbytes 16 a1 = (k2, a2)" "getbytes (length m + 4) a2 = (pad, a3)" "getbytes 16 a3 = (pad2, a4)"
  shows "cframe a m = (xor_bytes (rechdr (word_of_nat (length m)) @ m) pad @
    xor_bytes (take 16 (fips_sha1 (k1 @ rechdr (word_of_nat (length m)) @ m @ k2))) pad2, a4)"
proof -
  have l: "length k1 = 16" "length k2 = 16" "length pad = length m + 4" "length pad2 = 16"
    using length_getbytes [of 16 a] length_getbytes [of 16 a1] length_getbytes [of "length m + 4" a2] length_getbytes [of 16 a3] assms
    by simp_all
  have e: "length m + 52 = 16 + (16 + ((length m + 4) + 16))" by simp
  have "getbytes (length m + 52) a = (k1 @ k2 @ pad @ pad2, a4)"
    unfolding e getbytes_add [of 16 "16 + ((length m + 4) + 16)" a] assms fst_conv snd_conv
      getbytes_add [of 16 "(length m + 4) + 16" a1] getbytes_add [of "length m + 4" 16 a2] by simp
  moreover have "xor_bytes ((rechdr (word_of_nat (length m)) @ m) @ h) (pad @ pad2) =
      xor_bytes (rechdr (word_of_nat (length m)) @ m) pad @ xor_bytes h pad2" for h
    by (rule xor_bytes_append) (simp add: l)
  ultimately show ?thesis using l by (simp add: cframe_def Let_def)
qed

text \<open>An encrypted send appends the documented frame to what is on its way.\<close>

lemma crypt_sendv_spec:
  assumes al: "alloc_ok al" and st: "tx_ok (w, p)" and jk: "length jk = 64" and x: "cryptsend x" and ne: "WError \<notin> set script"
    and len: "length (concat iov) \<le> pktsize p" "length (concat iov) < 2 ^ 31"
  shows "\<exists>st'. crypt_sendv al k jk iov script (x, (w, p)) = Inr (True, (x\<lparr>ctx_send := snd (cframe (ctx_send x) (concat iov))\<rparr>, st')) \<and>
    tx_ok st' \<and> txbytes st' = txbytes (w, p) @ fst (cframe (ctx_send x) (concat iov)) \<and> txview (snd st') = txview p"
proof -
  let ?m = "concat iov"
  define n where "n = length ?m"
  have u: "unat (word_of_nat n :: u32) = n" using len(2) by (simp add: n_def unsigned_of_nat take_bit_nat_eq_self)
  obtain k1 a1 k2 a2 pad a3 pad2 a4 where g: "getbytes 16 (ctx_send x) = (k1, a1)" "getbytes 16 a1 = (k2, a2)"
    "getbytes (n + 4) a2 = (pad, a3)" "getbytes 16 a3 = (pad2, a4)" by (metis prod.collapse)
  note c = cframe_sender [OF g(1,2) g(3) [unfolded n_def] g(4)]
  define F where "F = fst (cframe (ctx_send x) ?m)"
  have lF: "length F = n + 20" by (simp add: F_def n_def)
  have inv: "suio_inv (w, outq p)" using st by (simp add: tx_ok_def)
  obtain w1 s1 where sp: "getspace al (n + 20) (w, outq p) = (scratch_pos s1, (w1, s1))" "suio_inv (w1, s1)"
    "contents (w1, s1) = contents (w, outq p)" "scratch_pos s1 + (n + 20) \<le> scratch_lim s1"
    using getspace_spec [OF al inv, of "n + 20"] by fastforce
  obtain w2 s2 where pr: "suio_print al (scratch_pos s1) (length F) (w1\<lparr>mem := memwrite (scratch_pos s1) F (mem w1)\<rparr>, s1) = Inr (w2, s2)"
    "suio_inv (w2, s2)" "contents (w2, s2) = contents (w1, s1) @ F"
    using print_space [OF sp(2), of F al] sp(4) lF by (auto simp: appends_def)
  define q where "q = p\<lparr>outq := s2, raw_bytes_sent := raw_bytes_sent p + length F\<rparr>"
  have q: "tx_ok (w2, q)" "txbytes (w2, q) = txbytes (w, p) @ F" "txview q = txview p"
    using st pr sp(3) by (auto simp: tx_ok_def txbytes_def txview_def q_def)
  obtain st' where o: "(if resid (outq p) \<noteq> 0 then Inr (w2, q) else axprt_output k script (w2, q)) = Inr st'" "tx_ok st'"
    "txbytes st' = txbytes (w2, q)" "txview (snd st') = txview q"
    using axprt_output_spec [OF q(1) ne, of k] q(1) by (cases "resid (outq p) \<noteq> 0") auto
  have l4: "take (n + 4) (putint (0x80000000 OR word_of_nat n) @ ?m) = rechdr (word_of_nat n) @ ?m"
    by (simp add: n_def rechdr_def)
  have mac: "sha1_hashv jk [k1, rechdr (word_of_nat n) @ ?m, k2] = Inr (fips_sha1 (k1 @ rechdr (word_of_nat n) @ ?m @ k2))"
    using crypt_mac [OF jk] by simp
  have enc: "xor_bytes (putint (0x80000000 OR word_of_nat n) @ ?m) pad @
      xor_bytes (take 16 (fips_sha1 (k1 @ rechdr (word_of_nat n) @ ?m @ k2))) pad2 = F"
    using c by (simp add: F_def n_def rechdr_def)
  have "crypt_sendv al k jk iov script (x, (w, p)) = Inr (True, (x\<lparr>ctx_send := a4\<rparr>, st'))"
    unfolding crypt_sendv_def Let_def prod.case iovsize_concat n_def [symmetric] u sp(1) g l4 mac bindR_Inr enc lF
    using x len(1) sp(4) pr(1) o(1) by (simp add: n_def [symmetric] lF q_def split: if_splits)
  moreover have "a4 = snd (cframe (ctx_send x) ?m)" using c by simp
  ultimately show ?thesis using o q by (simp add: F_def)
qed

section \<open>Receiving\<close>

text \<open>
  A receiver is in step with the stream \<open>a\<close> at the start of a frame: it has drawn the MAC keys and the pad
  of the length from it, or nothing yet.
\<close>

definition rkeys :: "arc4 \<Rightarrow> axprt_crypt \<Rightarrow> bool" where
  "rkeys a y \<longleftrightarrow> getbytes 36 a = (mackey1 y @ mackey2 y @ putint (lenpad y), ctx_recv y) \<and>
     length (mackey1 y) = 16 \<and> length (mackey2 y) = 16"

definition synced :: "arc4 \<Rightarrow> axprt_crypt \<Rightarrow> bool" where
  "synced a x \<longleftrightarrow> cryptrecv x \<and> (if macset x then rkeys a x else ctx_recv x = a)"

lemma getbytes_4: "getbytes 4 a = (let (b0, a) = getbyte a; (b1, a) = getbyte a; (b2, a) = getbyte a; (b3, a) = getbyte a
    in ([b0, b1, b2, b3], a))"
  by (simp add: numeral_eq_Suc Let_def case_prod_beta)

lemma load_mac_keys: "rkeys (ctx_recv x) (load_mac x)"
proof -
  obtain k1 a1 k2 a2 b0 a3 b1 a4 b2 a5 b3 a6 where g: "getbytes 16 (ctx_recv x) = (k1, a1)" "getbytes 16 a1 = (k2, a2)"
    "getbyte a2 = (b0, a3)" "getbyte a3 = (b1, a4)" "getbyte a4 = (b2, a5)" "getbyte a5 = (b3, a6)" by (metis prod.collapse)
  have "getbytes 4 a2 = ([b0, b1, b2, b3], a6)" by (simp add: getbytes_4 g)
  moreover have "length k1 = 16" "length k2 = 16"
    using length_getbytes [of 16 "ctx_recv x"] length_getbytes [of 16 a1] g by simp_all
  moreover have "getbytes 36 (ctx_recv x) = (k1 @ k2 @ [b0, b1, b2, b3], a6)"
  proof -
    have e: "(36 :: nat) = 16 + (16 + 4)" by simp
    show ?thesis unfolding e getbytes_add [of 16 "16 + 4"] getbytes_add [of 16 4] g fst_conv snd_conv calculation(1) by simp
  qed
  ultimately show ?thesis by (simp add: rkeys_def load_mac_def g Let_def putint_bytes)
qed

lemma load_mac_other [simp]: "cryptrecv (load_mac x) = cryptrecv x" "macset (load_mac x)"
  by (simp_all add: load_mac_def Let_def case_prod_beta)

lemma synced_load: "synced a x \<Longrightarrow> rkeys a (if macset x then x else load_mac x) \<and>
    synced a (if macset x then x else load_mac x) \<and> cryptrecv (if macset x then x else load_mac x)"
  using load_mac_keys [of x] by (auto simp: synced_def)

lemma xor_bytes_putint: "xor_bytes (putint u) (putint v) = putint (u XOR v)"
  by (auto simp: xor_bytes_def putint_def bit_eq_iff bit_simps)

lemma cframe_rkeys:
  assumes "rkeys a y" "getbytes (length m + 16) (ctx_recv y) = (b, a')"
  shows "cframe a m = (putint ((0x80000000 OR word_of_nat (length m)) XOR lenpad y) @
      xor_bytes (m @ take 16 (fips_sha1 (mackey1 y @ rechdr (word_of_nat (length m)) @ m @ mackey2 y))) b, a')"
    and "length b = length m + 16"
proof -
  show lb: "length b = length m + 16" using length_getbytes [of "length m + 16" "ctx_recv y"] assms(2) by simp
  have e: "length m + 52 = 36 + (length m + 16)" by simp
  have "getbytes (length m + 52) a = ((mackey1 y @ mackey2 y @ putint (lenpad y)) @ b, a')"
    unfolding e getbytes_add [of 36 "length m + 16" a] using assms by (simp add: rkeys_def)
  moreover have "xor_bytes (rechdr l @ t) (putint (lenpad y) @ b) = xor_bytes (rechdr l) (putint (lenpad y)) @ xor_bytes t b" for l t
    by (rule xor_bytes_append) simp
  ultimately show "cframe a m = (putint ((0x80000000 OR word_of_nat (length m)) XOR lenpad y) @
      xor_bytes (m @ take 16 (fips_sha1 (mackey1 y @ rechdr (word_of_nat (length m)) @ m @ mackey2 y))) b, a')"
    using assms(1) by (simp add: cframe_def Let_def rkeys_def xor_bytes_putint [symmetric] rechdr_def)
qed

lemma xor_cancel: "(u XOR v) XOR v = (u :: u32)"
  by (simp add: xor.assoc)

text \<open>A whole frame is decrypted in place and delivered.\<close>

lemma crypt_getpkt_frame:
  assumes s: "synced a x" and p: "cb p" "pktbuf p = Some buf" and jk: "length jk = 64"
    and f: "take (eom - cp) (drop cp buf) = fst (cframe a m) @ suf" and len: "length m < 2 ^ 31" "length m \<le> pktsize p"
  shows "\<exists>x' buf'. crypt_getpkt k jk cp eom (x, (w, p)) =
      bindR (callcb k (Pkt m) (w, p\<lparr>pktbuf := Some buf'\<rparr>)) (\<lambda>st. Inr (True, cp + length m + 20, (x', st))) \<and>
    synced (snd (cframe a m)) x' \<and> length buf' = length buf \<and> drop (cp + length m + 20) buf' = drop (cp + length m + 20) buf"
proof -
  define n where "n = length m"
  define y where "y = (if macset x then x else load_mac x)"
  have y: "rkeys a y" "cryptrecv y" using synced_load [OF s] by (simp_all add: y_def)
  obtain b a' where b: "getbytes (n + 16) (ctx_recv y) = (b, a')" by fastforce
  note c = cframe_rkeys [OF y(1) b [unfolded n_def], folded n_def]
  define L where "L = (0x80000000 OR word_of_nat n :: u32)"
  define mac where "mac = fips_sha1 (mackey1 y @ rechdr (word_of_nat n) @ m @ mackey2 y)"
  define body where "body = xor_bytes (m @ take 16 mac) b"
  have lm: "length (take 16 mac) = 16" by (simp add: mac_def)
  have lb: "length body = n + 16" using c(2) lm by (simp add: body_def n_def)
  have F: "fst (cframe a m) = putint (L XOR lenpad y) @ body" using c(1) by (simp add: L_def body_def mac_def)
  obtain tail where d: "drop cp buf = putint (L XOR lenpad y) @ body @ tail"
    using f F by (metis append_take_drop_id append.assoc)
  have l: "n + 20 + length suf \<le> eom - cp" using arg_cong [OF f, of length] lb F by simp
  have d4: "drop (cp + 4) buf = body @ tail"
    using d by (metis (no_types) add.commute append_eq_conv_conj drop_drop length_put(2))
  have d20: "drop (cp + n + 20) buf = tail"
  proof -
    have "n + 16 + (cp + 4) = cp + n + 20" by simp
    then have "drop (cp + n + 20) buf = drop (n + 16) (drop (cp + 4) buf)" by (simp only: drop_drop)
    then show ?thesis using d4 lb by simp
  qed
  have "length buf - cp = n + 20 + length tail" using arg_cong [OF d, of length] lb by simp
  then have cpb: "cp + 4 \<le> length buf" "cp + n + 20 \<le> length buf" by linarith+
  have dec: "xor_bytes (take (n + 16) (drop (cp + 4) buf)) b = m @ take 16 mac"
    using d4 lb c(2) lm by (simp add: body_def xor_bytes_twice n_def)
  have hdr: "L \<noteq> 0" "L AND 0x80000000 \<noteq> 0" "unat (L AND 0x7fffffff) = n" using hdr_word [of n] len(1) by (simp_all add: L_def n_def)
  have chk: "checklen k L (w, p) = Inr (Some (L AND 0x7fffffff), (w, p))"
    using hdr len(2) by (simp add: checklen_def Let_def n_def)
  have gi: "getint (drop cp buf) = Inr (L XOR lenpad y)" using d by simp
  have m: "sha1_hashv jk [mackey1 y, putint L, m, mackey2 y] = Inr mac"
    using crypt_mac [OF jk] by (simp add: mac_def L_def rechdr_def)
  let ?x = "y\<lparr>macset := False, ctx_recv := a'\<rparr>"
  let ?b = "take (cp + 4) buf @ (m @ take 16 mac) @ drop (cp + n + 20) buf"
  have e: "cp + 4 + n + 16 = cp + n + 20" by simp
  have lims: "\<not> eom - cp < 4" "\<not> eom < cp + 4 + n + 16" using l by simp_all
  have tn: "take n (m @ take 16 mac) = m" "drop n (m @ take 16 mac) = take 16 mac" by (simp_all add: n_def)
  have cr: "cryptrecv x" using s by (simp add: synced_def)
  have "crypt_getpkt k jk cp eom (x, (w, p)) =
      bindR (callcb k (Pkt m) (w, p\<lparr>pktbuf := Some ?b\<rparr>)) (\<lambda>st. Inr (True, cp + n + 20, (?x, st)))"
    unfolding crypt_getpkt_def Let_def prod.case y_def [symmetric] p(2) option.case bindR_Inr gi xor_cancel chk hdr(3) b dec tn e
    using cr p(1) hdr(1) lims [unfolded e] m by (simp add: tn(1))
  moreover have "synced (snd (cframe a m)) ?x" using c(1) y(2) by (simp add: synced_def)
  moreover have "length ?b = length buf" using cpb lm by (simp add: n_def)
  moreover have "drop (cp + n + 20) ?b = drop (cp + n + 20) buf" using cpb lm by (simp add: n_def ac_simps)
  ultimately show ?thesis unfolding n_def [symmetric] by blast
qed

text \<open>The start of a frame is left alone.\<close>

lemma crypt_getpkt_partial:
  assumes s: "synced a x" and p: "cb p" "pktbuf p = Some buf" "eom \<le> length buf"
    and f: "take (eom - cp) (drop cp buf) @ fut = fst (cframe a m) @ suf" "eom - cp < length m + 20"
    and len: "length m < 2 ^ 31" "length m \<le> pktsize p"
  shows "\<exists>x'. crypt_getpkt k jk cp eom (x, (w, p)) = Inr (False, cp, (x', (w, p))) \<and> synced a x'"
proof -
  define y where "y = (if macset x then x else load_mac x)"
  have y: "rkeys a y" "synced a y" using synced_load [OF s] by (simp_all add: y_def)
  have cr: "cryptrecv x" using s by (simp add: synced_def)
  have "crypt_getpkt k jk cp eom (x, (w, p)) = Inr (False, cp, (y, (w, p)))"
  proof (cases "eom - cp < 4")
    case True
    then show ?thesis using cr by (simp add: crypt_getpkt_def y_def Let_def)
  next
    case False
    define n where "n = length m"
    obtain b a' where b: "getbytes (n + 16) (ctx_recv y) = (b, a')" by fastforce
    note c = cframe_rkeys [OF y(1) b [unfolded n_def], folded n_def]
    define L where "L = (0x80000000 OR word_of_nat n :: u32)"
    have l: "length (take (eom - cp) (drop cp buf)) = eom - cp" "4 \<le> eom - cp" using p(3) False by simp_all
    have "take 4 (take (eom - cp) (drop cp buf)) = putint (L XOR lenpad y)"
      using arg_cong [OF f(1), of "take 4"] l c(1) by (simp add: L_def)
    then have "take 4 (drop cp buf) = putint (L XOR lenpad y)" using l by (simp add: min_def)
    then have "drop cp buf = putint (L XOR lenpad y) @ drop (cp + 4) buf" by (metis append_take_drop_id drop_drop add.commute)
    then have gi: "getint (drop cp buf) = Inr (L XOR lenpad y)" by (metis getint_putint)
    have hdr: "L \<noteq> 0" "L AND 0x80000000 \<noteq> 0" "unat (L AND 0x7fffffff) = n" using hdr_word [of n] len(1) by (simp_all add: L_def n_def)
    have chk: "checklen k L (w, p) = Inr (Some (L AND 0x7fffffff), (w, p))"
      using hdr len(2) by (simp add: checklen_def Let_def n_def)
    have lim: "eom < cp + 4 + n + 16" using f(2) False by (simp add: n_def)
    show ?thesis
      unfolding crypt_getpkt_def Let_def prod.case y_def [symmetric] p(2) option.case bindR_Inr gi xor_cancel chk hdr(3)
      using cr p(1) hdr(1) False lim by simp
  qed
  then show ?thesis using y(2) by blast
qed

definition flen :: "u8 list list \<Rightarrow> nat" where
  "flen pkts = sum_list (map (\<lambda>m. length m + 20) pkts)"

lemma flen_simps [simp]: "flen [] = 0" "flen (m # pkts) = length m + 20 + flen pkts"
  by (simp_all add: flen_def)

lemma length_cframes [simp]: "length (cframes a pkts) = flen pkts"
  by (induction pkts arbitrary: a) simp_all

lemma crypt_getpkts_frames:
  assumes k: "rx_passive k" and jk: "length jk = 64"
  shows "synced a x \<Longrightarrow> cb p \<Longrightarrow> pktbuf p = Some buf \<Longrightarrow> eom \<le> length buf \<Longrightarrow> cp \<le> eom \<Longrightarrow>
    take (eom - cp) (drop cp buf) @ fut = cframes a pkts \<Longrightarrow> small_pkts (pktsize p) pkts \<Longrightarrow>
    \<exists>cp' x' w' p' pkts1 pkts2. crypt_getpkts k jk cp eom (x, (w, p)) = Inr (cp', (x', (w', p'))) \<and> pkts = pkts1 @ pkts2 \<and>
      delivered p' = delivered p @ map Pkt pkts1 \<and> (case pkts2 of [] \<Rightarrow> cp' = eom | m # _ \<Rightarrow> eom - cp' < length m + 20) \<and>
      cp' \<le> eom \<and> eom - cp' + length fut = flen pkts2"
proof (induction pkts arbitrary: a x cp w p buf)
  case Nil
  then have e: "cp = eom" by auto
  define y where "y = (if macset x then x else load_mac x)"
  have "crypt_getpkt k jk cp eom (x, (w, p)) = Inr (False, cp, (y, (w, p)))"
    using Nil.prems(1) e by (simp add: crypt_getpkt_def synced_def y_def Let_def)
  then have "crypt_getpkts k jk cp eom (x, (w, p)) = Inr (cp, (y, (w, p)))" using Nil.prems(2) by (simp add: crypt_getpkts.simps)
  then show ?case using e Nil.prems(6) by (intro exI [of _ cp] exI [of _ y] exI [of _ w] exI [of _ p] exI [of _ "[]"]) simp
next
  case (Cons m pkts)
  let ?F = "fst (cframe a m)" and ?a = "snd (cframe a m)"
  have sm: "length m < 2 ^ 31" "length m \<le> pktsize p" "small_pkts (pktsize p) pkts"
    using Cons.prems(7) by (auto simp: small_pkts_def)
  show ?case
  proof (cases "eom - cp < length m + 20")
    case True
    obtain x' where "crypt_getpkt k jk cp eom (x, (w, p)) = Inr (False, cp, (x', (w, p)))"
      using crypt_getpkt_partial [of a x p buf eom cp fut m "cframes ?a pkts"] Cons.prems sm True
      by (fastforce simp del: split_paired_Ex)
    then have "crypt_getpkts k jk cp eom (x, (w, p)) = Inr (cp, (x', (w, p)))" using Cons.prems(2) by (simp add: crypt_getpkts.simps)
    moreover have "eom - cp + length fut = flen (m # pkts)"
      using arg_cong [OF Cons.prems(6), of length] Cons.prems(4) by simp
    ultimately show ?thesis using True Cons.prems(5)
      by (intro exI [of _ cp] exI [of _ x'] exI [of _ w] exI [of _ p] exI [of _ "[]"] exI [of _ "m # pkts"]) simp
  next
    case False
    have l: "length (take (eom - cp) (drop cp buf)) = eom - cp" using Cons.prems(4) by simp
    define suf where "suf = drop (length ?F) (take (eom - cp) (drop cp buf))"
    have "take (length ?F) (take (eom - cp) (drop cp buf)) = ?F"
      using arg_cong [OF Cons.prems(6), of "take (length ?F)"] False l by simp
    then have f: "take (eom - cp) (drop cp buf) = ?F @ suf" unfolding suf_def by (metis append_take_drop_id)
    have fut: "suf @ fut = cframes ?a pkts" using Cons.prems(6) f by simp
    obtain x1 buf1 where g: "crypt_getpkt k jk cp eom (x, (w, p)) =
        bindR (callcb k (Pkt m) (w, p\<lparr>pktbuf := Some buf1\<rparr>)) (\<lambda>st. Inr (True, cp + length m + 20, (x1, st)))"
      "synced ?a x1" "length buf1 = length buf" "drop (cp + length m + 20) buf1 = drop (cp + length m + 20) buf"
      using crypt_getpkt_frame [OF Cons.prems(1,2,3) jk f sm(1,2)] by blast
    obtain w1 p1 where c: "callcb k (Pkt m) (w, p\<lparr>pktbuf := Some buf1\<rparr>) = Inr (w1, p1)"
      "rxview p1 = rxview ((p\<lparr>pktbuf := Some buf1\<rparr>)\<lparr>delivered := delivered p @ [Pkt m]\<rparr>)"
      using callcb_passive [OF k, of "Pkt m" w "p\<lparr>pktbuf := Some buf1\<rparr>"] by auto
    have tl: "take (eom - (cp + length m + 20)) (drop (cp + length m + 20) buf) = suf"
      using take_drop_split [OF f] by (simp add: add.assoc)
    have "\<exists>cp' x' w' p' pkts1 pkts2. crypt_getpkts k jk (cp + length m + 20) eom (x1, (w1, p1)) = Inr (cp', (x', (w', p'))) \<and>
      pkts = pkts1 @ pkts2 \<and> delivered p' = delivered p1 @ map Pkt pkts1 \<and>
      (case pkts2 of [] \<Rightarrow> cp' = eom | m # _ \<Rightarrow> eom - cp' < length m + 20) \<and>
      cp' \<le> eom \<and> eom - cp' + length fut = flen pkts2"
    proof (rule Cons.IH)
      show "take (eom - (cp + length m + 20)) (drop (cp + length m + 20) buf1) @ fut = cframes ?a pkts"
        unfolding g(4) tl by (rule fut)
    qed (use g c(2) Cons.prems sm False in \<open>auto simp: rxview_eqs\<close>)
    then obtain cp' x' w' p' pkts1 pkts2 where ih:
      "crypt_getpkts k jk (cp + length m + 20) eom (x1, (w1, p1)) = Inr (cp', (x', (w', p')))" "pkts = pkts1 @ pkts2"
      "delivered p' = delivered p1 @ map Pkt pkts1" "case pkts2 of [] \<Rightarrow> cp' = eom | m # _ \<Rightarrow> eom - cp' < length m + 20"
      "cp' \<le> eom" "eom - cp' + length fut = flen pkts2" by blast
    have "crypt_getpkts k jk cp eom (x, (w, p)) = Inr (cp', (x', (w', p')))"
      using Cons.prems(2) g(1) c(1) ih(1) by (simp add: crypt_getpkts.simps [of k jk cp])
    moreover have "delivered p' = delivered p @ map Pkt (m # pkts1)" using ih(3) c(2) by (simp add: rxview_eqs)
    ultimately show ?thesis using ih(2,4,5,6) by (intro exI [of _ cp'] exI [of _ x'] exI [of _ w'] exI [of _ p'] exI [of _ "m # pkts1"] exI [of _ pkts2]) simp
  qed
qed

section \<open>From one side to the other\<close>

fun crypt_sends :: "allocator \<Rightarrow> client \<Rightarrow> u8 list \<Rightarrow> (u8 list list \<times> wres list) list \<Rightarrow> xst \<Rightarrow> (bool list \<times> xst) res" where
  "crypt_sends al k jk [] st = Inr ([], st)"
| "crypt_sends al k jk ((iov, script) # ops) st =
     bindR (crypt_sendv al k jk iov script st) (\<lambda>(b, st).
     bindR (crypt_sends al k jk ops st) (\<lambda>(bs, st). Inr (b # bs, st)))"

lemma crypt_sends_spec:
  assumes al: "alloc_ok al" and jk: "length jk = 64"
  shows "tx_ok (w, p) \<Longrightarrow> cryptsend x \<Longrightarrow> sends_ok (pktsize p) ops \<Longrightarrow>
    \<exists>x' st'. crypt_sends al k jk ops (x, (w, p)) = Inr (map (\<lambda>_. True) ops, (x', st')) \<and>
      txbytes st' = txbytes (w, p) @ cframes (ctx_send x) (map (concat \<circ> fst) ops)"
proof (induction ops arbitrary: x w p)
  case (Cons op ops)
  obtain iov script where op: "op = (iov, script)" by fastforce
  have ok: "WError \<notin> set script" "length (concat iov) \<le> pktsize p" "length (concat iov) < 2 ^ 31" "sends_ok (pktsize p) ops"
    using Cons.prems(3) by (auto simp: sends_ok_def op)
  let ?c = "cframe (ctx_send x) (concat iov)"
  obtain w1 p1 where s: "crypt_sendv al k jk iov script (x, (w, p)) = Inr (True, (x\<lparr>ctx_send := snd ?c\<rparr>, (w1, p1)))"
    "tx_ok (w1, p1)" "txbytes (w1, p1) = txbytes (w, p) @ fst ?c" "txview p1 = txview p"
    using crypt_sendv_spec [OF al Cons.prems(1) jk Cons.prems(2) ok(1-3), of k] by fastforce
  have "pktsize p1 = pktsize p" using s(4) by (simp add: txview_def)
  then obtain x' st' where "crypt_sends al k jk ops (x\<lparr>ctx_send := snd ?c\<rparr>, (w1, p1)) = Inr (map (\<lambda>_. True) ops, (x', st'))"
    "txbytes st' = txbytes (w1, p1) @ cframes (snd ?c) (map (concat \<circ> fst) ops)"
    using Cons.IH [OF s(2), of "x\<lparr>ctx_send := snd ?c\<rparr>"] Cons.prems(2) ok(4) by (auto simp: comp_def)
  then show ?case using s op by (simp add: comp_def)
qed simp


definition keyed :: "u8 list \<Rightarrow> arc4" where
  "keyed key = \<lparr>rc_i = 0xff, rc_j = 0xff, rc_s = snd (rc4_ksa key 256 (0, map of_nat [0..<256]))\<rparr>"

definition crypt_keyed :: "u8 list \<Rightarrow> u8 list \<Rightarrow> axprt_crypt" where
  "crypt_keyed a b = axprt_crypt_new\<lparr>ctx_send := keyed a, ctx_recv := keyed b, cryptsend := True, cryptrecv := True\<rparr>"

lemma encrypt_short:
  assumes "a \<noteq> []" "length a \<le> 128" "b \<noteq> []" "length b \<le> 128"
  shows "crypt_encrypt k 0 a b (axprt_crypt_new, st) = Inr (crypt_keyed a b, st)"
  using arc4_setkey_short [OF assms(1,2)] arc4_setkey_short [OF assms(3,4)]
  by (simp add: crypt_encrypt_def axprt_crypt_new_def crypt_keyed_def keyed_def)


end
