(* ===== verification/Bitvec.thy ===== *)
theory Bitvec
  imports Prelude
begin

text \<open>
  The bit vector of \<open>async/bitvec.h\<close>, an array of 64-bit words with a number of bits, as compiled without
  \<open>CHECK_BOUNDS\<close>: an index is not checked against the number of bits, but an access outside the array is a
  fault. The words that \<open>xrealloc\<close> adds are not initialised, and are arguments.
\<close>

section \<open>Definitions\<close>

record bitvec =
  bmap :: "u64 list"
  nbits :: nat

definition bitvec_init :: bitvec where
  "bitvec_init = \<lparr>bmap = [], nbits = 0\<rparr>"

text \<open>\<open>nbytes\<close>, in words.\<close>

definition nwords :: "nat \<Rightarrow> nat" where
  "nwords nb = (nb + 64 - 1) div 64"

definition datalloc :: "u64 list \<Rightarrow> nat \<Rightarrow> bitvec \<Rightarrow> bitvec" where
  "datalloc junk nb v =
     (if nb \<noteq> 0 then v\<lparr>bmap := take (nwords nb) (bmap v @ take (nwords nb) (junk @ replicate (nwords nb) 0))\<rparr>
      else v\<lparr>bmap := []\<rparr>)"

definition modword :: "nat \<Rightarrow> (u64 \<Rightarrow> u64) \<Rightarrow> u64 list \<Rightarrow> u64 list res" where
  "modword i f m = bindR (rd m i) (\<lambda>w. wr m i (f w))"

definition fillwords :: "nat \<Rightarrow> nat \<Rightarrow> u64 \<Rightarrow> u64 list \<Rightarrow> u64 list res" where
  "fillwords i n w m =
     (if i + n \<le> length m then Inr (take i m @ replicate n w @ drop (i + n) m) else Inl OutOfRange)"

definition range_set :: "nat \<Rightarrow> nat \<Rightarrow> u64 list \<Rightarrow> u64 list res" where
  "range_set s e m =
     (let sp = s div 64; ep = e div 64; sb = s mod 64; eb = e mod 64
      in if sp = ep
         then (if eb \<noteq> 0 then modword sp (\<lambda>w. w OR (push_bit sb (- 1) AND NOT (push_bit eb (- 1)))) m else Inr m)
         else
           bindR (modword sp (\<lambda>w. w OR push_bit sb (- 1)) m) (\<lambda>m.
           bindR (if eb \<noteq> 0 then modword ep (\<lambda>w. w OR NOT (push_bit eb (- 1))) m else Inr m) (\<lambda>m.
             fillwords (sp + 1) (ep - sp - 1) (- 1) m)))"

definition range_clr :: "nat \<Rightarrow> nat \<Rightarrow> u64 list \<Rightarrow> u64 list res" where
  "range_clr s e m =
     (let sp = s div 64; ep = e div 64; sb = s mod 64; eb = e mod 64
      in if sp = ep
         then (if eb \<noteq> 0 then modword sp (\<lambda>w. w AND (NOT (push_bit sb (- 1)) OR push_bit eb (- 1))) m else Inr m)
         else
           bindR (modword sp (\<lambda>w. w AND NOT (push_bit sb (- 1))) m) (\<lambda>m.
           bindR (if eb \<noteq> 0 then modword ep (\<lambda>w. w AND push_bit eb (- 1)) m else Inr m) (\<lambda>m.
             fillwords (sp + 1) (ep - sp - 1) 0 m)))"

definition bv_setsize :: "u64 list \<Rightarrow> nat \<Rightarrow> bitvec \<Rightarrow> bitvec" where
  "bv_setsize junk n v = datalloc junk n (v\<lparr>nbits := n\<rparr>)"

definition zsetsize :: "u64 list \<Rightarrow> nat \<Rightarrow> bitvec \<Rightarrow> bitvec res" where
  "zsetsize junk n v =
     (let v' = datalloc junk n v
      in bindR (if n > nbits v then range_clr (nbits v) n (bmap v') else Inr (bmap v')) (\<lambda>m. Inr \<lparr>bmap = m, nbits = n\<rparr>))"

definition osetsize :: "u64 list \<Rightarrow> nat \<Rightarrow> bitvec \<Rightarrow> bitvec res" where
  "osetsize junk n v =
     (let v' = datalloc junk n v
      in bindR (if n > nbits v then range_set (nbits v) n (bmap v') else Inr (bmap v')) (\<lambda>m. Inr \<lparr>bmap = m, nbits = n\<rparr>))"

definition bv_at :: "bitvec \<Rightarrow> nat \<Rightarrow> bool res" where
  "bv_at v i = bindR (rd (bmap v) (i div 64)) (\<lambda>w. Inr (w AND push_bit (i mod 64) 1 \<noteq> 0))"

definition bv_setbit :: "nat \<Rightarrow> bool \<Rightarrow> bitvec \<Rightarrow> bitvec res" where
  "bv_setbit i val v =
     bindR (modword (i div 64)
       (\<lambda>w. if val then w OR push_bit (i mod 64) 1 else w AND NOT (push_bit (i mod 64) 1)) (bmap v)) (\<lambda>m. Inr (v\<lparr>bmap := m\<rparr>))"

text \<open>The exclusive or of \<open>wbit\<close>; its assignment is \<open>setbit\<close>.\<close>

definition wbit_xor :: "nat \<Rightarrow> bool \<Rightarrow> bitvec \<Rightarrow> bitvec res" where
  "wbit_xor i val v =
     bindR (modword (i div 64) (\<lambda>w. w XOR push_bit (i mod 64) (of_bool val)) (bmap v)) (\<lambda>m. Inr (v\<lparr>bmap := m\<rparr>))"

definition setrange :: "nat \<Rightarrow> nat \<Rightarrow> bool \<Rightarrow> bitvec \<Rightarrow> bitvec res" where
  "setrange s e v b = bindR (if v then range_set s e (bmap b) else range_clr s e (bmap b)) (\<lambda>m. Inr (b\<lparr>bmap := m\<rparr>))"

definition bv_assign :: "u64 list \<Rightarrow> bitvec \<Rightarrow> bitvec \<Rightarrow> bitvec res" where
  "bv_assign junk v a =
     (let a = bv_setsize junk (nbits v) a; n = nwords (nbits a)
      in if n \<le> length (bmap v) \<and> n \<le> length (bmap a)
         then Inr (a\<lparr>bmap := take n (bmap v) @ drop n (bmap a)\<rparr>) else Inl OutOfRange)"

text \<open>The loops of \<open>first_unset_bit\<close>: over the bits of a word with an unset bit, and over the words.\<close>

fun unset_in_word :: "nat \<Rightarrow> u64 \<Rightarrow> nat \<Rightarrow> nat option" where
  "unset_in_word 0 tmp bitindex = None"
| "unset_in_word (Suc j) tmp bitindex =
     (if tmp AND 1 \<noteq> 0 then Some bitindex else unset_in_word j (drop_bit 1 tmp) (bitindex + 1))"

fun unset_loop :: "nat \<Rightarrow> nat \<Rightarrow> nat \<Rightarrow> u64 list \<Rightarrow> int res" where
  "unset_loop 0 i bitindex m = Inr (- 1)"
| "unset_loop (Suc slots) i bitindex m =
     bindR (rd m i) (\<lambda>w.
       let tmp = w XOR - 1
       in if tmp \<noteq> 0
          then (case unset_in_word 64 tmp bitindex of None \<Rightarrow> Inl AssertFail | Some r \<Rightarrow> Inr (int r))
          else unset_loop slots (i + 1) (bitindex + 64) m)"

definition first_unset_bit :: "bitvec \<Rightarrow> int res" where
  "first_unset_bit v = unset_loop (nbits v div 64 + 1) 0 0 (bmap v)"

definition bv_swap :: "bitvec \<times> bitvec \<Rightarrow> bitvec \<times> bitvec" where
  "bv_swap p = (snd p, fst p)"

section \<open>The bits\<close>

definition mbit :: "u64 list \<Rightarrow> nat \<Rightarrow> bool" where
  "mbit m i = bit (m ! (i div 64)) (i mod 64)"

definition bv_wf :: "bitvec \<Rightarrow> bool" where
  "bv_wf v \<longleftrightarrow> length (bmap v) = nwords (nbits v)"

lemma nwords_cover: "i < nb \<Longrightarrow> i div 64 < nwords nb"
proof -
  assume "i < nb"
  then have "i div 64 < Suc ((nb - 1) div 64)" using div_le_mono [of i "nb - 1" 64] by simp
  also have "Suc ((nb - 1) div 64) = nwords nb" using \<open>i < nb\<close> by (simp add: nwords_def div_add_self2 [symmetric])
  finally show ?thesis .
qed

lemma at_bit: "i div 64 < length (bmap v) \<Longrightarrow> bv_at v i = Inr (mbit (bmap v) i)"
  by (simp add: bv_at_def mbit_def bit_iff_and_push_bit_not_eq_0)

lemma modword_bits:
  assumes "k < length m" "\<And>w j. j < 64 \<Longrightarrow> bit (f w) j = g j (bit w j)"
  shows "\<exists>m'. modword k f m = Inr m' \<and> length m' = length m \<and>
    (\<forall>i. mbit m' i = (if i div 64 = k then g (i mod 64) (mbit m i) else mbit m i))"
  using assms by (auto simp: modword_def mbit_def nth_list_update)

lemma setbit_bits:
  assumes "i div 64 < length (bmap v)"
  shows "\<exists>v'. bv_setbit i val v = Inr v' \<and> nbits v' = nbits v \<and> length (bmap v') = length (bmap v) \<and>
    (\<forall>j. mbit (bmap v') j = (if j = i then val else mbit (bmap v) j))"
proof -
  let ?f = "\<lambda>w :: u64. if val then w OR push_bit (i mod 64) 1 else w AND NOT (push_bit (i mod 64) 1)"
  have "bit (?f w) j = (if j = i mod 64 then val else bit w j)" if "j < 64" for w j
    using that by (auto simp: bit_simps)
  then obtain m' where m: "modword (i div 64) ?f (bmap v) = Inr m'" "length m' = length (bmap v)"
    "\<forall>j. mbit m' j = (if j div 64 = i div 64 then (if j mod 64 = i mod 64 then val else mbit (bmap v) j) else mbit (bmap v) j)"
    using modword_bits [OF assms, of ?f "\<lambda>j b. if j = i mod 64 then val else b"] by blast
  have "j = i \<longleftrightarrow> j div 64 = i div 64 \<and> j mod 64 = i mod 64" for j by (metis div_mult_mod_eq)
  then show ?thesis using m by (auto simp: bv_setbit_def)
qed

text \<open>Clearing and setting a range, both as one update of the bits.\<close>

lemma lex_less: "(i :: nat) < j \<longleftrightarrow> i div 64 < j div 64 \<or> (i div 64 = j div 64 \<and> i mod 64 < j mod 64)"
proof -
  have *: "x = 64 * (x div 64) + x mod 64" "x mod 64 < 64" for x :: nat by simp_all
  show ?thesis using * [of i] * [of j] by linarith
qed

lemma range_cases:
  fixes s e :: nat
  assumes "s \<le> e"
  shows "s \<le> i \<and> i < e \<longleftrightarrow>
    (if s div 64 = e div 64 then i div 64 = s div 64 \<and> s mod 64 \<le> i mod 64 \<and> i mod 64 < e mod 64
     else (i div 64 = s div 64 \<and> s mod 64 \<le> i mod 64) \<or> (s div 64 < i div 64 \<and> i div 64 < e div 64) \<or>
          (i div 64 = e div 64 \<and> i mod 64 < e mod 64))"
proof -
  have "s div 64 \<le> e div 64" using assms by (rule div_le_mono)
  then show ?thesis by (auto simp: lex_less [of i e] lex_less [of i s] not_less [symmetric])
qed

lemma fillwords_bits:
  assumes "k + n \<le> length m"
  shows "\<exists>m'. fillwords k n w m = Inr m' \<and> length m' = length m \<and>
    (\<forall>i. i div 64 < length m \<longrightarrow> mbit m' i = (if k \<le> i div 64 \<and> i div 64 < k + n then bit w (i mod 64) else mbit m i))"
  using assms by (auto simp: fillwords_def mbit_def nth_append)

text \<open>The general shape of \<open>range_set\<close> and \<open>range_clr\<close>, with the value the bits of the range get.\<close>

definition range_to :: "bool \<Rightarrow> nat \<Rightarrow> nat \<Rightarrow> u64 list \<Rightarrow> u64 list res" where
  "range_to v s e m = (if v then range_set s e m else range_clr s e m)"

lemma range_to_eq:
  "range_to v s e m =
     (let upd = \<lambda>msk w. if v then w OR msk else w AND NOT msk;
          sp = s div 64; ep = e div 64; from = push_bit (s mod 64) (- 1); upto = NOT (push_bit (e mod 64) (- 1))
      in if sp = ep then (if e mod 64 \<noteq> 0 then modword sp (upd (from AND upto)) m else Inr m)
         else bindR (modword sp (upd from) m) (\<lambda>m.
              bindR (if e mod 64 \<noteq> 0 then modword ep (upd upto) m else Inr m) (\<lambda>m.
                fillwords (sp + 1) (ep - sp - 1) (if v then - 1 else 0) m)))"
  by (simp add: range_to_def range_set_def range_clr_def Let_def bit.de_Morgan_conj)

lemma upd_bits: "j < 64 \<Longrightarrow> bit (if v then w OR msk else w AND NOT msk :: u64) j = (if bit msk j then v else bit w j)"
  by (auto simp: bit_simps)

lemma from_bits: "j < 64 \<Longrightarrow> bit (push_bit k (- 1) :: u64) j = (k \<le> j)"
  "j < 64 \<Longrightarrow> bit (NOT (push_bit k (- 1)) :: u64) j = (j < k)"
  by (auto simp: bit_simps)

lemma range_to_bits:
  assumes "s \<le> e" "e \<le> 64 * length m"
  shows "\<exists>m'. range_to v s e m = Inr m' \<and> length m' = length m \<and>
    (\<forall>i. i div 64 < length m \<longrightarrow> mbit m' i = (if s \<le> i \<and> i < e then v else mbit m i))"
proof -
  define upd where "upd = (\<lambda>(msk :: u64) w. if v then w OR msk else w AND NOT msk)"
  define sp ep where "sp = s div 64" and "ep = e div 64"
  define fr :: u64 where "fr = push_bit (s mod 64) (- 1)"
  define up :: u64 where "up = NOT (push_bit (e mod 64) (- 1))"
  have le: "sp \<le> ep" unfolding sp_def ep_def using assms(1) by (rule div_le_mono)
  have ep: "ep \<le> length m" using div_le_mono [OF assms(2), of 64] by (simp add: ep_def)
  have ep': "ep < length m" if "e mod 64 \<noteq> 0"
  proof (rule ccontr)
    assume "\<not> ep < length m"
    then have "64 * length m \<le> 64 * (e div 64)" using ep by (simp add: ep_def)
    then show False using assms(2) that by (metis add_le_same_cancel1 div_mult_mod_eq le_trans mult.commute not_less zero_less_iff_neq_zero linorder_not_le)
  qed
  have w: "bit (upd msk x) j = (if bit msk j then v else bit x j)" if "j < 64" for msk x j
    using upd_bits [OF that] by (simp add: upd_def)
  have fu: "bit (fr AND up) j \<longleftrightarrow> s mod 64 \<le> j \<and> j < e mod 64" if "j < 64" for j
    unfolding fr_def up_def bit_and_iff from_bits(1) [OF that] from_bits(2) [OF that] ..
  have fb: "bit fr j \<longleftrightarrow> s mod 64 \<le> j" and ub: "bit up j \<longleftrightarrow> j < e mod 64" if "j < 64" for j
    unfolding fr_def up_def from_bits(1) [OF that] from_bits(2) [OF that] by (rule refl)+
  have rt: "range_to v s e m =
      (if sp = ep then (if e mod 64 \<noteq> 0 then modword sp (upd (fr AND up)) m else Inr m)
       else bindR (modword sp (upd fr) m) (\<lambda>m. bindR (if e mod 64 \<noteq> 0 then modword ep (upd up) m else Inr m) (\<lambda>m.
         fillwords (sp + 1) (ep - sp - 1) (if v then - 1 else 0) m)))"
    unfolding range_to_eq Let_def upd_def fr_def up_def sp_def ep_def by (rule refl)
  note mw = modword_bits [of _ m "upd msk" "\<lambda>j b. if bit msk j then v else b" for msk]
  show ?thesis
  proof (cases "sp = ep")
    case True
    show ?thesis
    proof (cases "e mod 64 = 0")
      case True
      then have "s = e" using \<open>sp = ep\<close> assms(1) by (metis add.right_neutral div_mult_mod_eq ep_def le_add1 le_antisym sp_def)
      then show ?thesis using True by (auto simp: range_to_eq)
    next
      case False
      obtain m' where m': "modword sp (upd (fr AND up)) m = Inr m'" "length m' = length m"
        "\<forall>i. mbit m' i = (if i div 64 = sp then (if bit (fr AND up) (i mod 64) then v else mbit m i) else mbit m i)"
        using mw [of sp "fr AND up"] ep' [OF False] True w by blast
      have "range_to v s e m = Inr m'" unfolding rt using m'(1) True False by simp
      moreover have "mbit m' i = (if s \<le> i \<and> i < e then v else mbit m i)" for i
        using m'(3) range_cases [OF assms(1), of i] True by (simp add: fu sp_def ep_def)
      ultimately show ?thesis using m'(2) by blast
    qed
  next
    case False
    then have lt: "sp < ep" using le by simp
    obtain m1 where m1: "modword sp (upd fr) m = Inr m1" "length m1 = length m"
      "\<forall>i. mbit m1 i = (if i div 64 = sp then (if bit fr (i mod 64) then v else mbit m i) else mbit m i)"
      using mw [of sp fr] lt ep w by auto
    have "\<exists>m2. (if e mod 64 \<noteq> 0 then modword ep (upd up) m1 else Inr m1) = Inr m2 \<and> length m2 = length m \<and>
      (\<forall>i. mbit m2 i = (if i div 64 = ep \<and> i mod 64 < e mod 64 then v else mbit m1 i))"
    proof (cases "e mod 64 = 0")
      case False
      then obtain m2 where "modword ep (upd up) m1 = Inr m2" "length m2 = length m1"
        "\<forall>i. mbit m2 i = (if i div 64 = ep then (if bit up (i mod 64) then v else mbit m1 i) else mbit m1 i)"
        using modword_bits [of ep m1 "upd up" "\<lambda>j b. if bit up j then v else b"] ep' [OF False] m1(2) w by auto
      then show ?thesis using False m1(2) by (auto simp: ub)
    qed (use m1(2) in simp)
    then obtain m2 where m2: "(if e mod 64 \<noteq> 0 then modword ep (upd up) m1 else Inr m1) = Inr m2" "length m2 = length m"
      "\<forall>i. mbit m2 i = (if i div 64 = ep \<and> i mod 64 < e mod 64 then v else mbit m1 i)" by blast
    have "sp + 1 + (ep - sp - 1) \<le> length m2" using m2(2) lt ep by simp
    then obtain m3 where m3: "fillwords (sp + 1) (ep - sp - 1) (if v then - 1 else 0) m2 = Inr m3" "length m3 = length m2"
      "\<forall>i. i div 64 < length m2 \<longrightarrow> mbit m3 i = (if sp + 1 \<le> i div 64 \<and> i div 64 < sp + 1 + (ep - sp - 1)
         then bit (if v then - 1 else 0 :: u64) (i mod 64) else mbit m2 i)"
      using fillwords_bits by blast
    have "range_to v s e m = Inr m3" unfolding rt using False m1(1) m2(1) m3(1) by simp
    moreover have "mbit m3 i = (if s \<le> i \<and> i < e then v else mbit m i)" if "i div 64 < length m" for i
    proof -
      have "bit (if v then - 1 else 0 :: u64) (i mod 64) = v" by simp
      then have "mbit m3 i = (if sp < i div 64 \<and> i div 64 < ep then v else if i div 64 = ep \<and> i mod 64 < e mod 64 then v
          else if i div 64 = sp \<and> s mod 64 \<le> i mod 64 then v else mbit m i)"
        using that m3(3) m2(2,3) m1(3) lt by (auto simp: fb)
      then show ?thesis using range_cases [OF assms(1), of i] False by (auto simp: sp_def ep_def)
    qed
    ultimately show ?thesis using m3(2) m2(2) by auto
  qed
qed

lemma setrange_bits:
  assumes "s \<le> e" "e \<le> 64 * length (bmap b)"
  shows "\<exists>b'. setrange s e v b = Inr b' \<and> nbits b' = nbits b \<and> length (bmap b') = length (bmap b) \<and>
    (\<forall>i. i div 64 < length (bmap b) \<longrightarrow> mbit (bmap b') i = (if s \<le> i \<and> i < e then v else mbit (bmap b) i))"
  using range_to_bits [OF assms, of v] by (auto simp: setrange_def range_to_def [symmetric])

lemma nwords_enough: "nb \<le> 64 * nwords nb"
  using mult_div_mod_eq [of 64 "nb + 64 - 1"] mod_less_divisor [of 64 "nb + 64 - 1"] unfolding nwords_def by linarith

lemma nwords_pos: "nb \<noteq> 0 \<Longrightarrow> nwords nb \<noteq> 0"
  using nwords_enough [of nb] by auto

lemma datalloc_bits:
  assumes "bv_wf v"
  shows "length (bmap (datalloc junk n v)) = nwords n"
    "i < nbits v \<Longrightarrow> i < n \<Longrightarrow> mbit (bmap (datalloc junk n v)) i = mbit (bmap v) i"
proof -
  show "length (bmap (datalloc junk n v)) = nwords n"
  proof (cases "n = 0")
    case False
    have "length (take k (junk @ replicate k 0)) = k" for k by simp
    then show ?thesis using False by (simp add: datalloc_def del: take_append)
  qed (simp add: datalloc_def nwords_def)
  assume "i < nbits v" "i < n"
  then have "i div 64 < length (bmap v)" "i div 64 < nwords n" "n \<noteq> 0"
    using nwords_cover assms by (auto simp: bv_wf_def)
  then show "mbit (bmap (datalloc junk n v)) i = mbit (bmap v) i"
    by (simp add: datalloc_def mbit_def nth_append)
qed

text \<open>Growing a vector: the old bits stay, the new ones are 0 or 1.\<close>

lemma grow_bits:
  assumes "bv_wf v"
  shows "\<exists>v'. (if b then osetsize junk n v else zsetsize junk n v) = Inr v' \<and> bv_wf v' \<and> nbits v' = n \<and>
    (\<forall>i<n. mbit (bmap v') i = (if i < nbits v then mbit (bmap v) i else b))"
proof -
  let ?m = "bmap (datalloc junk n v)"
  have l: "length ?m = nwords n" by (rule datalloc_bits(1) [OF assms])
  have eq: "(if b then osetsize junk n v else zsetsize junk n v) =
      bindR (if n > nbits v then range_to b (nbits v) n ?m else Inr ?m) (\<lambda>m. Inr \<lparr>bmap = m, nbits = n\<rparr>)"
    by (simp add: osetsize_def zsetsize_def range_to_def Let_def)
  show ?thesis
  proof (cases "n > nbits v")
    case False
    then show ?thesis unfolding eq using l datalloc_bits(2) [OF assms] by (auto simp: bv_wf_def)
  next
    case True
    obtain m' where m': "range_to b (nbits v) n ?m = Inr m'" "length m' = length ?m"
      "\<forall>i. i div 64 < length ?m \<longrightarrow> mbit m' i = (if nbits v \<le> i \<and> i < n then b else mbit ?m i)"
      using range_to_bits [of "nbits v" n ?m b] True nwords_enough [of n] l by auto
    have "mbit m' i = (if i < nbits v then mbit (bmap v) i else b)" if "i < n" for i
      using m'(3) nwords_cover [OF that] that l datalloc_bits(2) [OF assms, of i n junk] by auto
    then show ?thesis unfolding eq using True m'(1,2) l by (simp add: bv_wf_def)
  qed
qed

section \<open>Finding an unset bit\<close>

lemma unset_loop_ones:
  "i + n \<le> length m \<Longrightarrow> (\<And>j. i \<le> j \<Longrightarrow> j < i + n \<Longrightarrow> m ! j = - 1) \<Longrightarrow> unset_loop (n + k) i b m = unset_loop k (i + n) (b + 64 * n) m"
proof (induction n arbitrary: i b)
  case (Suc n)
  have "unset_loop (Suc n + k) i b m = unset_loop (n + k) (i + 1) (b + 64) m" using Suc.prems(1,2) by simp
  also have "\<dots> = unset_loop k (i + 1 + n) (b + 64 + 64 * n) m" by (rule Suc.IH) (use Suc.prems in auto)
  finally show ?case by (simp add: algebra_simps)
qed simp

text \<open>
  \<open>first_unset_bit\<close> reads one word too many: when all bits are set and their number is a multiple of 64, it
  goes on to the word after the last.
\<close>

lemma first_unset_bit_overread:
  assumes "bv_wf v" "nbits v mod 64 = 0" "list_all (\<lambda>w. w = - 1) (bmap v)"
  shows "first_unset_bit v = Inl OutOfRange"
proof -
  have l: "length (bmap v) = nbits v div 64" using assms(1,2) by (auto simp: bv_wf_def nwords_def elim!: dvdE simp: mod_eq_0_iff_dvd)
  have "unset_loop (nbits v div 64 + 1) 0 0 (bmap v) = unset_loop 1 (0 + nbits v div 64) (0 + 64 * (nbits v div 64)) (bmap v)"
    by (rule unset_loop_ones) (use l assms(3) in \<open>auto simp: list_all_length\<close>)
  then show ?thesis using l by (simp add: first_unset_bit_def rd_def)
qed

lemma first_unset_bit_overread_witness: "first_unset_bit \<lparr>bmap = [- 1], nbits = 64\<rparr> = Inl OutOfRange"
  by (rule first_unset_bit_overread) (simp_all add: bv_wf_def nwords_def)

end
