(* ===== verification/Seqno.thy ===== *)
theory Seqno
  imports Bitvec
begin

text \<open>
  The check of sequence numbers of \<open>crypt/seqno.C\<close>, by which a session refuses a message it has seen: two
  bit vectors hold the numbers from \<open>bottom\<close> on that have been accepted. Numbers and \<open>bottom\<close> are 64-bit
  words; \<open>3 * nbits\<close> is taken not to wrap.
\<close>

section \<open>Definitions\<close>

record seqcheck =
  bottom :: u64
  sqbits :: nat
  bv0 :: bitvec
  bv1 :: bitvec

definition seqcheck_new :: "u64 list \<Rightarrow> u64 list \<Rightarrow> nat \<Rightarrow> seqcheck res" where
  "seqcheck_new junk0 junk1 n =
     bindR (zsetsize junk0 n bitvec_init) (\<lambda>b0.
     bindR (zsetsize junk1 n bitvec_init) (\<lambda>b1. Inr \<lparr>bottom = 0, sqbits = n, bv0 = b0, bv1 = b1\<rparr>))"

text \<open>The first half of \<open>check\<close>: move the window, and the number relative to it.\<close>

definition seq_move :: "u64 \<Rightarrow> seqcheck \<Rightarrow> (u64 \<times> seqcheck) res" where
  "seq_move seqno q =
     (let n = sqbits q
      in if unat seqno \<ge> 3 * n
         then
           bindR (setrange 0 n False (bv0 q)) (\<lambda>b0.
           bindR (setrange 0 n False (bv1 q)) (\<lambda>b1.
             Inr (0, q\<lparr>bottom := bottom q + seqno, bv0 := b0, bv1 := b1\<rparr>)))
         else if unat seqno \<ge> 2 * n
         then
           let (b0, b1) = bv_swap (bv0 q, bv1 q)
           in bindR (setrange 0 n False b1) (\<lambda>b1.
                Inr (seqno - of_nat n, q\<lparr>bottom := bottom q + of_nat n, bv0 := b0, bv1 := b1\<rparr>))
         else Inr (seqno, q))"

definition seq_check :: "u64 \<Rightarrow> seqcheck \<Rightarrow> (bool \<times> seqcheck) res" where
  "seq_check seqno q =
     (if seqno < bottom q then Inr (False, q)
      else
        bindR (seq_move (seqno - bottom q) q) (\<lambda>(seqno, q).
          if unat seqno \<ge> sqbits q
          then
            let i = unat (seqno - of_nat (sqbits q))
            in bindR (bv_at (bv1 q) i) (\<lambda>b.
               if b then Inr (False, q) else bindR (bv_setbit i True (bv1 q)) (\<lambda>v. Inr (True, q\<lparr>bv1 := v\<rparr>)))
          else
            let i = unat seqno
            in bindR (bv_at (bv0 q) i) (\<lambda>b.
               if b then Inr (False, q) else bindR (bv_setbit i True (bv0 q)) (\<lambda>v. Inr (True, q\<lparr>bv0 := v\<rparr>)))))"

text \<open>A sequence of checks, and the numbers it accepts.\<close>

fun seq_run :: "u64 list \<Rightarrow> seqcheck \<Rightarrow> (u64 list \<times> seqcheck) res" where
  "seq_run [] q = Inr ([], q)"
| "seq_run (s # ss) q =
     bindR (seq_check s q) (\<lambda>(ok, q).
     bindR (seq_run ss q) (\<lambda>(acc, q). Inr (if ok then s # acc else acc, q)))"

section \<open>Invariant\<close>

definition half_ok :: "nat \<Rightarrow> bitvec \<Rightarrow> nat \<Rightarrow> (nat \<Rightarrow> bool) \<Rightarrow> bool" where
  "half_ok n v base S \<longleftrightarrow> bv_wf v \<and> nbits v = n \<and> (\<forall>i<n. mbit (bmap v) i \<longleftrightarrow> S (base + i))"

text \<open>\<open>S\<close> is the set of numbers accepted so far.\<close>

definition seq_inv :: "seqcheck \<Rightarrow> nat set \<Rightarrow> bool" where
  "seq_inv q S \<longleftrightarrow>
     (let n = sqbits q; b = unat (bottom q)
      in 0 < n \<and> 3 * n < 2 ^ 64 \<and> half_ok n (bv0 q) b (\<lambda>x. x \<in> S) \<and> half_ok n (bv1 q) (b + n) (\<lambda>x. x \<in> S) \<and> (\<forall>x\<in>S. x < b + 2 * n))"

lemma clear_half:
  assumes "bv_wf v" "nbits v = n" "\<And>i. i < n \<Longrightarrow> \<not> P (base + i)"
  shows "\<exists>v'. setrange 0 n False v = Inr v' \<and> half_ok n v' base P"
proof -
  have l: "n \<le> 64 * length (bmap v)" using assms(1,2) nwords_enough [of n] by (simp add: bv_wf_def)
  obtain v' where "setrange 0 n False v = Inr v'" "nbits v' = nbits v" "length (bmap v') = length (bmap v)"
    "\<forall>i. i div 64 < length (bmap v) \<longrightarrow> mbit (bmap v') i = (if 0 \<le> i \<and> i < n then False else mbit (bmap v) i)"
    using setrange_bits [OF le0 l] by blast
  then show ?thesis using assms nwords_cover [of _ n] by (auto simp: half_ok_def bv_wf_def)
qed

lemma add_u64: "unat (a :: u64) + x < 2 ^ 64 \<Longrightarrow> unat (a + of_nat x) = unat a + x"
  by (simp add: unat_word_ariths unat_of_nat mod_add_right_eq)

lemma seq_move_inv:
  assumes inv: "seq_inv q S" and le: "bottom q \<le> s"
  shows "\<exists>r q'. seq_move (s - bottom q) q = Inr (r, q') \<and> seq_inv q' S \<and> unat s = unat (bottom q') + unat r \<and> unat r < 2 * sqbits q' \<and>
    bottom q \<le> bottom q' \<and> sqbits q' = sqbits q"
proof -
  define n b r where "n = sqbits q" and "b = unat (bottom q)" and "r = s - bottom q"
  have ur: "unat r = unat s - b" "b \<le> unat s" using le by (simp_all add: r_def b_def unat_sub word_le_nat_alt)
  have i: "0 < n" "3 * n < 2 ^ 64" "half_ok n (bv0 q) b (\<lambda>x. x \<in> S)" "half_ok n (bv1 q) (b + n) (\<lambda>x. x \<in> S)" "\<forall>x\<in>S. x < b + 2 * n"
    using inv by (simp_all add: seq_inv_def Let_def n_def b_def)
  have w: "bv_wf (bv0 q)" "nbits (bv0 q) = n" "bv_wf (bv1 q)" "nbits (bv1 q) = n" using i(3,4) by (simp_all add: half_ok_def)
  consider (far) "unat r \<ge> 3 * n" | (near) "unat r \<ge> 2 * n" "unat r < 3 * n" | (here) "unat r < 2 * n" by linarith
  then show ?thesis
  proof cases
    case far
    have out: "x \<notin> S" if "unat s \<le> x" for x using that far ur i(1,5) by fastforce
    obtain b0 b1 where c: "setrange 0 n False (bv0 q) = Inr b0" "half_ok n b0 (unat s) (\<lambda>x. x \<in> S)"
      "setrange 0 n False (bv1 q) = Inr b1" "half_ok n b1 (unat s + n) (\<lambda>x. x \<in> S)"
      using clear_half [OF w(1,2), of "\<lambda>x. x \<in> S" "unat s"] clear_half [OF w(3,4), of "\<lambda>x. x \<in> S" "unat s + n"] out by auto
    have "seq_move r q = Inr (0, q\<lparr>bottom := s, bv0 := b0, bv1 := b1\<rparr>)"
      using far c(1,3) by (simp add: seq_move_def n_def r_def Let_def)
    moreover have "seq_inv (q\<lparr>bottom := s, bv0 := b0, bv1 := b1\<rparr>) S"
      using i(1,2) c(2,4) i(5) ur(2) by (fastforce simp: seq_inv_def Let_def n_def [symmetric])
    ultimately show ?thesis using i(1) le by (simp add: r_def n_def)
  next
    case near
    have "b + n < 18446744073709551616" using unat_bounds(3) [of s] ur near(1) i(1) by linarith
    then have ub: "unat (bottom q + of_nat n) = b + n" using add_u64 [of "bottom q" n] by (simp add: b_def)
    have un: "unat (of_nat n :: u64) = n" using i(2) by (simp add: unat_of_nat)
    have urn: "unat (r - of_nat n) = unat r - n" using near(1) un by (simp add: unat_sub word_le_nat_alt)
    obtain b1 where c: "setrange 0 n False (bv0 q) = Inr b1" "half_ok n b1 (b + n + n) (\<lambda>x. x \<in> S)"
      using clear_half [OF w(1,2), of "\<lambda>x. x \<in> S" "b + n + n"] i(5) by fastforce
    let ?q = "q\<lparr>bottom := bottom q + of_nat n, bv0 := bv1 q, bv1 := b1\<rparr>"
    have "seq_move r q = Inr (r - of_nat n, ?q)"
      using near c(1) by (simp add: seq_move_def n_def Let_def bv_swap_def)
    moreover have "seq_inv ?q S"
      using i c(2) ub by (fastforce simp: seq_inv_def Let_def n_def [symmetric] add.assoc)
    ultimately show ?thesis using ub urn near ur by (simp add: r_def n_def word_le_nat_alt b_def)
  next
    case here
    then have "seq_move r q = Inr (r, q)" using i(1) by (simp add: seq_move_def n_def Let_def)
    then show ?thesis using inv here ur by (simp add: r_def n_def b_def)
  qed
qed

lemma set_half:
  assumes "half_ok n v base (\<lambda>x. x \<in> S)" "i < n"
  shows "bv_at v i = Inr (base + i \<in> S)"
    "\<exists>v'. bv_setbit i True v = Inr v' \<and> half_ok n v' base (\<lambda>x. x \<in> insert (base + i) S)"
proof -
  have l: "i div 64 < length (bmap v)" using assms nwords_cover [of i n] by (simp add: half_ok_def bv_wf_def)
  show "bv_at v i = Inr (base + i \<in> S)" using at_bit [OF l] assms by (simp add: half_ok_def)
  show "\<exists>v'. bv_setbit i True v = Inr v' \<and> half_ok n v' base (\<lambda>x. x \<in> insert (base + i) S)"
    using setbit_bits [OF l, of True] assms by (auto simp: half_ok_def bv_wf_def)
qed

lemma half_other: "half_ok n v base (\<lambda>x. x \<in> S) \<Longrightarrow> y < base \<or> base + n \<le> y \<Longrightarrow> half_ok n v base (\<lambda>x. x \<in> insert y S)"
  by (auto simp: half_ok_def)

text \<open>A number is accepted exactly if the window has not passed it and it has not been accepted before.\<close>

lemma seq_check_spec:
  assumes inv: "seq_inv q S"
  shows "\<exists>q'. seq_check s q = Inr (bottom q \<le> s \<and> unat s \<notin> S, q') \<and>
    seq_inv q' (if bottom q \<le> s then insert (unat s) S else S) \<and> bottom q \<le> bottom q' \<and> sqbits q' = sqbits q"
proof (cases "bottom q \<le> s")
  case False
  then show ?thesis using inv by (intro exI [of _ q]) (simp add: seq_check_def not_le [symmetric])
next
  case True
  obtain r q1 where m: "seq_move (s - bottom q) q = Inr (r, q1)" "seq_inv q1 S" "unat s = unat (bottom q1) + unat r"
    "unat r < 2 * sqbits q1" "bottom q \<le> bottom q1" "sqbits q1 = sqbits q" using seq_move_inv [OF inv True] by blast
  define n b where "n = sqbits q1" and "b = unat (bottom q1)"
  have i: "0 < n" "3 * n < 2 ^ 64" "half_ok n (bv0 q1) b (\<lambda>x. x \<in> S)" "half_ok n (bv1 q1) (b + n) (\<lambda>x. x \<in> S)" "\<forall>x\<in>S. x < b + 2 * n"
    using m(2) by (simp_all add: seq_inv_def Let_def n_def b_def)
  have c: "seq_check s q = (if unat r \<ge> n
      then let i = unat (r - of_nat n) in bindR (bv_at (bv1 q1) i) (\<lambda>b.
        if b then Inr (False, q1) else bindR (bv_setbit i True (bv1 q1)) (\<lambda>v. Inr (True, q1\<lparr>bv1 := v\<rparr>)))
      else let i = unat r in bindR (bv_at (bv0 q1) i) (\<lambda>b.
        if b then Inr (False, q1) else bindR (bv_setbit i True (bv0 q1)) (\<lambda>v. Inr (True, q1\<lparr>bv0 := v\<rparr>))))"
    using True m(1) by (simp add: seq_check_def n_def linorder_not_less [THEN iffD2])
  have un: "unat (of_nat n :: u64) = n" using i(2) by (simp add: unat_of_nat)
  have sb: "unat s = b + unat r" "unat s < b + 2 * n" using m(3,4) by (simp_all add: b_def n_def)
  have same: "seq_inv q1 (insert (unat s) S)" if "unat s \<in> S" using that m(2) by (simp add: insert_absorb)
  show ?thesis
  proof (cases "unat r \<ge> n")
    case hi: True
    define k where "k = unat (r - of_nat n)"
    have k: "k = unat r - n" using hi un by (simp add: k_def unat_sub word_le_nat_alt)
    have kn: "k < n" "b + n + k = unat s" using k hi sb m(4) i(1) by (simp_all add: n_def)
    obtain v where v: "bv_setbit k True (bv1 q1) = Inr v" "half_ok n v (b + n) (\<lambda>x. x \<in> insert (unat s) S)"
      using set_half(2) [OF i(4) kn(1)] kn(2) by auto
    have "half_ok n (bv0 q1) b (\<lambda>x. x \<in> insert (unat s) S)" using half_other [OF i(3)] kn by simp
    then have "seq_inv (q1\<lparr>bv1 := v\<rparr>) (insert (unat s) S)"
      using i(1,2,5) v(2) sb(2) by (simp add: seq_inv_def Let_def n_def [symmetric] b_def [symmetric])
    then show ?thesis
      using c hi set_half(1) [OF i(4) kn(1)] kn(2) v(1) True same m(5,6) by (simp add: k_def [symmetric] Let_def)
  next
    case lo: False
    obtain v where v: "bv_setbit (unat r) True (bv0 q1) = Inr v" "half_ok n v b (\<lambda>x. x \<in> insert (unat s) S)"
      using set_half(2) [OF i(3), of "unat r"] lo sb by auto
    have "half_ok n (bv1 q1) (b + n) (\<lambda>x. x \<in> insert (unat s) S)" using half_other [OF i(4)] lo sb by simp
    then have "seq_inv (q1\<lparr>bv0 := v\<rparr>) (insert (unat s) S)"
      using i(1,2,5) v(2) sb(2) by (simp add: seq_inv_def Let_def n_def [symmetric] b_def [symmetric])
    then show ?thesis
      using c lo set_half(1) [OF i(3), of "unat r"] sb v(1) True same m(5,6) by (simp add: Let_def)
  qed
qed

text \<open>The window starts at 0, or at or below a number that has been accepted.\<close>

definition low :: "seqcheck \<Rightarrow> nat set \<Rightarrow> bool" where
  "low q S \<longleftrightarrow> bottom q = 0 \<or> (\<exists>x\<in>S. unat (bottom q) \<le> x)"

lemma seq_check_low:
  assumes "seq_inv q S" "low q S" "seq_check s q = Inr (b, q')"
  shows "low q' (if bottom q \<le> s then insert (unat s) S else S)"
proof (cases "bottom q \<le> s")
  case False
  then show ?thesis using assms(2,3) by (simp add: seq_check_def not_le [symmetric])
next
  case True
  obtain r q1 where m: "seq_move (s - bottom q) q = Inr (r, q1)" "unat s = unat (bottom q1) + unat r"
    using seq_move_inv [OF assms(1) True] by blast
  have "bottom q' = bottom q1"
    using assms(3) True m(1) by (auto simp: seq_check_def not_less [symmetric] bindR_eq_Inr Let_def split: if_splits)
  then show ?thesis using True m(2) by (auto simp: low_def)
qed

lemma seq_run_spec:
  "seq_inv q S \<Longrightarrow> low q S \<Longrightarrow> \<exists>acc q'. seq_run ss q = Inr (acc, q') \<and> distinct acc \<and> set acc \<subseteq> set ss \<and> unat ` set acc \<inter> S = {} \<and>
     (sorted_wrt (<) ss \<and> (\<forall>s\<in>set ss. \<forall>x\<in>S. x < unat s) \<longrightarrow> acc = ss)"
proof (induction ss arbitrary: q S)
  case (Cons s ss)
  let ?S = "if bottom q \<le> s then insert (unat s) S else S"
  obtain q1 where c: "seq_check s q = Inr (bottom q \<le> s \<and> unat s \<notin> S, q1)" "seq_inv q1 ?S"
    using seq_check_spec [OF Cons.prems(1)] by blast
  have lo: "low q1 ?S" by (rule seq_check_low [OF Cons.prems c(1)])
  obtain acc q' where r: "seq_run ss q1 = Inr (acc, q')" "distinct acc" "set acc \<subseteq> set ss" "unat ` set acc \<inter> ?S = {}"
    "sorted_wrt (<) ss \<and> (\<forall>s\<in>set ss. \<forall>x\<in>?S. x < unat s) \<longrightarrow> acc = ss"
    using Cons.IH [OF c(2) lo] by blast
  let ?acc = "if bottom q \<le> s \<and> unat s \<notin> S then s # acc else acc"
  have "seq_run (s # ss) q = Inr (?acc, q')" using c(1) r(1) by simp
  moreover have "distinct ?acc" "set ?acc \<subseteq> set (s # ss)" "unat ` set ?acc \<inter> S = {}" using r(2-4) by (auto split: if_splits)
  moreover have "?acc = s # ss" if h: "sorted_wrt (<) (s # ss)" "\<forall>s\<in>set (s # ss). \<forall>x\<in>S. x < unat s"
  proof -
    have le: "bottom q \<le> s" using Cons.prems(2) h(2) by (fastforce simp: low_def word_le_nat_alt)
    moreover have "unat s \<notin> S" using h(2) by auto
    moreover have "acc = ss" using r(5) h le by (auto simp: word_less_nat_alt)
    ultimately show ?thesis by simp
  qed
  ultimately show ?case by blast
qed simp

lemma seqcheck_new_inv:
  assumes "0 < n" "3 * n < 2 ^ 64"
  shows "\<exists>q. seqcheck_new junk0 junk1 n = Inr q \<and> seq_inv q {} \<and> low q {}"
proof -
  have w: "bv_wf bitvec_init" by (simp add: bv_wf_def bitvec_init_def nwords_def)
  have "\<exists>v. zsetsize junk n bitvec_init = Inr v \<and> half_ok n v base (\<lambda>x. x \<in> {})" for junk base
    using grow_bits [OF w, of False junk n] by (auto simp: half_ok_def bitvec_init_def)
  then obtain b0 b1 where "zsetsize junk0 n bitvec_init = Inr b0" "half_ok n b0 0 (\<lambda>x. x \<in> {})"
    "zsetsize junk1 n bitvec_init = Inr b1" "half_ok n b1 (0 + n) (\<lambda>x. x \<in> {})" by meson
  then show ?thesis using assms by (simp add: seqcheck_new_def seq_inv_def low_def Let_def)
qed

text \<open>
  C36. No message is taken twice. For any sequence of numbers the check runs without touching memory outside its
  vectors and accepts no number twice, and it accepts all of a strictly increasing sequence, however far apart
  its numbers are.
\<close>

theorem seqcheck_no_replay:
  assumes "0 < n" "3 * n < 2 ^ 64"
  shows "\<exists>acc q. bindR (seqcheck_new junk0 junk1 n) (seq_run ss) = Inr (acc, q) \<and> distinct acc \<and> set acc \<subseteq> set ss \<and>
    (sorted_wrt (<) ss \<longrightarrow> acc = ss)"
  using seqcheck_new_inv [OF assms, of junk0 junk1] seq_run_spec [of _ "{}" ss] by fastforce

theorem seqcheck_no_replay_witness:
  "\<exists>acc q. bindR (seqcheck_new [] [7] 10) (seq_run [1, 3, 1, 90]) = Inr (acc, q) \<and> distinct acc \<and> set acc \<subseteq> {1, 3, 90}"
proof -
  have "set [1, 3, 1, 90 :: u64] = {1, 3, 90}" by auto
  then show ?thesis using seqcheck_no_replay [of 10 "[]" "[7]" "[1, 3, 1, 90]"] by auto
qed

end
