(* ===== verification/Tmoq.thy ===== *)
theory Tmoq
  imports Prelude
begin

text \<open>
  The retransmission queues of \<open>async/backoff.h\<close>: \<open>maxsend\<close> lists of entries, where an entry of list \<open>q\<close> waits
  \<open>minto << q\<close> seconds before it moves to the next list, and after the last one times out. The lists are
  modelled with their links as the code has them: \<open>next\<close>, the address \<open>pprev\<close> of the pointer to the entry, and
  the address \<open>plast\<close> of the last pointer. Entries are numbers. The functions \<open>xmit\<close> and \<open>timeout\<close> of the
  entries are the argument \<open>k\<close>, and may call back into the queues. \<open>timers\<close> holds the calls of \<open>timecb\<close> that
  have not fired, and \<open>clk\<close> the time, which stands still during a callback.
\<close>

section \<open>Definitions\<close>

datatype ploc = First nat | Next nat
datatype tev = Xmit nat nat | Timeout nat

record tmoq =
  qfirst :: "nat \<Rightarrow> nat option"
  qplast :: "nat \<Rightarrow> ploc"
  qpending :: "nat \<Rightarrow> bool"
  e_qno :: "nat \<Rightarrow> nat"
  e_tm :: "nat \<Rightarrow> nat"
  e_next :: "nat \<Rightarrow> nat option"
  e_pprev :: "nat \<Rightarrow> ploc"
  timers :: "(nat \<times> nat) list"
  clk :: nat
  tlog :: "tev list"

type_synonym tuser = "tev \<Rightarrow> tmoq \<Rightarrow> tmoq res"

text \<open>A store through a pointer to a pointer.\<close>

definition setloc :: "ploc \<Rightarrow> nat option \<Rightarrow> tmoq \<Rightarrow> tmoq" where
  "setloc l v t = (case l of First q \<Rightarrow> t\<lparr>qfirst := (qfirst t)(q := v)\<rparr> | Next p \<Rightarrow> t\<lparr>e_next := (e_next t)(p := v)\<rparr>)"

definition tmoq_new :: "nat \<Rightarrow> tmoq" where
  "tmoq_new now =
     \<lparr>qfirst = (\<lambda>_. None), qplast = First, qpending = (\<lambda>_. False), e_qno = (\<lambda>_. 2 ^ 32 - 1), e_tm = (\<lambda>_. 0),
      e_next = (\<lambda>_. None), e_pprev = First, timers = [], clk = now, tlog = []\<rparr>"

definition callk :: "tuser \<Rightarrow> tev \<Rightarrow> tmoq \<Rightarrow> tmoq res" where
  "callk k ev t = k ev (t\<lparr>tlog := tlog t @ [ev]\<rparr>)"

definition schedq :: "nat \<Rightarrow> tmoq \<Rightarrow> tmoq" where
  "schedq qn t =
     (if \<not> qpending t qn
      then (case qfirst t qn of
              None \<Rightarrow> t
            | Some p \<Rightarrow> t\<lparr>qpending := (qpending t)(qn := True), timers := (e_tm t p, qn) # timers t\<rparr>)
      else t)"

definition tmoq_insert :: "tuser \<Rightarrow> nat \<Rightarrow> nat \<Rightarrow> nat \<Rightarrow> nat \<Rightarrow> tmoq \<Rightarrow> tmoq res" where
  "tmoq_insert k minto p qn now t =
     (let t = t\<lparr>e_qno := (e_qno t)(p := qn),
                e_tm := (e_tm t)(p := (if now \<noteq> 0 then now else clk t) + minto * 2 ^ qn),
                e_next := (e_next t)(p := None),
                e_pprev := (e_pprev t)(p := qplast t qn)\<rparr>;
          t = setloc (qplast t qn) (Some p) t;
          t = t\<lparr>qplast := (qplast t)(qn := Next p)\<rparr>
      in callk k (Xmit p qn) (schedq qn t))"

definition tmoq_remove :: "nat \<Rightarrow> nat \<Rightarrow> tmoq \<Rightarrow> tmoq" where
  "tmoq_remove maxsend p t =
     (if e_qno t p < maxsend
      then
        let t = (case e_next t p of
                   Some n \<Rightarrow> t\<lparr>e_pprev := (e_pprev t)(n := e_pprev t p)\<rparr>
                 | None \<Rightarrow> t\<lparr>qplast := (qplast t)(e_qno t p := e_pprev t p)\<rparr>)
        in setloc (e_pprev t p) (e_next t p) t
      else t)"

definition tmoq_start :: "tuser \<Rightarrow> nat \<Rightarrow> nat \<Rightarrow> tmoq \<Rightarrow> tmoq res" where
  "tmoq_start k minto p t = tmoq_insert k minto p 0 0 t"

definition keeptrying :: "tuser \<Rightarrow> nat \<Rightarrow> nat \<Rightarrow> nat \<Rightarrow> tmoq \<Rightarrow> tmoq res" where
  "keeptrying k minto maxsend p t =
     bindR (guardR AssertFail (e_qno t p \<ge> maxsend)) (\<lambda>_. tmoq_insert k minto p (maxsend - 1) 0 t)"

text \<open>The loop of \<open>runq\<close> ends only if the callbacks let it: \<open>fuel\<close> bounds its turns.\<close>

fun runq :: "nat \<Rightarrow> tuser \<Rightarrow> nat \<Rightarrow> nat \<Rightarrow> nat \<Rightarrow> nat \<Rightarrow> tmoq \<Rightarrow> tmoq res" where
  "runq 0 k minto maxsend qn now t = Inl NoReturn"
| "runq (Suc fuel) k minto maxsend qn now t =
     (case qfirst t qn of
        None \<Rightarrow> Inr t
      | Some p \<Rightarrow>
          if e_tm t p \<le> now
          then
            let t = tmoq_remove maxsend p t
            in bindR (if qn < maxsend - 1 then tmoq_insert k minto p (qn + 1) now t
                      else callk k (Timeout p) (t\<lparr>e_qno := (e_qno t)(p := maxsend)\<rparr>)) (\<lambda>t.
               runq fuel k minto maxsend qn now t)
          else Inr t)"

definition tcb :: "nat \<Rightarrow> tuser \<Rightarrow> nat \<Rightarrow> nat \<Rightarrow> nat \<Rightarrow> tmoq \<Rightarrow> tmoq res" where
  "tcb fuel k minto maxsend qn t =
     bindR (runq fuel k minto maxsend qn (clk t) (t\<lparr>qpending := (qpending t)(qn := False)\<rparr>)) (\<lambda>t. Inr (schedq qn t))"

section \<open>The lists\<close>

text \<open>\<open>chain t l xs l'\<close>: following the links from the pointer at \<open>l\<close> gives the entries \<open>xs\<close>, and \<open>l'\<close> is the last pointer.\<close>

definition getloc :: "tmoq \<Rightarrow> ploc \<Rightarrow> nat option" where
  "getloc t l = (case l of First q \<Rightarrow> qfirst t q | Next p \<Rightarrow> e_next t p)"

fun chain :: "tmoq \<Rightarrow> ploc \<Rightarrow> nat list \<Rightarrow> ploc \<Rightarrow> bool" where
  "chain t l [] l' \<longleftrightarrow> l = l' \<and> getloc t l = None"
| "chain t l (p # ps) l' \<longleftrightarrow> getloc t l = Some p \<and> e_pprev t p = l \<and> chain t (Next p) ps l'"

definition tq_lists :: "tmoq \<Rightarrow> nat \<Rightarrow> (nat \<Rightarrow> nat list) \<Rightarrow> bool" where
  "tq_lists t ms qs \<longleftrightarrow>
     (\<forall>q<ms. chain t (First q) (qs q) (qplast t q) \<and> distinct (qs q) \<and> (\<forall>p\<in>set (qs q). e_qno t p = q))"

lemma lists_disjoint: "tq_lists t ms qs \<Longrightarrow> q < ms \<Longrightarrow> r < ms \<Longrightarrow> p \<in> set (qs q) \<Longrightarrow> p \<in> set (qs r) \<Longrightarrow> q = r"
  unfolding tq_lists_def by metis

lemma getloc_setloc: "getloc (setloc l v t) l' = (if l = l' then v else getloc t l')"
  by (auto simp: getloc_def setloc_def split: ploc.splits)

lemma setloc_other [simp]:
  "qplast (setloc l v t) = qplast t" "qpending (setloc l v t) = qpending t" "e_qno (setloc l v t) = e_qno t" "e_tm (setloc l v t) = e_tm t"
  "e_pprev (setloc l v t) = e_pprev t" "timers (setloc l v t) = timers t" "clk (setloc l v t) = clk t" "tlog (setloc l v t) = tlog t"
  by (simp_all add: setloc_def split: ploc.splits)

text \<open>The pointers a chain reads: its start and the links of its entries.\<close>

lemma chain_cong:
  assumes "getloc t' l = getloc t l" "\<And>p. p \<in> set ps \<Longrightarrow> e_next t' p = e_next t p \<and> e_pprev t' p = e_pprev t p"
  shows "chain t' l ps l' = chain t l ps l'"
  using assms
proof (induction ps arbitrary: l)
  case (Cons p ps)
  have "chain t' (Next p) ps l' = chain t (Next p) ps l'"
    by (rule Cons.IH) (use Cons.prems in \<open>auto simp: getloc_def\<close>)
  then show ?case using Cons.prems by simp
qed simp

lemma chain_end: "chain t l xs l' \<Longrightarrow> l' = (if xs = [] then l else Next (last xs))"
  by (induction xs arbitrary: l) auto

lemma chain_hd: "chain t l xs l' \<Longrightarrow> getloc t l = (case xs of [] \<Rightarrow> None | x # _ \<Rightarrow> Some x)"
  by (cases xs) auto

lemma chain_at: "chain t l (xs @ p # ys) l' \<Longrightarrow> getloc t (Next p) = (case ys of [] \<Rightarrow> None | y # _ \<Rightarrow> Some y)"
  by (induction xs arbitrary: l) (auto dest: chain_hd)

lemma chain_snoc:
  assumes "chain t l xs l'" "distinct xs" "p \<notin> set xs" "l \<notin> Next ` set xs" "l \<noteq> Next p"
    and "getloc t' l' = Some p" "getloc t' (Next p) = None" "e_pprev t' p = l'"
    and "\<And>m. m \<noteq> l' \<Longrightarrow> m \<noteq> Next p \<Longrightarrow> getloc t' m = getloc t m" "\<And>x. x \<noteq> p \<Longrightarrow> e_pprev t' x = e_pprev t x"
  shows "chain t' l (xs @ [p]) (Next p)"
  using assms(1-5)
proof (induction xs arbitrary: l)
  case Nil
  then show ?case using assms(6-8) by simp
next
  case (Cons x xs)
  have "l' = Next (last (x # xs))" using chain_end [OF Cons.prems(1)] by simp
  then have "l \<noteq> l'" using Cons.prems(4) by (metis imageI last_in_set list.distinct(1))
  then have "getloc t' l = Some x" "e_pprev t' x = l" using Cons.prems assms(9,10) by auto
  moreover have "chain t' (Next x) (xs @ [p]) (Next p)" by (rule Cons.IH) (use Cons.prems in auto)
  ultimately show ?case by simp
qed

lemma chain_remove:
  assumes "chain t l (xs @ p # ys) l'" "distinct (xs @ p # ys)" "l \<notin> Next ` set (xs @ p # ys)"
    and "\<And>m. getloc t' m = (if m = e_pprev t p then e_next t p else getloc t m)"
    and "\<And>x. e_pprev t' x = (if e_next t p = Some x then e_pprev t p else e_pprev t x)"
  shows "chain t' l (xs @ ys) (if ys = [] then e_pprev t p else l') \<and> e_next t p = (case ys of [] \<Rightarrow> None | y # _ \<Rightarrow> Some y) \<and>
    e_pprev t p = (if xs = [] then l else Next (last xs))"
  using assms(1-3)
proof (induction xs arbitrary: l)
  case Nil
  have p: "e_pprev t p = l" "e_next t p = (case ys of [] \<Rightarrow> None | y # _ \<Rightarrow> Some y)" "chain t (Next p) ys l'"
    using Nil.prems(1) chain_hd [of t "Next p" ys l'] by (auto simp: getloc_def)
  show ?case
  proof (cases ys)
    case Nil
    then show ?thesis using p assms(4) by simp
  next
    case (Cons y zs)
    have "chain t' (Next y) zs l' = chain t (Next y) zs l'"
    proof (rule chain_cong)
      show "getloc t' (Next y) = getloc t (Next y)" using assms(4) p(1) Nil.prems(3) Cons by (auto simp: image_iff)
      show "e_next t' x = e_next t x \<and> e_pprev t' x = e_pprev t x" if "x \<in> set zs" for x
        using that assms(4) [of "Next x"] assms(5) p(1,2) Nil.prems(2,3) Cons by (auto simp: getloc_def image_iff)
    qed
    then show ?thesis using p Cons assms(4,5) by simp
  qed
next
  case (Cons x xs)
  have ih: "chain t' (Next x) (xs @ ys) (if ys = [] then e_pprev t p else l') \<and> e_next t p = (case ys of [] \<Rightarrow> None | y # _ \<Rightarrow> Some y) \<and>
      e_pprev t p = (if xs = [] then Next x else Next (last xs))"
    by (rule Cons.IH) (use Cons.prems in auto)
  have "e_pprev t p \<in> Next ` set (x # xs)" using ih by (cases "xs = []") simp_all
  then have "l \<noteq> e_pprev t p" using Cons.prems(3) by auto
  moreover have "e_next t p \<noteq> Some x" using ih Cons.prems(2) by (cases ys) auto
  ultimately have "getloc t' l = Some x" "e_pprev t' x = l" using Cons.prems(1) assms(4) [of l] assms(5) [of x] by simp_all
  then show ?case using ih by simp
qed

lemma Next_eq: "Next x = Next y \<longleftrightarrow> x = y" "First q \<notin> Next ` S"
  by auto

text \<open>Appending to a list and taking out of one.\<close>

lemma insert_lists:
  fixes tm :: "nat \<Rightarrow> nat"
  assumes l: "tq_lists t ms qs" and q: "q < ms" and p: "\<And>r. r < ms \<Longrightarrow> p \<notin> set (qs r)"
  defines "t1 \<equiv> t\<lparr>e_qno := (e_qno t)(p := q), e_tm := tm, e_next := (e_next t)(p := None), e_pprev := (e_pprev t)(p := qplast t q)\<rparr>"
  defines "t2 \<equiv> (setloc (qplast t1 q) (Some p) t1)\<lparr>qplast := (qplast t1)(q := Next p)\<rparr>"
  shows "tq_lists t2 ms (qs(q := qs q @ [p]))"
proof -
  have ch: "chain t (First r) (qs r) (qplast t r)" "distinct (qs r)" "\<forall>x\<in>set (qs r). e_qno t x = r" if "r < ms" for r
    using l that by (auto simp: tq_lists_def)
  have pl: "qplast t r = (if qs r = [] then First r else Next (last (qs r)))" if "r < ms" for r
    using chain_end [OF ch(1) [OF that]] .
  have np: "qplast t q \<noteq> Next p" using pl [OF q] p [OF q] by (auto dest: last_in_set split: if_splits)
  have g: "getloc t2 m = (if m = qplast t q then Some p else if m = Next p then None else getloc t m)" for m
    by (cases "m = qplast t q") (auto simp: t2_def t1_def getloc_def setloc_def split: ploc.splits if_splits)
  have pp: "e_pprev t2 x = (if x = p then qplast t q else e_pprev t x)" and qn: "e_qno t2 x = (if x = p then q else e_qno t x)" for x
    by (simp_all add: t2_def t1_def)
  have "chain t2 (First r) ((qs(q := qs q @ [p])) r) (qplast t2 r)" if r: "r < ms" for r
  proof (cases "r = q")
    case True
    have "chain t2 (First q) (qs q @ [p]) (Next p)"
      by (rule chain_snoc [OF ch(1,2) [OF q] p [OF q]]) (use g pp np in auto)
    then show ?thesis using True by (simp add: t2_def)
  next
    case False
    have other: "qplast t q \<noteq> First r" "x \<in> set (qs r) \<Longrightarrow> qplast t q \<noteq> Next x" for x
      using pl [OF q] False lists_disjoint [OF l q r] by (auto split: if_splits dest: last_in_set)
    have "chain t2 (First r) (qs r) (qplast t r) = chain t (First r) (qs r) (qplast t r)"
    proof (rule chain_cong)
      show "getloc t2 (First r) = getloc t (First r)" using g [of "First r"] other(1) by auto
      show "e_next t2 x = e_next t x \<and> e_pprev t2 x = e_pprev t x" if "x \<in> set (qs r)" for x
        using g [of "Next x"] pp [of x] other(2) [OF that] p [OF r] that by (auto simp: getloc_def)
    qed
    then show ?thesis using ch(1) [OF r] False by (simp add: t2_def t1_def)
  qed
  moreover have "distinct ((qs(q := qs q @ [p])) r)" "\<forall>x\<in>set ((qs(q := qs q @ [p])) r). e_qno t2 x = r" if "r < ms" for r
    using ch(2,3) [OF that] p [OF that] p [OF q] by (auto simp: qn)
  ultimately show ?thesis by (simp add: tq_lists_def)
qed

lemma remove_lists:
  assumes l: "tq_lists t ms qs" and q: "q < ms" and p: "p \<in> set (qs q)"
  shows "tq_lists (tmoq_remove ms p t) ms (qs(q := remove1 p (qs q)))"
proof -
  have ch: "chain t (First r) (qs r) (qplast t r)" "distinct (qs r)" "\<forall>x\<in>set (qs r). e_qno t x = r" if "r < ms" for r
    using l that by (auto simp: tq_lists_def)
  define t2 where "t2 = tmoq_remove ms p t"
  have pq: "e_qno t p = q" using ch(3) [OF q] p by blast
  obtain xs ys where xy: "qs q = xs @ p # ys" by (metis p in_set_conv_decomp)
  have np: "p \<notin> set xs" using ch(2) [OF q] by (simp add: xy)
  have np2: "e_next t p \<noteq> Some p"
  proof
    assume n: "e_next t p = Some p"
    have "getloc t (Next p) = (case ys of [] \<Rightarrow> None | y # _ \<Rightarrow> Some y)"
      using chain_at ch(1) [OF q] unfolding xy by blast
    then show False using n ch(2) [OF q] by (auto simp: getloc_def xy split: list.splits)
  qed
  have g: "getloc t2 m = (if m = e_pprev t p then e_next t p else getloc t m)" for m
    using q pq np2 by (auto simp: t2_def tmoq_remove_def Let_def setloc_def getloc_def split: option.splits ploc.splits)
  have pp: "e_pprev t2 x = (if e_next t p = Some x then e_pprev t p else e_pprev t x)"
    and pl: "qplast t2 = (if e_next t p = None then (qplast t)(q := e_pprev t p) else qplast t)" and qn: "e_qno t2 = e_qno t" for x
    using q pq by (auto simp: t2_def tmoq_remove_def Let_def split: option.splits)
  have rm: "chain t2 (First q) (xs @ ys) (if ys = [] then e_pprev t p else qplast t q)"
    "e_next t p = (case ys of [] \<Rightarrow> None | y # _ \<Rightarrow> Some y)" "e_pprev t p = (if xs = [] then First q else Next (last xs))"
    using chain_remove [of t "First q" xs p ys "qplast t q" t2, OF _ _ Next_eq(2) g pp] ch(1,2) [OF q] unfolding xy by blast+
  have "chain t2 (First r) ((qs(q := xs @ ys)) r) (qplast t2 r)" if r: "r < ms" for r
  proof (cases "r = q")
    case True
    then show ?thesis using rm pl by (auto split: list.splits)
  next
    case False
    have other: "x \<in> set (qs r) \<Longrightarrow> x \<notin> set (qs q)" for x using lists_disjoint [OF l r q] False by blast
    have "chain t2 (First r) (qs r) (qplast t r) = chain t (First r) (qs r) (qplast t r)"
    proof (rule chain_cong)
      show "getloc t2 (First r) = getloc t (First r)" using g [of "First r"] rm(3) False by auto
      show "e_next t2 x = e_next t x \<and> e_pprev t2 x = e_pprev t x" if "x \<in> set (qs r)" for x
        using g [of "Next x"] pp [of x] rm(2,3) other [OF that] by (auto simp: getloc_def xy split: if_splits list.splits)
    qed
    then show ?thesis using ch(1) [OF r] False pl by auto
  qed
  moreover have "distinct ((qs(q := xs @ ys)) r)" "\<forall>x\<in>set ((qs(q := xs @ ys)) r). e_qno t2 x = r" if "r < ms" for r
    using ch(2,3) [OF that] ch(2,3) [OF q] by (auto simp: qn xy)
  moreover have "remove1 p (qs q) = xs @ ys" using np by (simp add: xy remove1_append)
  ultimately show ?thesis by (simp add: tq_lists_def t2_def)
qed


section \<open>The invariant\<close>

text \<open>
  The entries of a list are in the order of their times, none is further away than the delay of its list, a list
  with an entry has a timer set unless it is being run (\<open>X\<close>), and a timer that is set is not later than any entry.
\<close>

definition q_ok :: "nat \<Rightarrow> nat set \<Rightarrow> nat \<Rightarrow> nat list \<Rightarrow> tmoq \<Rightarrow> bool" where
  "q_ok minto X q xs t \<longleftrightarrow>
     sorted (map (e_tm t) xs) \<and> (\<forall>p\<in>set xs. e_tm t p \<le> clk t + minto * 2 ^ q) \<and> (q \<notin> X \<and> xs \<noteq> [] \<longrightarrow> qpending t q) \<and>
     (qpending t q \<longrightarrow> (\<exists>tm. (tm, q) \<in> set (timers t) \<and> tm \<le> clk t + minto * 2 ^ q \<and> (\<forall>p\<in>set xs. tm \<le> e_tm t p)))"

definition tq_inv :: "nat \<Rightarrow> nat \<Rightarrow> nat set \<Rightarrow> (nat \<Rightarrow> nat list) \<Rightarrow> tmoq \<Rightarrow> bool" where
  "tq_inv minto ms X qs t \<longleftrightarrow> tq_lists t ms qs \<and> (\<forall>q<ms. q_ok minto X q (qs q) t)"

text \<open>The entries of a list that are due, and what an operation promises: it returns, and none becomes due.\<close>

definition ndue :: "tmoq \<Rightarrow> nat list \<Rightarrow> nat" where
  "ndue t xs = length (filter (\<lambda>p. e_tm t p \<le> clk t) xs)"

definition tq_to :: "nat \<Rightarrow> nat \<Rightarrow> nat set \<Rightarrow> (nat \<Rightarrow> nat list) \<Rightarrow> tmoq \<Rightarrow> tmoq res \<Rightarrow> bool" where
  "tq_to minto ms X qs t m \<longleftrightarrow>
     (\<exists>t' qs'. m = Inr t' \<and> tq_inv minto ms X qs' t' \<and> clk t' = clk t \<and> (\<forall>q<ms. ndue t' (qs' q) \<le> ndue t (qs q)))"

lemma tq_toI:
  "m = Inr t' \<Longrightarrow> tq_inv minto ms X qs' t' \<Longrightarrow> clk t' = clk t \<Longrightarrow> (\<And>q. q < ms \<Longrightarrow> ndue t' (qs' q) \<le> ndue t (qs q)) \<Longrightarrow> tq_to minto ms X qs t m"
  unfolding tq_to_def by blast

lemma tq_toE:
  assumes "tq_to minto ms X qs t m"
  obtains t' qs' where "m = Inr t'" "tq_inv minto ms X qs' t'" "clk t' = clk t" "\<And>q. q < ms \<Longrightarrow> ndue t' (qs' q) \<le> ndue t (qs q)"
  using assms unfolding tq_to_def by blast

lemma tq_to_trans:
  assumes "tq_to minto ms X qs' t' m" "clk t' = clk t" "\<And>q. q < ms \<Longrightarrow> ndue t' (qs' q) \<le> ndue t (qs q)"
  shows "tq_to minto ms X qs t m"
  using assms unfolding tq_to_def by (metis le_trans)

text \<open>The links do not depend on the times, the clock, the timers and the log.\<close>

lemma lists_cong:
  assumes "qfirst t' = qfirst t" "qplast t' = qplast t" "e_next t' = e_next t" "e_pprev t' = e_pprev t"
    "\<And>q p. q < ms \<Longrightarrow> p \<in> set (qs q) \<Longrightarrow> e_qno t' p = e_qno t p"
  shows "tq_lists t' ms qs = tq_lists t ms qs"
proof -
  have "chain t' l xs l' = chain t l xs l'" for l xs l'
    using assms(1-4) by (intro chain_cong) (auto simp: getloc_def split: ploc.splits)
  then show ?thesis using assms(2,5) by (auto simp: tq_lists_def)
qed

lemma inv_log [simp]: "tq_inv minto ms X qs (t\<lparr>tlog := l\<rparr>) = tq_inv minto ms X qs t"
  using lists_cong [of "t\<lparr>tlog := l\<rparr>" t ms qs] by (simp add: tq_inv_def q_ok_def)

lemma ndue_log [simp]: "ndue (t\<lparr>tlog := l\<rparr>) xs = ndue t xs"
  by (simp add: ndue_def)

lemma inv_qno:
  assumes "tq_inv minto ms X qs t" "\<And>q. q < ms \<Longrightarrow> p \<notin> set (qs q)"
  shows "tq_inv minto ms X qs (t\<lparr>e_qno := (e_qno t)(p := v)\<rparr>)"
proof -
  have "tq_lists (t\<lparr>e_qno := (e_qno t)(p := v)\<rparr>) ms qs = tq_lists t ms qs" using assms(2) by (intro lists_cong) auto
  then show ?thesis using assms(1) by (simp add: tq_inv_def q_ok_def)
qed

lemma inv_tick: "tq_inv minto ms X qs t \<Longrightarrow> tq_inv minto ms X qs (t\<lparr>clk := clk t + d\<rparr>)"
  using lists_cong [of "t\<lparr>clk := clk t + d\<rparr>" t ms qs] unfolding tq_inv_def q_ok_def
  by simp (meson le_trans le_add1 add_le_mono1 trans_le_add1)

lemma schedq_simps [simp]:
  "qfirst (schedq q t) = qfirst t" "qplast (schedq q t) = qplast t" "e_next (schedq q t) = e_next t" "e_pprev (schedq q t) = e_pprev t"
  "e_qno (schedq q t) = e_qno t" "e_tm (schedq q t) = e_tm t" "clk (schedq q t) = clk t" "tlog (schedq q t) = tlog t"
  by (simp_all add: schedq_def split: option.splits)

lemma q_ok_other:
  assumes "q_ok minto X q xs t" "\<And>p. p \<in> set xs \<Longrightarrow> e_tm t' p = e_tm t p" "clk t' = clk t" "qpending t' q = qpending t q"
    "\<And>tm. (tm, q) \<in> set (timers t) \<Longrightarrow> (tm, q) \<in> set (timers t')"
  shows "q_ok minto X q xs t'"
proof -
  have "map (e_tm t') xs = map (e_tm t) xs" using assms(2) by simp
  then show ?thesis using assms unfolding q_ok_def by (metis (no_types, lifting))
qed

text \<open>\<open>schedq\<close> gives a list its timer.\<close>

lemma schedq_ok:
  assumes l: "tq_lists t ms qs" and q: "q < ms" and s: "q_ok minto {q} q (qs q) t"
  shows "q_ok minto X q (qs q) (schedq q t)"
proof -
  have f: "qfirst t q = (case qs q of [] \<Rightarrow> None | x # _ \<Rightarrow> Some x)"
    using l q chain_hd [of t "First q" "qs q" "qplast t q"] by (simp add: tq_lists_def getloc_def)
  show ?thesis
  proof (cases "qpending t q \<or> qs q = []")
    case True
    then show ?thesis using s f by (auto simp: q_ok_def schedq_def)
  next
    case False
    then obtain x xs where x: "qs q = x # xs" by (cases "qs q") auto
    then have "schedq q t = t\<lparr>qpending := (qpending t)(q := True), timers := (e_tm t x, q) # timers t\<rparr>"
      using f False by (simp add: schedq_def)
    then show ?thesis using s x by (auto simp: q_ok_def)
  qed
qed

lemma schedq_others: "r \<noteq> q \<Longrightarrow> q_ok minto X r xs t \<Longrightarrow> q_ok minto X r xs (schedq q t)"
  by (erule q_ok_other) (auto simp: schedq_def split: option.splits)

lemma schedq_inv:
  assumes "tq_inv minto ms (insert q X) qs t" "q < ms"
  shows "tq_inv minto ms X qs (schedq q t)"
proof -
  have "tq_lists (schedq q t) ms qs" using assms lists_cong [of "schedq q t" t ms qs] by (simp add: tq_inv_def)
  moreover have "q_ok minto X r (qs r) (schedq q t)" if "r < ms" for r
  proof (cases "r = q")
    case True
    have "q_ok minto {q} q (qs q) t" using assms by (auto simp: tq_inv_def q_ok_def)
    then show ?thesis using schedq_ok [of t ms qs q minto X] assms True by (simp add: tq_inv_def)
  next
    case False
    have "q_ok minto X r (qs r) t" using assms(1) that False by (auto simp: tq_inv_def q_ok_def)
    then show ?thesis by (rule schedq_others [OF False])
  qed
  ultimately show ?thesis by (simp add: tq_inv_def)
qed


text \<open>Appending an entry before its \<open>xmit\<close>, and taking one out.\<close>

definition link :: "nat \<Rightarrow> nat \<Rightarrow> nat \<Rightarrow> nat \<Rightarrow> tmoq \<Rightarrow> tmoq" where
  "link minto p qn now t =
     (let t1 = t\<lparr>e_qno := (e_qno t)(p := qn), e_tm := (e_tm t)(p := (if now \<noteq> 0 then now else clk t) + minto * 2 ^ qn),
                 e_next := (e_next t)(p := None), e_pprev := (e_pprev t)(p := qplast t qn)\<rparr>
      in (setloc (qplast t1 qn) (Some p) t1)\<lparr>qplast := (qplast t1)(qn := Next p)\<rparr>)"

lemma insert_link: "tmoq_insert k minto p qn now t = callk k (Xmit p qn) (schedq qn (link minto p qn now t))"
  by (simp add: tmoq_insert_def link_def Let_def)

lemma link_simps:
  "e_tm (link minto p q now t) = (e_tm t)(p := (if now \<noteq> 0 then now else clk t) + minto * 2 ^ q)"
  "clk (link minto p q now t) = clk t" "qpending (link minto p q now t) = qpending t" "timers (link minto p q now t) = timers t"
  by (simp_all add: link_def Let_def)

lemma link_inv:
  assumes i: "tq_inv minto ms X qs t" and q: "q < ms" and p: "\<And>r. r < ms \<Longrightarrow> p \<notin> set (qs r)" and now: "now = 0 \<or> now = clk t"
  shows "tq_inv minto ms (insert q X) (qs(q := qs q @ [p])) (link minto p q now t)"
proof -
  let ?t = "link minto p q now t" and ?qs = "qs(q := qs q @ [p])"
  have l: "tq_lists ?t ms ?qs"
    using insert_lists [of t ms qs q p "(e_tm t)(p := (if now \<noteq> 0 then now else clk t) + minto * 2 ^ q)"] i q p
    by (simp add: link_def tq_inv_def Let_def)
  have tm: "e_tm ?t = (e_tm t)(p := clk t + minto * 2 ^ q)" using now by (auto simp: link_simps)
  have "q_ok minto (insert q X) r (?qs r) ?t" if r: "r < ms" for r
  proof (cases "r = q")
    case False
    have "q_ok minto (insert q X) r (qs r) t" using i r by (auto simp: tq_inv_def q_ok_def)
    then show ?thesis using False p [OF r] by (auto intro!: q_ok_other [of _ _ _ _ t] simp: tm link_simps)
  next
    case True
    have s: "q_ok minto X q (qs q) t" using i q by (simp add: tq_inv_def)
    have e: "x \<in> set (qs q) \<Longrightarrow> e_tm ?t x = e_tm t x" for x using p [OF q] by (auto simp: tm)
    have "map (e_tm ?t) (qs q) = map (e_tm t) (qs q)" using e by simp
    then have "sorted (map (e_tm ?t) (qs q))" using s by (simp only: q_ok_def)
    moreover have "\<forall>x\<in>set (qs q). e_tm ?t x \<le> e_tm ?t p" using s e by (auto simp: q_ok_def tm)
    ultimately have "sorted (map (e_tm ?t) (qs q @ [p]))" by (simp add: sorted_append)
    moreover have "\<forall>x\<in>set (qs q @ [p]). e_tm ?t x \<le> clk ?t + minto * 2 ^ q" using s e by (auto simp: q_ok_def tm link_simps(2-4))
    moreover have "\<forall>x\<in>set (qs q @ [p]). u \<le> e_tm ?t x"
      if "u \<le> clk t + minto * 2 ^ q" "\<forall>x\<in>set (qs q). u \<le> e_tm t x" for u
      using that by (auto simp: tm)
    ultimately show ?thesis using s True by (auto simp: q_ok_def link_simps(2-4))
  qed
  then show ?thesis using l by (simp add: tq_inv_def)
qed

lemma ndue_cong: "(\<And>x. x \<in> set xs \<Longrightarrow> e_tm t' x = e_tm t x) \<Longrightarrow> clk t' = clk t \<Longrightarrow> ndue t' xs = ndue t xs"
  unfolding ndue_def by (intro arg_cong [of _ _ length] filter_cong) auto

lemma ndue_link:
  assumes "0 < minto" "q < ms" "\<And>r. r < ms \<Longrightarrow> p \<notin> set (qs r)" "now = 0 \<or> now = clk t" "r < ms"
  shows "ndue (schedq q (link minto p q now t)) ((qs(q := qs q @ [p])) r) = ndue t (qs r)"
proof -
  let ?t = "schedq q (link minto p q now t)"
  have "ndue ?t (qs r) = ndue t (qs r)"
    by (rule ndue_cong) (use assms(3) [OF assms(5)] in \<open>auto simp: link_simps\<close>)
  moreover have "ndue ?t (qs q @ [p]) = ndue ?t (qs q)" using assms(1,4) by (auto simp: ndue_def link_simps)
  ultimately show ?thesis by auto
qed

lemma remove_simps [simp]:
  "e_tm (tmoq_remove ms p t) = e_tm t" "clk (tmoq_remove ms p t) = clk t" "qpending (tmoq_remove ms p t) = qpending t"
  "timers (tmoq_remove ms p t) = timers t" "e_qno (tmoq_remove ms p t) = e_qno t"
  by (simp_all add: tmoq_remove_def Let_def split: option.splits)

lemma remove_inv:
  assumes i: "tq_inv minto ms X qs t" and q: "q < ms" and p: "p \<in> set (qs q)"
  shows "tq_inv minto ms X (qs(q := remove1 p (qs q))) (tmoq_remove ms p t)"
proof -
  have "tq_lists (tmoq_remove ms p t) ms (qs(q := remove1 p (qs q)))" using remove_lists i q p by (simp add: tq_inv_def)
  moreover have "q_ok minto X r ((qs(q := remove1 p (qs q))) r) (tmoq_remove ms p t)" if r: "r < ms" for r
  proof -
    have s: "q_ok minto X r (qs r) t" using i r by (simp add: tq_inv_def)
    have "sorted (map (e_tm t) (remove1 p (qs r)))" using s sorted_map_remove1 [of "e_tm t" "qs r" p] by (simp add: q_ok_def)
    moreover have "set (remove1 p (qs r)) \<subseteq> set (qs r)" by (rule set_remove1_subset)
    ultimately show ?thesis using s by (cases "r = q") (auto simp: q_ok_def subset_iff)
  qed
  ultimately show ?thesis by (simp add: tq_inv_def)
qed

lemma ndue_remove:
  "ndue (tmoq_remove ms p t) (remove1 p xs) \<le> ndue t xs"
  "p \<in> set xs \<Longrightarrow> e_tm t p \<le> clk t \<Longrightarrow> ndue (tmoq_remove ms p t) (remove1 p xs) < ndue t xs"
proof -
  have f: "ndue (tmoq_remove ms p t) (remove1 p xs) = length (remove1 p (filter (\<lambda>x. e_tm t x \<le> clk t) xs))" if "e_tm t p \<le> clk t"
    using that by (simp add: ndue_def filter_remove1)
  have g: "ndue (tmoq_remove ms p t) (remove1 p xs) = ndue t xs" if "\<not> e_tm t p \<le> clk t"
    using that by (simp add: ndue_def filter_remove1 remove1_idem)
  show "ndue (tmoq_remove ms p t) (remove1 p xs) \<le> ndue t xs"
    using f g by (cases "e_tm t p \<le> clk t") (auto simp: ndue_def length_remove1)
  show "ndue (tmoq_remove ms p t) (remove1 p xs) < ndue t xs" if "p \<in> set xs" "e_tm t p \<le> clk t"
  proof -
    have m: "p \<in> set (filter (\<lambda>x. e_tm t x \<le> clk t) xs)" using that by simp
    then have "0 < ndue t xs" unfolding ndue_def by (rule length_pos_if_in_set)
    then show ?thesis using f [OF that(2)] m by (simp add: ndue_def length_remove1)
  qed
qed

lemma not_listed_after_remove:
  assumes "tq_inv minto ms X qs t" "q < ms" "p \<in> set (qs q)" "r < ms"
  shows "p \<notin> set ((qs(q := remove1 p (qs q))) r)"
proof (cases "r = q")
  case True
  have "distinct (qs q)" using assms(1,2) by (simp add: tq_inv_def tq_lists_def)
  then show ?thesis using True by simp
next
  case False
  then show ?thesis using assms lists_disjoint [of t ms qs q r p] by (auto simp: tq_inv_def)
qed

section \<open>The contract of the entries' functions\<close>

text \<open>
  What \<open>xmit\<close> and \<open>timeout\<close> may do to the queues: \<open>xmit\<close> is called on an entry in a list, \<open>timeout\<close> on one in
  none, and both return with the invariant kept, without making an entry due.
\<close>

locale tmoq_client =
  fixes k :: tuser and minto ms :: nat
  assumes minto: "0 < minto" and ms: "0 < ms"
    and xmit: "tq_inv minto ms X qs t \<Longrightarrow> q < ms \<Longrightarrow> p \<in> set (qs q) \<Longrightarrow> tq_to minto ms X qs t (k (Xmit p q) t)"
    and timeout: "tq_inv minto ms X qs t \<Longrightarrow> (\<And>q. q < ms \<Longrightarrow> p \<notin> set (qs q)) \<Longrightarrow> e_qno t p = ms \<Longrightarrow>
      tq_to minto ms X qs t (k (Timeout p) t)"
begin

lemma insert_to:
  assumes i: "tq_inv minto ms X qs t" and q: "q < ms" and p: "\<And>r. r < ms \<Longrightarrow> p \<notin> set (qs r)" and now: "now = 0 \<or> now = clk t"
  shows "tq_to minto ms X qs t (tmoq_insert k minto p q now t)"
proof -
  let ?t = "schedq q (link minto p q now t)" and ?qs = "qs(q := qs q @ [p])"
  have "tq_inv minto ms X ?qs ?t" by (rule schedq_inv [OF link_inv [OF i q p now] q])
  then have "tq_to minto ms X ?qs ?t (callk k (Xmit p q) ?t)"
    using tq_to_trans [OF xmit [of X ?qs "?t\<lparr>tlog := tlog ?t @ [Xmit p q]\<rparr>" q p], of ?t ?qs] q by (simp add: callk_def)
  then show ?thesis unfolding insert_link
    by (rule tq_to_trans) (use ndue_link [of minto q ms p qs now t] minto q p now in \<open>auto simp: link_simps\<close>)
qed

lemma runq_to:
  assumes "tq_inv minto ms (insert q X) qs t" "q < ms" "now = clk t" "ndue t (qs q) < fuel"
  shows "\<exists>t' qs'. runq fuel k minto ms q now t = Inr t' \<and> tq_inv minto ms (insert q X) qs' t' \<and> clk t' = clk t \<and> ndue t' (qs' q) = 0"
  using assms
proof (induction fuel arbitrary: t qs)
  case (Suc fuel)
  have f: "qfirst t q = (case qs q of [] \<Rightarrow> None | x # _ \<Rightarrow> Some x)"
    using Suc.prems(1,2) chain_hd [of t "First q" "qs q" "qplast t q"] by (simp add: tq_inv_def tq_lists_def getloc_def)
  show ?case
  proof (cases "qs q")
    case Nil
    then show ?thesis using Suc.prems f by (auto simp: ndue_def intro!: exI [of _ qs])
  next
    case (Cons p ps)
    show ?thesis
    proof (cases "e_tm t p \<le> now")
      case False
      have "sorted (map (e_tm t) (qs q))" using Suc.prems(1,2) by (simp add: tq_inv_def q_ok_def)
      then have "ndue t (qs q) = 0" using False Suc.prems(3) Cons by (auto simp: ndue_def filter_empty_conv)
      then show ?thesis using Suc.prems f Cons False by (auto intro!: exI [of _ qs])
    next
      case True
      let ?t = "tmoq_remove ms p t" and ?qs = "qs(q := remove1 p (qs q))"
      have p: "p \<in> set (qs q)" using Cons by simp
      have i: "tq_inv minto ms (insert q X) ?qs ?t" by (rule remove_inv [OF Suc.prems(1,2) p])
      have np: "\<And>r. r < ms \<Longrightarrow> p \<notin> set (?qs r)" using not_listed_after_remove [OF Suc.prems(1,2) p] by blast
      let ?m = "if q < ms - 1 then tmoq_insert k minto p (q + 1) now ?t else callk k (Timeout p) (?t\<lparr>e_qno := (e_qno ?t)(p := ms)\<rparr>)"
      have "tq_to minto ms (insert q X) ?qs ?t ?m"
      proof (cases "q < ms - 1")
        case True
        then show ?thesis using insert_to [OF i _ np, of "q + 1" now] Suc.prems(3) by (simp del: fun_upd_apply)
      next
        case False
        let ?u = "?t\<lparr>e_qno := (e_qno ?t)(p := ms), tlog := tlog ?t @ [Timeout p]\<rparr>"
        have "tq_inv minto ms (insert q X) ?qs ?u"
          using inv_log [THEN iffD2, OF inv_qno [OF i np]] by (simp del: fun_upd_apply)
        from timeout [OF this np] have "tq_to minto ms (insert q X) ?qs ?u (k (Timeout p) ?u)"
          by (rule meta_mp) simp_all
        then show ?thesis using False by (auto simp: callk_def ndue_def elim!: tq_to_trans)
      qed
      from tq_toE [OF this] obtain t' qs' where m: "?m = Inr t'" and i': "tq_inv minto ms (insert q X) qs' t'" and c: "clk t' = clk ?t"
        and d: "\<And>r. r < ms \<Longrightarrow> ndue t' (qs' r) \<le> ndue ?t (?qs r)" by blast
      have "ndue t' (qs' q) < fuel" using d [OF Suc.prems(2)] ndue_remove(2) [OF p, of t ms] True Suc.prems(3,4) by simp
      from Suc.IH [OF i' Suc.prems(2) _ this] obtain t'' qs'' where r: "runq fuel k minto ms q now t' = Inr t''"
        "tq_inv minto ms (insert q X) qs'' t''" "clk t'' = clk t" "ndue t'' (qs'' q) = 0"
        using c Suc.prems(3) by auto
      moreover have "runq (Suc fuel) k minto ms q now t = runq fuel k minto ms q now t'"
        using f Cons True m by (simp add: Let_def)
      ultimately show ?thesis by auto
    qed
  qed
qed simp

text \<open>The timer's callback returns, whatever the entries' functions do within the contract.\<close>

lemma inv_fire:
  assumes "tq_inv minto ms X qs t"
  shows "tq_inv minto ms (insert q X) qs (t\<lparr>timers := remove1 (tm, q) (timers t), qpending := (qpending t)(q := False)\<rparr>)"
proof -
  let ?t = "t\<lparr>timers := remove1 (tm, q) (timers t), qpending := (qpending t)(q := False)\<rparr>"
  have "q_ok minto (insert q X) r (qs r) ?t" if "r < ms" for r
  proof (cases "r = q")
    case True
    then show ?thesis using assms that by (simp add: tq_inv_def q_ok_def)
  next
    case False
    have "q_ok minto (insert q X) r (qs r) t" using assms that by (auto simp: tq_inv_def q_ok_def)
    then show ?thesis by (rule q_ok_other) (use False in auto)
  qed
  then show ?thesis using assms lists_cong [of ?t t ms qs] by (simp add: tq_inv_def)
qed

lemma tcb_to:
  assumes i: "tq_inv minto ms X qs t" and q: "q < ms" and f: "length (qs q) < fuel"
  shows "\<exists>t' qs'. tcb fuel k minto ms q (t\<lparr>timers := remove1 (tm, q) (timers t)\<rparr>) = Inr t' \<and> tq_inv minto ms X qs' t' \<and>
    clk t' = clk t \<and> ndue t' (qs' q) = 0"
proof -
  let ?t = "t\<lparr>timers := remove1 (tm, q) (timers t), qpending := (qpending t)(q := False)\<rparr>"
  have "ndue ?t (qs q) < fuel" using f by (auto simp: ndue_def intro: le_less_trans [OF length_filter_le])
  from runq_to [OF inv_fire [OF i] q _ this, of "clk t"] obtain t' qs' where
    "runq fuel k minto ms q (clk t) ?t = Inr t'" "tq_inv minto ms (insert q X) qs' t'" "clk t' = clk t" "ndue t' (qs' q) = 0"
    by auto
  then show ?thesis using schedq_inv [of minto ms q X qs' t'] q
    by (intro exI [of _ "schedq q t'"] exI [of _ qs']) (simp add: tcb_def ndue_def)
qed

end

section \<open>The entries of the resolver\<close>

text \<open>
  The functions \<open>dnsreq::xmit\<close> and \<open>dnsreq::timeout\<close> as far as they touch the queues: a request that cannot be
  sent (\<open>bad\<close>) fails, and a failing request leaves its list; on a timeout a request is tried on (\<open>keep\<close>) or fails.
\<close>

definition dnsreq_xmit :: "(nat \<Rightarrow> nat \<Rightarrow> bool) \<Rightarrow> nat \<Rightarrow> tuser" where
  "dnsreq_xmit bad ms ev t =
     (case ev of Xmit p q \<Rightarrow> Inr (if bad p q then tmoq_remove ms p t else t) | Timeout p \<Rightarrow> Inr t)"

definition dnsreq_user :: "(nat \<Rightarrow> bool) \<Rightarrow> (nat \<Rightarrow> nat \<Rightarrow> bool) \<Rightarrow> nat \<Rightarrow> nat \<Rightarrow> tuser" where
  "dnsreq_user keep bad minto ms ev t =
     (case ev of
        Xmit p q \<Rightarrow> dnsreq_xmit bad ms ev t
      | Timeout p \<Rightarrow> if keep p then keeptrying (dnsreq_xmit bad ms) minto ms p t else Inr (tmoq_remove ms p t))"

lemma xmit_law:
  assumes "tq_inv minto ms X qs t" "q < ms" "p \<in> set (qs q)"
  shows "tq_to minto ms X qs t (dnsreq_xmit bad ms (Xmit p q) t)"
proof (cases "bad p q")
  case True
  have "r < ms \<Longrightarrow> ndue (tmoq_remove ms p t) ((qs(q := remove1 p (qs q))) r) \<le> ndue t (qs r)" for r
    using ndue_remove(1) [of ms p t "qs q"] ndue_cong [of "qs r" "tmoq_remove ms p t" t] by auto
  then show ?thesis using True remove_inv [OF assms]
    by (intro tq_toI [where t' = "tmoq_remove ms p t" and qs' = "qs(q := remove1 p (qs q))"]) (auto simp: dnsreq_xmit_def)
next
  case False
  then show ?thesis using assms(1) by (intro tq_toI [where t' = t and qs' = qs]) (auto simp: dnsreq_xmit_def)
qed

lemma dnsreq_xmit_client: "0 < minto \<Longrightarrow> 0 < ms \<Longrightarrow> tmoq_client (dnsreq_xmit bad ms) minto ms"
  by unfold_locales (auto intro: xmit_law, auto simp: dnsreq_xmit_def intro: tq_toI)

lemma dnsreq_user_client:
  assumes "0 < minto" "0 < ms"
  shows "tmoq_client (dnsreq_user keep bad minto ms) minto ms"
proof
  show "tq_to minto ms X qs t (dnsreq_user keep bad minto ms (Xmit p q) t)"
    if "tq_inv minto ms X qs t" "q < ms" "p \<in> set (qs q)" for X qs t q p
    using xmit_law [OF that] by (simp add: dnsreq_user_def)
  show "tq_to minto ms X qs t (dnsreq_user keep bad minto ms (Timeout p) t)"
    if i: "tq_inv minto ms X qs t" and p: "\<And>q. q < ms \<Longrightarrow> p \<notin> set (qs q)" and qn: "e_qno t p = ms" for X qs t p
  proof (cases "keep p")
    case True
    then show ?thesis using tmoq_client.insert_to [OF dnsreq_xmit_client [OF assms] i _ p, of "ms - 1" 0] assms qn
      by (simp add: dnsreq_user_def keeptrying_def)
  next
    case False
    then show ?thesis using i qn by (intro tq_toI [where t' = t and qs' = qs]) (auto simp: dnsreq_user_def tmoq_remove_def)
  qed
qed (use assms in auto)

text \<open>The resolver's queues: \<open>tmoq<dnsreq, &dnsreq::tlink, 1, 5>\<close>; and those of the client calls, with the default parameters.\<close>

interpretation dq: tmoq_client "dnsreq_user keep bad 1 5" 1 5 for keep bad
  by (rule dnsreq_user_client) simp_all

section \<open>Runs of the queues\<close>

definition queued :: "tmoq \<Rightarrow> nat \<Rightarrow> nat \<Rightarrow> nat \<Rightarrow> bool" where
  "queued t ms p q \<longleftrightarrow> q < ms \<and> (\<exists>qs. tq_lists t ms qs \<and> p \<in> set (qs q))"

text \<open>The clock moves, a timer that is due fires, a request is started that is in no list, or one is taken out of its list.\<close>

inductive tstep :: "tuser \<Rightarrow> nat \<Rightarrow> nat \<Rightarrow> tmoq \<Rightarrow> tmoq \<Rightarrow> bool" for k minto ms where
  tick: "tstep k minto ms t (t\<lparr>clk := clk t + d\<rparr>)"
| fire: "(tm, q) \<in> set (timers t) \<Longrightarrow> q < ms \<Longrightarrow> tm \<le> clk t \<Longrightarrow>
         tcb fuel k minto ms q (t\<lparr>timers := remove1 (tm, q) (timers t)\<rparr>) = Inr t' \<Longrightarrow> tstep k minto ms t t'"
| start: "\<forall>q<ms. \<not> queued t ms p q \<Longrightarrow> tmoq_start k minto p t = Inr t' \<Longrightarrow> tstep k minto ms t t'"
| drop: "queued t ms p q \<Longrightarrow> tstep k minto ms t (tmoq_remove ms p t)"

inductive treach :: "tuser \<Rightarrow> nat \<Rightarrow> nat \<Rightarrow> tmoq \<Rightarrow> bool" for k minto ms where
  init: "treach k minto ms (tmoq_new now)"
| step: "treach k minto ms t \<Longrightarrow> tstep k minto ms t t' \<Longrightarrow> treach k minto ms t'"

inductive_cases tstepE: "tstep k minto ms t t'"

text \<open>More fuel does not change the result of the loop, and the links determine the lists.\<close>

lemma runq_fuel: "runq fuel k minto ms q now t = Inr t' \<Longrightarrow> fuel \<le> fuel' \<Longrightarrow> runq fuel' k minto ms q now t = Inr t'"
proof (induction fuel arbitrary: t fuel')
  case (Suc n)
  then obtain m where m: "fuel' = Suc m" "n \<le> m" by (cases fuel') auto
  show ?case
  proof (cases "qfirst t q")
    case (Some p)
    then show ?thesis using Suc.prems(1) Suc.IH [OF _ m(2)] unfolding m(1)
      by (cases "e_tm t p \<le> now") (auto simp: Let_def simp del: One_nat_def elim!: bindRE split: if_split_asm)
  qed (use Suc.prems(1) m in simp)
qed simp

lemma tcb_fuel: "tcb fuel k minto ms q t = Inr t' \<Longrightarrow> fuel \<le> fuel' \<Longrightarrow> tcb fuel' k minto ms q t = Inr t'"
  unfolding tcb_def by (erule bindRE, drule (1) runq_fuel) simp

lemma chain_unique: "chain t l xs l' \<Longrightarrow> chain t l ys l'' \<Longrightarrow> xs = ys"
proof (induction xs arbitrary: l ys)
  case Nil
  then show ?case by (cases ys) auto
next
  case (Cons x xs)
  then show ?case by (cases ys) auto
qed

lemma queued_iff: "tq_lists t ms qs \<Longrightarrow> queued t ms p q \<longleftrightarrow> q < ms \<and> p \<in> set (qs q)"
  unfolding queued_def using chain_unique by (metis tq_lists_def)

lemma new_inv: "tq_inv minto ms {} (\<lambda>_. []) (tmoq_new now)"
  by (simp add: tq_inv_def tq_lists_def q_ok_def tmoq_new_def getloc_def)

context tmoq_client
begin

lemma tstep_inv:
  assumes "tstep k minto ms t t'" "tq_inv minto ms {} qs t"
  shows "\<exists>qs'. tq_inv minto ms {} qs' t'"
  using assms(1)
proof cases
  case (tick d)
  then show ?thesis using inv_tick [OF assms(2)] by auto
next
  case (fire tm q fuel)
  let ?t = "t\<lparr>timers := remove1 (tm, q) (timers t)\<rparr>"
  obtain u qs' where u: "tcb (fuel + length (qs q) + 1) k minto ms q ?t = Inr u" "tq_inv minto ms {} qs' u"
    using tcb_to [OF assms(2) fire(2), of "fuel + length (qs q) + 1" tm] by auto
  have "tcb (fuel + length (qs q) + 1) k minto ms q ?t = Inr t'"
    by (rule tcb_fuel [OF fire(4)]) simp
  then show ?thesis using u by auto
next
  case (start p)
  then have "\<And>q. q < ms \<Longrightarrow> p \<notin> set (qs q)" using assms(2) queued_iff by (auto simp: tq_inv_def)
  then show ?thesis using insert_to [OF assms(2) ms, of p 0] start(2) by (auto simp: tmoq_start_def elim!: tq_toE)
next
  case (drop p q)
  then have "q < ms" "p \<in> set (qs q)" using queued_iff [of t ms qs p q] assms(2) by (simp_all add: tq_inv_def)
  then show ?thesis using remove_inv [OF assms(2)] drop(1) by blast
qed

lemma treach_inv: "treach k minto ms t \<Longrightarrow> \<exists>qs. tq_inv minto ms {} qs t"
  by (induction rule: treach.induct) (use new_inv tstep_inv in blast)+

lemma reach_timer:
  assumes "treach k minto ms t" "queued t ms p q"
  shows "\<exists>tm. (tm, q) \<in> set (timers t) \<and> tm \<le> e_tm t p \<and> e_tm t p \<le> clk t + minto * 2 ^ q"
proof -
  obtain qs where i: "tq_inv minto ms {} qs t" using treach_inv [OF assms(1)] by blast
  have q: "q < ms" "p \<in> set (qs q)" using assms(2) queued_iff i by (auto simp: tq_inv_def)
  then have "q_ok minto {} q (qs q) t" "qs q \<noteq> []" using i by (auto simp: tq_inv_def)
  then show ?thesis using q(2) unfolding q_ok_def by blast
qed

lemma reach_tcb:
  assumes r: "treach k minto ms t" "q < ms" "(tm, q) \<in> set (timers t)" "tm \<le> clk t"
    and f: "chain t (First q) xs (qplast t q)" "length xs < fuel"
  shows "\<exists>t'. tcb fuel k minto ms q (t\<lparr>timers := remove1 (tm, q) (timers t)\<rparr>) = Inr t' \<and> treach k minto ms t' \<and>
     clk t' = clk t \<and> (\<forall>p. queued t' ms p q \<longrightarrow> clk t' < e_tm t' p)"
proof -
  obtain qs where i: "tq_inv minto ms {} qs t" using treach_inv [OF r(1)] by blast
  have "xs = qs q" using i r(2) chain_unique [OF f(1)] by (auto simp: tq_inv_def tq_lists_def)
  then obtain t' qs' where t: "tcb fuel k minto ms q (t\<lparr>timers := remove1 (tm, q) (timers t)\<rparr>) = Inr t'"
    "tq_inv minto ms {} qs' t'" "clk t' = clk t" "ndue t' (qs' q) = 0"
    using tcb_to [OF i r(2), of fuel tm] f(2) by auto
  have "clk t' < e_tm t' p" if "queued t' ms p q" for p
    using that t(2,4) queued_iff [of t' ms qs' p q] by (auto simp: tq_inv_def ndue_def filter_empty_conv)
  moreover have "treach k minto ms t'" using r t(1) by (blast intro: treach.step tstep.fire)
  ultimately show ?thesis using t(1,3) by auto
qed

end

section \<open>Properties\<close>

lemmas tmoq_eval = tcb_def schedq_def tmoq_insert_def tmoq_remove_def tmoq_start_def callk_def setloc_def tmoq_new_def
  dnsreq_user_def dnsreq_xmit_def keeptrying_def Let_def



text \<open>A queue with one request that is due.\<close>

definition one_due :: tmoq where
  "one_due = (case tmoq_start (dnsreq_user (\<lambda>_. True) (\<lambda>_ _. False) 1 5) 1 7 (tmoq_new 100) of Inr t \<Rightarrow> t\<lparr>clk := clk t + 1\<rparr>)"

lemma new_not_queued: "\<not> queued (tmoq_new now) ms p q"
  using queued_iff [of "tmoq_new now" ms "\<lambda>_. []" p q] new_inv [of 0 ms now] by (simp add: tq_inv_def)

lemma one_due_reach: "treach (dnsreq_user (\<lambda>_. True) (\<lambda>_ _. False) 1 5) 1 5 one_due"
proof -
  let ?k = "dnsreq_user (\<lambda>_. True) (\<lambda>_ _. False) 1 5"
  have "\<exists>t. tmoq_start ?k 1 7 (tmoq_new 100) = Inr t" by (simp add: tmoq_eval)
  then obtain t where t: "tmoq_start ?k 1 7 (tmoq_new 100) = Inr t" by blast
  then have "treach ?k 1 5 t" using new_not_queued by (blast intro: treach.init treach.step tstep.start)
  then have "treach ?k 1 5 (t\<lparr>clk := clk t + 1\<rparr>)" by (rule treach.step) (rule tstep.tick)
  then show ?thesis using t by (simp add: one_due_def)
qed

lemma one_due_state: "timers one_due = [(101, 0)]" "clk one_due = 101" "chain one_due (First 0) [7] (qplast one_due 0)" "e_tm one_due 7 = 101"
  by (simp_all add: one_due_def tmoq_eval getloc_def)

lemma one_due_queued: "queued one_due 5 7 0"
proof -
  obtain qs where "tq_inv 1 5 {} qs one_due" using dq.treach_inv [OF one_due_reach] by blast
  moreover have "qs 0 = [7]" using calculation chain_unique [OF one_due_state(3)] by (force simp: tq_inv_def tq_lists_def)
  ultimately show ?thesis using queued_iff [of one_due 5 qs 7 0] by (simp add: tq_inv_def)
qed



end
