(* ===== verification/Itree.thy ===== *)
theory Itree
  imports Prelude
begin

text \<open>
  The intrusive red-black trees of \<open>async/itree.C\<close> and \<open>async/itree.h\<close>, with the pointers the code has: each entry
  holds its parent, its two children and its colour, and the operations rewrite them in place. Entries are numbers and
  a pointer is a number or \<open>NULL\<close> (\<open>None\<close>); a read through \<open>NULL\<close> is a fault. The offset \<open>os\<close> of the links in an
  entry is left out. The comparison \<open>cmpfn\<close> with its argument is the function \<open>cmp\<close>. A loop over pointers may not end
  for some contents of the memory, so each loop takes a bound of its turns, \<open>fuel\<close>.
\<close>

section \<open>Definitions\<close>

datatype itree_color = INVALID | BLACK | RED

type_synonym oc = "nat option"

record itree =
  rb_root :: oc
  rb_up :: "nat \<Rightarrow> oc"
  rb_left :: "nat \<Rightarrow> oc"
  rb_right :: "nat \<Rightarrow> oc"
  rb_color :: "nat \<Rightarrow> itree_color"

text \<open>Reads through a pointer, and the assignments to the fields of an entry.\<close>

definition deref :: "oc \<Rightarrow> (nat \<Rightarrow> 'a res) \<Rightarrow> 'a res" where
  "deref n f = (case n of None \<Rightarrow> Inl OutOfRange | Some a \<Rightarrow> f a)"

definition color :: "itree \<Rightarrow> oc \<Rightarrow> itree_color" where
  "color t n = (case n of None \<Rightarrow> BLACK | Some a \<Rightarrow> rb_color t a)"

definition set_up :: "nat \<Rightarrow> oc \<Rightarrow> itree \<Rightarrow> itree" where
  "set_up a v t = t\<lparr>rb_up := (rb_up t)(a := v)\<rparr>"

definition set_left :: "nat \<Rightarrow> oc \<Rightarrow> itree \<Rightarrow> itree" where
  "set_left a v t = t\<lparr>rb_left := (rb_left t)(a := v)\<rparr>"

definition set_right :: "nat \<Rightarrow> oc \<Rightarrow> itree \<Rightarrow> itree" where
  "set_right a v t = t\<lparr>rb_right := (rb_right t)(a := v)\<rparr>"

definition set_color :: "nat \<Rightarrow> itree_color \<Rightarrow> itree \<Rightarrow> itree" where
  "set_color a c t = t\<lparr>rb_color := (rb_color t)(a := c)\<rparr>"

text \<open>The pointer to \<open>x\<close>, which is the root or a child of its parent \<open>u\<close>, becomes \<open>n\<close>; the two tests the code uses.\<close>

definition relink_left :: "oc \<Rightarrow> nat \<Rightarrow> oc \<Rightarrow> itree \<Rightarrow> itree" where
  "relink_left u x n t =
     (case u of
        None \<Rightarrow> t\<lparr>rb_root := n\<rparr>
      | Some u \<Rightarrow> if Some x = rb_left t u then set_left u n t else set_right u n t)"

definition relink_right :: "oc \<Rightarrow> nat \<Rightarrow> oc \<Rightarrow> itree \<Rightarrow> itree" where
  "relink_right u x n t =
     (case u of
        None \<Rightarrow> t\<lparr>rb_root := n\<rparr>
      | Some u \<Rightarrow> if Some x = rb_right t u then set_right u n t else set_left u n t)"

definition itree_left_rotate :: "nat \<Rightarrow> itree \<Rightarrow> itree res" where
  "itree_left_rotate x t =
     deref (rb_right t x) (\<lambda>y.
       let t = set_right x (rb_left t y) t;
           t = (case rb_left t y of None \<Rightarrow> t | Some b \<Rightarrow> set_up b (Some x) t);
           t = set_up y (rb_up t x) t;
           t = relink_left (rb_up t x) x (Some y) t;
           t = set_left y (Some x) t
       in Inr (set_up x (Some y) t))"

definition itree_right_rotate :: "nat \<Rightarrow> itree \<Rightarrow> itree res" where
  "itree_right_rotate y t =
     deref (rb_left t y) (\<lambda>x.
       let t = set_left y (rb_right t x) t;
           t = (case rb_right t x of None \<Rightarrow> t | Some b \<Rightarrow> set_up b (Some y) t);
           t = set_up x (rb_up t y) t;
           t = relink_right (rb_up t y) y (Some x) t;
           t = set_right x (Some y) t
       in Inr (set_up y (Some x) t))"

text \<open>The loop of \<open>itree_insert_fix\<close>: one turn where the parent \<open>u\<close> is a left child, and where it is a right one.\<close>

definition insert_fix_left :: "nat \<Rightarrow> nat \<Rightarrow> nat \<Rightarrow> itree \<Rightarrow> (nat \<times> itree) res" where
  "insert_fix_left x u gp t =
     (let y = rb_right t gp
      in if color t y = RED
         then deref y (\<lambda>y. Inr (gp, set_color gp RED (set_color y BLACK (set_color u BLACK t))))
         else
           bindR (if Some x = rb_right t u
                  then bindR (itree_left_rotate u t) (\<lambda>t. Inr (u, t))
                  else Inr (x, t)) (\<lambda>(x, t).
           deref (rb_up t x) (\<lambda>u.
             let t = set_color u BLACK t
             in deref (rb_up t u) (\<lambda>g. bindR (itree_right_rotate g (set_color g RED t)) (\<lambda>t. Inr (x, t))))))"

definition insert_fix_right :: "nat \<Rightarrow> nat \<Rightarrow> nat \<Rightarrow> itree \<Rightarrow> (nat \<times> itree) res" where
  "insert_fix_right x u gp t =
     (let y = rb_left t gp
      in if color t y = RED
         then deref y (\<lambda>y. Inr (gp, set_color gp RED (set_color y BLACK (set_color u BLACK t))))
         else
           bindR (if Some x = rb_left t u
                  then bindR (itree_right_rotate u t) (\<lambda>t. Inr (u, t))
                  else Inr (x, t)) (\<lambda>(x, t).
           deref (rb_up t x) (\<lambda>u.
             let t = set_color u BLACK t
             in deref (rb_up t u) (\<lambda>g. bindR (itree_left_rotate g (set_color g RED t)) (\<lambda>t. Inr (x, t))))))"

fun insert_fix_loop :: "nat \<Rightarrow> nat \<Rightarrow> itree \<Rightarrow> itree res" where
  "insert_fix_loop 0 x t = Inl NoReturn"
| "insert_fix_loop (Suc fuel) x t =
     (if color t (rb_up t x) = RED
      then
        deref (rb_up t x) (\<lambda>u.
        deref (rb_up t u) (\<lambda>gp.
          bindR (if Some u = rb_left t gp then insert_fix_left x u gp t else insert_fix_right x u gp t) (\<lambda>(x, t).
          insert_fix_loop fuel x t)))
      else Inr t)"

definition itree_insert_fix :: "nat \<Rightarrow> nat \<Rightarrow> itree \<Rightarrow> itree res" where
  "itree_insert_fix fuel x t =
     bindR (insert_fix_loop fuel x (set_color x RED t)) (\<lambda>t. deref (rb_root t) (\<lambda>r. Inr (set_color r BLACK t)))"

fun insert_pos :: "nat \<Rightarrow> (nat \<Rightarrow> nat \<Rightarrow> int) \<Rightarrow> nat \<Rightarrow> oc \<Rightarrow> oc \<Rightarrow> int \<Rightarrow> itree \<Rightarrow> (oc \<times> int) res" where
  "insert_pos 0 cmp z x y cmpres t = Inl NoReturn"
| "insert_pos (Suc fuel) cmp z x y cmpres t =
     (case x of
        None \<Rightarrow> Inr (y, cmpres)
      | Some a \<Rightarrow>
          let cmpres = cmp z a
          in insert_pos fuel cmp z (if cmpres < 0 then rb_left t a else rb_right t a) (Some a) cmpres t)"

definition itree_insert :: "nat \<Rightarrow> (nat \<Rightarrow> nat \<Rightarrow> int) \<Rightarrow> nat \<Rightarrow> itree \<Rightarrow> itree res" where
  "itree_insert fuel cmp z t =
     (let t = set_left z None (set_right z None t)
      in bindR (insert_pos fuel cmp z (rb_root t) None 0 t) (\<lambda>(y, cmpres).
         let t = set_up z y t;
             t = (case y of
                    None \<Rightarrow> t\<lparr>rb_root := Some z\<rparr>
                  | Some y \<Rightarrow> if cmpres < 0 then set_left y (Some z) t else set_right y (Some z) t)
         in itree_insert_fix fuel z t))"

fun itree_minimum :: "nat \<Rightarrow> nat \<Rightarrow> itree \<Rightarrow> nat res" where
  "itree_minimum 0 x t = Inl NoReturn"
| "itree_minimum (Suc fuel) x t = (case rb_left t x of None \<Rightarrow> Inr x | Some y \<Rightarrow> itree_minimum fuel y t)"

fun succ_up :: "nat \<Rightarrow> nat \<Rightarrow> oc \<Rightarrow> itree \<Rightarrow> oc res" where
  "succ_up 0 x y t = Inl NoReturn"
| "succ_up (Suc fuel) x y t =
     (case y of
        None \<Rightarrow> Inr None
      | Some b \<Rightarrow> if Some x = rb_right t b then succ_up fuel b (rb_up t b) t else Inr (Some b))"

definition itree_successor :: "nat \<Rightarrow> nat \<Rightarrow> itree \<Rightarrow> oc res" where
  "itree_successor fuel x t =
     (case rb_right t x of
        Some y \<Rightarrow> bindR (itree_minimum fuel y t) (\<lambda>m. Inr (Some m))
      | None \<Rightarrow> succ_up fuel x (rb_up t x) t)"

fun itree_maximum :: "nat \<Rightarrow> nat \<Rightarrow> itree \<Rightarrow> nat res" where
  "itree_maximum 0 x t = Inl NoReturn"
| "itree_maximum (Suc fuel) x t = (case rb_right t x of None \<Rightarrow> Inr x | Some y \<Rightarrow> itree_maximum fuel y t)"

fun pred_up :: "nat \<Rightarrow> nat \<Rightarrow> oc \<Rightarrow> itree \<Rightarrow> oc res" where
  "pred_up 0 x y t = Inl NoReturn"
| "pred_up (Suc fuel) x y t =
     (case y of
        None \<Rightarrow> Inr None
      | Some b \<Rightarrow> if Some x = rb_left t b then pred_up fuel b (rb_up t b) t else Inr (Some b))"

definition itree_predecessor :: "nat \<Rightarrow> nat \<Rightarrow> itree \<Rightarrow> oc res" where
  "itree_predecessor fuel x t =
     (case rb_left t x of
        Some y \<Rightarrow> bindR (itree_maximum fuel y t) (\<lambda>m. Inr (Some m))
      | None \<Rightarrow> pred_up fuel x (rb_up t x) t)"

text \<open>
  The loop of \<open>itree_delete_fixup\<close>: one turn where \<open>x\<close> is the left child of \<open>p\<close>, and where it is not; each in two
  parts, the second from the test of the children of \<open>w\<close> on.
\<close>

definition delete_fix_left2 :: "nat \<Rightarrow> nat \<Rightarrow> itree \<Rightarrow> (oc \<times> itree) res" where
  "delete_fix_left2 p w t =
     (if color t (rb_left t w) = BLACK \<and> color t (rb_right t w) = BLACK
      then Inr (Some p, set_color w RED t)
      else
        bindR (if color t (rb_right t w) = BLACK
               then deref (rb_left t w) (\<lambda>l.
                    bindR (itree_right_rotate w (set_color w RED (set_color l BLACK t))) (\<lambda>t.
                    deref (rb_right t p) (\<lambda>w. Inr (w, t))))
               else Inr (w, t)) (\<lambda>(w, t).
        let t = set_color p BLACK (set_color w (color t (Some p)) t)
        in deref (rb_right t w) (\<lambda>r.
           bindR (itree_left_rotate p (set_color r BLACK t)) (\<lambda>t. Inr (rb_root t, t)))))"

definition delete_fix_left :: "nat \<Rightarrow> itree \<Rightarrow> (oc \<times> itree) res" where
  "delete_fix_left p t =
     deref (rb_right t p) (\<lambda>w.
       if color t (Some w) = RED
       then bindR (itree_left_rotate p (set_color p RED (set_color w BLACK t))) (\<lambda>t.
            deref (rb_right t p) (\<lambda>w. delete_fix_left2 p w t))
       else delete_fix_left2 p w t)"

definition delete_fix_right2 :: "nat \<Rightarrow> nat \<Rightarrow> itree \<Rightarrow> (oc \<times> itree) res" where
  "delete_fix_right2 p w t =
     (if color t (rb_right t w) = BLACK \<and> color t (rb_left t w) = BLACK
      then Inr (Some p, set_color w RED t)
      else
        bindR (if color t (rb_left t w) = BLACK
               then deref (rb_right t w) (\<lambda>l.
                    bindR (itree_left_rotate w (set_color w RED (set_color l BLACK t))) (\<lambda>t.
                    deref (rb_left t p) (\<lambda>w. Inr (w, t))))
               else Inr (w, t)) (\<lambda>(w, t).
        let t = set_color p BLACK (set_color w (color t (Some p)) t)
        in deref (rb_left t w) (\<lambda>r.
           bindR (itree_right_rotate p (set_color r BLACK t)) (\<lambda>t. Inr (rb_root t, t)))))"

definition delete_fix_right :: "nat \<Rightarrow> itree \<Rightarrow> (oc \<times> itree) res" where
  "delete_fix_right p t =
     deref (rb_left t p) (\<lambda>w.
       if color t (Some w) = RED
       then bindR (itree_right_rotate p (set_color p RED (set_color w BLACK t))) (\<lambda>t.
            deref (rb_left t p) (\<lambda>w. delete_fix_right2 p w t))
       else delete_fix_right2 p w t)"

fun delete_fixup_loop :: "nat \<Rightarrow> oc \<Rightarrow> oc \<Rightarrow> itree \<Rightarrow> itree res" where
  "delete_fixup_loop 0 x p t = Inl NoReturn"
| "delete_fixup_loop (Suc fuel) x p t =
     (if x \<noteq> rb_root t \<and> color t x = BLACK
      then
        let p = (case x of Some a \<Rightarrow> rb_up t a | None \<Rightarrow> p)
        in deref p (\<lambda>q.
           bindR (if x = rb_left t q then delete_fix_left q t else delete_fix_right q t) (\<lambda>(x, t).
           delete_fixup_loop fuel x p t))
      else Inr (case x of Some a \<Rightarrow> set_color a BLACK t | None \<Rightarrow> t))"

definition itree_delete_fixup :: "nat \<Rightarrow> oc \<Rightarrow> oc \<Rightarrow> itree \<Rightarrow> itree res" where
  "itree_delete_fixup fuel x p t =
     bindR (guardR AssertFail (case x of None \<Rightarrow> True | Some a \<Rightarrow> rb_up t a = p)) (\<lambda>_. delete_fixup_loop fuel x p t)"

text \<open>\<open>itree_delete\<close> takes \<open>y\<close> out, which has at most one child \<open>x\<close>, and then puts \<open>y\<close> in the place of \<open>z\<close>.\<close>

definition delete_splice :: "nat \<Rightarrow> itree \<Rightarrow> oc \<times> oc \<times> itree" where
  "delete_splice y t =
     (let p = rb_up t y;
          x = (case rb_left t y of Some a \<Rightarrow> Some a | None \<Rightarrow> rb_right t y);
          t = (case x of Some a \<Rightarrow> set_up a p t | None \<Rightarrow> t);
          t = relink_left p y x t
      in (x, p, t))"

definition delete_replace :: "nat \<Rightarrow> nat \<Rightarrow> itree \<Rightarrow> itree" where
  "delete_replace y z t =
     (let t = relink_left (rb_up t z) z (Some y) t;
          t = (case rb_left t z of Some a \<Rightarrow> set_up a (Some y) t | None \<Rightarrow> t);
          t = (case rb_right t z of Some a \<Rightarrow> set_up a (Some y) t | None \<Rightarrow> t)
      in set_color y (rb_color t z) (set_right y (rb_right t z) (set_left y (rb_left t z) (set_up y (rb_up t z) t))))"

definition itree_delete :: "nat \<Rightarrow> nat \<Rightarrow> itree \<Rightarrow> itree res" where
  "itree_delete fuel z t =
     bindR (if rb_left t z \<noteq> None \<and> rb_right t z \<noteq> None
            then bindR (itree_successor fuel z t) (\<lambda>y. deref y Inr)
            else Inr z) (\<lambda>y.
     let (x, p, t) = delete_splice y t;
         c = rb_color t y;
         (p, t) = (if y \<noteq> z then (if p = Some z then Some y else p, delete_replace y z t) else (p, t))
     in if c = BLACK then itree_delete_fixup fuel x p t else Inr t)"

text \<open>The check of the whole tree.\<close>

fun itree_check_node :: "nat \<Rightarrow> (nat \<Rightarrow> nat \<Rightarrow> int) \<Rightarrow> oc \<Rightarrow> oc \<Rightarrow> oc \<Rightarrow> int \<Rightarrow> int \<Rightarrow> itree \<Rightarrow> unit res" where
  "itree_check_node 0 cmp x low high bd lbd t = Inl NoReturn"
| "itree_check_node (Suc fuel) cmp x low high bd lbd t =
     (let bd = (if color t x = BLACK then bd + 1 else bd)
      in case x of
           None \<Rightarrow> guardR AssertFail (bd = lbd)
         | Some a \<Rightarrow>
             let cx = color t x; l = rb_left t a; cl = color t l; r = rb_right t a; cr = color t r
             in bindR (guardR AssertFail (case l of None \<Rightarrow> True | Some b \<Rightarrow> rb_up t b = x)) (\<lambda>_.
                bindR (guardR AssertFail (case r of None \<Rightarrow> True | Some b \<Rightarrow> rb_up t b = x)) (\<lambda>_.
                bindR (guardR AssertFail (cx = BLACK \<or> cx = RED)) (\<lambda>_.
                bindR (guardR AssertFail (cx = BLACK \<or> (cl = BLACK \<and> cr = BLACK))) (\<lambda>_.
                bindR (guardR AssertFail (case low of None \<Rightarrow> True | Some b \<Rightarrow> cmp b a \<le> 0)) (\<lambda>_.
                bindR (guardR AssertFail (case high of None \<Rightarrow> True | Some b \<Rightarrow> cmp a b \<le> 0)) (\<lambda>_.
                bindR (itree_check_node fuel cmp l low x bd lbd t) (\<lambda>_.
                itree_check_node fuel cmp r x high bd lbd t))))))))"

fun left_blacks :: "nat \<Rightarrow> oc \<Rightarrow> int \<Rightarrow> itree \<Rightarrow> int res" where
  "left_blacks 0 x lbd t = Inl NoReturn"
| "left_blacks (Suc fuel) x lbd t =
     (case x of
        None \<Rightarrow> Inr lbd
      | Some a \<Rightarrow> left_blacks fuel (rb_left t a) (if color t (rb_left t a) = BLACK then lbd + 1 else lbd) t)"

definition itree_check :: "nat \<Rightarrow> (nat \<Rightarrow> nat \<Rightarrow> int) \<Rightarrow> itree \<Rightarrow> unit res" where
  "itree_check fuel cmp t =
     bindR (guardR AssertFail (color t (rb_root t) = BLACK)) (\<lambda>_.
     bindR (left_blacks fuel (rb_root t) 0 t) (\<lambda>lbd.
     bindR (guardR AssertFail (case rb_root t of None \<Rightarrow> True | Some a \<Rightarrow> rb_up t a = None)) (\<lambda>_.
     itree_check_node fuel cmp (rb_root t) None None (- 1) lbd t)))"

text \<open>The operations of the class \<open>itree_core\<close>: first entry, traversal, searches.\<close>

fun first_loop :: "nat \<Rightarrow> oc \<Rightarrow> itree \<Rightarrow> oc res" where
  "first_loop 0 n t = Inl NoReturn"
| "first_loop (Suc fuel) n t =
     (case n of
        None \<Rightarrow> Inr None
      | Some a \<Rightarrow> (case rb_left t a of None \<Rightarrow> Inr (Some a) | Some b \<Rightarrow> first_loop fuel (Some b) t))"

definition itree_first :: "nat \<Rightarrow> itree \<Rightarrow> oc res" where
  "itree_first fuel t = first_loop fuel (rb_root t) t"

text \<open>The entries the callback of \<open>traverse\<close> is called on, for a callback that leaves the tree as it is.\<close>

fun traverse_loop :: "nat \<Rightarrow> nat \<Rightarrow> oc \<Rightarrow> itree \<Rightarrow> nat list res" where
  "traverse_loop fuel 0 n t = Inl NoReturn"
| "traverse_loop fuel (Suc turns) n t =
     (case n of
        None \<Rightarrow> Inr []
      | Some a \<Rightarrow>
          bindR (itree_successor fuel a t) (\<lambda>nn. bindR (traverse_loop fuel turns nn t) (\<lambda>as. Inr (a # as))))"

definition itree_traverse :: "nat \<Rightarrow> itree \<Rightarrow> nat list res" where
  "itree_traverse fuel t = bindR (itree_first fuel t) (\<lambda>n. traverse_loop fuel fuel n t)"

fun search_loop :: "nat \<Rightarrow> (nat \<Rightarrow> int) \<Rightarrow> oc \<Rightarrow> oc \<Rightarrow> itree \<Rightarrow> oc res" where
  "search_loop 0 cb n ret t = Inl NoReturn"
| "search_loop (Suc fuel) cb n ret t =
     (case n of
        None \<Rightarrow> Inr ret
      | Some a \<Rightarrow>
          let srchres = cb a
          in if srchres < 0 then search_loop fuel cb (rb_left t a) ret t
             else if srchres > 0 then search_loop fuel cb (rb_right t a) ret t
             else search_loop fuel cb (rb_left t a) (Some a) t)"

definition itree_search :: "nat \<Rightarrow> (nat \<Rightarrow> int) \<Rightarrow> itree \<Rightarrow> oc res" where
  "itree_search fuel cb t = search_loop fuel cb (rb_root t) None t"

fun lower_bound_loop :: "nat \<Rightarrow> (nat \<Rightarrow> int) \<Rightarrow> oc \<Rightarrow> oc \<Rightarrow> itree \<Rightarrow> oc res" where
  "lower_bound_loop 0 cb n ret t = Inl NoReturn"
| "lower_bound_loop (Suc fuel) cb n ret t =
     (case n of
        None \<Rightarrow> Inr ret
      | Some a \<Rightarrow>
          let srchres = cb a
          in if srchres \<le> 0 then lower_bound_loop fuel cb (rb_left t a) (Some a) t
             else lower_bound_loop fuel cb (rb_right t a) ret t)"

definition lower_bound_impl :: "nat \<Rightarrow> (nat \<Rightarrow> int) \<Rightarrow> itree \<Rightarrow> oc res" where
  "lower_bound_impl fuel cb t = lower_bound_loop fuel cb (rb_root t) None t"

fun upper_bound_loop :: "nat \<Rightarrow> (nat \<Rightarrow> int) \<Rightarrow> oc \<Rightarrow> oc \<Rightarrow> itree \<Rightarrow> oc res" where
  "upper_bound_loop 0 cb n ret t = Inl NoReturn"
| "upper_bound_loop (Suc fuel) cb n ret t =
     (case n of
        None \<Rightarrow> Inr ret
      | Some a \<Rightarrow>
          let srchres = cb a
          in if srchres \<ge> 0 then upper_bound_loop fuel cb (rb_right t a) (Some a) t
             else upper_bound_loop fuel cb (rb_left t a) ret t)"

definition upper_bound_impl :: "nat \<Rightarrow> (nat \<Rightarrow> int) \<Rightarrow> itree \<Rightarrow> oc res" where
  "upper_bound_impl fuel cb t = upper_bound_loop fuel cb (rb_root t) None t"

text \<open>The comparison \<open>compare<K>\<close>, on the keys of two entries and on a key and the key of an entry.\<close>

definition compare_fn :: "int \<Rightarrow> int \<Rightarrow> int" where
  "compare_fn a b = (if a < b then - 1 else if b < a then 1 else 0)"

definition scmp :: "(nat \<Rightarrow> int) \<Rightarrow> nat \<Rightarrow> nat \<Rightarrow> int" where
  "scmp key a b = compare_fn (key a) (key b)"

definition skvcmp :: "(nat \<Rightarrow> int) \<Rightarrow> int \<Rightarrow> nat \<Rightarrow> int" where
  "skvcmp key x a = compare_fn x (key a)"

definition itree_at :: "nat \<Rightarrow> (nat \<Rightarrow> int) \<Rightarrow> int \<Rightarrow> itree \<Rightarrow> oc res" where
  "itree_at fuel key x t = itree_search fuel (skvcmp key x) t"

text \<open>
  \<open>deleteall\<close> frees the entries in postorder. A read of an entry that is freed is a fault; \<open>dead\<close> holds the freed
  entries, the last one first.
\<close>

definition itree_clear :: "itree \<Rightarrow> itree" where
  "itree_clear t = t\<lparr>rb_root := None\<rparr>"

definition rdl :: "nat list \<Rightarrow> (nat \<Rightarrow> oc) \<Rightarrow> nat \<Rightarrow> oc res" where
  "rdl dead f a = (if a \<in> set dead then Inl UseAfterFree else Inr (f a))"

fun min_postorder :: "nat \<Rightarrow> nat list \<Rightarrow> nat \<Rightarrow> itree \<Rightarrow> nat res" where
  "min_postorder 0 dead n t = Inl NoReturn"
| "min_postorder (Suc fuel) dead n t =
     bindR (rdl dead (rb_left t) n) (\<lambda>nn.
       case nn of
         Some a \<Rightarrow> min_postorder fuel dead a t
       | None \<Rightarrow>
           bindR (rdl dead (rb_right t) n) (\<lambda>nn. case nn of Some a \<Rightarrow> min_postorder fuel dead a t | None \<Rightarrow> Inr n))"

definition next_postorder :: "nat \<Rightarrow> nat list \<Rightarrow> nat \<Rightarrow> itree \<Rightarrow> oc res" where
  "next_postorder fuel dead n t =
     bindR (rdl dead (rb_up t) n) (\<lambda>nn.
       case nn of
         None \<Rightarrow> Inr None
       | Some a \<Rightarrow>
           bindR (rdl dead (rb_right t) a) (\<lambda>nnr.
             case nnr of
               Some b \<Rightarrow> if n \<noteq> b then bindR (min_postorder fuel dead b t) (\<lambda>m. Inr (Some m)) else Inr nn
             | None \<Rightarrow> Inr nn))"

fun deleteall_loop :: "nat \<Rightarrow> nat \<Rightarrow> nat list \<Rightarrow> oc \<Rightarrow> itree \<Rightarrow> (nat list \<times> itree) res" where
  "deleteall_loop fuel 0 dead n t = Inl NoReturn"
| "deleteall_loop fuel (Suc turns) dead n t =
     (case n of
        None \<Rightarrow> Inr (dead, itree_clear t)
      | Some a \<Rightarrow>
          bindR (next_postorder fuel dead a t) (\<lambda>nn.
          if a \<in> set dead then Inl UseAfterFree else deleteall_loop fuel turns (a # dead) nn t))"

definition deleteall :: "nat \<Rightarrow> itree \<Rightarrow> (nat list \<times> itree) res" where
  "deleteall fuel t =
     (case rb_root t of
        None \<Rightarrow> deleteall_loop fuel fuel [] None t
      | Some r \<Rightarrow> bindR (min_postorder fuel [] r t) (\<lambda>n. deleteall_loop fuel fuel [] (Some n) t))"

text \<open>The recursive version, \<open>_deleteall_correct\<close> and \<open>deleteall_correct\<close>.\<close>

fun deleteall_rec :: "nat \<Rightarrow> nat list \<Rightarrow> oc \<Rightarrow> itree \<Rightarrow> nat list res" where
  "deleteall_rec 0 dead n t = Inl NoReturn"
| "deleteall_rec (Suc fuel) dead n t =
     (case n of
        None \<Rightarrow> Inr dead
      | Some a \<Rightarrow>
          bindR (rdl dead (rb_left t) a) (\<lambda>l.
          bindR (deleteall_rec fuel dead l t) (\<lambda>dead.
          bindR (rdl dead (rb_right t) a) (\<lambda>r.
          bindR (deleteall_rec fuel dead r t) (\<lambda>dead.
          if a \<in> set dead then Inl UseAfterFree else Inr (a # dead))))))"

definition deleteall_correct :: "nat \<Rightarrow> itree \<Rightarrow> (nat list \<times> itree) res" where
  "deleteall_correct fuel t = bindR (deleteall_rec fuel [] (rb_root t) t) (\<lambda>dead. Inr (dead, itree_clear t))"

section \<open>Trees and the memory\<close>

lemma set_sel [simp]:
  "rb_root (set_up a v s) = rb_root s" "rb_up (set_up a v s) = (rb_up s)(a := v)" "rb_left (set_up a v s) = rb_left s"
  "rb_right (set_up a v s) = rb_right s" "rb_color (set_up a v s) = rb_color s"
  "rb_root (set_left a v s) = rb_root s" "rb_up (set_left a v s) = rb_up s" "rb_left (set_left a v s) = (rb_left s)(a := v)"
  "rb_right (set_left a v s) = rb_right s" "rb_color (set_left a v s) = rb_color s"
  "rb_root (set_right a v s) = rb_root s" "rb_up (set_right a v s) = rb_up s" "rb_left (set_right a v s) = rb_left s"
  "rb_right (set_right a v s) = (rb_right s)(a := v)" "rb_color (set_right a v s) = rb_color s"
  "rb_root (set_color a c s) = rb_root s" "rb_up (set_color a c s) = rb_up s" "rb_left (set_color a c s) = rb_left s"
  "rb_right (set_color a c s) = rb_right s" "rb_color (set_color a c s) = (rb_color s)(a := c)"
  by (simp_all add: set_up_def set_left_def set_right_def set_color_def)

lemma relink_sel [simp]: "rb_up (relink_left u x n s) = rb_up s" "rb_color (relink_left u x n s) = rb_color s"
  by (simp_all add: relink_left_def split: option.splits)

lemma deref_simps [simp]: "deref None f = Inl OutOfRange" "deref (Some a) f = f a"
  by (simp_all add: deref_def)

text \<open>
  A tree, and a tree with a hole as the list of the entries above the hole: \<open>FL a c r\<close> is an entry whose left child is
  the hole, \<open>FR l a c\<close> one whose right child is.
\<close>

datatype itr = Lf | Nd itr nat itree_color itr
datatype frame = FL nat itree_color itr | FR itr nat itree_color

fun inord :: "itr \<Rightarrow> nat list" where
  "inord Lf = []"
| "inord (Nd l a c r) = inord l @ a # inord r"

fun ptr :: "itr \<Rightarrow> oc" where
  "ptr Lf = None"
| "ptr (Nd l a c r) = Some a"

fun fentry :: "frame \<Rightarrow> nat" where
  "fentry (FL a c r) = a"
| "fentry (FR l a c) = a"

fun ktop :: "frame list \<Rightarrow> oc" where
  "ktop [] = None"
| "ktop (f # k) = Some (fentry f)"

fun plug1 :: "frame \<Rightarrow> itr \<Rightarrow> itr" where
  "plug1 (FL a c r) t = Nd t a c r"
| "plug1 (FR l a c) t = Nd l a c t"

fun plug :: "frame list \<Rightarrow> itr \<Rightarrow> itr" where
  "plug [] t = t"
| "plug (f # k) t = plug k (plug1 f t)"

text \<open>The entries before and after the hole.\<close>

fun before :: "frame list \<Rightarrow> nat list" where
  "before [] = []"
| "before (FL a c r # k) = before k"
| "before (FR l a c # k) = before k @ inord l @ [a]"

fun after :: "frame list \<Rightarrow> nat list" where
  "after [] = []"
| "after (FL a c r # k) = a # inord r @ after k"
| "after (FR l a c # k) = after k"

lemma inord_plug: "inord (plug k t) = before k @ inord t @ after k"
  by (induction k arbitrary: t rule: before.induct) simp_all

lemma ptr_in: "ptr t = Some a \<Longrightarrow> a \<in> set (inord t)"
  by (cases t) auto

lemma ktop_in: "ktop k = Some a \<Longrightarrow> a \<in> set (before k) \<union> set (after k)"
  by (cases k rule: before.cases) auto

text \<open>The memory holds a tree below the entry \<open>p\<close>, and the entries around a hole that holds the pointer \<open>n\<close>.\<close>

fun tr :: "itree \<Rightarrow> oc \<Rightarrow> itr \<Rightarrow> bool" where
  "tr s p Lf = True"
| "tr s p (Nd l a c r) \<longleftrightarrow>
     rb_up s a = p \<and> rb_left s a = ptr l \<and> rb_right s a = ptr r \<and> rb_color s a = c \<and> tr s (Some a) l \<and> tr s (Some a) r"

fun ctx :: "itree \<Rightarrow> oc \<Rightarrow> frame list \<Rightarrow> bool" where
  "ctx s n [] \<longleftrightarrow> rb_root s = n"
| "ctx s n (FL a c r # k) \<longleftrightarrow>
     rb_up s a = ktop k \<and> rb_left s a = n \<and> rb_right s a = ptr r \<and> rb_color s a = c \<and> tr s (Some a) r \<and> ctx s (Some a) k"
| "ctx s n (FR l a c # k) \<longleftrightarrow>
     rb_up s a = ktop k \<and> rb_left s a = ptr l \<and> rb_right s a = n \<and> rb_color s a = c \<and> tr s (Some a) l \<and> ctx s (Some a) k"

definition rp :: "itree \<Rightarrow> frame list \<Rightarrow> itr \<Rightarrow> bool" where
  "rp s k t \<longleftrightarrow> ctx s (ptr t) k \<and> tr s (ktop k) t \<and> distinct (before k @ inord t @ after k)"

lemma rp_FL: "rp s (FL a c r # k) l \<longleftrightarrow> rp s k (Nd l a c r)"
  by (auto simp: rp_def)

lemma rp_FR: "rp s (FR l a c # k) r \<longleftrightarrow> rp s k (Nd l a c r)"
  by (auto simp: rp_def)

lemmas refocus = rp_FL rp_FR

lemma rp_plug: "rp s k t \<longleftrightarrow> rp s [] (plug k t)"
  by (induction k arbitrary: t rule: before.induct) (simp_all add: refocus)

definition same_at :: "itree \<Rightarrow> itree \<Rightarrow> nat \<Rightarrow> bool" where
  "same_at s s' a \<longleftrightarrow> rb_up s' a = rb_up s a \<and> rb_left s' a = rb_left s a \<and> rb_right s' a = rb_right s a \<and> rb_color s' a = rb_color s a"

lemma tr_cong: "(\<And>a. a \<in> set (inord t) \<Longrightarrow> same_at s s' a) \<Longrightarrow> tr s p t \<Longrightarrow> tr s' p t"
  by (induction t arbitrary: p) (auto simp: same_at_def)

lemma ctx_cong:
  "(\<And>a. a \<in> set (before k) \<union> set (after k) \<Longrightarrow> same_at s s' a) \<Longrightarrow> rb_root s' = rb_root s \<Longrightarrow> ctx s n k \<Longrightarrow> ctx s' n k"
proof (induction s n k rule: ctx.induct)
  case (2 s n a c r k)
  then show ?case using tr_cong [of r s s' "Some a"] by (auto simp: same_at_def)
next
  case (3 s n l a c k)
  then show ?case using tr_cong [of l s s' "Some a"] by (auto simp: same_at_def)
qed simp

text \<open>The parent of a subtree is the only thing in it that depends on where it hangs.\<close>

lemma tr_reparent:
  assumes "tr s p t" "distinct (inord t)"
    and "\<And>a. a \<in> set (inord t) \<Longrightarrow> rb_left s' a = rb_left s a \<and> rb_right s' a = rb_right s a \<and> rb_color s' a = rb_color s a"
    and "\<And>a. a \<in> set (inord t) \<Longrightarrow> rb_up s' a = (if ptr t = Some a then q else rb_up s a)"
  shows "tr s' q t"
proof (cases t)
  case (Nd l a c r)
  have "tr s' (Some a) l" by (rule tr_cong [of l s]) (use assms Nd in \<open>auto simp: same_at_def\<close>)
  moreover have "tr s' (Some a) r" by (rule tr_cong [of r s]) (use assms Nd in \<open>auto simp: same_at_def\<close>)
  ultimately show ?thesis using assms Nd by auto
qed simp

text \<open>Hanging another subtree into the hole: the root pointer or a child pointer of the entry above is overwritten.\<close>

definition relinked :: "oc \<Rightarrow> frame list \<Rightarrow> itree \<Rightarrow> itree \<Rightarrow> bool" where
  "relinked n k s s' \<longleftrightarrow>
     (case k of
        [] \<Rightarrow> rb_root s' = n
      | FL u _ _ # _ \<Rightarrow> rb_root s' = rb_root s \<and> rb_left s' u = n \<and> rb_right s' u = rb_right s u \<and> rb_up s' u = rb_up s u \<and> rb_color s' u = rb_color s u
      | FR _ u _ # _ \<Rightarrow> rb_root s' = rb_root s \<and> rb_right s' u = n \<and> rb_left s' u = rb_left s u \<and> rb_up s' u = rb_up s u \<and> rb_color s' u = rb_color s u)"

lemma ctx_relink:
  assumes "ctx s n k" "relinked n' k s s'" "distinct (before k @ after k)"
    and "\<And>a. a \<in> set (before k) \<union> set (after k) \<Longrightarrow> ktop k \<noteq> Some a \<Longrightarrow> same_at s s' a"
  shows "ctx s' n' k"
proof (cases k rule: before.cases)
  case 1
  then show ?thesis using assms by (simp add: relinked_def)
next
  case (2 a c r k')
  have "tr s' (Some a) r" by (rule tr_cong [of r s]) (use assms 2 in auto)
  moreover have "ctx s' (Some a) k'"
    by (rule ctx_cong [of k' s]) (use assms 2 in \<open>auto simp: relinked_def\<close>)
  ultimately show ?thesis using assms 2 by (simp add: relinked_def)
next
  case (3 l a c k')
  have "tr s' (Some a) l" by (rule tr_cong [of l s]) (use assms 3 in auto)
  moreover have "ctx s' (Some a) k'"
    by (rule ctx_cong [of k' s]) (use assms 3 in \<open>auto simp: relinked_def\<close>)
  ultimately show ?thesis using assms 3 by (simp add: relinked_def)
qed

section \<open>Mirror images\<close>

definition mir :: "itree \<Rightarrow> itree" where
  "mir s = s\<lparr>rb_left := rb_right s, rb_right := rb_left s\<rparr>"

fun mirt :: "itr \<Rightarrow> itr" where
  "mirt Lf = Lf"
| "mirt (Nd l a c r) = Nd (mirt r) a c (mirt l)"

fun mirf :: "frame \<Rightarrow> frame" where
  "mirf (FL a c r) = FR (mirt r) a c"
| "mirf (FR l a c) = FL a c (mirt l)"

lemma mir_simps [simp]:
  "rb_root (mir s) = rb_root s" "rb_up (mir s) = rb_up s" "rb_left (mir s) = rb_right s" "rb_right (mir s) = rb_left s"
  "rb_color (mir s) = rb_color s" "mir (mir s) = s" "color (mir s) n = color s n"
  by (simp_all add: mir_def color_def split: option.splits)

lemma mir_set:
  "mir (set_up a v s) = set_up a v (mir s)" "mir (set_left a v s) = set_right a v (mir s)" "mir (set_right a v s) = set_left a v (mir s)"
  "mir (set_color a c s) = set_color a c (mir s)" "mir (s\<lparr>rb_root := v\<rparr>) = (mir s)\<lparr>rb_root := v\<rparr>"
  by (simp_all add: mir_def set_up_def set_left_def set_right_def set_color_def)

lemma mirt_simps [simp]: "mirt (mirt t) = t" "ptr (mirt t) = ptr t" "inord (mirt t) = rev (inord t)" "tr (mir s) p (mirt t) = tr s p t"
  subgoal by (induction t) auto
  subgoal by (cases t) auto
  subgoal by (induction t) auto
  subgoal by (induction t arbitrary: p) (auto simp: mir_def, (metis ptr.simps mirt.elims)+)
  done

lemma mirf_simps [simp]: "mirf (mirf f) = f" "fentry (mirf f) = fentry f"
  by (cases f; simp)+

lemma mirk_simps [simp]:
  "ktop (map mirf k) = ktop k" "before (map mirf k) = rev (after k)" "after (map mirf k) = rev (before k)" "ctx (mir s) n (map mirf k) = ctx s n k"
  subgoal by (cases k) auto
  subgoal by (induction k rule: before.induct) auto
  subgoal by (induction k rule: before.induct) auto
  subgoal
  proof (induction s n k rule: ctx.induct)
    case (2 s n a c r k)
    then show ?case by (cases k) auto
  next
    case (3 s n l a c k)
    then show ?case by (cases k) auto
  qed simp
  done

lemma rp_mir: "rp (mir s) (map mirf k) (mirt t) \<longleftrightarrow> rp s k t"
  by (auto simp: rp_def)

lemma mirk_invol [simp]: "map mirf (map mirf k) = k"
  by (simp add: comp_def)

definition mirR :: "itree res \<Rightarrow> itree res" where
  "mirR = map_sum id mir"

lemma mirR_simps [simp]: "mirR (Inl e) = Inl e" "mirR (Inr s) = Inr (mir s)" "mirR (mirR m) = m"
  by (simp_all add: mirR_def, cases m, simp_all)

lemma mir_relink: "mir (relink_left u x n s) = relink_right u x n (mir s)" "mir (relink_right u x n s) = relink_left u x n (mir s)"
  by (simp_all add: relink_left_def relink_right_def mir_set split: option.splits)

lemma right_rotate_mir: "itree_right_rotate y s = mirR (itree_left_rotate y (mir s))"
proof (cases "rb_left s y")
  case (Some x)
  then show ?thesis
    by (cases "rb_right s x") (simp_all add: itree_right_rotate_def itree_left_rotate_def Let_def mir_set mir_relink)
qed (simp add: itree_right_rotate_def itree_left_rotate_def)

section \<open>Rotations and recolouring\<close>

lemma relink_left_ctx:
  assumes c: "ctx s0 (Some x) k" and d: "distinct (before k @ after k)" "x \<notin> set (before k) \<union> set (after k)"
    and s: "\<And>a. a \<in> set (before k) \<union> set (after k) \<Longrightarrow> same_at s0 s a" "rb_root s = rb_root s0"
    and s': "\<And>a. a \<in> set (before k) \<union> set (after k) \<Longrightarrow> same_at (relink_left (ktop k) x n s) s' a" "rb_root s' = rb_root (relink_left (ktop k) x n s)"
  shows "ctx s' n k"
proof (rule ctx_relink [OF c _ d(1)])
  show "relinked n k s0 s'"
  proof (cases k rule: before.cases)
    case (2 a co r k')
    then show ?thesis using c s(1) [of a] s'(1) [of a] s(2) s'(2) by (simp add: relinked_def relink_left_def same_at_def)
  next
    case (3 l a co k')
    have "ptr l \<noteq> Some x" using d(2) 3 ptr_in [of l x] by auto
    then show ?thesis using c s(1) [of a] s'(1) [of a] s(2) s'(2) 3 by (auto simp: relinked_def relink_left_def same_at_def)
  qed (use s'(2) in \<open>simp add: relinked_def relink_left_def\<close>)
  show "same_at s0 s' a" if "a \<in> set (before k) \<union> set (after k)" "ktop k \<noteq> Some a" for a
    using s(1) [OF that(1)] s'(1) [OF that(1)] that(2) by (auto simp: same_at_def relink_left_def split: option.splits if_splits)
qed

lemma left_rotate_rp:
  assumes "rp s k (Nd a x cx (Nd b y cy c))"
  shows "\<exists>s'. itree_left_rotate x s = Inr s' \<and> rp s' k (Nd (Nd a x cx b) y cy c)"
proof -
  let ?t = "Nd a x cx (Nd b y cy c)"
  have h: "ctx s (Some x) k" "tr s (ktop k) ?t" and d: "distinct (before k @ inord ?t @ after k)"
    using assms by (auto simp: rp_def)
  have y: "rb_right s x = Some y" "rb_up s x = ktop k" "rb_left s y = ptr b" and xy: "x \<noteq> y" using h d by auto
  define s1 where "s1 = (case ptr b of None \<Rightarrow> set_right x (ptr b) s | Some b' \<Rightarrow> set_up b' (Some x) (set_right x (ptr b) s))"
  define s2 where "s2 = relink_left (ktop k) x (Some y) (set_up y (ktop k) s1)"
  define s3 where "s3 = set_up x (Some y) (set_left y (Some x) s2)"
  have bx: "ptr b \<noteq> Some x" "ptr b \<noteq> Some y" using d ptr_in [of b] by auto
  have ux: "rb_up s1 x = ktop k" using bx y by (auto simp: s1_def split: option.splits)
  have "itree_left_rotate x s = Inr s3"
    using y xy bx ux unfolding itree_left_rotate_def by (cases "ptr b") (simp_all add: Let_def s1_def s2_def s3_def)
  moreover have "ctx s3 (Some y) k"
  proof (rule relink_left_ctx [OF h(1), where s = "set_up y (ktop k) s1" and n = "Some y"])
    show "same_at s (set_up y (ktop k) s1) a" if "a \<in> set (before k) \<union> set (after k)" for a
      using that d ptr_in [of b a] by (auto simp: s1_def same_at_def split: option.splits)
    show "same_at (relink_left (ktop k) x (Some y) (set_up y (ktop k) s1)) s3 a" if "a \<in> set (before k) \<union> set (after k)" for a
      using that d by (auto simp: s3_def s2_def same_at_def)
  qed (use d in \<open>auto simp: s3_def s2_def s1_def split: option.splits\<close>)
  moreover have in_t: "rb_left s3 e = (if e = y then Some x else rb_left s e)" "rb_right s3 e = (if e = x then ptr b else rb_right s e)"
    "rb_up s3 e = (if e = x then Some y else if e = y then ktop k else if ptr b = Some e then Some x else rb_up s e)"
    "rb_color s3 e = rb_color s e" if "e \<in> set (inord ?t)" for e
    using that d ktop_in [of k e] xy bx
    by (auto simp: s3_def s2_def s1_def relink_left_def split: option.splits)
  have "tr s3 (Some x) a" by (rule tr_cong [of a s]) (use h d in_t ptr_in [of b] in \<open>auto simp: same_at_def\<close>)
  moreover have "tr s3 (Some y) c" by (rule tr_cong [of c s]) (use h d in_t ptr_in [of b] in \<open>auto simp: same_at_def\<close>)
  moreover have "tr s3 (Some x) b" by (rule tr_reparent [of s "Some y" b]) (use h d in_t in \<open>auto\<close>)
  ultimately show ?thesis using d h in_t [of x] in_t [of y] xy by (simp add: rp_def)
qed

lemma right_rotate_rp:
  assumes "rp s k (Nd (Nd a x cx b) y cy c)"
  shows "\<exists>s'. itree_right_rotate y s = Inr s' \<and> rp s' k (Nd a x cx (Nd b y cy c))"
proof -
  have "rp (mir s) (map mirf k) (Nd (mirt c) y cy (Nd (mirt b) x cx (mirt a)))" using assms rp_mir [of s k] by (simp flip: mirt.simps(2))
  from left_rotate_rp [OF this] obtain s' where s': "itree_left_rotate y (mir s) = Inr s'"
    "rp s' (map mirf k) (Nd (Nd (mirt c) y cy (mirt b)) x cx (mirt a))" by blast
  have "rp (mir s') k (Nd a x cx (Nd b y cy c))"
    using s'(2) rp_mir [of s' "map mirf k" "Nd (Nd (mirt c) y cy (mirt b)) x cx (mirt a)"] by (simp add: comp_def)
  then show ?thesis using s'(1) by (simp add: right_rotate_mir)
qed

fun paint :: "itree_color \<Rightarrow> itr \<Rightarrow> itr" where
  "paint c Lf = Lf"
| "paint c (Nd l a _ r) = Nd l a c r"

fun tcol :: "itr \<Rightarrow> itree_color" where
  "tcol Lf = BLACK"
| "tcol (Nd l a c r) = c"

lemma set_color_rp:
  assumes "rp s k (Nd l a c r)"
  shows "rp (set_color a c' s) k (Nd l a c' r)"
proof -
  have d: "a \<notin> set (before k) \<union> set (after k)" "a \<notin> set (inord l)" "a \<notin> set (inord r)" using assms by (auto simp: rp_def)
  have "ctx (set_color a c' s) (Some a) k" by (rule ctx_cong [of k s]) (use assms d in \<open>auto simp: rp_def same_at_def\<close>)
  moreover have "tr (set_color a c' s) (Some a) l" by (rule tr_cong [of l s]) (use assms d in \<open>auto simp: rp_def same_at_def\<close>)
  moreover have "tr (set_color a c' s) (Some a) r" by (rule tr_cong [of r s]) (use assms d in \<open>auto simp: rp_def same_at_def\<close>)
  ultimately show ?thesis using assms by (simp add: rp_def)
qed

text \<open>The same for an entry in the tree with the hole, and for a subtree beside it.\<close>

lemma set_color_FL: "rp s (FL a c r # k) t \<Longrightarrow> rp (set_color a c' s) (FL a c' r # k) t"
  by (simp add: refocus set_color_rp)

lemma set_color_FR: "rp s (FR l a c # k) t \<Longrightarrow> rp (set_color a c' s) (FR l a c' # k) t"
  by (simp add: refocus set_color_rp)

lemma rp_node:
  assumes "rp s k (Nd l a c r)"
  shows "rb_up s a = ktop k" "rb_left s a = ptr l" "rb_right s a = ptr r" "rb_color s a = c"
    "color s (ptr l) = tcol l" "color s (ptr r) = tcol r"
  using assms by (cases l; cases r; simp add: rp_def color_def)+

lemma rp_color: "rp s k t \<Longrightarrow> color s (ptr t) = tcol t"
  by (cases t) (auto simp: rp_def color_def)

lemma rp_root: "rp s k t \<Longrightarrow> rb_root s = ptr (plug k t)"
  using rp_plug [of s k t] by (simp add: rp_def)

section \<open>The red-black invariant\<close>

fun invc :: "itr \<Rightarrow> bool" where
  "invc Lf = True"
| "invc (Nd l a c r) \<longleftrightarrow> (c = BLACK \<or> c = RED) \<and> (c = RED \<longrightarrow> tcol l = BLACK \<and> tcol r = BLACK) \<and> invc l \<and> invc r"

fun bh :: "itr \<Rightarrow> nat" where
  "bh Lf = 0"
| "bh (Nd l a c r) = bh l + (if c = BLACK then 1 else 0)"

fun invh :: "itr \<Rightarrow> bool" where
  "invh Lf = True"
| "invh (Nd l a c r) \<longleftrightarrow> bh l = bh r \<and> invh l \<and> invh r"

definition rbt :: "itr \<Rightarrow> bool" where
  "rbt t \<longleftrightarrow> invc t \<and> invh t \<and> tcol t = BLACK"

fun fcol :: "frame \<Rightarrow> itree_color" where
  "fcol (FL a c r) = c"
| "fcol (FR l a c) = c"

fun sib :: "frame \<Rightarrow> itr" where
  "sib (FL a c r) = r"
| "sib (FR l a c) = l"

fun kcol :: "frame list \<Rightarrow> itree_color" where
  "kcol [] = BLACK"
| "kcol (f # k) = fcol f"

text \<open>The entries around a hole are in order, and the hole wants a tree of black height \<open>n\<close>.\<close>

fun kinv :: "frame list \<Rightarrow> nat \<Rightarrow> bool" where
  "kinv [] n = True"
| "kinv (f # k) n \<longleftrightarrow>
     invc (sib f) \<and> invh (sib f) \<and> bh (sib f) = n \<and> (fcol f = BLACK \<or> fcol f = RED) \<and>
     (fcol f = RED \<longrightarrow> tcol (sib f) = BLACK \<and> k \<noteq> [] \<and> kcol k = BLACK) \<and> kinv k (n + (if fcol f = BLACK then 1 else 0))"

lemma invc_tcol: "invc t \<Longrightarrow> tcol t = BLACK \<or> tcol t = RED"
  by (cases t) auto

lemma rbt_plug: "rbt (plug k t) \<longleftrightarrow> kinv k (bh t) \<and> invc t \<and> invh t \<and> (tcol t = RED \<longrightarrow> k \<noteq> [] \<and> kcol k = BLACK)"
proof (induction k arbitrary: t)
  case Nil
  then show ?case using invc_tcol by (auto simp: rbt_def)
next
  case (Cons f k)
  show ?case by (cases f) (auto simp: Cons.IH dest: invc_tcol)
qed

lemma mirt_inv [simp]: "tcol (mirt t) = tcol t" "invc (mirt t) = invc t" "invh t \<Longrightarrow> bh (mirt t) = bh t" "invh (mirt t) = invh t"
proof -
  show c: "tcol (mirt t) = tcol t" for t by (cases t) auto
  show "invc (mirt t) = invc t" by (induction t) (auto simp: c)
  show b: "invh t \<Longrightarrow> bh (mirt t) = bh t" for t by (induction t) auto
  have "bh (mirt t) = bh t" if "invh (mirt t)" for t using b [OF that] by simp
  then show "invh (mirt t) = invh t" by (induction t) (auto simp: b)
qed

lemma mirf_inv [simp]: "fcol (mirf f) = fcol f" "sib (mirf f) = mirt (sib f)"
  by (cases f; simp)+

lemma mirk_inv [simp]: "kcol (map mirf k) = kcol k" "kinv (map mirf k) n = kinv k n" "inord (plug (map mirf k) (mirt t)) = rev (inord (plug k t))"
proof -
  show c: "kcol (map mirf k) = kcol k" for k by (cases k) simp_all
  show "kinv (map mirf k) n = kinv k n"
  proof (induction k arbitrary: n)
    case (Cons f k)
    have "invh (sib f) \<Longrightarrow> bh (mirt (sib f)) = bh (sib f)" by simp
    then show ?case using Cons.IH by (auto simp: c)
  qed simp
  show "inord (plug (map mirf k) (mirt t)) = rev (inord (plug k t))" by (simp add: inord_plug)
qed

section \<open>Insertion\<close>

definition ins_inv :: "frame list \<Rightarrow> itr \<Rightarrow> itr \<Rightarrow> bool" where
  "ins_inv k l r \<longleftrightarrow> invc l \<and> invc r \<and> tcol l = BLACK \<and> tcol r = BLACK \<and> invh l \<and> invh r \<and> bh l = bh r \<and> kinv k (bh l)"

text \<open>One turn of the loop.\<close>

definition ins_step :: "frame list \<Rightarrow> itr \<Rightarrow> (nat \<times> itree) res \<Rightarrow> bool" where
  "ins_step k t m \<longleftrightarrow>
     (\<exists>x' s' k' l' r'. m = Inr (x', s') \<and> rp s' k' (Nd l' x' RED r') \<and> ins_inv k' l' r' \<and>
        inord (plug k' (Nd l' x' RED r')) = inord (plug k t) \<and> length k' < length k)"

lemma ins_stepI:
  "m = Inr (x', s') \<Longrightarrow> rp s' k' (Nd l' x' RED r') \<Longrightarrow> ins_inv k' l' r' \<Longrightarrow>
   inord (plug k' (Nd l' x' RED r')) = inord (plug k t) \<Longrightarrow> length k' < length k \<Longrightarrow> ins_step k t m"
  unfolding ins_step_def by blast

lemma fix_left_recolour:
  assumes r: "rp s (f # FL gp BLACK (Nd yl y RED yr) # k) (Nd l x RED r)" and f: "fcol f = RED"
    and i: "ins_inv (f # FL gp BLACK (Nd yl y RED yr) # k) l r"
  shows "ins_step (f # FL gp BLACK (Nd yl y RED yr) # k) (Nd l x RED r) (insert_fix_left x (fentry f) gp s)"
proof -
  let ?x = "Nd l x RED r" and ?Y = "\<lambda>c. Nd yl y c yr" and ?u = "fentry f"
  define U where "U c = (case f of FL u _ b \<Rightarrow> Nd ?x u c b | FR a u _ \<Rightarrow> Nd a u c ?x)" for c
  have U: "plug1 f ?x = U RED" using f by (cases f) (auto simp: U_def)
  have col: "rp (set_color ?u c s') k' (U c)" if "rp s' k' (U RED)" for s' k' c
    using that set_color_rp by (cases f) (auto simp: U_def)
  have 1: "rp s (FL gp BLACK (?Y RED) # k) (U RED)" using r U by (cases f) (auto simp: refocus)
  then have 2: "rp (set_color ?u BLACK s) (FR (U BLACK) gp BLACK # k) (?Y RED)" using col [OF 1, of BLACK] by (simp add: refocus)
  have 3: "rp (set_color y BLACK (set_color ?u BLACK s)) k (Nd (U BLACK) gp BLACK (?Y BLACK))"
    using set_color_rp [OF 2, of BLACK] by (simp add: refocus)
  have g: "rb_right s gp = Some y" "color s (Some y) = RED"
    using rp_node(3,6) [of s k "U RED" gp BLACK "?Y RED"] 1 by (simp_all add: refocus)
  show ?thesis
  proof (rule ins_stepI)
    show "insert_fix_left x ?u gp s = Inr (gp, set_color gp RED (set_color y BLACK (set_color ?u BLACK s)))"
      using g by (simp add: insert_fix_left_def)
    show "rp (set_color gp RED (set_color y BLACK (set_color ?u BLACK s))) k (Nd (U BLACK) gp RED (?Y BLACK))"
      by (rule set_color_rp [OF 3])
    show "ins_inv k (U BLACK) (?Y BLACK)" using i f by (cases f) (auto simp: ins_inv_def U_def)
    show "inord (plug k (Nd (U BLACK) gp RED (?Y BLACK))) = inord (plug (f # FL gp BLACK (?Y RED) # k) ?x)"
      by (cases f) (simp_all add: inord_plug U_def)
  qed simp
qed

lemma fix_left_outer:
  assumes r: "rp s (FL u RED b # FL gp BLACK y # k) (Nd l x RED r)" and y: "tcol y = BLACK"
  shows "\<exists>s'. insert_fix_left x u gp s = Inr (x, s') \<and> rp s' (FL u BLACK (Nd b gp RED y) # k) (Nd l x RED r)"
proof -
  let ?x = "Nd l x RED r"
  have n: "color s (rb_right s gp) = BLACK" "rb_right s u = ptr b" "rb_up s x = Some u" "rb_up s u = Some gp"
    using rp_node [of s k "Nd ?x u RED b" gp BLACK y] rp_node [of s "FL gp BLACK y # k" ?x u RED b] rp_node [OF r] r y
    by (simp_all add: refocus)
  have xb: "ptr b \<noteq> Some x" using r ptr_in [of b x] by (auto simp: rp_def)
  have "rp (set_color gp RED (set_color u BLACK s)) k (Nd (Nd ?x u BLACK b) gp RED y)"
    using r set_color_rp [of s "FL gp BLACK y # k" ?x u RED b BLACK] set_color_rp [of "set_color u BLACK s" k "Nd ?x u BLACK b" gp BLACK y RED]
    by (simp add: refocus)
  from right_rotate_rp [OF this] obtain s' where "itree_right_rotate gp (set_color gp RED (set_color u BLACK s)) = Inr s'"
    "rp s' k (Nd ?x u BLACK (Nd b gp RED y))" by blast
  then show ?thesis using n xb by (simp add: insert_fix_left_def refocus)
qed

lemma fix_left_inner:
  assumes r: "rp s (FR a u RED # FL gp BLACK y # k) (Nd l x RED r)" and y: "tcol y = BLACK"
  shows "\<exists>s'. insert_fix_left x u gp s = Inr (u, s') \<and> rp s' (FL x BLACK (Nd r gp RED y) # k) (Nd a u RED l)"
proof -
  let ?x = "Nd l x RED r"
  have n: "color s (rb_right s gp) = BLACK" "rb_right s u = Some x"
    using rp_node [of s k "Nd a u RED ?x" gp BLACK y] rp_node [of s "FL gp BLACK y # k" a u RED ?x] r y
    by (simp_all add: refocus)
  obtain s1 where s1: "itree_left_rotate u s = Inr s1" "rp s1 (FL gp BLACK y # k) (Nd (Nd a u RED l) x RED r)"
    using left_rotate_rp [of s "FL gp BLACK y # k" a u RED l x RED r] r by (auto simp: refocus)
  have m: "rb_up s1 u = Some x" "rb_up s1 x = Some gp"
    using rp_node [of s1 "FL x RED r # FL gp BLACK y # k" a u RED l] rp_node [OF s1(2)] s1(2) by (simp_all add: refocus)
  have "rp (set_color gp RED (set_color x BLACK s1)) k (Nd (Nd (Nd a u RED l) x BLACK r) gp RED y)"
    using set_color_rp [OF s1(2), of BLACK] set_color_rp [of "set_color x BLACK s1" k "Nd (Nd a u RED l) x BLACK r" gp BLACK y RED]
    by (simp add: refocus)
  from right_rotate_rp [OF this] obtain s' where "itree_right_rotate gp (set_color gp RED (set_color x BLACK s1)) = Inr s'"
    "rp s' k (Nd (Nd a u RED l) x BLACK (Nd r gp RED y))" by blast
  then show ?thesis using n m s1(1) by (simp add: insert_fix_left_def refocus)
qed

lemma insert_fix_left_step:
  assumes r: "rp s (f # FL gp BLACK y # k) (Nd l x RED r)" and f: "fcol f = RED"
    and i: "ins_inv (f # FL gp BLACK y # k) l r"
  shows "ins_step (f # FL gp BLACK y # k) (Nd l x RED r) (insert_fix_left x (fentry f) gp s)"
proof (cases "tcol y = RED")
  case True
  then obtain yl ya yr where "y = Nd yl ya RED yr" by (cases y) auto
  then show ?thesis using fix_left_recolour assms by blast
next
  case False
  then have y: "tcol y = BLACK" using i invc_tcol by (auto simp: ins_inv_def)
  show ?thesis
  proof (cases f)
    case (FL u c b)
    obtain s' where "insert_fix_left x u gp s = Inr (x, s')" "rp s' (FL u BLACK (Nd b gp RED y) # k) (Nd l x RED r)"
      using fix_left_outer [of s u b gp y k l x r] r f y FL by auto
    then show ?thesis using i f y FL by (intro ins_stepI) (auto simp: ins_inv_def inord_plug)
  next
    case (FR a u c)
    obtain s' where "insert_fix_left x u gp s = Inr (u, s')" "rp s' (FL x BLACK (Nd r gp RED y) # k) (Nd a u RED l)"
      using fix_left_inner [of s a u gp y k l x r] r f y FR by auto
    then show ?thesis using i f y FR by (intro ins_stepI) (auto simp: ins_inv_def inord_plug)
  qed
qed

lemma left_rotate_mir: "itree_left_rotate y s = mirR (itree_right_rotate y (mir s))"
  by (simp add: right_rotate_mir)

definition mirP :: "('a \<times> itree) res \<Rightarrow> ('a \<times> itree) res" where
  "mirP = map_sum id (map_prod id mir)"

lemma mirP_simps [simp]: "mirP (Inl e) = Inl e" "mirP (Inr (x, s)) = Inr (x, mir s)"
  by (simp_all add: mirP_def)

lemma mirP_bind: "mirP (bindR m f) = bindR m (\<lambda>x. mirP (f x))" "mirP (deref n g) = deref n (\<lambda>x. mirP (g x))"
  "bindR (mirR m') f' = bindR m' (\<lambda>s. f' (mir s))" "bindR (mirP m'') f'' = bindR m'' (\<lambda>(x, s). f'' (x, mir s))"
  subgoal by (cases m) auto
  subgoal by (cases n) auto
  subgoal by (cases m') auto
  subgoal by (cases m'') auto
  done

lemma insert_fix_right_mir: "insert_fix_right x u gp s = mirP (insert_fix_left x u gp (mir s))"
proof (cases "color s (rb_left s gp) = RED")
  case True
  then show ?thesis by (simp add: insert_fix_right_def insert_fix_left_def mirP_bind mir_set)
next
  case False
  have "(if Some x = rb_left s u then bindR (itree_right_rotate u s) (\<lambda>t. Inr (u, t)) else Inr (x, s)) =
    mirP (if Some x = rb_left s u then bindR (itree_left_rotate u (mir s)) (\<lambda>t. Inr (u, t)) else Inr (x, mir s))"
    by (simp add: right_rotate_mir mirP_bind)
  then show ?thesis using False
    by (simp add: insert_fix_right_def insert_fix_left_def mirP_bind left_rotate_mir [of _ "set_color _ _ _"] mir_set case_prod_unfold Let_def)
qed

lemma ins_inv_mir: "ins_inv (map mirf k) (mirt r) (mirt l) \<longleftrightarrow> ins_inv k l r"
proof -
  have "bh (mirt l) = bh l" if "invh l" for l using that by simp
  then show ?thesis by (auto simp: ins_inv_def)
qed

lemma ins_step_mir:
  assumes "ins_step (map mirf k) (mirt t) m"
  shows "ins_step k t (mirP m)"
proof -
  obtain x' s' k' l' r' where *: "m = Inr (x', s')" "rp s' k' (Nd l' x' RED r')" "ins_inv k' l' r'"
    "inord (plug k' (Nd l' x' RED r')) = inord (plug (map mirf k) (mirt t))" "length k' < length (map mirf k)"
    using assms unfolding ins_step_def by blast
  show ?thesis
  proof (rule ins_stepI)
    show "mirP m = Inr (x', mir s')" using * by simp
    show "rp (mir s') (map mirf k') (Nd (mirt r') x' RED (mirt l'))" using *(2) rp_mir [of s' k' "Nd l' x' RED r'"] by simp
    show "ins_inv (map mirf k') (mirt r') (mirt l')" using *(3) by (simp add: ins_inv_mir)
    show "inord (plug (map mirf k') (Nd (mirt r') x' RED (mirt l'))) = inord (plug k t)"
      using *(4) mirk_inv(3) [of k' "Nd l' x' RED r'"] by simp
  qed (use * in simp)
qed

lemma insert_fix_right_step:
  assumes r: "rp s (f # FR y gp BLACK # k) (Nd l x RED r)" and f: "fcol f = RED" and i: "ins_inv (f # FR y gp BLACK # k) l r"
  shows "ins_step (f # FR y gp BLACK # k) (Nd l x RED r) (insert_fix_right x (fentry f) gp s)"
proof -
  have "ins_step (mirf f # FL gp BLACK (mirt y) # map mirf k) (Nd (mirt r) x RED (mirt l)) (insert_fix_left x (fentry (mirf f)) gp (mir s))"
  proof (rule insert_fix_left_step)
    show "rp (mir s) (mirf f # FL gp BLACK (mirt y) # map mirf k) (Nd (mirt r) x RED (mirt l))"
      using r rp_mir [of s "f # FR y gp BLACK # k" "Nd l x RED r"] by simp
    show "ins_inv (mirf f # FL gp BLACK (mirt y) # map mirf k) (mirt r) (mirt l)"
      using i ins_inv_mir [of "f # FR y gp BLACK # k" r l] by simp
  qed (use f in simp)
  then show ?thesis using ins_step_mir [of "f # FR y gp BLACK # k" "Nd l x RED r"] by (simp add: insert_fix_right_mir)
qed

lemma insert_fix_loop_ok:
  assumes "rp s k (Nd l x RED r)" "ins_inv k l r" "length k < fuel"
  shows "\<exists>s' T. insert_fix_loop fuel x s = Inr s' \<and> rp s' [] T \<and> invc T \<and> invh T \<and> inord T = inord (plug k (Nd l x RED r))"
  using assms
proof (induction fuel arbitrary: s k l x r)
  case (Suc fuel)
  have up: "rb_up s x = ktop k" using rp_node(1) [OF Suc.prems(1)] .
  have kc: "color s (ktop k) = kcol k" using Suc.prems(1) by (cases k rule: before.cases) (simp_all add: rp_def color_def)
  show ?case
  proof (cases "kcol k = RED")
    case False
    have "invc (plug k (Nd l x RED r)) \<and> invh (plug k (Nd l x RED r))"
    proof (cases k)
      case (Cons f k')
      then have "kcol k = BLACK" using False Suc.prems(2) by (auto simp: ins_inv_def)
      then have "rbt (plug k (Nd l x RED r))" using Suc.prems(2) Cons unfolding rbt_plug by (auto simp: ins_inv_def)
      then show ?thesis by (simp add: rbt_def)
    qed (use Suc.prems(2) in \<open>auto simp: ins_inv_def\<close>)
    then show ?thesis using Suc.prems(1) up kc False rp_plug [of s k] by (intro exI [of _ s] exI [of _ "plug k (Nd l x RED r)"]) auto
  next
    case True
    then obtain f g k' where k: "k = f # g # k'" and f: "fcol f = RED" and g: "fcol g = BLACK"
      using Suc.prems(2) by (cases k; cases "tl k") (auto simp: ins_inv_def)
    let ?gp = "fentry g" and ?u = "fentry f" and ?t = "Nd l x RED r"
    have u: "rb_up s x = Some ?u" "rb_up s ?u = Some ?gp" and c: "color s (Some ?u) = RED"
      using up kc True k Suc.prems(1) by (auto simp: rp_def) (cases f; simp)
    have gf: "rp s (g # k') (plug1 f ?t)" using Suc.prems(1) k by (cases f) (simp_all add: refocus)
    let ?m = "if Some ?u = rb_left s ?gp then insert_fix_left x ?u ?gp s else insert_fix_right x ?u ?gp s"
    have "ins_step k ?t ?m"
    proof (cases g)
      case (FL gp cg y)
      have "rb_left s gp = Some ?u" using gf FL by (cases f) (simp_all add: rp_def)
      then show ?thesis using insert_fix_left_step [of s f gp y k' l x r] Suc.prems(1,2) f g FL k by simp
    next
      case (FR y gp cg)
      have "rb_left s gp = ptr y" using gf FR by (simp add: rp_def)
      moreover have "ptr y \<noteq> Some ?u" using Suc.prems(1) k FR ptr_in [of y ?u] by (cases f) (auto simp: rp_def)
      ultimately show ?thesis using insert_fix_right_step [of s f y gp k' l x r] Suc.prems(1,2) f g FR k by auto
    qed
    then obtain x' s' k2 l' r' where m: "?m = Inr (x', s')" and st: "rp s' k2 (Nd l' x' RED r')" "ins_inv k2 l' r'"
      "inord (plug k2 (Nd l' x' RED r')) = inord (plug k ?t)" "length k2 < length k"
      unfolding ins_step_def by blast
    have "insert_fix_loop (Suc fuel) x s = insert_fix_loop fuel x' s'" using u c m by simp
    then show ?thesis using Suc.IH [OF st(1,2)] st(3,4) Suc.prems(3) by simp
  qed
qed simp

definition cmp_sorted :: "(nat \<Rightarrow> nat \<Rightarrow> int) \<Rightarrow> nat list \<Rightarrow> bool" where
  "cmp_sorted cmp xs \<longleftrightarrow> sorted_wrt (\<lambda>a b. cmp a b \<le> 0) xs"

text \<open>A sorted list with a new entry after those that compare equal.\<close>

definition ins_list :: "(nat \<Rightarrow> nat \<Rightarrow> int) \<Rightarrow> nat \<Rightarrow> nat list \<Rightarrow> nat list" where
  "ins_list cmp z xs = takeWhile (\<lambda>x. \<not> cmp z x < 0) xs @ z # dropWhile (\<lambda>x. \<not> cmp z x < 0) xs"

fun is_left :: "frame list \<Rightarrow> bool" where
  "is_left (FL a c r # k) = True"
| "is_left _ = False"

definition pos_ok :: "(nat \<Rightarrow> nat \<Rightarrow> int) \<Rightarrow> nat \<Rightarrow> frame list \<Rightarrow> int \<Rightarrow> bool" where
  "pos_ok cmp z k c \<longleftrightarrow> (\<forall>b\<in>set (before k). \<not> cmp z b < 0) \<and> (\<forall>b\<in>set (after k). cmp z b < 0) \<and> (k \<noteq> [] \<longrightarrow> (c < 0 \<longleftrightarrow> is_left k))"

lemma rp_frame:
  assumes "rp s k t" "\<And>a. a \<in> set (before k @ inord t @ after k) \<Longrightarrow> same_at s s' a" "rb_root s' = rb_root s"
  shows "rp s' k t"
proof -
  have "ctx s' (ptr t) k" by (rule ctx_cong [of k s]) (use assms in \<open>auto simp: rp_def\<close>)
  moreover have "tr s' (ktop k) t" by (rule tr_cong [of t s]) (use assms in \<open>auto simp: rp_def\<close>)
  ultimately show ?thesis using assms(1) by (simp add: rp_def)
qed

text \<open>The new entry is hung into the hole, as a leaf.\<close>

lemma insert_link_rp:
  assumes r: "rp s k Lf" and z: "z \<notin> set (before k) \<union> set (after k)" and c: "k \<noteq> [] \<longrightarrow> (c < 0 \<longleftrightarrow> is_left k)"
  defines "s1 \<equiv> set_up z (ktop k) (set_left z None (set_right z None s))"
  defines "s2 \<equiv> (case ktop k of None \<Rightarrow> s1\<lparr>rb_root := Some z\<rparr> | Some y \<Rightarrow> if c < 0 then set_left y (Some z) s1 else set_right y (Some z) s1)"
  shows "rp s2 k (Nd Lf z (rb_color s z) Lf)"
proof -
  have tz: "ktop k \<noteq> Some z" using z ktop_in [of k z] by auto
  have "ctx s2 (Some z) k"
  proof (rule ctx_relink [of s None k])
    show "ctx s None k" "distinct (before k @ after k)" using r by (simp_all add: rp_def)
    show "relinked (Some z) k s s2" using c z
      by (cases k rule: before.cases) (auto simp: relinked_def s2_def s1_def)
    show "same_at s s2 a" if "a \<in> set (before k) \<union> set (after k)" "ktop k \<noteq> Some a" for a
      using that z by (auto simp: same_at_def s2_def s1_def split: option.splits)
  qed
  moreover have "rb_up s2 z = ktop k" "rb_left s2 z = None" "rb_right s2 z = None" "rb_color s2 z = rb_color s z"
    using tz by (auto simp: s2_def s1_def split: option.splits)
  ultimately show ?thesis using r z by (simp add: rp_def)
qed

text \<open>The law of a comparison: it is a total preorder, and its sign changes when its arguments are exchanged.\<close>

locale cmp_order =
  fixes cmp :: "nat \<Rightarrow> nat \<Rightarrow> int"
  assumes flip: "cmp a b < 0 \<longleftrightarrow> cmp b a > 0" and trans: "cmp a b \<le> 0 \<Longrightarrow> cmp b c \<le> 0 \<Longrightarrow> cmp a c \<le> 0"
begin

lemma trans_less: "cmp z a < 0 \<Longrightarrow> cmp a b \<le> 0 \<Longrightarrow> cmp z b < 0"
  using flip trans by (metis less_le_not_le linorder_not_le)

lemma trans_ge: "\<not> cmp z a < 0 \<Longrightarrow> cmp b a \<le> 0 \<Longrightarrow> \<not> cmp z b < 0"
  using trans_less by blast

lemma ins_list_sorted:
  assumes "cmp_sorted cmp xs"
  shows "cmp_sorted cmp (ins_list cmp z xs)"
proof -
  let ?P = "\<lambda>x. \<not> cmp z x < 0"
  have s: "sorted_wrt (\<lambda>a b. cmp a b \<le> 0) (takeWhile ?P xs @ dropWhile ?P xs)" using assms by (simp add: cmp_sorted_def)
  have l: "\<forall>x\<in>set (takeWhile ?P xs). cmp x z \<le> 0"
    using flip by (auto dest!: set_takeWhileD)
  have "cmp z x < 0" if x: "x \<in> set (dropWhile ?P xs)" for x
  proof -
    obtain y ys where Cons: "dropWhile ?P xs = y # ys" using x by (cases "dropWhile ?P xs") auto
    then have "cmp z y < 0" using hd_dropWhile [of ?P xs] by simp
    moreover have "x = y \<or> cmp y x \<le> 0" using s x Cons by (auto simp: sorted_wrt_append)
    ultimately show ?thesis using trans_less by blast
  qed
  then have "\<forall>x\<in>set (dropWhile ?P xs). cmp z x \<le> 0" using less_imp_le by blast
  then show ?thesis using s l unfolding cmp_sorted_def ins_list_def sorted_wrt_append by simp
qed

lemma insert_pos_ok:
  assumes "rp s k t" "cmp_sorted cmp (inord (plug k t))" "pos_ok cmp z k c" "length (inord t) < fuel"
  shows "\<exists>k' c'. insert_pos fuel cmp z (ptr t) (ktop k) c s = Inr (ktop k', c') \<and> plug k' Lf = plug k t \<and> pos_ok cmp z k' c' \<and>
    length k' \<le> length k + length (inord t)"
  using assms
proof (induction t arbitrary: k c fuel)
  case Lf
  then show ?case by (cases fuel) auto
next
  case (Nd l a co r)
  obtain n where n: "fuel = Suc n" using Nd.prems(4) by (cases fuel) auto
  have ch: "rb_left s a = ptr l" "rb_right s a = ptr r" using rp_node(2,3) [OF Nd.prems(1)] by simp_all
  have so: "sorted_wrt (\<lambda>a b. cmp a b \<le> 0) (before k @ (inord l @ a # inord r) @ after k)"
    using Nd.prems(2) by (simp add: cmp_sorted_def inord_plug)
  show ?case
  proof (cases "cmp z a < 0")
    case True
    have "pos_ok cmp z (FL a co r # k) (cmp z a)"
      using Nd.prems(3) True so trans_less [OF True] by (auto simp: pos_ok_def sorted_wrt_append)
    then obtain k' c' where *: "insert_pos n cmp z (ptr l) (ktop (FL a co r # k)) (cmp z a) s = Inr (ktop k', c')" "plug k' Lf = plug (FL a co r # k) l"
      "pos_ok cmp z k' c'" "length k' \<le> length (FL a co r # k) + length (inord l)"
      using Nd.IH(1) [of "FL a co r # k" "cmp z a" n] Nd.prems n by (auto simp: refocus)
    then show ?thesis using ch True n by (intro exI [of _ k'] exI [of _ c']) simp
  next
    case False
    have "pos_ok cmp z (FR l a co # k) (cmp z a)"
      using Nd.prems(3) False so trans_ge [OF False] by (auto simp: pos_ok_def sorted_wrt_append)
    then obtain k' c' where *: "insert_pos n cmp z (ptr r) (ktop (FR l a co # k)) (cmp z a) s = Inr (ktop k', c')" "plug k' Lf = plug (FR l a co # k) r"
      "pos_ok cmp z k' c'" "length k' \<le> length (FR l a co # k) + length (inord r)"
      using Nd.IH(2) [of "FR l a co # k" "cmp z a" n] Nd.prems n by (auto simp: refocus)
    then show ?thesis using ch False n by (intro exI [of _ k'] exI [of _ c']) simp
  qed
qed

text \<open>Insertion keeps the tree a red-black tree and puts the entry where the list has it.\<close>

lemma insert_ok:
  assumes r: "rp s [] T" and b: "rbt T" and so: "cmp_sorted cmp (inord T)" and z: "z \<notin> set (inord T)" and f: "length (inord T) < fuel"
  shows "\<exists>s' T'. itree_insert fuel cmp z s = Inr s' \<and> rp s' [] T' \<and> rbt T' \<and> inord T' = ins_list cmp z (inord T)"
proof -
  let ?s = "set_left z None (set_right z None s)"
  have rs: "rp ?s [] T" by (rule rp_frame [OF r]) (use z in \<open>auto simp: same_at_def\<close>)
  obtain k c where k: "insert_pos fuel cmp z (ptr T) None 0 ?s = Inr (ktop k, c)" "plug k Lf = T" "pos_ok cmp z k c" "length k \<le> length (inord T)"
    using insert_pos_ok [OF rs, of z 0 fuel] so f by (auto simp: pos_ok_def)
  define s1 where "s1 = set_up z (ktop k) ?s"
  define s2 where "s2 = (case ktop k of None \<Rightarrow> s1\<lparr>rb_root := Some z\<rparr> | Some y \<Rightarrow> if c < 0 then set_left y (Some z) s1 else set_right y (Some z) s1)"
  have ba: "inord T = before k @ after k" using k(2) by (auto simp: inord_plug)
  have "rp s2 k (Nd Lf z (rb_color s z) Lf)"
    unfolding s2_def s1_def by (rule insert_link_rp) (use rp_plug [of s k Lf] r k(2,3) z ba in \<open>auto simp: pos_ok_def\<close>)
  then have r2: "rp (set_color z RED s2) k (Nd Lf z RED Lf)" by (rule set_color_rp)
  have "rbt (plug k Lf)" using b k(2) by simp
  then have "ins_inv k Lf Lf" unfolding rbt_plug by (simp add: ins_inv_def)
  from insert_fix_loop_ok [OF r2 this, of fuel] obtain s' T' where s': "insert_fix_loop fuel z (set_color z RED s2) = Inr s'" "rp s' [] T'"
    "invc T'" "invh T'" "inord T' = inord (plug k (Nd Lf z RED Lf))"
    using k(4) f by auto
  have i: "inord T' = before k @ z # after k" using s'(5) by (simp add: inord_plug)
  then obtain l a co q where T': "T' = Nd l a co q" by (cases T') auto
  have "itree_insert fuel cmp z s = Inr (set_color a BLACK s')"
    using k(1) s'(1) [unfolded s2_def s1_def] s'(2) rp_root [OF r] T'
    by (simp add: itree_insert_def itree_insert_fix_def Let_def rp_def)
  moreover have "rp (set_color a BLACK s') [] (Nd l a BLACK q)" using set_color_rp s'(2) T' by blast
  moreover have "rbt (Nd l a BLACK q)" using s'(3,4) T' by (simp add: rbt_def)
  moreover have "ins_list cmp z (inord T) = before k @ z # after k"
    using k(3) ba by (simp add: ins_list_def pos_ok_def takeWhile_append dropWhile_append) (cases "after k", auto)
  ultimately show ?thesis using i T' by fastforce
qed

end

end
