(* ===== verification/Itree_Delete.thy ===== *)
theory Itree_Delete
  imports Itree
begin

text \<open>
  Removal from the red-black trees of \<open>async/itree.C\<close>: the loop of \<open>itree_delete_fixup\<close> restores the red-black
  invariant, and \<open>itree_delete\<close> takes the entry out of the list of the tree.
\<close>

section \<open>Deletion\<close>

text \<open>
  The state of the loop of \<open>itree_delete_fixup\<close>: the tree in the hole is one black entry too low. Either it is red at
  its root and the loop ends by painting it, or the loop goes on with the entry above, or the tree is in order.
\<close>

definition del_inv :: "frame list \<Rightarrow> itr \<Rightarrow> bool" where
  "del_inv k t \<longleftrightarrow> invc (paint BLACK t) \<and> (tcol t = BLACK \<or> tcol t = RED) \<and> invh t \<and> kinv k (bh t + 1)"

definition del_step :: "frame list \<Rightarrow> itr \<Rightarrow> (oc \<times> itree) res \<Rightarrow> bool" where
  "del_step k t m \<longleftrightarrow>
     (\<exists>s' k' t'. m = Inr (ptr t', s') \<and> t' \<noteq> Lf \<and> rp s' k' t' \<and> inord (plug k' t') = inord (plug k t) \<and>
        del_inv k' t' \<and> (length k' < length k \<or> tcol t' = RED))"

lemma del_step_up:
  "m = Inr (Some a, s') \<Longrightarrow> rp s' k' (Nd l a c r) \<Longrightarrow> inord (plug k' (Nd l a c r)) = inord (plug k t) \<Longrightarrow>
   del_inv k' (Nd l a c r) \<Longrightarrow> length k' < length k \<or> c = RED \<Longrightarrow> del_step k t m"
  unfolding del_step_def by (intro exI [of _ s'] exI [of _ k'] exI [of _ "Nd l a c r"]) simp

lemma paint_same: "tcol t = c \<Longrightarrow> paint c t = t"
  by (cases t) auto

lemma del_step_end:
  assumes "m = Inr (rb_root s', s')" "rp s' k' (Nd l a c r)" "inord (plug k' (Nd l a c r)) = inord (plug k t)" "rbt (plug k' (Nd l a c r))" "k \<noteq> []"
  shows "del_step k t m"
proof -
  let ?T = "plug k' (Nd l a c r)"
  have "ptr ?T = rb_root s'" using rp_root [OF assms(2)] by simp
  moreover have "?T \<noteq> Lf" using inord_plug [of k' "Nd l a c r"] by auto
  moreover have "del_inv [] ?T" using assms(4) by (simp add: del_inv_def rbt_def paint_same)
  ultimately show ?thesis using assms rp_plug [of s' k'] unfolding del_step_def
    by (intro exI [of _ s'] exI [of _ "[]"] exI [of _ ?T]) simp
qed

text \<open>The second part of a turn: the sibling \<open>w\<close> is black.\<close>

lemma del2_recolour:
  assumes r: "rp s (FL p c (Nd wl w BLACK wq) # k) t" and b: "tcol wl = BLACK" "tcol wq = BLACK"
  shows "delete_fix_left2 p w s = Inr (Some p, set_color w RED s)" "rp (set_color w RED s) k (Nd t p c (Nd wl w RED wq))"
proof -
  have rw: "rp s (FR t p c # k) (Nd wl w BLACK wq)" using r by (simp add: refocus)
  show "delete_fix_left2 p w s = Inr (Some p, set_color w RED s)" using rp_node [OF rw] b by (simp add: delete_fix_left2_def)
  show "rp (set_color w RED s) k (Nd t p c (Nd wl w RED wq))" using set_color_rp [OF rw] by (simp add: refocus)
qed

text \<open>The last rotation, with a red right child of \<open>w\<close>.\<close>

lemma del2_last:
  assumes r: "rp s (FL p c (Nd wl w cw (Nd ra r RED rb)) # k) t"
  shows "\<exists>s'. (let s = set_color p BLACK (set_color w (color s (Some p)) s)
        in deref (rb_right s w) (\<lambda>r. bindR (itree_left_rotate p (set_color r BLACK s)) (\<lambda>s. Inr (rb_root s, s)))) = Inr (rb_root s', s') \<and>
      rp s' k (Nd (Nd t p BLACK wl) w c (Nd ra r BLACK rb))"
proof -
  let ?r = "\<lambda>co. Nd ra r co rb"
  have rw: "rp s (FR t p c # k) (Nd wl w cw (?r RED))" using r by (simp add: refocus)
  have cp: "color s (Some p) = c" using r by (simp add: rp_def color_def)
  have 1: "rp (set_color w c s) (FR t p c # k) (Nd wl w c (?r RED))" by (rule set_color_rp [OF rw])
  have 2: "rp (set_color p BLACK (set_color w c s)) (FR wl w c # FR t p BLACK # k) (?r RED)" using set_color_FR [OF 1] by (simp add: refocus)
  have 3: "rp (set_color r BLACK (set_color p BLACK (set_color w c s))) k (Nd t p BLACK (Nd wl w c (?r BLACK)))"
    using set_color_rp [OF 2] by (simp add: refocus)
  obtain s' where s': "itree_left_rotate p (set_color r BLACK (set_color p BLACK (set_color w c s))) = Inr s'"
    "rp s' k (Nd (Nd t p BLACK wl) w c (?r BLACK))" using left_rotate_rp [OF 3] by blast
  have "rb_right s w = Some r" using rp_node(3) [OF rw] by simp
  then show ?thesis using s' cp by (simp add: Let_def)
qed

lemma del2_far:
  assumes r: "rp s (FL p c (Nd wl w BLACK (Nd ra r RED rb)) # k) t"
  shows "\<exists>s'. delete_fix_left2 p w s = Inr (rb_root s', s') \<and> rp s' k (Nd (Nd t p BLACK wl) w c (Nd ra r BLACK rb))"
proof -
  have rw: "rp s (FR t p c # k) (Nd wl w BLACK (Nd ra r RED rb))" using r by (simp add: refocus)
  show ?thesis using del2_last [OF r] rp_node [OF rw] by (simp add: delete_fix_left2_def)
qed

lemma del2_near:
  assumes r: "rp s (FL p c (Nd (Nd la l RED lb) w BLACK wq) # k) t" and b: "tcol wq = BLACK"
  shows "\<exists>s'. delete_fix_left2 p w s = Inr (rb_root s', s') \<and> rp s' k (Nd (Nd t p BLACK la) l c (Nd lb w BLACK wq))"
proof -
  have rw: "rp s (FR t p c # k) (Nd (Nd la l RED lb) w BLACK wq)" using r by (simp add: refocus)
  have 1: "rp (set_color l BLACK s) (FR t p c # k) (Nd (Nd la l BLACK lb) w BLACK wq)"
    using set_color_rp [of s "FL w BLACK wq # FR t p c # k" la l RED lb BLACK] rw by (simp add: refocus)
  obtain s1 where s1: "itree_right_rotate w (set_color w RED (set_color l BLACK s)) = Inr s1"
    "rp s1 (FR t p c # k) (Nd la l BLACK (Nd lb w RED wq))" using right_rotate_rp [OF set_color_rp [OF 1, of RED]] by blast
  have "rp s1 (FL p c (Nd la l BLACK (Nd lb w RED wq)) # k) t" using s1(2) by (simp add: refocus)
  from del2_last [OF this] obtain s' where s': "(let s = set_color p BLACK (set_color l (color s1 (Some p)) s1)
        in deref (rb_right s l) (\<lambda>r. bindR (itree_left_rotate p (set_color r BLACK s)) (\<lambda>s. Inr (rb_root s, s)))) = Inr (rb_root s', s')"
      "rp s' k (Nd (Nd t p BLACK la) l c (Nd lb w BLACK wq))" by blast
  have "rb_right s1 p = Some l" using rp_node(3) [of s1 k t p c "Nd la l BLACK (Nd lb w RED wq)"] s1(2) by (simp add: refocus)
  then show ?thesis using s' s1(1) rp_node [OF rw] b by (simp add: delete_fix_left2_def)
qed

text \<open>How the tree looks after the turn, for a black sibling.\<close>

lemma del2_step:
  assumes r: "rp s (FL p c (Nd wl w BLACK wq) # k) t" and i: "del_inv (FL p c (Nd wl w BLACK wq) # k) t" and t: "tcol t = BLACK"
  shows "(\<exists>s'. delete_fix_left2 p w s = Inr (Some p, s') \<and> rp s' k (Nd t p c (Nd wl w RED wq)) \<and> del_inv k (Nd t p c (Nd wl w RED wq))) \<or>
    (\<exists>s' l a c' r'. delete_fix_left2 p w s = Inr (rb_root s', s') \<and> rp s' k (Nd l a c' r') \<and> rbt (plug k (Nd l a c' r')) \<and>
       inord (Nd l a c' r') = inord (Nd t p c (Nd wl w BLACK wq)))"
proof -
  have "invc t" using i t by (cases t) (auto simp: del_inv_def)
  note di = this i [unfolded del_inv_def, simplified]
  have cols: "tcol wl = BLACK \<or> tcol wl = RED" "tcol wq = BLACK \<or> tcol wq = RED" "c = BLACK \<or> c = RED" using di invc_tcol by auto
  consider (none) "tcol wl = BLACK" "tcol wq = BLACK" | (far) "tcol wq = RED" | (near) "tcol wl = RED" "tcol wq = BLACK" using cols by auto
  then show ?thesis
  proof cases
    case none
    have "del_inv k (Nd t p c (Nd wl w RED wq))" using di none t by (auto simp: del_inv_def)
    then show ?thesis using del2_recolour [OF r none] by blast
  next
    case far
    then obtain ra q rb where q: "wq = Nd ra q RED rb" by (cases wq) auto
    obtain s' where "delete_fix_left2 p w s = Inr (rb_root s', s')" "rp s' k (Nd (Nd t p BLACK wl) w c (Nd ra q BLACK rb))"
      using del2_far [of s p c wl w ra q rb k t] r q by blast
    moreover have "rbt (plug k (Nd (Nd t p BLACK wl) w c (Nd ra q BLACK rb)))" using di q unfolding rbt_plug by auto
    ultimately show ?thesis using q by fastforce
  next
    case near
    then obtain la e lb where e: "wl = Nd la e RED lb" by (cases wl) auto
    obtain s' where "delete_fix_left2 p w s = Inr (rb_root s', s')" "rp s' k (Nd (Nd t p BLACK la) e c (Nd lb w BLACK wq))"
      using del2_near [of s p c la e lb w wq k t] r e near by blast
    moreover have "rbt (plug k (Nd (Nd t p BLACK la) e c (Nd lb w BLACK wq)))" using di e unfolding rbt_plug by auto
    ultimately show ?thesis using e by fastforce
  qed
qed

lemma delete_fix_left2_step:
  assumes r: "rp s (FL p c (Nd wl w BLACK wq) # k) t" and i: "del_inv (FL p c (Nd wl w BLACK wq) # k) t" and t: "tcol t = BLACK"
    and k0: "inord (plug (FL p c (Nd wl w BLACK wq) # k) t) = inord (plug k0 t0)" "length k < length k0 \<or> c = RED" "k0 \<noteq> []"
  shows "del_step k0 t0 (delete_fix_left2 p w s)"
  using del2_step [OF r i t]
proof (elim disjE exE conjE)
  fix s' assume "delete_fix_left2 p w s = Inr (Some p, s')" "rp s' k (Nd t p c (Nd wl w RED wq))" "del_inv k (Nd t p c (Nd wl w RED wq))"
  then show ?thesis using k0 by (auto intro!: del_step_up simp: inord_plug)
next
  fix s' l a c' r'
  assume a: "delete_fix_left2 p w s = Inr (rb_root s', s')" "rp s' k (Nd l a c' r')" "rbt (plug k (Nd l a c' r'))"
    "inord (Nd l a c' r') = inord (Nd t p c (Nd wl w BLACK wq))"
  have "inord (plug k (Nd l a c' r')) = inord (plug k0 t0)" using a(4) k0(1) by (simp add: inord_plug del: inord.simps(2))
  then show ?thesis by (rule del_step_end [OF a(1,2) _ a(3) k0(3)])
qed

lemma delete_fix_left_step:
  assumes r: "rp s (FL p c w # k) t" and i: "del_inv (FL p c w # k) t" and t: "tcol t = BLACK"
  shows "del_step (FL p c w # k) t (delete_fix_left p s)"
proof -
  have "w \<noteq> Lf" using i by (auto simp: del_inv_def)
  then obtain wl a cw wq where w: "w = Nd wl a cw wq" by (cases w) auto
  have n: "rb_right s p = Some a" "color s (Some a) = cw"
    using rp_node(3,6) [of s k t p c w] r w by (simp_all add: refocus)
  show ?thesis
  proof (cases "cw = RED")
    case False
    then have "cw = BLACK" using i w by (auto simp: del_inv_def)
    then show ?thesis using delete_fix_left2_step [of s p c wl a wq k t "FL p c w # k" t] r i t w n by (simp add: delete_fix_left_def)
  next
    case True
    have c: "c = BLACK" and b: "tcol wl = BLACK" "bh wl = bh t + 1" using i w True by (auto simp: del_inv_def)
    then obtain la e lb where wl: "wl = Nd la e BLACK lb" by (cases wl) auto
    have "rp s (FR t p BLACK # k) (Nd wl a RED wq)" using r w c True by (simp add: refocus)
    from set_color_FR [OF set_color_rp [OF this, of BLACK], of RED]
    have "rp (set_color p RED (set_color a BLACK s)) k (Nd t p RED (Nd wl a BLACK wq))" by (simp add: refocus)
    from left_rotate_rp [OF this] obtain s1 where s1: "itree_left_rotate p (set_color p RED (set_color a BLACK s)) = Inr s1"
      "rp s1 k (Nd (Nd t p RED wl) a BLACK wq)" by blast
    have r1: "rp s1 (FL p RED wl # FL a BLACK wq # k) t" using s1(2) by (simp add: refocus)
    have i1: "del_inv (FL p RED wl # FL a BLACK wq # k) t" using i w True c b by (auto simp: del_inv_def)
    have "rb_right s1 p = Some e" using r1 wl by (simp add: rp_def)
    moreover have "del_step (FL p c w # k) t (delete_fix_left2 p e s1)"
      using delete_fix_left2_step [of s1 p RED la e lb "FL a BLACK wq # k" t "FL p c w # k" t] r1 i1 t wl w by (simp add: inord_plug)
    ultimately show ?thesis using s1(1) n True by (simp add: delete_fix_left_def)
  qed
qed

text \<open>The other side is the mirror image.\<close>

lemma delete_fix_right2_mir: "delete_fix_right2 p w s = mirP (delete_fix_left2 p w (mir s))"
proof -
  have 1: "(if color s (rb_left s w) = BLACK
      then deref (rb_right s w) (\<lambda>l. bindR (itree_left_rotate w (set_color w RED (set_color l BLACK s))) (\<lambda>t. deref (rb_left t p) (\<lambda>w. Inr (w, t))))
      else Inr (w, s)) =
    mirP (if color s (rb_left s w) = BLACK
      then deref (rb_right s w) (\<lambda>l. bindR (itree_right_rotate w (set_color w RED (set_color l BLACK (mir s)))) (\<lambda>t. deref (rb_right t p) (\<lambda>w. Inr (w, t))))
      else Inr (w, mir s))"
    by (simp add: mirP_bind left_rotate_mir [of w] mir_set)
  show ?thesis unfolding delete_fix_right2_def 1
    by (simp add: delete_fix_left2_def mirP_bind right_rotate_mir [of p] mir_set case_prod_unfold Let_def)
qed

lemma delete_fix_right_mir: "delete_fix_right p s = mirP (delete_fix_left p (mir s))"
proof (cases "rb_left s p")
  case (Some w)
  then show ?thesis
    by (simp add: delete_fix_right_def delete_fix_left_def mirP_bind right_rotate_mir [of p] mir_set delete_fix_right2_mir)
qed (simp add: delete_fix_right_def delete_fix_left_def)

lemma mirt_paint [simp]: "mirt (paint c t) = paint c (mirt t)" "mirt t = Lf \<longleftrightarrow> t = Lf"
  by (cases t; simp)+

lemma del_inv_mir: "del_inv (map mirf k) (mirt t) \<longleftrightarrow> del_inv k t"
proof -
  have "invc (paint BLACK (mirt t)) = invc (paint BLACK t)" by (simp flip: mirt_paint(1))
  moreover have "invh t \<Longrightarrow> bh (mirt t) = bh t" by simp
  ultimately show ?thesis by (auto simp: del_inv_def)
qed

lemma del_step_mir:
  assumes "del_step (map mirf k) (mirt t) m"
  shows "del_step k t (mirP m)"
proof -
  obtain s' k' t' where *: "m = Inr (ptr t', s')" "t' \<noteq> Lf" "rp s' k' t'" "inord (plug k' t') = inord (plug (map mirf k) (mirt t))"
    "del_inv k' t'" "length k' < length (map mirf k) \<or> tcol t' = RED"
    using assms unfolding del_step_def by blast
  have "inord (plug (map mirf k') (mirt t')) = inord (plug k t)" using *(4) by simp
  then show ?thesis unfolding del_step_def using * rp_mir [of s' k' t'] del_inv_mir [of k' t']
    by (intro exI [of _ "mir s'"] exI [of _ "map mirf k'"] exI [of _ "mirt t'"]) auto
qed

lemma delete_fix_right_step:
  assumes r: "rp s (FR w p c # k) t" and i: "del_inv (FR w p c # k) t" and t: "tcol t = BLACK"
  shows "del_step (FR w p c # k) t (delete_fix_right p s)"
proof -
  have "del_step (FL p c (mirt w) # map mirf k) (mirt t) (delete_fix_left p (mir s))"
    by (rule delete_fix_left_step)
      (use r i t rp_mir [of s "FR w p c # k" t] del_inv_mir [of "FR w p c # k" t] in simp_all)
  then show ?thesis using del_step_mir [of "FR w p c # k" t] by (simp add: delete_fix_right_mir)
qed

lemma plug_ptr: "k \<noteq> [] \<Longrightarrow> \<exists>a. ptr (plug k t) = Some a \<and> a \<in> set (before k) \<union> set (after k)"
proof (induction k arbitrary: t)
  case (Cons f k)
  show ?case
  proof (cases "k = []")
    case True
    then show ?thesis by (cases f) auto
  next
    case False
    obtain a where "ptr (plug k (plug1 f t)) = Some a" "a \<in> set (before k) \<union> set (after k)" using Cons.IH [OF False] by blast
    then show ?thesis by (cases f) auto
  qed
qed simp

lemma root_iff:
  assumes "rp s k t"
  shows "ptr t = rb_root s \<longleftrightarrow> k = []"
proof
  show "k = []" if "ptr t = rb_root s"
  proof (rule ccontr)
    assume "k \<noteq> []"
    then obtain a where a: "rb_root s = Some a" "a \<in> set (before k) \<union> set (after k)" using plug_ptr rp_root [OF assms] by metis
    then show False using that ptr_in [of t a] assms by (auto simp: rp_def)
  qed
qed (use assms in \<open>auto simp: rp_def\<close>)

lemma delete_fixup_loop_ok:
  assumes "rp s k t" "del_inv k t" "t = Lf \<longrightarrow> p = ktop k" "length k < fuel \<or> tcol t = RED \<and> 0 < fuel"
  shows "\<exists>s' T. delete_fixup_loop fuel (ptr t) p s = Inr s' \<and> rp s' [] T \<and> rbt T \<and> inord T = inord (plug k t)"
  using assms
proof (induction fuel arbitrary: s k t p)
  case (Suc fuel)
  have root: "ptr t = rb_root s \<longleftrightarrow> k = []" by (rule root_iff [OF Suc.prems(1)])
  have col: "color s (ptr t) = tcol t" by (rule rp_color [OF Suc.prems(1)])
  show ?case
  proof (cases "k = [] \<or> tcol t = RED")
    case True
    let ?s = "case ptr t of Some a \<Rightarrow> set_color a BLACK s | None \<Rightarrow> s"
    have "rp ?s k (paint BLACK t)" using Suc.prems(1) set_color_rp by (cases t) auto
    moreover have "rbt (plug k (paint BLACK t))"
      using True Suc.prems(2) unfolding rbt_plug by (cases t) (auto simp: del_inv_def)
    moreover have "inord (paint BLACK t) = inord t" by (cases t) auto
    moreover have "delete_fixup_loop (Suc fuel) (ptr t) p s = Inr ?s" using True root col by auto
    ultimately show ?thesis using rp_plug [of ?s k] by (intro exI [of _ ?s] exI [of _ "plug k (paint BLACK t)"]) (auto simp: inord_plug)
  next
    case False
    then obtain f k' where k: "k = f # k'" by (cases k) auto
    have tb: "tcol t = BLACK" using False Suc.prems(2) by (auto simp: del_inv_def)
    let ?q = "fentry f"
    have up: "(case ptr t of Some a \<Rightarrow> rb_up s a | None \<Rightarrow> p) = Some ?q"
      using Suc.prems(1,3) k by (cases t) (auto simp: rp_def)
    let ?m = "if ptr t = rb_left s ?q then delete_fix_left ?q s else delete_fix_right ?q s"
    have "del_step k t ?m"
    proof (cases f)
      case (FL q c w)
      then show ?thesis using delete_fix_left_step [of s q c w k' t] Suc.prems(1,2) tb k by (auto simp: rp_def)
    next
      case (FR w q c)
      have "w \<noteq> Lf" using Suc.prems(2) k FR by (auto simp: del_inv_def)
      then have "ptr t \<noteq> ptr w" using Suc.prems(1) k FR ptr_in [of t] ptr_in [of w] by (cases w) (auto simp: rp_def)
      moreover have "rb_left s q = ptr w" using Suc.prems(1) k FR by (simp add: rp_def)
      ultimately show ?thesis using delete_fix_right_step [of s w q c k' t] Suc.prems(1,2) tb k FR by auto
    qed
    then obtain s' k2 t' where m: "?m = Inr (ptr t', s')" and st: "t' \<noteq> Lf" "rp s' k2 t'" "inord (plug k2 t') = inord (plug k t)"
      "del_inv k2 t'" "length k2 < length k \<or> tcol t' = RED"
      unfolding del_step_def by blast
    have "delete_fixup_loop (Suc fuel) (ptr t) p s = delete_fixup_loop fuel (ptr t') (Some ?q) s'"
      using root col False tb up m by simp
    moreover have "length k2 < fuel \<or> tcol t' = RED \<and> 0 < fuel" using st(5) Suc.prems(4) tb k by auto
    ultimately show ?thesis using Suc.IH [OF st(2,4)] st(1,3) by simp
  qed
qed simp

lemma plug_append: "plug (k2 @ k) t = plug k (plug k2 t)"
  by (induction k2 arbitrary: t) auto

lemma rp_append: "rp s (k2 @ k) t \<longleftrightarrow> rp s k (plug k2 t)"
  using rp_plug [of s "k2 @ k" t] rp_plug [of s k "plug k2 t"] by (simp add: plug_append)

lemma ktop_append: "ktop (k2 @ k) = (if k2 = [] then ktop k else ktop k2)"
  by (cases k2) auto

lemma length_frames: "length k \<le> length (before k) + length (after k)"
  by (induction k rule: before.induct) auto

lemma find_entry: "z \<in> set (inord t) \<Longrightarrow> \<exists>k l c r. t = plug k (Nd l z c r)"
proof (induction t)
  case (Nd l a c r)
  consider "z = a" | "z \<in> set (inord l)" | "z \<in> set (inord r)" using Nd.prems by auto
  then show ?case
  proof cases
    case 1
    then show ?thesis by (intro exI [of _ "[]"]) simp
  next
    case 2
    then obtain k l' c' r' where "l = plug k (Nd l' z c' r')" using Nd.IH(1) by blast
    then show ?thesis by (intro exI [of _ "k @ [FL a c r]"]) (auto simp: plug_append)
  next
    case 3
    then obtain k l' c' r' where "r = plug k (Nd l' z c' r')" using Nd.IH(2) by blast
    then show ?thesis by (intro exI [of _ "k @ [FR l a c]"]) (auto simp: plug_append)
  qed
qed simp

lemma minimum_ok:
  assumes "rp s k t" "ptr t = Some a" "length (inord t) \<le> fuel"
  shows "\<exists>k2 y c yr. itree_minimum fuel a s = Inr y \<and> t = plug k2 (Nd Lf y c yr) \<and> before k2 = []"
  using assms
proof (induction t arbitrary: k a fuel)
  case (Nd l b c r)
  obtain n where n: "fuel = Suc n" using Nd.prems(3) by (cases fuel) auto
  have b: "a = b" "rb_left s b = ptr l" using rp_node(2) [OF Nd.prems(1)] Nd.prems(2) by simp_all
  show ?case
  proof (cases l)
    case Lf
    then show ?thesis using n b by (intro exI [of _ "[]"]) auto
  next
    case (Nd l' a' c' r')
    obtain k2 y cy yr where "itree_minimum n a' s = Inr y" "l = plug k2 (Nd Lf y cy yr)" "before k2 = []"
      using Nd.IH(1) [of "FL b c r # k" a' n] Nd.prems Nd n by (auto simp: refocus)
    moreover have "before (k2 @ [FL b c r]) = before k2" by (induction k2 rule: before.induct) auto
    moreover have "itree_minimum fuel a s = itree_minimum n a' s" using n b Nd by simp
    ultimately show ?thesis
      by (intro exI [of _ "k2 @ [FL b c r]"] exI [of _ y] exI [of _ cy] exI [of _ yr]) (simp add: plug_append)
  qed
qed simp

text \<open>Taking out an entry with at most one child.\<close>

lemma splice_rp:
  assumes r: "rp s k (Nd l y c q)" and lq: "l = Lf \<or> q = Lf"
  defines "ch \<equiv> if l \<noteq> Lf then l else q"
  shows "\<exists>s'. delete_splice y s = (ptr ch, ktop k, s') \<and> rp s' k ch \<and> rb_color s' y = c"
proof -
  note n = rp_node [OF r]
  define s1 where "s1 = (case ptr ch of Some a \<Rightarrow> set_up a (ktop k) s | None \<Rightarrow> s)"
  define s2 where "s2 = relink_left (ktop k) y (ptr ch) s1"
  have x: "(case rb_left s y of Some a \<Rightarrow> Some a | None \<Rightarrow> rb_right s y) = ptr ch" using n by (cases l) (auto simp: ch_def)
  have sub: "set (inord ch) \<subseteq> set (inord l) \<union> set (inord q)" by (auto simp: ch_def)
  have d: "distinct (before k @ inord (Nd l y c q) @ after k)" using r by (simp add: rp_def)
  have "delete_splice y s = (ptr ch, ktop k, s2)" using n(1) by (simp add: delete_splice_def x Let_def s1_def s2_def)
  moreover have "ctx s2 (ptr ch) k"
  proof (rule relink_left_ctx [where ?s0.0 = s and s = s1 and x = y and n = "ptr ch"])
    show "ctx s (Some y) k" using r by (simp add: rp_def)
    show "same_at s s1 a" if "a \<in> set (before k) \<union> set (after k)" for a
      using that d sub ptr_in [of ch a] by (auto simp: s1_def same_at_def split: option.splits)
  qed (use d in \<open>auto simp: s2_def s1_def same_at_def split: option.splits\<close>)
  moreover have "tr s2 (ktop k) ch"
  proof (rule tr_reparent [of s "Some y"])
    show "tr s (Some y) ch" "distinct (inord ch)" using r by (auto simp: rp_def ch_def)
    have "ktop k \<noteq> Some a" if "a \<in> set (inord ch)" for a using that d sub ktop_in [of k a] by auto
    then show "rb_left s2 a = rb_left s a \<and> rb_right s2 a = rb_right s a \<and> rb_color s2 a = rb_color s a" if "a \<in> set (inord ch)" for a
      using that by (auto simp: s2_def s1_def relink_left_def split: option.splits)
  qed (auto simp: s2_def s1_def split: option.splits)
  moreover have "rb_color s2 y = c" using n by (simp add: s2_def s1_def split: option.splits)
  moreover have "distinct (before k @ inord ch @ after k)" using d by (auto simp: ch_def)
  ultimately show ?thesis by (auto simp: rp_def)
qed

text \<open>Putting an entry that is not in the tree in the place of another.\<close>

lemma replace_rp:
  assumes r: "rp s k (Nd l z c q)" and y: "y \<notin> set (before k @ inord (Nd l z c q) @ after k)"
  shows "rp (delete_replace y z s) k (Nd l y c q)"
proof -
  note n = rp_node [OF r]
  have d: "distinct (before k @ inord (Nd l z c q) @ after k)" using r by (simp add: rp_def)
  define s1 where "s1 = relink_left (ktop k) z (Some y) s"
  define s2 where "s2 = (case ptr l of Some a \<Rightarrow> set_up a (Some y) s1 | None \<Rightarrow> s1)"
  define s3 where "s3 = (case ptr q of Some a \<Rightarrow> set_up a (Some y) s2 | None \<Rightarrow> s2)"
  define s4 where "s4 = set_color y c (set_right y (ptr q) (set_left y (ptr l) (set_up y (ktop k) s3)))"
  have kz: "ktop k \<noteq> Some z" "ktop k \<noteq> Some y" using d y ktop_in [of k] by auto
  have s1: "rb_left s1 e = rb_left s e" "rb_right s1 e = rb_right s e" if "ktop k \<noteq> Some e" for e
    using that by (auto simp: s1_def relink_left_def split: option.splits)
  have s3s: "rb_left s3 = rb_left s1" "rb_right s3 = rb_right s1" "rb_left s2 = rb_left s1" "rb_right s2 = rb_right s1" "rb_color s3 = rb_color s" "rb_root s3 = rb_root s1"
    "rb_up s3 e = (if ptr q = Some e \<or> ptr l = Some e then Some y else rb_up s e)" for e
    by (auto simp: s3_def s2_def s1_def split: option.splits)
  have z: "ptr l \<noteq> Some z" "ptr q \<noteq> Some z" "ptr l \<noteq> Some y" "ptr q \<noteq> Some y" using d y ptr_in [of l] ptr_in [of q] by auto
  have "delete_replace y z s = s4"
    using n s1 [OF kz(1)] z s3s(1-5) s3s(7) [of z] unfolding delete_replace_def Let_def s4_def s3_def [symmetric]
    by (simp add: s3_def s2_def s1_def split: option.splits)
  moreover have "ctx s4 (Some y) k"
  proof (rule relink_left_ctx [where ?s0.0 = s and s = s and x = z and n = "Some y"])
    show "ctx s (Some z) k" using r by (simp add: rp_def)
    show "same_at (relink_left (ktop k) z (Some y) s) s4 a" if "a \<in> set (before k) \<union> set (after k)" for a
      using that d y ptr_in [of l a] ptr_in [of q a] s3s by (auto simp: s4_def same_at_def s1_def)
  qed (use d y s3s in \<open>auto simp: s4_def s1_def same_at_def\<close>)
  moreover have sub: "rb_left s4 a = rb_left s a \<and> rb_right s4 a = rb_right s a \<and> rb_color s4 a = rb_color s a"
    if "a \<in> set (inord l) \<union> set (inord q)" for a
    using that d y s3s s1 [of a] ktop_in [of k a] by (auto simp: s4_def)
  have "tr s4 (Some y) l"
  proof (rule tr_reparent [of s "Some z"])
    show "tr s (Some z) l" "distinct (inord l)" using r by (auto simp: rp_def)
    show "rb_up s4 a = (if ptr l = Some a then Some y else rb_up s a)" if "a \<in> set (inord l)" for a
      using that d y s3s(7) [of a] ptr_in [of q a] by (auto simp: s4_def)
  qed (use sub in blast)
  moreover have "tr s4 (Some y) q"
  proof (rule tr_reparent [of s "Some z"])
    show "tr s (Some z) q" "distinct (inord q)" using r by (auto simp: rp_def)
    show "rb_up s4 a = (if ptr q = Some a then Some y else rb_up s a)" if "a \<in> set (inord q)" for a
      using that d y s3s(7) [of a] ptr_in [of l a] by (auto simp: s4_def)
  qed (use sub in blast)
  moreover have "rb_up s4 y = ktop k" "rb_left s4 y = ptr l" "rb_right s4 y = ptr q" "rb_color s4 y = c" by (simp_all add: s4_def)
  ultimately show ?thesis using d y by (auto simp: rp_def)
qed

lemma kinv_swap: "kinv (k2 @ FR l z c # k) n = kinv (k2 @ FR l y c # k) n"
proof -
  have "kcol (k2 @ FR l z c # k) = kcol (k2 @ FR l y c # k)" for k2 by (cases k2) simp_all
  then show ?thesis by (induction k2 arbitrary: n) auto
qed

lemma kcol_swap: "kcol (k2 @ FR l z c # k) = kcol (k2 @ FR l y c # k)"
  by (cases k2) simp_all

text \<open>After the entry is out, a red one leaves the tree in order and a black one is made up for by the loop.\<close>

lemma fixup_ok:
  assumes r: "rp s K t" and b: "rbt (plug K0 (Nd l y c q))" "t = l \<and> q = Lf \<or> t = q \<and> l = Lf" and p: "p = ktop K" and f: "length K < fuel"
    and K: "\<And>n. kinv K n = kinv K0 n" "kcol K = kcol K0" "K = [] \<longleftrightarrow> K0 = []"
  shows "\<exists>s' T. (if c = BLACK then itree_delete_fixup fuel (ptr t) p s else Inr s) = Inr s' \<and> rp s' [] T \<and> rbt T \<and> inord T = inord (plug K t)"
proof (cases "c = BLACK")
  case True
  have "kinv K0 (Suc (bh l)) \<and> invc l \<and> invc q \<and> bh l = bh q \<and> invh l \<and> invh q" using b(1) True unfolding rbt_plug by auto
  then have t: "kinv K (Suc (bh t))" "invc t" "invh t" using b(2) K(1) [of "Suc (bh t)"] by auto
  then have "invc (paint BLACK t)" by (cases t) auto
  then have "del_inv K t" using t invc_tcol by (auto simp: del_inv_def)
  moreover have "itree_delete_fixup fuel (ptr t) p s = delete_fixup_loop fuel (ptr t) p s"
    using r p by (cases t) (auto simp: rp_def itree_delete_fixup_def)
  ultimately show ?thesis using delete_fixup_loop_ok [OF r, of p fuel] p f True by simp
next
  case False
  then have "c = RED" using b(1) unfolding rbt_plug by auto
  then have "kinv K0 (bh l) \<and> invc l \<and> invc q \<and> bh l = bh q \<and> invh l \<and> invh q \<and> tcol l = BLACK \<and> tcol q = BLACK"
    using b(1) unfolding rbt_plug by auto
  then have "kinv K (bh t)" "invc t" "invh t" "tcol t = BLACK" using b(2) K(1) [of "bh t"] by auto
  then have "rbt (plug K t)" unfolding rbt_plug by simp
  then show ?thesis using False r rp_plug [of s K t] by auto
qed

lemma remove1_mid: "distinct (xs @ z # ys) \<Longrightarrow> remove1 z (xs @ z # ys) = xs @ ys"
  by (simp add: remove1_append)

lemma itree_delete_ok:
  assumes r: "rp s [] T" and b: "rbt T" and z: "z \<in> set (inord T)" and f: "length (inord T) < fuel"
  shows "\<exists>s' T'. itree_delete fuel z s = Inr s' \<and> rp s' [] T' \<and> rbt T' \<and> inord T' = remove1 z (inord T)"
proof -
  obtain k l c q where T: "T = plug k (Nd l z c q)" using find_entry [OF z] by blast
  have rk: "rp s k (Nd l z c q)" using r T rp_plug [of s k] by simp
  note n = rp_node [OF rk]
  have d: "distinct (before k @ inord (Nd l z c q) @ after k)" using rk by (simp add: rp_def)
  have lk: "length k < length (inord T)" using length_frames [of k] T by (simp add: inord_plug)
  have rem: "remove1 z (inord T) = before k @ inord l @ inord q @ after k"
    using remove1_mid [of "before k @ inord l" z "inord q @ after k"] d T by (simp add: inord_plug)
  show ?thesis
  proof (cases "l = Lf \<or> q = Lf")
    case True
    let ?ch = "if l \<noteq> Lf then l else q"
    obtain s1 where s1: "delete_splice z s = (ptr ?ch, ktop k, s1)" "rp s1 k ?ch" "rb_color s1 z = c" using splice_rp [OF rk True] by auto
    have "\<exists>s' T'. (if c = BLACK then itree_delete_fixup fuel (ptr ?ch) (ktop k) s1 else Inr s1) = Inr s' \<and> rp s' [] T' \<and> rbt T' \<and> inord T' = inord (plug k ?ch)"
      by (rule fixup_ok [OF s1(2) b [unfolded T]]) (use True f lk in auto)
    moreover have "itree_delete fuel z s = (if c = BLACK then itree_delete_fixup fuel (ptr ?ch) (ktop k) s1 else Inr s1)"
      using True n s1(1,3) by (auto simp: itree_delete_def)
    moreover have "inord (plug k ?ch) = remove1 z (inord T)" using True rem by (auto simp: inord_plug)
    ultimately show ?thesis by metis
  next
    case False
    then obtain a where a: "ptr q = Some a" and lz: "ptr l \<noteq> None" by (cases q; cases l) auto
    obtain k2 y cy yr where m: "itree_minimum fuel a s = Inr y" and q: "q = plug k2 (Nd Lf y cy yr)" and k2: "before k2 = []"
      using minimum_ok [of s "FR l z c # k" q a fuel] rk a f T by (auto simp: refocus inord_plug)
    let ?K = "k2 @ FR l z c # k" and ?K' = "k2 @ FR l y c # k"
    have rK: "rp s ?K (Nd Lf y cy yr)" using rk q by (simp add: rp_append refocus)
    obtain s1 where s1: "delete_splice y s = (ptr yr, ktop ?K, s1)" "rp s1 ?K yr" "rb_color s1 y = cy" using splice_rp [OF rK] by auto
    have iq: "inord q = y # inord yr @ after k2" using q k2 by (simp add: inord_plug)
    have yz: "y \<noteq> z" using d iq by auto
    have r1: "rp s1 k (Nd l z c (plug k2 yr))" using s1(2) by (simp add: rp_append refocus)
    have "y \<notin> set (before k @ inord (Nd l z c (plug k2 yr)) @ after k)" using d iq k2 by (auto simp: inord_plug)
    from replace_rp [OF r1 this] have r2: "rp (delete_replace y z s1) ?K' yr" by (simp add: rp_append refocus)
    have "ktop k2 \<noteq> Some z" using ktop_in [of k2 z] k2 d iq by auto
    then have p: "(if ktop ?K = Some z then Some y else ktop ?K) = ktop ?K'" by (auto simp: ktop_append)
    let ?e = "if cy = BLACK then itree_delete_fixup fuel (ptr yr) (ktop ?K') (delete_replace y z s1) else Inr (delete_replace y z s1)"
    have "length k2 \<le> length (after k2)" using length_frames [of k2] k2 by simp
    then have len: "length ?K' < fuel" using lk f T iq length_frames [of k] by (simp add: inord_plug)
    have "rbt (plug ?K (Nd Lf y cy yr))" using b T q by (simp add: plug_append)
    then have "\<exists>s' T'. ?e = Inr s' \<and> rp s' [] T' \<and> rbt T' \<and> inord T' = inord (plug ?K' yr)"
      by (rule fixup_ok [OF r2]) (use len kinv_swap kcol_swap in auto)
    moreover have "itree_delete fuel z s = ?e"
      using n a lz m s1(1,3) yz p by (simp add: itree_delete_def itree_successor_def)
    moreover have "inord (plug ?K' yr) = remove1 z (inord T)" using rem iq k2 by (simp add: plug_append inord_plug)
    ultimately show ?thesis by metis
  qed
qed

end
