(* ===== verification/Itree_Walk.thy ===== *)
theory Itree_Walk
  imports Itree_Delete
begin

text \<open>
  The other operations of \<open>async/itree.C\<close> and \<open>async/itree.h\<close> on a red-black tree: traversal, searches, the check,
  the freeing of all entries; and the properties of the trees that insertions and removals make.
\<close>

section \<open>Walks over the tree\<close>

lemma first_loop_ok:
  "rp s k t \<Longrightarrow> length (inord t) < fuel \<Longrightarrow> first_loop fuel (ptr t) s = Inr (case inord t of [] \<Rightarrow> None | x # _ \<Rightarrow> Some x)"
proof (induction t arbitrary: k fuel)
  case Lf
  then show ?case by (cases fuel) auto
next
  case (Nd l a c r)
  obtain n where n: "fuel = Suc n" using Nd.prems(2) by (cases fuel) auto
  have b: "rb_left s a = ptr l" using rp_node(2) [OF Nd.prems(1)] .
  show ?case
  proof (cases l)
    case Lf
    then show ?thesis using n b by simp
  next
    case (Nd l' a' c' r')
    have "first_loop n (ptr l) s = Inr (case inord l of [] \<Rightarrow> None | x # _ \<Rightarrow> Some x)"
      using Nd.IH(1) [of "FL a c r # k" n] Nd.prems n by (simp add: refocus)
    then show ?thesis using n b Nd by (auto simp: append_eq_Cons_conv split: list.splits)
  qed
qed

lemma succ_up_ok:
  "rp s k t \<Longrightarrow> ptr t = Some x \<Longrightarrow> length k < fuel \<Longrightarrow> succ_up fuel x (ktop k) s = Inr (case after k of [] \<Rightarrow> None | y # _ \<Rightarrow> Some y)"
proof (induction fuel arbitrary: k t x)
  case (Suc fuel)
  show ?case
  proof (cases k rule: before.cases)
    case (2 a c r k')
    have "rb_right s a = ptr r" "ptr r \<noteq> Some x" using Suc.prems(1,2) 2 ptr_in [of r x] ptr_in [of t x] by (auto simp: rp_def)
    then show ?thesis using 2 by simp
  next
    case (3 l a c k')
    have "rb_right s a = Some x" "rb_up s a = ktop k'" "rp s k' (Nd l a c t)" using Suc.prems(1,2) 3 by (auto simp: rp_def)
    then show ?thesis using 3 Suc.IH [of k' "Nd l a c t" a] Suc.prems(3) by simp
  qed (use Suc.prems in simp)
qed simp

lemma minimum_hd:
  assumes "rp s k t" "ptr t = Some a" "length (inord t) \<le> fuel"
  shows "itree_minimum fuel a s = Inr (hd (inord t))"
  using minimum_ok [OF assms] by (auto simp: inord_plug)

lemma successor_ok:
  assumes r: "rp s [] T" and i: "inord T = xs @ x # ys" and f: "length (inord T) < fuel"
  shows "itree_successor fuel x s = Inr (case ys of [] \<Rightarrow> None | y # _ \<Rightarrow> Some y)"
proof -
  obtain k l c q where T: "T = plug k (Nd l x c q)" using find_entry [of x T] i by auto
  have rk: "rp s k (Nd l x c q)" using r T rp_plug [of s k] by simp
  have "(before k @ inord l) @ x # (inord q @ after k) = xs @ x # ys" using i T by (simp add: inord_plug)
  moreover have "x \<notin> set (before k @ inord l)" "x \<notin> set (inord q @ after k)" using rk by (auto simp: rp_def)
  ultimately have ys: "ys = inord q @ after k" using append_Cons_eq_iff by metis
  have lk: "length k < fuel" "length (inord q) \<le> fuel" using length_frames [of k] T f by (simp_all add: inord_plug)
  show ?thesis
  proof (cases q)
    case Lf
    then show ?thesis using succ_up_ok [OF rk, of x fuel] lk ys rp_node(1,3) [OF rk] by (simp add: itree_successor_def)
  next
    case (Nd q1 a c' q2)
    have "itree_minimum fuel a s = Inr (hd (inord q))"
      using minimum_hd [of s "FR l x c # k" q a fuel] rk Nd lk by (simp add: refocus)
    moreover obtain y zs where "inord q = y # zs" using Nd by (cases "inord q") auto
    moreover have "rb_right s x = Some a" using rp_node(3) [OF rk] Nd by simp
    ultimately show ?thesis using ys by (simp add: itree_successor_def)
  qed
qed

text \<open>The predecessor is the successor in the mirror image.\<close>

lemma predecessor_mir: "itree_predecessor fuel x s = itree_successor fuel x (mir s)"
proof -
  have "itree_maximum fuel y s = itree_minimum fuel y (mir s)" for y by (induction fuel arbitrary: y) (auto split: option.splits)
  moreover have "pred_up fuel x y s = succ_up fuel x y (mir s)" for x y by (induction fuel arbitrary: x y) (auto split: option.splits)
  ultimately show ?thesis by (simp add: itree_predecessor_def itree_successor_def split: option.split)
qed

lemma predecessor_ok:
  assumes "rp s [] T" "inord T = xs @ x # ys" "length (inord T) < fuel"
  shows "itree_predecessor fuel x s = Inr (case rev xs of [] \<Rightarrow> None | y # _ \<Rightarrow> Some y)"
  using successor_ok [of "mir s" "mirt T" "rev ys" x "rev xs" fuel] assms rp_mir [of s "[]" T] by (simp add: predecessor_mir)

lemma traverse_loop_ok:
  assumes r: "rp s [] T" and f: "length (inord T) < fuel"
  shows "inord T = xs @ ys \<Longrightarrow> length ys < turns \<Longrightarrow> traverse_loop fuel turns (case ys of [] \<Rightarrow> None | y # _ \<Rightarrow> Some y) s = Inr ys"
proof (induction ys arbitrary: xs turns)
  case Nil
  then show ?case by (cases turns) auto
next
  case (Cons y ys)
  obtain n where n: "turns = Suc n" using Cons.prems(2) by (cases turns) auto
  have "itree_successor fuel y s = Inr (case ys of [] \<Rightarrow> None | y # _ \<Rightarrow> Some y)" by (rule successor_ok [OF r Cons.prems(1) f])
  moreover have "traverse_loop fuel n (case ys of [] \<Rightarrow> None | y # _ \<Rightarrow> Some y) s = Inr ys"
    using Cons.IH [of "xs @ [y]" n] Cons.prems n by simp
  ultimately show ?case using n by simp
qed

lemma traverse_ok:
  assumes "rp s [] T" "length (inord T) < fuel"
  shows "itree_traverse fuel s = Inr (inord T)"
  using first_loop_ok [OF assms] traverse_loop_ok [OF assms, of "[]" "inord T" fuel] assms rp_root [OF assms(1)]
  by (simp add: itree_traverse_def itree_first_def)

section \<open>Searches\<close>

lemma find_append: "find P (xs @ ys) = (case find P xs of None \<Rightarrow> find P ys | Some a \<Rightarrow> Some a)"
  by (induction xs) auto

text \<open>The sign of the callback of a search does not increase along the tree.\<close>

lemma search_loop_ok:
  assumes "rp s k t" "length (inord t) < fuel" "sorted_wrt (\<lambda>a b. sgn (cb a) \<ge> sgn (cb b)) (inord t)"
  shows "search_loop fuel cb (ptr t) ret s = Inr (case find (\<lambda>a. cb a = 0) (inord t) of None \<Rightarrow> ret | Some a \<Rightarrow> Some a)"
  using assms
proof (induction t arbitrary: k fuel ret)
  case Lf
  then show ?case by (cases fuel) auto
next
  case (Nd l a c r)
  obtain n where n: "fuel = Suc n" using Nd.prems(2) by (cases fuel) auto
  note b = rp_node(2,3) [OF Nd.prems(1)]
  have L: "search_loop n cb (ptr l) ret' s = Inr (case find (\<lambda>a. cb a = 0) (inord l) of None \<Rightarrow> ret' | Some a \<Rightarrow> Some a)" for ret'
    using Nd.IH(1) [of "FL a c r # k" n] Nd.prems n by (simp add: refocus sorted_wrt_append)
  have R: "search_loop n cb (ptr r) ret' s = Inr (case find (\<lambda>a. cb a = 0) (inord r) of None \<Rightarrow> ret' | Some a \<Rightarrow> Some a)" for ret'
    using Nd.IH(2) [of "FR l a c # k" n] Nd.prems n by (simp add: refocus sorted_wrt_append)
  have sl: "x \<in> set (inord l) \<Longrightarrow> sgn (cb x) \<ge> sgn (cb a)" and sr: "x \<in> set (inord r) \<Longrightarrow> sgn (cb a) \<ge> sgn (cb x)" for x
    using Nd.prems(3) by (auto simp: sorted_wrt_append)
  have nl: "find (\<lambda>a. cb a = 0) (inord l) = None" if "cb a > 0" using that sl by (force simp: find_None_iff sgn_if split: if_splits)
  have nr: "find (\<lambda>a. cb a = 0) (inord r) = None" if "cb a < 0" using that sr by (force simp: find_None_iff sgn_if split: if_splits)
  consider "cb a < 0" | "cb a > 0" | "cb a = 0" by linarith
  then show ?case by cases (use n b L R nl nr in \<open>auto simp: find_append split: option.splits\<close>)
qed

lemma lower_bound_loop_ok:
  assumes "rp s k t" "length (inord t) < fuel" "sorted_wrt (\<lambda>a b. sgn (cb a) \<ge> sgn (cb b)) (inord t)"
  shows "lower_bound_loop fuel cb (ptr t) ret s = Inr (case find (\<lambda>a. cb a \<le> 0) (inord t) of None \<Rightarrow> ret | Some a \<Rightarrow> Some a)"
  using assms
proof (induction t arbitrary: k fuel ret)
  case Lf
  then show ?case by (cases fuel) auto
next
  case (Nd l a c r)
  obtain n where n: "fuel = Suc n" using Nd.prems(2) by (cases fuel) auto
  note b = rp_node(2,3) [OF Nd.prems(1)]
  have L: "lower_bound_loop n cb (ptr l) ret' s = Inr (case find (\<lambda>a. cb a \<le> 0) (inord l) of None \<Rightarrow> ret' | Some a \<Rightarrow> Some a)" for ret'
    using Nd.IH(1) [of "FL a c r # k" n] Nd.prems n by (simp add: refocus sorted_wrt_append)
  have R: "lower_bound_loop n cb (ptr r) ret' s = Inr (case find (\<lambda>a. cb a \<le> 0) (inord r) of None \<Rightarrow> ret' | Some a \<Rightarrow> Some a)" for ret'
    using Nd.IH(2) [of "FR l a c # k" n] Nd.prems n by (simp add: refocus sorted_wrt_append)
  have sl: "x \<in> set (inord l) \<Longrightarrow> sgn (cb x) \<ge> sgn (cb a)" for x using Nd.prems(3) by (auto simp: sorted_wrt_append)
  have nl: "find (\<lambda>a. cb a \<le> 0) (inord l) = None" if "cb a > 0" using that sl by (force simp: find_None_iff sgn_if split: if_splits)
  show ?case by (cases "cb a \<le> 0") (use n b L R nl in \<open>auto simp: find_append split: option.splits\<close>)
qed

lemma upper_bound_mir: "upper_bound_loop fuel cb n ret s = lower_bound_loop fuel (\<lambda>a. - cb a) n ret (mir s)"
  by (induction fuel arbitrary: n ret) (auto simp: Let_def split: option.splits)

lemma upper_bound_loop_ok:
  assumes "rp s [] t" "length (inord t) < fuel" "sorted_wrt (\<lambda>a b. sgn (cb a) \<ge> sgn (cb b)) (inord t)"
  shows "upper_bound_loop fuel cb (ptr t) None s = Inr (find (\<lambda>a. cb a \<ge> 0) (rev (inord t)))"
proof -
  have "rp (mir s) [] (mirt t)" using assms(1) rp_mir [of s "[]" t] by simp
  moreover have "sorted_wrt (\<lambda>a b. sgn (- cb a) \<ge> sgn (- cb b)) (inord (mirt t))" using assms(3) by (simp add: sorted_wrt_rev sgn_minus)
  ultimately show ?thesis using lower_bound_loop_ok [of "mir s" "[]" "mirt t" fuel "\<lambda>a. - cb a" None] assms(2)
    by (simp add: upper_bound_mir split: option.splits)
qed

section \<open>The check\<close>

lemma left_blacks_ok:
  "rp s k t \<Longrightarrow> length (inord t) < fuel \<Longrightarrow>
   left_blacks fuel (ptr t) b s = Inr (if t = Lf then b else b + int (bh t) + (if tcol t = BLACK then 0 else 1))"
proof (induction t arbitrary: k fuel b)
  case Lf
  then show ?case by (cases fuel) auto
next
  case (Nd l a c r)
  obtain n where n: "fuel = Suc n" using Nd.prems(2) by (cases fuel) auto
  note b = rp_node(2,5) [OF Nd.prems(1)]
  have "left_blacks n (ptr l) b s = Inr (if l = Lf then b else b + int (bh l) + (if tcol l = BLACK then 0 else 1))" for b
    using Nd.IH(1) [of "FL a c r # k" n] Nd.prems n by (simp add: refocus)
  then show ?case using n b by (cases l) auto
qed

lemma check_node_ok:
  assumes "rp s k t" "invc t" "invh t" "cmp_sorted cmp (inord t)" "length (inord t) < fuel" "lbd = bd + int (bh t) + 1"
    "\<And>b x. low = Some b \<Longrightarrow> x \<in> set (inord t) \<Longrightarrow> cmp b x \<le> 0" "\<And>b x. high = Some b \<Longrightarrow> x \<in> set (inord t) \<Longrightarrow> cmp x b \<le> 0"
  shows "itree_check_node fuel cmp (ptr t) low high bd lbd s = Inr ()"
  using assms
proof (induction t arbitrary: k fuel bd low high)
  case Lf
  then show ?case by (cases fuel) (auto simp: color_def)
next
  case (Nd l a c r)
  obtain n where n: "fuel = Suc n" using Nd.prems(5) by (cases fuel) auto
  note b = rp_node [OF Nd.prems(1)]
  let ?bd = "if c = BLACK then bd + 1 else bd"
  have srt: "cmp_sorted cmp (inord l)" "cmp_sorted cmp (inord r)" "\<And>x. x \<in> set (inord l) \<Longrightarrow> cmp x a \<le> 0" "\<And>x. x \<in> set (inord r) \<Longrightarrow> cmp a x \<le> 0"
    using Nd.prems(4) by (auto simp: cmp_sorted_def sorted_wrt_append)
  have L: "itree_check_node n cmp (ptr l) low (Some a) ?bd lbd s = Inr ()"
    by (rule Nd.IH(1) [of "FL a c r # k"]) (use Nd.prems n srt in \<open>auto simp: refocus\<close>)
  have R: "itree_check_node n cmp (ptr r) (Some a) high ?bd lbd s = Inr ()"
    by (rule Nd.IH(2) [of "FR l a c # k"]) (use Nd.prems n srt in \<open>auto simp: refocus\<close>)
  have up: "case ptr l of None \<Rightarrow> True | Some b \<Rightarrow> rb_up s b = Some a" "case ptr r of None \<Rightarrow> True | Some b \<Rightarrow> rb_up s b = Some a"
    using Nd.prems(1) by (cases l; simp add: rp_def) (cases r; use Nd.prems(1) in \<open>simp add: rp_def\<close>)
  have lh: "case low of None \<Rightarrow> True | Some b \<Rightarrow> cmp b a \<le> 0" "case high of None \<Rightarrow> True | Some b \<Rightarrow> cmp a b \<le> 0"
    using Nd.prems(7,8) [of _ a] by (auto split: option.splits)
  have ca: "color s (Some a) = c" using b by (simp add: color_def)
  have cc: "c = BLACK \<or> c = RED" "c = BLACK \<or> tcol l = BLACK \<and> tcol r = BLACK" using Nd.prems(2) by auto
  show ?case unfolding n using up lh L R cc b ca by (simp add: Let_def)
qed

lemma itree_check_ok:
  assumes "rp s [] T" "rbt T" "cmp_sorted cmp (inord T)" "length (inord T) < fuel"
  shows "itree_check fuel cmp s = Inr ()"
proof -
  have "itree_check_node fuel cmp (ptr T) None None (- 1) (int (bh T)) s = Inr ()"
    by (rule check_node_ok) (use assms in \<open>auto simp: rbt_def\<close>)
  moreover have "left_blacks fuel (ptr T) 0 s = Inr (int (bh T))" using left_blacks_ok [OF assms(1,4), of 0] assms(2) by (auto simp: rbt_def)
  moreover have "case ptr T of None \<Rightarrow> True | Some a \<Rightarrow> rb_up s a = None" using assms(1) by (cases T) (auto simp: rp_def)
  moreover have "color s (ptr T) = BLACK" using rp_color [OF assms(1)] assms(2) by (simp add: rbt_def)
  ultimately show ?thesis using rp_root [OF assms(1)] by (simp add: itree_check_def)
qed

section \<open>Freeing all entries\<close>

fun pord :: "itr \<Rightarrow> nat list" where
  "pord Lf = []"
| "pord (Nd l a c r) = pord l @ pord r @ [a]"

fun pbefore :: "frame list \<Rightarrow> nat list" where
  "pbefore [] = []"
| "pbefore (FL a c r # k) = pbefore k"
| "pbefore (FR l a c # k) = pbefore k @ pord l"

fun pafter :: "frame list \<Rightarrow> nat list" where
  "pafter [] = []"
| "pafter (FL a c r # k) = pord r @ a # pafter k"
| "pafter (FR l a c # k) = a # pafter k"

lemma pord_plug: "pord (plug k t) = pbefore k @ pord t @ pafter k"
  by (induction k arbitrary: t rule: before.induct) simp_all

lemma pord_set [simp]: "set (pord t) = set (inord t)" "length (pord t) = length (inord t)"
  by (induction t) auto

lemma pord_distinct: "distinct (inord t) \<Longrightarrow> distinct (pord t)"
  by (simp add: card_distinct distinct_card [symmetric])

lemma min_postorder_ok:
  assumes "rp s k t" "ptr t = Some a" "length (inord t) \<le> fuel" "set dead \<inter> set (inord t) = {}"
  shows "min_postorder fuel dead a s = Inr (hd (pord t))"
  using assms
proof (induction t arbitrary: k a fuel)
  case (Nd l b c r)
  obtain n where n: "fuel = Suc n" using Nd.prems(3) by (cases fuel) auto
  have b: "a = b" "rb_left s b = ptr l" "rb_right s b = ptr r" "b \<notin> set dead" using rp_node [OF Nd.prems(1)] Nd.prems by auto
  show ?case
  proof (cases l)
    case (Nd l' a' c' r')
    have "min_postorder n dead a' s = Inr (hd (pord l))"
      using Nd.IH(1) [of "FL b c r # k" a' n] Nd.prems Nd n by (auto simp: refocus)
    moreover have "rb_left s b = Some a'" "pord l \<noteq> []" using b Nd by auto
    ultimately show ?thesis using n b(1,4) by (simp add: rdl_def)
  next
    case l: Lf
    show ?thesis
    proof (cases r)
      case (Nd l' a' c' r')
      have "min_postorder n dead a' s = Inr (hd (pord r))"
        using Nd.IH(2) [of "FR l b c # k" a' n] Nd.prems Nd n by (auto simp: refocus)
      moreover have "rb_right s b = Some a'" "pord r \<noteq> []" using b Nd by auto
      ultimately show ?thesis using n b(1,2,4) l by (simp add: rdl_def)
    qed (use n b l in \<open>simp add: rdl_def\<close>)
  qed
qed simp

lemma next_postorder_ok:
  assumes r: "rp s k t" "ptr t = Some a" and f: "length (inord (plug k t)) \<le> fuel" and d: "a \<notin> set dead" "set dead \<inter> set (pafter k) = {}"
  shows "next_postorder fuel dead a s = Inr (case pafter k of [] \<Rightarrow> None | y # _ \<Rightarrow> Some y)"
proof -
  have up: "rb_up s a = ktop k" using r by (cases t) (auto simp: rp_def)
  show ?thesis
  proof (cases k rule: before.cases)
    case 1
    then show ?thesis using up d by (simp add: next_postorder_def rdl_def)
  next
    case (2 b c q k')
    have q: "rb_right s b = ptr q" "ptr q \<noteq> Some a" using r 2 ptr_in [of q a] ptr_in [of t a] by (auto simp: rp_def)
    have b: "b \<notin> set dead" using d 2 by auto
    show ?thesis
    proof (cases q)
      case Lf
      then show ?thesis using 2 up d(1) b q by (simp add: next_postorder_def rdl_def)
    next
      case (Nd q1 e c' q2)
      have "rp s (FR t b c # k') q" using r(1) 2 by (simp add: refocus)
      then have "min_postorder fuel dead e s = Inr (hd (pord q))"
        by (rule min_postorder_ok) (use Nd f 2 d in \<open>auto simp: inord_plug\<close>)
      moreover obtain y ys where "pord q = y # ys" using Nd by (cases "pord q") auto
      ultimately show ?thesis using 2 up d(1) b q Nd by (simp add: next_postorder_def rdl_def)
    qed
  next
    case (3 l b c k')
    have "rb_right s b = Some a" "b \<notin> set dead" using r d 3 by (auto simp: rp_def)
    then show ?thesis using 3 up d(1) by (simp add: next_postorder_def rdl_def)
  qed
qed

lemma deleteall_loop_ok:
  assumes r: "rp s [] T" and f: "length (inord T) \<le> fuel"
  shows "pord T = xs @ ys \<Longrightarrow> length ys < turns \<Longrightarrow>
    deleteall_loop fuel turns (rev xs) (case ys of [] \<Rightarrow> None | y # _ \<Rightarrow> Some y) s = Inr (rev (pord T), itree_clear s)"
proof (induction ys arbitrary: xs turns)
  case Nil
  then show ?case by (cases turns) auto
next
  case (Cons y ys)
  obtain n where n: "turns = Suc n" using Cons.prems(2) by (cases turns) auto
  have dp: "distinct (xs @ y # ys)" using r pord_distinct [of T] Cons.prems(1) by (simp add: rp_def)
  have "y \<in> set (inord T)" using Cons.prems(1) pord_set(1) [of T] by auto
  then obtain k l c q where T: "T = plug k (Nd l y c q)" using find_entry by blast
  have "(pbefore k @ pord l @ pord q) @ y # pafter k = xs @ y # ys" using Cons.prems(1) T by (simp add: pord_plug)
  then have p: "pafter k = ys" using dp by (metis append_Cons_eq_iff distinct.simps(2) distinct_append not_distinct_conv_prefix)
  have "next_postorder fuel (rev xs) y s = Inr (case pafter k of [] \<Rightarrow> None | y # _ \<Rightarrow> Some y)"
    by (rule next_postorder_ok [of s k "Nd l y c q"]) (use r f T dp p rp_plug [of s k] in auto)
  moreover have "deleteall_loop fuel n (rev (xs @ [y])) (case ys of [] \<Rightarrow> None | y # _ \<Rightarrow> Some y) s = Inr (rev (pord T), itree_clear s)"
    using Cons.IH [of "xs @ [y]" n] Cons.prems n by simp
  ultimately show ?case using n p dp by simp
qed

lemma deleteall_tree:
  assumes r: "rp s [] T" and f: "length (inord T) < fuel"
  shows "deleteall fuel s = Inr (rev (pord T), itree_clear s)"
proof (cases T)
  case Lf
  then show ?thesis using deleteall_loop_ok [OF r, of fuel "[]" "[]" fuel] f rp_root [OF r] by (simp add: deleteall_def)
next
  case (Nd l a c q)
  have "min_postorder fuel [] a s = Inr (hd (pord T))" by (rule min_postorder_ok [OF r]) (use Nd f in auto)
  moreover obtain y ys where y: "pord T = y # ys" using Nd by (cases "pord T") auto
  moreover have "length ys < fuel" using f y pord_set(2) [of T] by simp
  ultimately show ?thesis using deleteall_loop_ok [OF r, of fuel "[]" "pord T" fuel] f rp_root [OF r] Nd
    by (simp add: deleteall_def del: pord.simps) (use pord_set(2) [of T] y in simp)
qed

lemma deleteall_rec_ok:
  assumes "rp s k t" "length (inord t) < fuel" "set dead \<inter> set (inord t) = {}"
  shows "deleteall_rec fuel dead (ptr t) s = Inr (rev (pord t) @ dead)"
  using assms
proof (induction t arbitrary: k fuel dead)
  case Lf
  then show ?case by (cases fuel) auto
next
  case (Nd l a c r)
  obtain n where n: "fuel = Suc n" using Nd.prems(2) by (cases fuel) auto
  have d: "distinct (inord l @ a # inord r)" using Nd.prems(1) by (auto simp: rp_def)
  have "deleteall_rec n dead (ptr l) s = Inr (rev (pord l) @ dead)"
    using Nd.IH(1) [of "FL a c r # k" n dead] Nd.prems n by (auto simp: refocus)
  moreover have "deleteall_rec n (rev (pord l) @ dead) (ptr r) s = Inr (rev (pord r) @ rev (pord l) @ dead)"
    using Nd.IH(2) [of "FR l a c # k" n "rev (pord l) @ dead"] Nd.prems n d by (auto simp: refocus)
  ultimately show ?case using n rp_node(2,3) [OF Nd.prems(1)] Nd.prems(3) d by (simp add: rdl_def)
qed

section \<open>Sequences of operations\<close>

datatype itop = TIns nat | TDel nat

fun run_itops :: "nat \<Rightarrow> (nat \<Rightarrow> nat \<Rightarrow> int) \<Rightarrow> itop list \<Rightarrow> itree \<Rightarrow> itree res" where
  "run_itops fuel cmp [] t = Inr t"
| "run_itops fuel cmp (TIns z # ops) t = bindR (itree_insert fuel cmp z t) (run_itops fuel cmp ops)"
| "run_itops fuel cmp (TDel z # ops) t = bindR (itree_delete fuel z t) (run_itops fuel cmp ops)"

text \<open>The same on a sorted list. An entry is inserted only when it is not in the tree, and removed only when it is.\<close>

fun spec_itops :: "(nat \<Rightarrow> nat \<Rightarrow> int) \<Rightarrow> itop list \<Rightarrow> nat list \<Rightarrow> nat list option" where
  "spec_itops cmp [] xs = Some xs"
| "spec_itops cmp (TIns z # ops) xs = (if z \<in> set xs then None else spec_itops cmp ops (ins_list cmp z xs))"
| "spec_itops cmp (TDel z # ops) xs = (if z \<in> set xs then spec_itops cmp ops (remove1 z xs) else None)"

lemma ins_list_length [simp]: "length (ins_list cmp z xs) = Suc (length xs)"
  unfolding ins_list_def by (metis add_Suc_right length_Cons length_append takeWhile_dropWhile_id)

lemma sorted_wrt_rem1: "sorted_wrt P xs \<Longrightarrow> sorted_wrt P (remove1 z xs)"
proof (induction xs)
  case (Cons a xs)
  have "set (remove1 z xs) \<subseteq> set xs" by (rule set_remove1_subset)
  then show ?case using Cons by auto
qed simp

context cmp_order
begin

lemma run_itops_ok:
  "spec_itops cmp ops xs = Some ys \<Longrightarrow> rp s [] T \<Longrightarrow> rbt T \<Longrightarrow> inord T = xs \<Longrightarrow> cmp_sorted cmp xs \<Longrightarrow> length xs + length ops < fuel \<Longrightarrow>
   \<exists>s' T'. run_itops fuel cmp ops s = Inr s' \<and> rp s' [] T' \<and> rbt T' \<and> inord T' = ys \<and> cmp_sorted cmp ys \<and> length ys < fuel"
proof (induction ops arbitrary: s T xs)
  case (Cons o' ops)
  show ?case
  proof (cases o')
    case (TIns z)
    then have z: "z \<notin> set xs" "spec_itops cmp ops (ins_list cmp z xs) = Some ys" using Cons.prems(1) by (auto split: if_splits)
    obtain s1 T1 where 1: "itree_insert fuel cmp z s = Inr s1" "rp s1 [] T1" "rbt T1" "inord T1 = ins_list cmp z xs"
      using insert_ok [OF Cons.prems(2,3), of z fuel] Cons.prems z by auto
    then show ?thesis using Cons.IH [OF z(2) 1(2-4)] ins_list_sorted Cons.prems(5,6) TIns by simp
  next
    case (TDel z)
    then have z: "z \<in> set xs" "spec_itops cmp ops (remove1 z xs) = Some ys" using Cons.prems(1) by (auto split: if_splits)
    obtain s1 T1 where 1: "itree_delete fuel z s = Inr s1" "rp s1 [] T1" "rbt T1" "inord T1 = remove1 z xs"
      using itree_delete_ok [OF Cons.prems(2,3), of z fuel] Cons.prems z by auto
    have "cmp_sorted cmp (remove1 z xs)" using Cons.prems(5) unfolding cmp_sorted_def by (rule sorted_wrt_rem1)
    then show ?thesis using Cons.IH [OF z(2) 1(2-4)] 1(1) Cons.prems(6) TDel z(1) by (simp add: length_remove1)
  qed
qed auto

text \<open>A tree made by a sequence of insertions and removals, from a tree in any memory.\<close>

lemma made_ok:
  assumes "spec_itops cmp ops [] = Some xs" "length ops < fuel"
  shows "\<exists>t T. run_itops fuel cmp ops (itree_clear mem) = Inr t \<and> rp t [] T \<and> rbt T \<and> inord T = xs \<and> cmp_sorted cmp xs \<and> length xs < fuel"
  using run_itops_ok [OF assms(1), of "itree_clear mem" Lf fuel] assms(2)
  by (auto simp: rp_def rbt_def itree_clear_def cmp_sorted_def)

end

text \<open>The comparison of the keys is such a comparison, and the callback of a search by key is monotone along the tree.\<close>

interpretation kc: cmp_order "scmp key" for key
  by unfold_locales (auto simp: scmp_def compare_fn_def split: if_splits)

lemma scmp_sorted_keys: "cmp_sorted (scmp key) xs \<Longrightarrow> sorted_wrt (\<lambda>a b. sgn (skvcmp key x a) \<ge> sgn (skvcmp key x b)) xs"
  unfolding cmp_sorted_def by (erule sorted_wrt_mono_rel [rotated]) (auto simp: scmp_def skvcmp_def compare_fn_def split: if_splits)

section \<open>Properties\<close>

text \<open>C6. Any sequence of insertions and removals on a new tree, in any memory, refines the same sequence on a list in which
  a new entry goes behind the entries with the same key: every loop ends within one turn per entry, no pointer is
  \<open>NULL\<close> where it is followed, the result passes the check of colours, black heights, parents and order, and traversing it gives the list.\<close>

theorem itree_refines_list:
  assumes "spec_itops (scmp key) ops [] = Some xs" "length ops < fuel"
  shows "\<exists>t. run_itops fuel (scmp key) ops (itree_clear mem) = Inr t \<and> itree_check fuel (scmp key) t = Inr () \<and> itree_traverse fuel t = Inr xs"
  using kc.made_ok [OF assms, of mem] itree_check_ok traverse_ok by blast

text \<open>C39. In such a tree a search by key finds the first of the entries with that key, \<open>lower_bound\<close> the first entry whose key is
  not less, and \<open>upper_bound\<close> the last entry whose key is not greater.\<close>

theorem itree_searches:
  assumes "spec_itops (scmp key) ops [] = Some xs" "length ops < fuel"
  shows "\<exists>t. run_itops fuel (scmp key) ops (itree_clear mem) = Inr t \<and>
     itree_at fuel key x t = Inr (find (\<lambda>a. key a = x) xs) \<and>
     lower_bound_impl fuel (skvcmp key x) t = Inr (find (\<lambda>a. x \<le> key a) xs) \<and>
     upper_bound_impl fuel (skvcmp key x) t = Inr (find (\<lambda>a. key a \<le> x) (rev xs))"
proof -
  obtain t T where t: "run_itops fuel (scmp key) ops (itree_clear mem) = Inr t" and r: "rp t [] T" and xs: "inord T = xs" "cmp_sorted (scmp key) xs" "length xs < fuel"
    using kc.made_ok [OF assms, of mem] by blast
  have so: "sorted_wrt (\<lambda>a b. sgn (skvcmp key x a) \<ge> sgn (skvcmp key x b)) (inord T)" using scmp_sorted_keys [OF xs(2)] xs(1) by simp
  have f: "length (inord T) < fuel" using xs by simp
  have cb: "(skvcmp key x a = 0) = (key a = x)" "(skvcmp key x a \<le> 0) = (x \<le> key a)" "(0 \<le> skvcmp key x a) = (key a \<le> x)" for a
    by (auto simp: skvcmp_def compare_fn_def)
  have o: "(case m of None \<Rightarrow> None | Some a \<Rightarrow> Some a) = m" for m :: oc by (cases m) auto
  show ?thesis
    using t search_loop_ok [OF r f so, of None] lower_bound_loop_ok [OF r f so, of None] upper_bound_loop_ok [OF r f so] rp_root [OF r] xs(1)
    by (simp add: itree_at_def itree_search_def lower_bound_impl_def upper_bound_impl_def cb o)
qed

text \<open>C40. \<open>deleteall\<close> reads no entry it has freed, frees no entry twice, and frees all entries of such a tree,
  in the same order as the recursive \<open>deleteall_correct\<close>.\<close>

theorem deleteall_safe:
  assumes "spec_itops (scmp key) ops [] = Some xs" "length ops < fuel"
  shows "\<exists>t dead. run_itops fuel (scmp key) ops (itree_clear mem) = Inr t \<and> deleteall fuel t = Inr (dead, itree_clear t) \<and>
     deleteall_correct fuel t = Inr (dead, itree_clear t) \<and> distinct dead \<and> set dead = set xs"
proof -
  obtain t T where t: "run_itops fuel (scmp key) ops (itree_clear mem) = Inr t" and r: "rp t [] T" and xs: "inord T = xs" "length xs < fuel"
    using kc.made_ok [OF assms, of mem] by blast
  have "distinct (pord T)" using r pord_distinct [of T] by (simp add: rp_def)
  moreover have "deleteall_correct fuel t = Inr (rev (pord T), itree_clear t)"
    using deleteall_rec_ok [OF r, of fuel "[]"] xs rp_root [OF r] by (simp add: deleteall_correct_def)
  ultimately show ?thesis using t deleteall_tree [OF r, of fuel] xs by auto
qed

text \<open>A tree of four entries, two with the same key, one of them removed.\<close>

definition it_ops :: "itop list" where
  "it_ops = [TIns 1, TIns 2, TIns 3, TIns 4, TDel 2]"

definition it_key :: "nat \<Rightarrow> int" where
  "it_key a = (if a = 4 then 1 else int a)"

lemma it_spec: "spec_itops (scmp it_key) it_ops [] = Some [1, 4, 3]"
  by (simp add: it_ops_def it_key_def scmp_def compare_fn_def ins_list_def)

definition it_mem :: itree where
  "it_mem = \<lparr>rb_root = None, rb_up = (\<lambda>_. None), rb_left = (\<lambda>_. None), rb_right = (\<lambda>_. None), rb_color = (\<lambda>_. INVALID)\<rparr>"

theorem itree_refines_list_witness:
  "\<exists>t. run_itops 6 (scmp it_key) it_ops (itree_clear it_mem) = Inr t \<and> itree_check 6 (scmp it_key) t = Inr () \<and> itree_traverse 6 t = Inr [1, 4, 3]"
  by (rule itree_refines_list [OF it_spec]) (simp add: it_ops_def)

theorem itree_searches_witness:
  "\<exists>t. run_itops 6 (scmp it_key) it_ops (itree_clear it_mem) = Inr t \<and> itree_at 6 it_key 1 t = Inr (Some 1) \<and>
     lower_bound_impl 6 (skvcmp it_key 2) t = Inr (Some 3) \<and> upper_bound_impl 6 (skvcmp it_key 1) t = Inr (Some 4)"
  using itree_searches [OF it_spec, of 6 it_mem 1] itree_searches [OF it_spec, of 6 it_mem 2] by (simp add: it_ops_def it_key_def) auto

theorem deleteall_safe_witness:
  "\<exists>t dead. run_itops 6 (scmp it_key) it_ops (itree_clear it_mem) = Inr t \<and> deleteall 6 t = Inr (dead, itree_clear t) \<and>
     deleteall_correct 6 t = Inr (dead, itree_clear t) \<and> distinct dead \<and> set dead = {1, 4, 3}"
  using deleteall_safe [OF it_spec, of 6 it_mem] by (simp add: it_ops_def)

end
