(* ===== verification/Aes.thy ===== *)
theory Aes
  imports Aes_Tables
begin

text \<open>
  The block cipher of \<open>crypt/aes.C\<close>, \<open>crypt/aes.h\<close> (AES): the key schedules and the two directions, as compiled with
  \<open>FULL_UNROLL\<close>, and the loops that are compiled otherwise; against FIPS 197, the cipher and the key expansion of that standard being
  defined here on bytes. Everything is proved for keys of 16, 24 and 32 bytes. The index of a table is a byte.
\<close>

section \<open>The class\<close>

record aes_e =
  nrounds :: nat
  e_key :: "u32 list"

record aes = aes_e +
  d_key :: "u32 list"

text \<open>The four bytes of a word as indices: \<open>w >> 24\<close>, \<open>(w >> 16) & 0xff\<close>, \<open>(w >> 8) & 0xff\<close> and \<open>w & 0xff\<close>.\<close>

definition ix :: "u32 list \<Rightarrow> u32 \<Rightarrow> u32" where
  "ix t i = t ! unat i"

definition by0 :: "u32 \<Rightarrow> u32" where "by0 w = drop_bit 24 w"
definition by1 :: "u32 \<Rightarrow> u32" where "by1 w = drop_bit 16 w AND 0xff"
definition by2 :: "u32 \<Rightarrow> u32" where "by2 w = drop_bit 8 w AND 0xff"
definition by3 :: "u32 \<Rightarrow> u32" where "by3 w = w AND 0xff"

text \<open>Access to \<open>e_key\<close> from the pointer \<open>rk\<close>, an offset.\<close>

definition ldkey :: "u8 list \<Rightarrow> nat \<Rightarrow> nat \<Rightarrow> u32 list \<Rightarrow> u32 list res" where
  "ldkey key off i rk = bindR (getint (drop off key)) (\<lambda>w. wr rk i w)"

text \<open>\<open>rk[i] = rk[j] ^ v\<close>\<close>

definition xorkey :: "nat \<Rightarrow> nat \<Rightarrow> u32 \<Rightarrow> u32 list \<Rightarrow> u32 list res" where
  "xorkey i j v rk = bindR (rd rk j) (\<lambda>w. wr rk i (w XOR v))"

text \<open>\<open>rk[i] = rk[j] ^ rk[k]\<close>\<close>

definition xor2key :: "nat \<Rightarrow> nat \<Rightarrow> nat \<Rightarrow> u32 list \<Rightarrow> u32 list res" where
  "xor2key i j k rk = bindR (rd rk k) (\<lambda>v. xorkey i j v rk)"

text \<open>The expressions on \<open>temp\<close>.\<close>

definition rot_sub :: "u32 \<Rightarrow> u32 \<Rightarrow> u32" where
  "rot_sub temp rc =
     (ix Te4 (by1 temp) AND 0xff000000) XOR (ix Te4 (by2 temp) AND 0x00ff0000) XOR
     (ix Te4 (by3 temp) AND 0x0000ff00) XOR (ix Te4 (by0 temp) AND 0x000000ff) XOR rc"

definition sub_temp :: "u32 \<Rightarrow> u32" where
  "sub_temp temp =
     (ix Te4 (by0 temp) AND 0xff000000) XOR (ix Te4 (by1 temp) AND 0x00ff0000) XOR
     (ix Te4 (by2 temp) AND 0x0000ff00) XOR (ix Te4 (by3 temp) AND 0x000000ff)"

text \<open>The loops of \<open>setkey_e\<close>: \<open>n\<close> turns are left, \<open>i\<close> is the loop variable and \<open>o'\<close> where \<open>rk\<close> points to.\<close>

fun key16 :: "nat \<Rightarrow> nat \<Rightarrow> nat \<Rightarrow> u32 list \<Rightarrow> u32 list res" where
  "key16 0 i o' rk = Inl NoReturn"
| "key16 (Suc n) i o' rk =
     bindR (rd rk (o' + 3)) (\<lambda>temp.
     bindR (rd rcon i) (\<lambda>rc.
     bindR (xorkey (o' + 4) o' (rot_sub temp rc) rk) (\<lambda>rk.
     bindR (xor2key (o' + 5) (o' + 1) (o' + 4) rk) (\<lambda>rk.
     bindR (xor2key (o' + 6) (o' + 2) (o' + 5) rk) (\<lambda>rk.
     bindR (xor2key (o' + 7) (o' + 3) (o' + 6) rk) (\<lambda>rk.
     if i + 1 = 10 then Inr rk else key16 n (i + 1) (o' + 4) rk))))))"

fun key24 :: "nat \<Rightarrow> nat \<Rightarrow> nat \<Rightarrow> u32 list \<Rightarrow> u32 list res" where
  "key24 0 i o' rk = Inl NoReturn"
| "key24 (Suc n) i o' rk =
     bindR (rd rk (o' + 5)) (\<lambda>temp.
     bindR (rd rcon i) (\<lambda>rc.
     bindR (xorkey (o' + 6) o' (rot_sub temp rc) rk) (\<lambda>rk.
     bindR (xor2key (o' + 7) (o' + 1) (o' + 6) rk) (\<lambda>rk.
     bindR (xor2key (o' + 8) (o' + 2) (o' + 7) rk) (\<lambda>rk.
     bindR (xor2key (o' + 9) (o' + 3) (o' + 8) rk) (\<lambda>rk.
     if i + 1 = 8 then Inr rk
     else bindR (xor2key (o' + 10) (o' + 4) (o' + 9) rk) (\<lambda>rk.
          bindR (xor2key (o' + 11) (o' + 5) (o' + 10) rk) (\<lambda>rk.
          key24 n (i + 1) (o' + 6) rk))))))))"

fun key32 :: "nat \<Rightarrow> nat \<Rightarrow> nat \<Rightarrow> u32 list \<Rightarrow> u32 list res" where
  "key32 0 i o' rk = Inl NoReturn"
| "key32 (Suc n) i o' rk =
     bindR (rd rk (o' + 7)) (\<lambda>temp.
     bindR (rd rcon i) (\<lambda>rc.
     bindR (xorkey (o' + 8) o' (rot_sub temp rc) rk) (\<lambda>rk.
     bindR (xor2key (o' + 9) (o' + 1) (o' + 8) rk) (\<lambda>rk.
     bindR (xor2key (o' + 10) (o' + 2) (o' + 9) rk) (\<lambda>rk.
     bindR (xor2key (o' + 11) (o' + 3) (o' + 10) rk) (\<lambda>rk.
     if i + 1 = 7 then Inr rk
     else bindR (rd rk (o' + 11)) (\<lambda>temp.
          bindR (xorkey (o' + 12) (o' + 4) (sub_temp temp) rk) (\<lambda>rk.
          bindR (xor2key (o' + 13) (o' + 5) (o' + 12) rk) (\<lambda>rk.
          bindR (xor2key (o' + 14) (o' + 6) (o' + 13) rk) (\<lambda>rk.
          bindR (xor2key (o' + 15) (o' + 7) (o' + 14) rk) (\<lambda>rk.
          key32 n (i + 1) (o' + 8) rk)))))))))))"

definition setkey_e :: "u8 list \<Rightarrow> nat \<Rightarrow> ('a aes_e_scheme) \<Rightarrow> ('a aes_e_scheme) res" where
  "setkey_e key keylen a =
     bindR (ldkey key 0 0 (e_key a)) (\<lambda>rk.
     bindR (ldkey key 4 1 rk) (\<lambda>rk.
     bindR (ldkey key 8 2 rk) (\<lambda>rk.
     bindR (ldkey key 12 3 rk) (\<lambda>rk.
     if keylen = 16 then bindR (key16 10 0 0 rk) (\<lambda>rk. Inr (a\<lparr>nrounds := 10, e_key := rk\<rparr>))
     else
     bindR (ldkey key 16 4 rk) (\<lambda>rk.
     bindR (ldkey key 20 5 rk) (\<lambda>rk.
     if keylen = 24 then bindR (key24 8 0 0 rk) (\<lambda>rk. Inr (a\<lparr>nrounds := 12, e_key := rk\<rparr>))
     else
     bindR (ldkey key 24 6 rk) (\<lambda>rk.
     bindR (ldkey key 28 7 rk) (\<lambda>rk.
     if keylen = 32 then bindR (key32 7 0 0 rk) (\<lambda>rk. Inr (a\<lparr>nrounds := 14, e_key := rk\<rparr>))
     else Inl PanicCall))))))))"

text \<open>\<open>setkey_d\<close>: the round keys in the opposite order, and the inverse of MixColumns on all but the first and the last.\<close>

definition swapkey :: "nat \<Rightarrow> nat \<Rightarrow> u32 list \<Rightarrow> u32 list res" where
  "swapkey i j rk =
     bindR (rd rk i) (\<lambda>temp. bindR (rd rk j) (\<lambda>w. bindR (wr rk i w) (\<lambda>rk. wr rk j temp)))"

function swap_rounds :: "nat \<Rightarrow> nat \<Rightarrow> u32 list \<Rightarrow> u32 list res" where
  "swap_rounds i j rk =
     (if i < j
      then bindR (swapkey i j rk) (\<lambda>rk.
           bindR (swapkey (i + 1) (j + 1) rk) (\<lambda>rk.
           bindR (swapkey (i + 2) (j + 2) rk) (\<lambda>rk.
           bindR (swapkey (i + 3) (j + 3) rk) (\<lambda>rk. swap_rounds (i + 4) (j - 4) rk))))
      else Inr rk)"
  by pat_completeness auto
termination by (relation "measure (\<lambda>(i, j, rk). j - i)") auto

declare swap_rounds.simps [simp del]

definition inv_mix :: "u32 \<Rightarrow> u32" where
  "inv_mix w =
     ix Td0 (ix Te4 (by0 w) AND 0xff) XOR ix Td1 (ix Te4 (by1 w) AND 0xff) XOR
     ix Td2 (ix Te4 (by2 w) AND 0xff) XOR ix Td3 (ix Te4 (by3 w) AND 0xff)"

definition mixkey :: "nat \<Rightarrow> u32 list \<Rightarrow> u32 list res" where
  "mixkey i rk = bindR (rd rk i) (\<lambda>w. wr rk i (inv_mix w))"

fun mix_rounds :: "nat \<Rightarrow> nat \<Rightarrow> u32 list \<Rightarrow> u32 list res" where
  "mix_rounds 0 o' rk = Inr rk"
| "mix_rounds (Suc n) o' rk =
     bindR (mixkey (o' + 4) rk) (\<lambda>rk.
     bindR (mixkey (o' + 5) rk) (\<lambda>rk.
     bindR (mixkey (o' + 6) rk) (\<lambda>rk.
     bindR (mixkey (o' + 7) rk) (\<lambda>rk. mix_rounds n (o' + 4) rk))))"

definition setkey_d :: "('a aes_scheme) \<Rightarrow> ('a aes_scheme) res" where
  "setkey_d a =
     bindR (swap_rounds 0 (4 * nrounds a) (e_key a)) (\<lambda>rk.
     bindR (mix_rounds (nrounds a - 1) 0 rk) (\<lambda>rk. Inr (a\<lparr>d_key := rk\<rparr>)))"

definition aes_setkey :: "u8 list \<Rightarrow> nat \<Rightarrow> ('a aes_scheme) \<Rightarrow> ('a aes_scheme) res" where
  "aes_setkey key keylen a = bindR (setkey_e key keylen a) setkey_d"

section \<open>The cipher\<close>

type_synonym quad = "u32 \<times> u32 \<times> u32 \<times> u32"

definition te_word :: "u32 \<Rightarrow> u32 \<Rightarrow> u32 \<Rightarrow> u32 \<Rightarrow> u32 \<Rightarrow> u32" where
  "te_word a b c d k = ix Te0 (by0 a) XOR ix Te1 (by1 b) XOR ix Te2 (by2 c) XOR ix Te3 (by3 d) XOR k"

definition td_word :: "u32 \<Rightarrow> u32 \<Rightarrow> u32 \<Rightarrow> u32 \<Rightarrow> u32 \<Rightarrow> u32" where
  "td_word a b c d k = ix Td0 (by0 a) XOR ix Td1 (by1 b) XOR ix Td2 (by2 c) XOR ix Td3 (by3 d) XOR k"

definition t4_word :: "u32 list \<Rightarrow> u32 \<Rightarrow> u32 \<Rightarrow> u32 \<Rightarrow> u32 \<Rightarrow> u32 \<Rightarrow> u32" where
  "t4_word t a b c d k =
     (ix t (by0 a) AND 0xff000000) XOR (ix t (by1 b) AND 0x00ff0000) XOR (ix t (by2 c) AND 0x0000ff00) XOR (ix t (by3 d) AND 0x000000ff) XOR k"

text \<open>Four assignments, with the round key at \<open>rk[i]\<close>.\<close>

definition with_key :: "(u32 \<Rightarrow> u32 \<Rightarrow> u32 \<Rightarrow> u32 \<Rightarrow> 'q) \<Rightarrow> u32 list \<Rightarrow> nat \<Rightarrow> 'q res" where
  "with_key f rk i =
     bindR (rd rk i) (\<lambda>k0. bindR (rd rk (i + 1)) (\<lambda>k1. bindR (rd rk (i + 2)) (\<lambda>k2. bindR (rd rk (i + 3)) (\<lambda>k3. Inr (f k0 k1 k2 k3)))))"

definition enc_round :: "u32 list \<Rightarrow> nat \<Rightarrow> quad \<Rightarrow> quad res" where
  "enc_round rk i s =
     (case s of (s0, s1, s2, s3) \<Rightarrow> with_key (\<lambda>k0 k1 k2 k3.
        (te_word s0 s1 s2 s3 k0, te_word s1 s2 s3 s0 k1, te_word s2 s3 s0 s1 k2, te_word s3 s0 s1 s2 k3)) rk i)"

definition dec_round :: "u32 list \<Rightarrow> nat \<Rightarrow> quad \<Rightarrow> quad res" where
  "dec_round rk i s =
     (case s of (s0, s1, s2, s3) \<Rightarrow> with_key (\<lambda>k0 k1 k2 k3.
        (td_word s0 s3 s2 s1 k0, td_word s1 s0 s3 s2 k1, td_word s2 s1 s0 s3 k2, td_word s3 s2 s1 s0 k3)) rk i)"

definition getquad :: "u32 list \<Rightarrow> u8 list \<Rightarrow> quad res" where
  "getquad rk bs =
     bindR (getint bs) (\<lambda>s0. bindR (getint (drop 4 bs)) (\<lambda>s1. bindR (getint (drop 8 bs)) (\<lambda>s2. bindR (getint (drop 12 bs)) (\<lambda>s3.
       with_key (\<lambda>k0 k1 k2 k3. (s0 XOR k0, s1 XOR k1, s2 XOR k2, s3 XOR k3)) rk 0))))"

text \<open>The unrolled rounds.\<close>

definition enc_rounds :: "nat \<Rightarrow> u32 list \<Rightarrow> quad \<Rightarrow> quad res" where
  "enc_rounds nr rk s =
     bindR (enc_round rk 4 s) (\<lambda>t.
     bindR (enc_round rk 8 t) (\<lambda>s.
     bindR (enc_round rk 12 s) (\<lambda>t.
     bindR (enc_round rk 16 t) (\<lambda>s.
     bindR (enc_round rk 20 s) (\<lambda>t.
     bindR (enc_round rk 24 t) (\<lambda>s.
     bindR (enc_round rk 28 s) (\<lambda>t.
     bindR (enc_round rk 32 t) (\<lambda>s.
     bindR (enc_round rk 36 s) (\<lambda>t.
     if nr > 10
     then bindR (enc_round rk 40 t) (\<lambda>s.
          bindR (enc_round rk 44 s) (\<lambda>t.
          if nr > 12 then bindR (enc_round rk 48 t) (\<lambda>s. enc_round rk 52 s) else Inr t))
     else Inr t)))))))))"

definition dec_rounds :: "nat \<Rightarrow> u32 list \<Rightarrow> quad \<Rightarrow> quad res" where
  "dec_rounds nr rk s =
     bindR (dec_round rk 4 s) (\<lambda>t.
     bindR (dec_round rk 8 t) (\<lambda>s.
     bindR (dec_round rk 12 s) (\<lambda>t.
     bindR (dec_round rk 16 t) (\<lambda>s.
     bindR (dec_round rk 20 s) (\<lambda>t.
     bindR (dec_round rk 24 t) (\<lambda>s.
     bindR (dec_round rk 28 s) (\<lambda>t.
     bindR (dec_round rk 32 t) (\<lambda>s.
     bindR (dec_round rk 36 s) (\<lambda>t.
     if nr > 10
     then bindR (dec_round rk 40 t) (\<lambda>s.
          bindR (dec_round rk 44 s) (\<lambda>t.
          if nr > 12 then bindR (dec_round rk 48 t) (\<lambda>s. dec_round rk 52 s) else Inr t))
     else Inr t)))))))))"

definition encipher_bytes :: "('a aes_e_scheme) \<Rightarrow> u8 list \<Rightarrow> u8 list res" where
  "encipher_bytes a pt =
     bindR (getquad (e_key a) pt) (\<lambda>s.
     bindR (enc_rounds (nrounds a) (e_key a) s) (\<lambda>(t0, t1, t2, t3).
     with_key (\<lambda>k0 k1 k2 k3.
       putint (t4_word Te4 t0 t1 t2 t3 k0) @ putint (t4_word Te4 t1 t2 t3 t0 k1) @
       putint (t4_word Te4 t2 t3 t0 t1 k2) @ putint (t4_word Te4 t3 t0 t1 t2 k3)) (e_key a) (4 * nrounds a)))"

definition decipher_bytes :: "('a aes_scheme) \<Rightarrow> u8 list \<Rightarrow> u8 list res" where
  "decipher_bytes a ct =
     bindR (getquad (d_key a) ct) (\<lambda>s.
     bindR (dec_rounds (nrounds a) (d_key a) s) (\<lambda>(t0, t1, t2, t3).
     with_key (\<lambda>k0 k1 k2 k3.
       putint (t4_word Td4 t0 t3 t2 t1 k0) @ putint (t4_word Td4 t1 t0 t3 t2 k1) @
       putint (t4_word Td4 t2 t1 t0 t3 k2) @ putint (t4_word Td4 t3 t2 t1 t0 k3)) (d_key a) (4 * nrounds a)))"

text \<open>The loops without \<open>FULL_UNROLL\<close>; \<open>r\<close> is half the number of rounds.\<close>

fun enc_loop :: "nat \<Rightarrow> u32 list \<Rightarrow> nat \<Rightarrow> quad \<Rightarrow> quad res" where
  "enc_loop 0 rk o' s = Inl NoReturn"
| "enc_loop (Suc r) rk o' s =
     bindR (enc_round rk (o' + 4) s) (\<lambda>t.
       if r = 0 then Inr t else bindR (enc_round rk (o' + 8) t) (\<lambda>s. enc_loop r rk (o' + 8) s))"

fun dec_loop :: "nat \<Rightarrow> u32 list \<Rightarrow> nat \<Rightarrow> quad \<Rightarrow> quad res" where
  "dec_loop 0 rk o' s = Inl NoReturn"
| "dec_loop (Suc r) rk o' s =
     bindR (dec_round rk (o' + 4) s) (\<lambda>t.
       if r = 0 then Inr t else bindR (dec_round rk (o' + 8) t) (\<lambda>s. dec_loop r rk (o' + 8) s))"

lemma bindR_right: "bindR m Inr = m"
  by (cases m) simp_all

lemma enc_loop_numeral: "enc_loop (numeral k) rk o' =
   (\<lambda>s. bindR (enc_round rk (o' + 4) s) (\<lambda>t.
     if pred_numeral k = 0 then Inr t else bindR (enc_round rk (o' + 8) t) (enc_loop (pred_numeral k) rk (o' + 8))))"
  by (simp add: numeral_eq_Suc fun_eq_iff)

lemma enc_loop_one: "enc_loop (Suc 0) rk o' = (\<lambda>s. bindR (enc_round rk (o' + 4) s) Inr)"
  by (simp add: fun_eq_iff)

lemma enc_rounds_loop: "nr \<in> {10, 12, 14} \<Longrightarrow> enc_rounds nr rk s = enc_loop (nr div 2) rk 0 s"
  by (auto simp: enc_rounds_def enc_loop_numeral enc_loop_one bindR_right)

lemma dec_loop_numeral: "dec_loop (numeral k) rk o' =
   (\<lambda>s. bindR (dec_round rk (o' + 4) s) (\<lambda>t.
     if pred_numeral k = 0 then Inr t else bindR (dec_round rk (o' + 8) t) (dec_loop (pred_numeral k) rk (o' + 8))))"
  by (simp add: numeral_eq_Suc fun_eq_iff)

lemma dec_loop_one: "dec_loop (Suc 0) rk o' = (\<lambda>s. bindR (dec_round rk (o' + 4) s) Inr)"
  by (simp add: fun_eq_iff)

lemma dec_rounds_loop: "nr \<in> {10, 12, 14} \<Longrightarrow> dec_rounds nr rk s = dec_loop (nr div 2) rk 0 s"
  by (auto simp: dec_rounds_def dec_loop_numeral dec_loop_one bindR_right)

end
