(* ===== verification/Aes_Fips.thy ===== *)
theory Aes_Fips
  imports Aes
begin

text \<open>
  FIPS 197 on bytes, and the encryption of \<open>crypt/aes.C\<close> against it. First the standard: the transformations of the state, the cipher and
  the key expansion, in the standard's own words. Then the tables and the words of the code as columns of the state; \<open>encipher_bytes\<close> is
  the cipher for any array of round keys that holds the bytes of some key expansion, and \<open>setkey_e\<close> leaves such an array.
\<close>

section \<open>FIPS 197\<close>

text \<open>A state is the list of its columns, a word a column.\<close>

definition xor_col :: "u8 list \<Rightarrow> u8 list \<Rightarrow> u8 list" where
  "xor_col xs ys = map2 (\<lambda>x y. x XOR y) xs ys"

definition sub_bytes :: "(u8 \<Rightarrow> u8) \<Rightarrow> u8 list list \<Rightarrow> u8 list list" where
  "sub_bytes S st = map (map S) st"

definition shift_rows :: "u8 list list \<Rightarrow> u8 list list" where
  "shift_rows st = map (\<lambda>c. map (\<lambda>r. st ! ((c + r) mod 4) ! r) [0..<4]) [0..<4]"

definition inv_shift_rows :: "u8 list list \<Rightarrow> u8 list list" where
  "inv_shift_rows st = map (\<lambda>c. map (\<lambda>r. st ! ((c + 4 - r) mod 4) ! r) [0..<4]) [0..<4]"

definition mul_column :: "u8 \<Rightarrow> u8 \<Rightarrow> u8 \<Rightarrow> u8 \<Rightarrow> u8 list \<Rightarrow> u8 list" where
  "mul_column p q u v c =
     [gmul p (c ! 0) XOR gmul q (c ! 1) XOR gmul u (c ! 2) XOR gmul v (c ! 3),
      gmul v (c ! 0) XOR gmul p (c ! 1) XOR gmul q (c ! 2) XOR gmul u (c ! 3),
      gmul u (c ! 0) XOR gmul v (c ! 1) XOR gmul p (c ! 2) XOR gmul q (c ! 3),
      gmul q (c ! 0) XOR gmul u (c ! 1) XOR gmul v (c ! 2) XOR gmul p (c ! 3)]"

definition mix_column :: "u8 list \<Rightarrow> u8 list" where
  "mix_column = mul_column 2 3 1 1"

definition inv_mix_column :: "u8 list \<Rightarrow> u8 list" where
  "inv_mix_column = mul_column 14 11 13 9"

definition add_round_key :: "(nat \<Rightarrow> u8 list) \<Rightarrow> nat \<Rightarrow> u8 list list \<Rightarrow> u8 list list" where
  "add_round_key w r st = map2 xor_col st (map w [4 * r..<4 * r + 4])"

definition cipher_round :: "(u8 \<Rightarrow> u8) \<Rightarrow> (nat \<Rightarrow> u8 list) \<Rightarrow> nat \<Rightarrow> u8 list list \<Rightarrow> u8 list list" where
  "cipher_round S w r st = add_round_key w r (map mix_column (shift_rows (sub_bytes S st)))"

definition columns :: "u8 list \<Rightarrow> u8 list list" where
  "columns bs = map (\<lambda>c. take 4 (drop (4 * c) bs)) [0..<4]"

definition fips_cipher :: "(u8 \<Rightarrow> u8) \<Rightarrow> nat \<Rightarrow> (nat \<Rightarrow> u8 list) \<Rightarrow> u8 list \<Rightarrow> u8 list" where
  "fips_cipher S nr w inp =
     concat (add_round_key w nr (shift_rows (sub_bytes S
       (fold (cipher_round S w) [1..<nr] (add_round_key w 0 (columns inp))))))"

definition rot_word :: "u8 list \<Rightarrow> u8 list" where
  "rot_word c = [c ! 1, c ! 2, c ! 3, c ! 0]"

definition fips_rcon :: "nat \<Rightarrow> u8 list" where
  "fips_rcon i = [(xtime ^^ (i - 1)) 1, 0, 0, 0]"

function key_expansion :: "(u8 \<Rightarrow> u8) \<Rightarrow> nat \<Rightarrow> u8 list \<Rightarrow> nat \<Rightarrow> u8 list" where
  "key_expansion S nk key i =
     (if i < nk \<or> nk = 0 then take 4 (drop (4 * i) key)
      else let temp = key_expansion S nk key (i - 1)
           in xor_col (key_expansion S nk key (i - nk))
                (if i mod nk = 0 then xor_col (map S (rot_word temp)) (fips_rcon (i div nk))
                 else if nk > 6 \<and> i mod nk = 4 then map S temp
                 else temp))"
  by pat_completeness auto
termination by (relation "measure (\<lambda>(S, nk, key, i). i)") auto

declare key_expansion.simps [simp del]

section \<open>Words as bytes\<close>

lemma putint_xor: "putint (a XOR b) = xor_col (putint a) (putint b)"
  by (simp add: putint_def xor_col_def drop_bit_xor unsigned_xor_eq)

lemma ucast_high: "8 \<le> n \<Longrightarrow> (ucast (drop_bit n (ucast (x :: u8) :: u32)) :: u8) = 0"
  by (rule bit_eqI) (auto simp: bit_simps dest: bit_imp_le_length)

lemma putint_word4: "putint (word4 a b c d) = [a, b, c, d]"
proof -
  have "\<not> bit (x :: u8) (8 + n)" "\<not> bit (x :: u8) (16 + n)" "\<not> bit (x :: u8) (24 + n)" for x n
    using bit_imp_le_length [of x] by fastforce+
  then show ?thesis unfolding putint_def word4_def by (auto intro!: bit_eqI simp: bit_simps)
qed

lemma unat_by:
  "unat (by0 w) = unat (putint w ! 0)" "unat (by1 w) = unat (putint w ! 1)"
  "unat (by2 w) = unat (putint w ! 2)" "unat (by3 w) = unat (putint w ! 3)"
proof -
  have e: "(ucast (ucast v :: u8) :: u32) = v AND 0xff" for v :: u32
  proof -
    have "(0xff :: u32) = mask 8" by (simp add: mask_eq_exp_minus_1)
    moreover have "(ucast (ucast v :: u8) :: u32) = v AND mask 8" by (rule bit_word_eqI) (auto simp: bit_simps)
    ultimately show ?thesis by (simp only:)
  qed
  have u: "unat (ucast v :: u8) = unat (v AND 0xff)" for v :: u32
    unfolding e [symmetric] by (simp add: unsigned_ucast_eq unsigned_take_bit_eq)
  have "drop_bit 24 w AND 0xff = drop_bit 24 w" unfolding e [symmetric]
    by (rule bit_word_eqI) (auto simp: bit_simps dest: bit_imp_le_length)
  then show "unat (by0 w) = unat (putint w ! 0)" using u [of "drop_bit 24 w"] by (simp add: by0_def putint_def)
  show "unat (by1 w) = unat (putint w ! 1)" "unat (by2 w) = unat (putint w ! 2)" "unat (by3 w) = unat (putint w ! 3)"
    by (simp_all add: by1_def by2_def by3_def putint_def u)
qed

abbreviation byt :: "nat \<Rightarrow> u32 \<Rightarrow> u8" where
  "byt i w \<equiv> putint w ! i"

lemma putint_byts: "putint w = [byt 0 w, byt 1 w, byt 2 w, byt 3 w]"
  by (simp add: putint_def)

lemma ix_tables:
  "ix Te0 (by0 w) = word4 (gmul 2 (aes_sbox (byt 0 w))) (aes_sbox (byt 0 w)) (aes_sbox (byt 0 w)) (gmul 3 (aes_sbox (byt 0 w)))"
  "ix Te1 (by1 w) = word4 (gmul 3 (aes_sbox (byt 1 w))) (gmul 2 (aes_sbox (byt 1 w))) (aes_sbox (byt 1 w)) (aes_sbox (byt 1 w))"
  "ix Te2 (by2 w) = word4 (aes_sbox (byt 2 w)) (gmul 3 (aes_sbox (byt 2 w))) (gmul 2 (aes_sbox (byt 2 w))) (aes_sbox (byt 2 w))"
  "ix Te3 (by3 w) = word4 (aes_sbox (byt 3 w)) (aes_sbox (byt 3 w)) (gmul 3 (aes_sbox (byt 3 w))) (gmul 2 (aes_sbox (byt 3 w)))"
  by (simp_all only: ix_def unat_by enc_tables)

lemma ix_Te4:
  "ix Te4 (by0 w) = word4 (aes_sbox (byt 0 w)) (aes_sbox (byt 0 w)) (aes_sbox (byt 0 w)) (aes_sbox (byt 0 w))"
  "ix Te4 (by1 w) = word4 (aes_sbox (byt 1 w)) (aes_sbox (byt 1 w)) (aes_sbox (byt 1 w)) (aes_sbox (byt 1 w))"
  "ix Te4 (by2 w) = word4 (aes_sbox (byt 2 w)) (aes_sbox (byt 2 w)) (aes_sbox (byt 2 w)) (aes_sbox (byt 2 w))"
  "ix Te4 (by3 w) = word4 (aes_sbox (byt 3 w)) (aes_sbox (byt 3 w)) (aes_sbox (byt 3 w)) (aes_sbox (byt 3 w))"
  by (simp_all only: ix_def unat_by enc_tables)

lemma ix_Td:
  "ix Td0 (by0 w) = word4 (gmul 14 (inv_sbox (byt 0 w))) (gmul 9 (inv_sbox (byt 0 w))) (gmul 13 (inv_sbox (byt 0 w))) (gmul 11 (inv_sbox (byt 0 w)))"
  "ix Td1 (by1 w) = word4 (gmul 11 (inv_sbox (byt 1 w))) (gmul 14 (inv_sbox (byt 1 w))) (gmul 9 (inv_sbox (byt 1 w))) (gmul 13 (inv_sbox (byt 1 w)))"
  "ix Td2 (by2 w) = word4 (gmul 13 (inv_sbox (byt 2 w))) (gmul 11 (inv_sbox (byt 2 w))) (gmul 14 (inv_sbox (byt 2 w))) (gmul 9 (inv_sbox (byt 2 w)))"
  "ix Td3 (by3 w) = word4 (gmul 9 (inv_sbox (byt 3 w))) (gmul 13 (inv_sbox (byt 3 w))) (gmul 11 (inv_sbox (byt 3 w))) (gmul 14 (inv_sbox (byt 3 w)))"
  by (simp_all only: ix_def unat_by dec_tables)

lemma ix_Td4:
  "ix Td4 (by0 w) = word4 (inv_sbox (byt 0 w)) (inv_sbox (byt 0 w)) (inv_sbox (byt 0 w)) (inv_sbox (byt 0 w))"
  "ix Td4 (by1 w) = word4 (inv_sbox (byt 1 w)) (inv_sbox (byt 1 w)) (inv_sbox (byt 1 w)) (inv_sbox (byt 1 w))"
  "ix Td4 (by2 w) = word4 (inv_sbox (byt 2 w)) (inv_sbox (byt 2 w)) (inv_sbox (byt 2 w)) (inv_sbox (byt 2 w))"
  "ix Td4 (by3 w) = word4 (inv_sbox (byt 3 w)) (inv_sbox (byt 3 w)) (inv_sbox (byt 3 w)) (inv_sbox (byt 3 w))"
  by (simp_all only: ix_def unat_by dec_tables)

text \<open>The masks that take one byte of an entry.\<close>

lemma word4_masks:
  "word4 a b c d AND 0xff000000 = word4 a 0 0 0" "word4 a b c d AND 0x00ff0000 = word4 0 b 0 0"
  "word4 a b c d AND 0x0000ff00 = word4 0 0 c 0" "word4 a b c d AND 0x000000ff = word4 0 0 0 d"
proof -
  have h: "\<not> bit (x :: u8) n" if "8 \<le> n" for x n using that bit_imp_le_length [of x n] by auto
  have m: "(0xff000000 :: u32) = push_bit 24 (mask 8)" "(0x00ff0000 :: u32) = push_bit 16 (mask 8)" "(0x0000ff00 :: u32) = push_bit 8 (mask 8)"
    "(0x000000ff :: u32) = mask 8" by (simp_all add: mask_eq_exp_minus_1 push_bit_eq_mult)
  show "word4 a b c d AND 0xff000000 = word4 a 0 0 0" "word4 a b c d AND 0x00ff0000 = word4 0 b 0 0"
    "word4 a b c d AND 0x0000ff00 = word4 0 0 c 0" "word4 a b c d AND 0x000000ff = word4 0 0 0 d"
    unfolding m word4_def by (rule bit_word_eqI; auto simp: bit_simps h dest: bit_imp_le_length)+
qed

lemma word4_xor: "word4 a b c d XOR word4 a' b' c' d' = word4 (a XOR a') (b XOR b') (c XOR c') (d XOR d')"
  unfolding word4_def by (rule bit_word_eqI) (auto simp: bit_simps dest: bit_imp_le_length)

definition cols :: "quad \<Rightarrow> u8 list list" where
  "cols s = (case s of (s0, s1, s2, s3) \<Rightarrow> [putint s0, putint s1, putint s2, putint s3])"

lemma upt4: "[0..<4 :: nat] = [0, 1, 2, 3]"
  by code_simp

lemma shift_rows_4: "shift_rows [[a0, a1, a2, a3], [b0, b1, b2, b3], [c0, c1, c2, c3], [d0, d1, d2, d3]] =
  [[a0, b1, c2, d3], [b0, c1, d2, a3], [c0, d1, a2, b3], [d0, a1, b2, c3]]"
  unfolding shift_rows_def upt4 by simp

lemma inv_shift_rows_4: "inv_shift_rows [[a0, a1, a2, a3], [b0, b1, b2, b3], [c0, c1, c2, c3], [d0, d1, d2, d3]] =
  [[a0, d1, c2, b3], [b0, a1, d2, c3], [c0, b1, a2, d3], [d0, c1, b2, a3]]"
  unfolding inv_shift_rows_def upt4 by simp

lemma te_word_bytes:
  "putint (te_word a b c d k) = xor_col (mix_column [aes_sbox (byt 0 a), aes_sbox (byt 1 b), aes_sbox (byt 2 c), aes_sbox (byt 3 d)]) (putint k)"
proof -
  have "te_word a b c d k = (ix Te0 (by0 a) XOR ix Te1 (by1 b) XOR ix Te2 (by2 c) XOR ix Te3 (by3 d)) XOR k"
    by (simp only: te_word_def xor.assoc)
  moreover have "putint (ix Te0 (by0 a) XOR ix Te1 (by1 b) XOR ix Te2 (by2 c) XOR ix Te3 (by3 d)) =
      mix_column [aes_sbox (byt 0 a), aes_sbox (byt 1 b), aes_sbox (byt 2 c), aes_sbox (byt 3 d)]"
    unfolding ix_tables word4_xor putint_word4 by (simp add: mix_column_def mul_column_def gmul_consts(1))
  ultimately show ?thesis by (simp only: putint_xor)
qed

lemma td_word_bytes:
  "putint (td_word a b c d k) = xor_col (inv_mix_column [inv_sbox (byt 0 a), inv_sbox (byt 1 b), inv_sbox (byt 2 c), inv_sbox (byt 3 d)]) (putint k)"
proof -
  have "td_word a b c d k = (ix Td0 (by0 a) XOR ix Td1 (by1 b) XOR ix Td2 (by2 c) XOR ix Td3 (by3 d)) XOR k"
    by (simp only: td_word_def xor.assoc)
  moreover have "putint (ix Td0 (by0 a) XOR ix Td1 (by1 b) XOR ix Td2 (by2 c) XOR ix Td3 (by3 d)) =
      inv_mix_column [inv_sbox (byt 0 a), inv_sbox (byt 1 b), inv_sbox (byt 2 c), inv_sbox (byt 3 d)]"
    unfolding ix_Td word4_xor putint_word4 by (simp add: inv_mix_column_def mul_column_def)
  ultimately show ?thesis by (simp only: putint_xor)
qed

lemma masked_bytes:
  "putint ((word4 a a a a AND 0xff000000) XOR (word4 b b b b AND 0x00ff0000) XOR (word4 c c c c AND 0x0000ff00) XOR (word4 d d d d AND 0x000000ff) XOR k) =
   xor_col [a, b, c, d] (putint k)"
proof -
  have "(word4 a a a a AND 0xff000000) XOR (word4 b b b b AND 0x00ff0000) XOR (word4 c c c c AND 0x0000ff00) XOR (word4 d d d d AND 0x000000ff) XOR k =
      word4 a b c d XOR k"
    unfolding word4_masks by (simp only: xor.assoc [symmetric] word4_xor xor.left_neutral xor.right_neutral)
  then show ?thesis by (simp only: putint_xor putint_word4)
qed

lemma t4_word_bytes:
  "putint (t4_word Te4 a b c d k) = xor_col [aes_sbox (byt 0 a), aes_sbox (byt 1 b), aes_sbox (byt 2 c), aes_sbox (byt 3 d)] (putint k)"
  "putint (t4_word Td4 a b c d k) = xor_col [inv_sbox (byt 0 a), inv_sbox (byt 1 b), inv_sbox (byt 2 c), inv_sbox (byt 3 d)] (putint k)"
  unfolding t4_word_def ix_Te4 ix_Td4 by (rule masked_bytes)+

lemma rot_sub_bytes: "putint (rot_sub t rc) = xor_col (map aes_sbox (rot_word (putint t))) (putint rc)"
  unfolding rot_sub_def ix_Te4 masked_bytes by (simp add: rot_word_def)

lemma sub_temp_bytes: "putint (sub_temp t) = map aes_sbox (putint t)"
proof -
  have "map aes_sbox (putint t) = [aes_sbox (byt 0 t), aes_sbox (byt 1 t), aes_sbox (byt 2 t), aes_sbox (byt 3 t)]" by (subst putint_byts) simp
  then show ?thesis unfolding sub_temp_def ix_Te4 word4_masks word4_xor putint_word4 by simp
qed

text \<open>The bytes of a table entry as an index again.\<close>

lemma ucast_index: "unat (word4 a a a a AND 0xff) = unat a"
proof -
  have "word4 0 0 0 a = ucast a" by (simp add: word4_def)
  then show ?thesis using word4_masks(4) [of a a a a] by (simp add: unsigned_ucast_eq take_bit_nat_eq_self order_less_trans [OF unat8])
qed

lemma inv_mix_bytes: "putint (inv_mix w) = inv_mix_column (putint w)"
proof -
  have "ix t (ix Te4 (by0 w) AND 0xff) = t ! unat (aes_sbox (byt 0 w))" "ix t (ix Te4 (by1 w) AND 0xff) = t ! unat (aes_sbox (byt 1 w))"
    "ix t (ix Te4 (by2 w) AND 0xff) = t ! unat (aes_sbox (byt 2 w))" "ix t (ix Te4 (by3 w) AND 0xff) = t ! unat (aes_sbox (byt 3 w))" for t
    unfolding ix_Te4 by (simp_all only: ix_def ucast_index)
  then show ?thesis
    unfolding inv_mix_def dec_tables inv_sbox_sbox word4_xor putint_word4
    by (simp only: dec_tables inv_sbox_sbox word4_xor putint_word4) (simp add: inv_mix_column_def mul_column_def)
qed

section \<open>The rounds\<close>

text \<open>The array of round keys, from some function that gives their bytes.\<close>

definition keys_ok :: "(nat \<Rightarrow> u8 list) \<Rightarrow> nat \<Rightarrow> u32 list \<Rightarrow> bool" where
  "keys_ok w n rk \<longleftrightarrow> length rk = 60 \<and> n \<le> 60 \<and> (\<forall>i<n. putint (rk ! i) = w i)"

lemma with_key_ok:
  assumes "keys_ok w n rk" "4 * r + 4 \<le> n"
  obtains k0 k1 k2 k3 where "with_key f rk (4 * r) = Inr (f k0 k1 k2 k3)" "map w [4 * r..<4 * r + 4] = [putint k0, putint k1, putint k2, putint k3]"
proof (rule that)
  show "with_key f rk (4 * r) = Inr (f (rk ! (4 * r)) (rk ! (4 * r + 1)) (rk ! (4 * r + 2)) (rk ! (4 * r + 3)))"
    using assms by (simp add: with_key_def keys_ok_def)
  show "map w [4 * r..<4 * r + 4] = [putint (rk ! (4 * r)), putint (rk ! (4 * r + 1)), putint (rk ! (4 * r + 2)), putint (rk ! (4 * r + 3))]"
  proof -
    have "[4 * r..<4 * r + 4] = [4 * r, 4 * r + 1, 4 * r + 2, 4 * r + 3]" by (simp add: upt_conv_Cons numeral_eq_Suc)
    then show ?thesis using assms by (simp add: keys_ok_def)
  qed
qed

text \<open>A computation on quadruples has a state as its result.\<close>

definition yields_st :: "quad res \<Rightarrow> u8 list list \<Rightarrow> bool" where
  "yields_st m st \<longleftrightarrow> (\<exists>s. m = Inr s \<and> cols s = st)"

lemma yields_st_bind: "yields_st m st \<Longrightarrow> (\<And>s. cols s = st \<Longrightarrow> yields_st (f s) st') \<Longrightarrow> yields_st (bindR m f) st'"
  by (auto simp: yields_st_def)

lemma sub_shift_cols: "shift_rows (sub_bytes S (cols (s0, s1, s2, s3))) =
  [[S (byt 0 s0), S (byt 1 s1), S (byt 2 s2), S (byt 3 s3)], [S (byt 0 s1), S (byt 1 s2), S (byt 2 s3), S (byt 3 s0)],
   [S (byt 0 s2), S (byt 1 s3), S (byt 2 s0), S (byt 3 s1)], [S (byt 0 s3), S (byt 1 s0), S (byt 2 s1), S (byt 3 s2)]]"
  unfolding cols_def prod.case sub_bytes_def
  by (subst putint_byts [of s0], subst putint_byts [of s1], subst putint_byts [of s2], subst putint_byts [of s3])
    (simp only: list.map shift_rows_4)

lemma enc_round_ok:
  assumes "keys_ok w n rk" "4 * r + 4 \<le> n"
  shows "yields_st (enc_round rk (4 * r) s) (cipher_round aes_sbox w r (cols s))"
proof -
  obtain s0 s1 s2 s3 where s: "s = (s0, s1, s2, s3)" by (metis prod_cases4)
  obtain k0 k1 k2 k3 where k: "enc_round rk (4 * r) s = Inr (te_word s0 s1 s2 s3 k0, te_word s1 s2 s3 s0 k1, te_word s2 s3 s0 s1 k2, te_word s3 s0 s1 s2 k3)"
    "map w [4 * r..<4 * r + 4] = [putint k0, putint k1, putint k2, putint k3]"
    unfolding enc_round_def s prod.case by (rule with_key_ok [OF assms])
  have "cols (te_word s0 s1 s2 s3 k0, te_word s1 s2 s3 s0 k1, te_word s2 s3 s0 s1 k2, te_word s3 s0 s1 s2 k3) = cipher_round aes_sbox w r (cols s)"
    unfolding cipher_round_def add_round_key_def k(2) unfolding s sub_shift_cols by (simp add: cols_def te_word_bytes)
  then show ?thesis using k(1) by (simp only: yields_st_def) blast
qed

text \<open>Both loops.\<close>

lemma loop_ok:
  assumes L: "\<And>r o' s. L (Suc r) o' s = bindR (R (o' + 4) s) (\<lambda>t. if r = 0 then Inr t else bindR (R (o' + 8) t) (\<lambda>s. L r (o' + 8) s))"
    and R: "\<And>r s. 4 * r + 4 \<le> n \<Longrightarrow> yields_st (R (4 * r) s) (F r (cols s))"
  shows "8 * q + 8 * r + 8 \<le> n \<Longrightarrow> yields_st (L (Suc r) (8 * q) s) (fold F [2 * q + 1..<2 * q + 2 * r + 2] (cols s))"
proof (induction r arbitrary: q s)
  case 0
  have "yields_st (R (8 * q + 4) s) (F (2 * q + 1) (cols s))" using R [of "2 * q + 1"] 0 by (simp add: ac_simps)
  then show ?case by (simp add: L bindR_right)
next
  case (Suc r)
  have 1: "yields_st (R (8 * q + 4) s) (F (2 * q + 1) (cols s))" using R [of "2 * q + 1" s] Suc.prems by (simp add: ac_simps)
  have 2: "yields_st (R (8 * q + 8) s) (F (2 * q + 2) (cols s))" for s using R [of "2 * q + 2" s] Suc.prems by (simp add: ac_simps)
  have u: "[2 * q + 1..<2 * q + 2 * Suc r + 2] = (2 * q + 1) # (2 * q + 2) # [2 * Suc q + 1..<2 * Suc q + 2 * r + 2]" by (simp add: upt_conv_Cons)
  have 3: "yields_st (L (Suc r) (8 * q + 8) s) (fold F [2 * Suc q + 1..<2 * Suc q + 2 * r + 2] (cols s))" for s
    using Suc.IH [of "Suc q" s] Suc.prems by (simp add: ac_simps)
  have "yields_st (bindR (R (8 * q + 4) s) (\<lambda>t. bindR (R (8 * q + 8) t) (\<lambda>s. L (Suc r) (8 * q + 8) s)))
      (fold F [2 * q + 1..<2 * q + 2 * Suc r + 2] (cols s))"
    unfolding u fold_simps comp_def
  proof (rule yields_st_bind [OF 1])
    fix t assume t: "cols t = F (2 * q + 1) (cols s)"
    show "yields_st (bindR (R (8 * q + 8) t) (\<lambda>s. L (Suc r) (8 * q + 8) s))
        (fold F [2 * Suc q + 1..<2 * Suc q + 2 * r + 2] (F (2 * q + 2) (F (2 * q + 1) (cols s))))"
    proof (rule yields_st_bind [OF 2 [of t]])
      fix u assume u: "cols u = F (2 * q + 2) (cols t)"
      show "yields_st (L (Suc r) (8 * q + 8) u) (fold F [2 * Suc q + 1..<2 * Suc q + 2 * r + 2] (F (2 * q + 2) (F (2 * q + 1) (cols s))))"
        using 3 [of u] unfolding u t .
    qed
  qed
  then show ?case by (simp only: L [of "Suc r"] nat.distinct if_False)
qed

lemma enc_loop_ok:
  assumes "keys_ok w n rk"
  shows "8 * q + 8 * r + 8 \<le> n \<Longrightarrow> yields_st (enc_loop (Suc r) rk (8 * q) s) (fold (cipher_round aes_sbox w) [2 * q + 1..<2 * q + 2 * r + 2] (cols s))"
  by (rule loop_ok [where L = "\<lambda>r. enc_loop r rk" and R = "enc_round rk"]) (simp_all add: enc_round_ok [OF assms])

lemma getint_word: "length bs \<ge> 4 \<Longrightarrow> \<exists>x. getint bs = Inr x \<and> putint x = take 4 bs"
  using putint_of_getint [of "take 4 bs" "drop 4 bs"] by simp

lemma getquad_ok:
  assumes "length bs = 16" "keys_ok w n rk" "4 \<le> n"
  shows "yields_st (getquad rk bs) (add_round_key w 0 (columns bs))"
proof -
  obtain s0 s1 s2 s3 where g: "getint bs = Inr s0" "putint s0 = take 4 bs" "getint (drop 4 bs) = Inr s1" "putint s1 = take 4 (drop 4 bs)"
    "getint (drop 8 bs) = Inr s2" "putint s2 = take 4 (drop 8 bs)" "getint (drop 12 bs) = Inr s3" "putint s3 = take 4 (drop 12 bs)"
    using getint_word [of bs] getint_word [of "drop 4 bs"] getint_word [of "drop 8 bs"] getint_word [of "drop 12 bs"] assms(1) by auto
  have c: "columns bs = [putint s0, putint s1, putint s2, putint s3]" by (simp add: columns_def upt4 g(2,4,6,8))
  let ?f = "\<lambda>k0 k1 k2 k3. (s0 XOR k0, s1 XOR k1, s2 XOR k2, s3 XOR k3)"
  obtain k0 k1 k2 k3 where k: "with_key ?f rk (4 * 0) = Inr (?f k0 k1 k2 k3)" "map w [4 * 0..<4 * 0 + 4] = [putint k0, putint k1, putint k2, putint k3]"
    by (rule with_key_ok [OF assms(2), of 0]) (use assms(3) in simp)
  have "getquad rk bs = Inr (?f k0 k1 k2 k3)" using k(1) by (simp add: getquad_def g(1,3,5,7))
  moreover have "cols (?f k0 k1 k2 k3) = add_round_key w 0 (columns bs)" unfolding add_round_key_def k(2) c by (simp add: cols_def putint_xor)
  ultimately show ?thesis by (simp only: yields_st_def) blast
qed

lemma encipher_ok:
  assumes "length pt = 16" "keys_ok w (4 * nr + 4) (e_key a)" "nrounds a = nr" "nr \<in> {10, 12, 14}"
  shows "encipher_bytes a pt = Inr (fips_cipher aes_sbox nr w pt)"
proof -
  let ?rk = "e_key a"
  obtain s where s: "getquad ?rk pt = Inr s" "cols s = add_round_key w 0 (columns pt)"
    using getquad_ok [OF assms(1,2)] by (auto simp: yields_st_def)
  obtain h where h: "nr = 2 * h + 2" "nr div 2 = Suc h" using assms(4) that [of "nr div 2 - 1"] by auto
  have "yields_st (enc_loop (Suc h) ?rk 0 s) (fold (cipher_round aes_sbox w) [1..<nr] (cols s))"
    using enc_loop_ok [OF assms(2), of 0 h s] h by simp
  then obtain t0 t1 t2 t3 where t: "enc_rounds nr ?rk s = Inr (t0, t1, t2, t3)" "cols (t0, t1, t2, t3) = fold (cipher_round aes_sbox w) [1..<nr] (cols s)"
    unfolding yields_st_def enc_rounds_loop [OF assms(4), of ?rk s] h(2) by (metis prod_cases4)
  let ?f = "\<lambda>k0 k1 k2 k3. putint (t4_word Te4 t0 t1 t2 t3 k0) @ putint (t4_word Te4 t1 t2 t3 t0 k1) @
       putint (t4_word Te4 t2 t3 t0 t1 k2) @ putint (t4_word Te4 t3 t0 t1 t2 k3)"
  obtain k0 k1 k2 k3 where k: "with_key ?f ?rk (4 * nr) = Inr (?f k0 k1 k2 k3)" "map w [4 * nr..<4 * nr + 4] = [putint k0, putint k1, putint k2, putint k3]"
    by (rule with_key_ok [OF assms(2) order_refl])
  have "encipher_bytes a pt = Inr (?f k0 k1 k2 k3)" using k(1) by (simp add: encipher_bytes_def s(1) t(1) assms(3))
  moreover have e: "fips_cipher aes_sbox nr w pt = concat (add_round_key w nr (shift_rows (sub_bytes aes_sbox (cols (t0, t1, t2, t3)))))"
    by (simp only: fips_cipher_def s(2) t(2))
  have "?f k0 k1 k2 k3 = fips_cipher aes_sbox nr w pt"
    unfolding e sub_shift_cols add_round_key_def k(2) by (simp add: t4_word_bytes)
  ultimately show ?thesis by simp
qed

section \<open>The key schedule\<close>

definition expands :: "(nat \<Rightarrow> u8 list) \<Rightarrow> nat \<Rightarrow> u32 list res \<Rightarrow> bool" where
  "expands w n m \<longleftrightarrow> (\<exists>rk. m = Inr rk \<and> keys_ok w n rk)"

lemma expandsI: "keys_ok w n rk \<Longrightarrow> expands w n (Inr rk)"
  by (simp add: expands_def)

lemma expands_bind: "expands w k m \<Longrightarrow> (\<And>rk. keys_ok w k rk \<Longrightarrow> expands w n (f rk)) \<Longrightarrow> expands w n (bindR m f)"
  by (auto simp: expands_def)

lemma keys_ok_upd: "keys_ok w n rk \<Longrightarrow> n < 60 \<Longrightarrow> putint v = w n \<Longrightarrow> keys_ok w (Suc n) (rk[n := v])"
  by (auto simp: keys_ok_def nth_list_update)

lemma xorkey_ok: "keys_ok w n rk \<Longrightarrow> n < 60 \<Longrightarrow> j < n \<Longrightarrow> w n = xor_col (w j) (putint v) \<Longrightarrow> expands w (Suc n) (xorkey n j v rk)"
  using keys_ok_upd [of w n rk "rk ! j XOR v"] by (simp add: xorkey_def keys_ok_def expands_def putint_xor)

lemma xor2key_ok: "keys_ok w n rk \<Longrightarrow> n < 60 \<Longrightarrow> j < n \<Longrightarrow> k < n \<Longrightarrow> w n = xor_col (w j) (w k) \<Longrightarrow> expands w (Suc n) (xor2key n j k rk)"
  using xorkey_ok [of w n rk j "rk ! k"] by (simp add: xor2key_def keys_ok_def)

lemma ldkey_ok:
  assumes "keys_ok w n rk" "n < 60" "4 * n + 4 \<le> length key" "w n = take 4 (drop (4 * n) key)"
  shows "expands w (Suc n) (ldkey key (4 * n) n rk)"
proof -
  have "4 \<le> length (drop (4 * n) key)" using assms(3) by simp
  then obtain x where "getint (drop (4 * n) key) = Inr x" "putint x = w n" using getint_word [of "drop (4 * n) key"] unfolding assms(4) by blast
  then show ?thesis using keys_ok_upd [OF assms(1,2), of x] assms(1,2) by (simp add: ldkey_def expands_def keys_ok_def)
qed

lemma rcon_ok: "i < 10 \<Longrightarrow> \<exists>rc. rd rcon i = Inr rc \<and> putint rc = fips_rcon (i + 1)"
proof -
  have "list_all (\<lambda>i. putint (rcon ! i) = fips_rcon (i + 1)) [0..<10]" by code_simp
  moreover have "length rcon = 10" by (simp add: rcon_def)
  ultimately show "i < 10 \<Longrightarrow> \<exists>rc. rd rcon i = Inr rc \<and> putint rc = fips_rcon (i + 1)" by (auto simp: list_all_iff)
qed

lemma key_exp_0: "i < nk \<Longrightarrow> key_expansion S nk key i = take 4 (drop (4 * i) key)"
  by (subst key_expansion.simps) simp

lemma key_exp_step:
  assumes "0 < nk" "nk \<le> i"
  shows "key_expansion S nk key i = xor_col (key_expansion S nk key (i - nk))
    (if i mod nk = 0 then xor_col (map S (rot_word (key_expansion S nk key (i - 1)))) (fips_rcon (i div nk))
     else if nk > 6 \<and> i mod nk = 4 then map S (key_expansion S nk key (i - 1)) else key_expansion S nk key (i - 1))"
  using assms by (subst key_expansion.simps) (simp add: Let_def)

text \<open>The first word of a turn, another one, and the extra substitution of the long keys; each with what follows it.\<close>

lemma xorkey_next:
  assumes "keys_ok (key_expansion aes_sbox nk key) n rk"
    and "\<And>rk. keys_ok (key_expansion aes_sbox nk key) n' rk \<Longrightarrow> expands (key_expansion aes_sbox nk key) m (f rk)"
    and "n' = Suc n" "n < 60" "nk \<le> n" "n mod nk = 0" "j = n - nk" "k = n - 1" "0 < nk" "n div nk = i + 1" "i < 10"
  shows "expands (key_expansion aes_sbox nk key) m (bindR (rd rk k) (\<lambda>temp. bindR (rd rcon i) (\<lambda>rc. bindR (xorkey n j (rot_sub temp rc) rk) f)))"
proof -
  obtain rc where rc: "rd rcon i = Inr rc" "putint rc = fips_rcon (i + 1)" using rcon_ok [OF assms(11)] by blast
  have k: "rd rk k = Inr (rk ! k)" "putint (rk ! k) = key_expansion aes_sbox nk key k" using assms(1,4,5,8,9) by (auto simp: keys_ok_def)
  have "expands (key_expansion aes_sbox nk key) (Suc n) (xorkey n j (rot_sub (rk ! k) rc) rk)"
    by (rule xorkey_ok) (use assms key_exp_step [of nk n] k(2) rc(2) in \<open>auto simp: rot_sub_bytes\<close>)
  then show ?thesis unfolding k(1) rc(1) bindR_Inr by (rule expands_bind) (rule assms(2) [unfolded assms(3)])
qed

lemma xor2key_next:
  assumes "keys_ok (key_expansion aes_sbox nk key) n rk"
    and "\<And>rk. keys_ok (key_expansion aes_sbox nk key) n' rk \<Longrightarrow> expands (key_expansion aes_sbox nk key) m (f rk)"
    and "n' = Suc n" "n < 60" "nk \<le> n" "n mod nk \<noteq> 0" "nk \<le> 6 \<or> n mod nk \<noteq> 4" "j = n - nk" "k = n - 1" "0 < nk"
  shows "expands (key_expansion aes_sbox nk key) m (bindR (xor2key n j k rk) f)"
proof (rule expands_bind)
  show "expands (key_expansion aes_sbox nk key) (Suc n) (xor2key n j k rk)"
    by (rule xor2key_ok) (use assms key_exp_step [of nk n] in auto)
qed (rule assms(2) [unfolded assms(3)])

lemma subkey_next:
  assumes "keys_ok (key_expansion aes_sbox nk key) n rk"
    and "\<And>rk. keys_ok (key_expansion aes_sbox nk key) n' rk \<Longrightarrow> expands (key_expansion aes_sbox nk key) m (f rk)"
    and "n' = Suc n" "n < 60" "nk \<le> n" "n mod nk = 4" "6 < nk" "j = n - nk" "k = n - 1"
  shows "expands (key_expansion aes_sbox nk key) m (bindR (rd rk k) (\<lambda>temp. bindR (xorkey n j (sub_temp temp) rk) f))"
proof -
  have k: "rd rk k = Inr (rk ! k)" "putint (rk ! k) = key_expansion aes_sbox nk key k" using assms(1,4,5,7,9) by (auto simp: keys_ok_def)
  have "expands (key_expansion aes_sbox nk key) (Suc n) (xorkey n j (sub_temp (rk ! k)) rk)"
    by (rule xorkey_ok) (use assms key_exp_step [of nk n] k(2) in \<open>auto simp: sub_temp_bytes\<close>)
  then show ?thesis unfolding k(1) bindR_Inr by (rule expands_bind) (rule assms(2) [unfolded assms(3)])
qed

lemma key16_ok:
  "keys_ok (key_expansion aes_sbox 4 key) (4 * i + 4) rk \<Longrightarrow> i + n = 10 \<Longrightarrow> 0 < n \<Longrightarrow> expands (key_expansion aes_sbox 4 key) 44 (key16 n i (4 * i) rk)"
proof (induction n arbitrary: i rk)
  case (Suc n)
  have d: "(4 * i + 4) mod 4 = 0" "(4 * i + 4) div 4 = i + 1" "(4 * i + 5) mod 4 = 1" "(4 * i + 6) mod 4 = 2" "(4 * i + 7) mod 4 = 3" by presburger+
  have rest: "expands (key_expansion aes_sbox 4 key) 44 (if i + 1 = 10 then Inr rk else key16 n (i + 1) (4 * i + 4) rk)"
    if "keys_ok (key_expansion aes_sbox 4 key) (4 * i + 8) rk" for rk
    using that Suc.IH [of "i + 1" rk] Suc.prems(2) by (auto simp: expandsI ac_simps)
  show ?case unfolding key16.simps
    apply (rule xorkey_next, rule Suc.prems(1))
     apply (rule xor2key_next, assumption)+
       apply (rule rest, assumption)
    using d Suc.prems(2) by simp_all
qed simp

lemma key24_ok:
  "keys_ok (key_expansion aes_sbox 6 key) (6 * i + 6) rk \<Longrightarrow> i + n = 8 \<Longrightarrow> 0 < n \<Longrightarrow> expands (key_expansion aes_sbox 6 key) 52 (key24 n i (6 * i) rk)"
proof (induction n arbitrary: i rk)
  case (Suc n)
  have d: "(6 * i + 6) mod 6 = 0" "(6 * i + 6) div 6 = i + 1" "(6 * i + 7) mod 6 = 1" "(6 * i + 8) mod 6 = 2" "(6 * i + 9) mod 6 = 3"
    "(6 * i + 10) mod 6 = 4" "(6 * i + 11) mod 6 = 5" by presburger+
  have rest: "expands (key_expansion aes_sbox 6 key) 52 (if i + 1 = 8 then Inr rk
      else bindR (xor2key (6 * i + 10) (6 * i + 4) (6 * i + 9) rk) (\<lambda>rk. bindR (xor2key (6 * i + 11) (6 * i + 5) (6 * i + 10) rk) (\<lambda>rk.
           key24 n (i + 1) (6 * i + 6) rk)))"
    if k: "keys_ok (key_expansion aes_sbox 6 key) (6 * i + 10) rk" for rk
  proof (cases "i + 1 = 8")
    case True
    then have "keys_ok (key_expansion aes_sbox 6 key) 52 rk" using k by simp
    then show ?thesis unfolding if_P [OF True] by (rule expandsI)
  next
    case False
    have next': "expands (key_expansion aes_sbox 6 key) 52 (key24 n (i + 1) (6 * i + 6) rk)" if "keys_ok (key_expansion aes_sbox 6 key) (6 * i + 12) rk" for rk
      using that Suc.IH [of "i + 1" rk] Suc.prems(2) False by (auto simp: ac_simps)
    show ?thesis unfolding if_not_P [OF False]
      apply (rule xor2key_next, rule k)
       apply (rule xor2key_next, assumption)
        apply (rule next', assumption)
      using d Suc.prems(2) False by simp_all
  qed
  show ?case unfolding key24.simps
    apply (rule xorkey_next, rule Suc.prems(1))
     apply (rule xor2key_next, assumption)
      apply (rule xor2key_next, assumption)
       apply (rule xor2key_next, assumption)
        apply (rule rest, assumption)
    using d Suc.prems(2) by simp_all
qed simp

lemma key32_ok:
  "keys_ok (key_expansion aes_sbox 8 key) (8 * i + 8) rk \<Longrightarrow> i + n = 7 \<Longrightarrow> 0 < n \<Longrightarrow> expands (key_expansion aes_sbox 8 key) 60 (key32 n i (8 * i) rk)"
proof (induction n arbitrary: i rk)
  case (Suc n)
  have d: "(8 * i + 8) mod 8 = 0" "(8 * i + 8) div 8 = i + 1" "(8 * i + 9) mod 8 = 1" "(8 * i + 10) mod 8 = 2" "(8 * i + 11) mod 8 = 3"
    "(8 * i + 12) mod 8 = 4" "(8 * i + 13) mod 8 = 5" "(8 * i + 14) mod 8 = 6" "(8 * i + 15) mod 8 = 7" by presburger+
  have rest: "expands (key_expansion aes_sbox 8 key) 60 (if i + 1 = 7 then Inr rk
      else bindR (rd rk (8 * i + 11)) (\<lambda>temp. bindR (xorkey (8 * i + 12) (8 * i + 4) (sub_temp temp) rk) (\<lambda>rk.
           bindR (xor2key (8 * i + 13) (8 * i + 5) (8 * i + 12) rk) (\<lambda>rk. bindR (xor2key (8 * i + 14) (8 * i + 6) (8 * i + 13) rk) (\<lambda>rk.
           bindR (xor2key (8 * i + 15) (8 * i + 7) (8 * i + 14) rk) (\<lambda>rk. key32 n (i + 1) (8 * i + 8) rk))))))"
    if k: "keys_ok (key_expansion aes_sbox 8 key) (8 * i + 12) rk" for rk
  proof (cases "i + 1 = 7")
    case True
    then have "keys_ok (key_expansion aes_sbox 8 key) 60 rk" using k by simp
    then show ?thesis unfolding if_P [OF True] by (rule expandsI)
  next
    case False
    have next': "expands (key_expansion aes_sbox 8 key) 60 (key32 n (i + 1) (8 * i + 8) rk)" if "keys_ok (key_expansion aes_sbox 8 key) (8 * i + 16) rk" for rk
      using that Suc.IH [of "i + 1" rk] Suc.prems(2) False by (auto simp: ac_simps)
    show ?thesis unfolding if_not_P [OF False]
      apply (rule subkey_next, rule k)
       apply (rule xor2key_next, assumption)
        apply (rule xor2key_next, assumption)
         apply (rule xor2key_next, assumption)
          apply (rule next', assumption)
      using d Suc.prems(2) False by simp_all
  qed
  show ?case unfolding key32.simps
    apply (rule xorkey_next, rule Suc.prems(1))
     apply (rule xor2key_next, assumption)
      apply (rule xor2key_next, assumption)
       apply (rule xor2key_next, assumption)
        apply (rule rest, assumption)
    using d Suc.prems(2) by simp_all
qed simp

text \<open>\<open>setkey_e\<close> reads the key, and runs the loop of its length.\<close>

lemma ldkey_next:
  assumes "keys_ok (key_expansion aes_sbox nk key) n rk"
    and "\<And>rk. keys_ok (key_expansion aes_sbox nk key) n' rk \<Longrightarrow> expands (key_expansion aes_sbox nk key) m (f rk)"
    and "n' = Suc n" "off = 4 * n" "n < nk" "n < 60" "4 * n + 4 \<le> length key"
  shows "expands (key_expansion aes_sbox nk key) m (bindR (ldkey key off n rk) f)"
  using ldkey_ok [OF assms(1,6,7)] assms(2,3,4,5) by (auto intro: expands_bind simp: key_exp_0)

lemma keys_ok_0: "length rk = 60 \<Longrightarrow> keys_ok w 0 rk"
  by (simp add: keys_ok_def)

definition load_key :: "nat \<Rightarrow> u8 list \<Rightarrow> u32 list \<Rightarrow> u32 list res" where
  "load_key nk key rk =
     bindR (ldkey key 0 0 rk) (\<lambda>rk. bindR (ldkey key 4 1 rk) (\<lambda>rk. bindR (ldkey key 8 2 rk) (\<lambda>rk. bindR (ldkey key 12 3 rk) (\<lambda>rk.
       if nk = 4 then key16 10 0 0 rk
       else bindR (ldkey key 16 4 rk) (\<lambda>rk. bindR (ldkey key 20 5 rk) (\<lambda>rk.
       if nk = 6 then key24 8 0 0 rk
       else bindR (ldkey key 24 6 rk) (\<lambda>rk. bindR (ldkey key 28 7 rk) (\<lambda>rk. key32 7 0 0 rk))))))))"

lemma load_key_ok:
  assumes "length rk = 60"
  shows "length key = 16 \<Longrightarrow> expands (key_expansion aes_sbox 4 key) 44 (load_key 4 key rk)"
    "length key = 24 \<Longrightarrow> expands (key_expansion aes_sbox 6 key) 52 (load_key 6 key rk)"
    "length key = 32 \<Longrightarrow> expands (key_expansion aes_sbox 8 key) 60 (load_key 8 key rk)"
proof -
  note start = keys_ok_0 [OF assms]
  show "expands (key_expansion aes_sbox 4 key) 44 (load_key 4 key rk)" if "length key = 16"
    unfolding load_key_def
    apply (rule ldkey_next, rule start)
     apply (rule ldkey_next, assumption)
      apply (rule ldkey_next, assumption)
       apply (rule ldkey_next, assumption)
    using that key16_ok [of key 0 _ 10] by simp_all
  show "expands (key_expansion aes_sbox 6 key) 52 (load_key 6 key rk)" if "length key = 24"
    unfolding load_key_def if_not_P [of "6 = (4 :: nat)", simplified] if_False
    apply (rule ldkey_next, rule start)
     apply (rule ldkey_next, assumption)
      apply (rule ldkey_next, assumption)
       apply (rule ldkey_next, assumption)
        apply simp
        apply (rule ldkey_next, assumption)
         apply (rule ldkey_next, assumption)
    using that key24_ok [of key 0 _ 8] by simp_all
  show "expands (key_expansion aes_sbox 8 key) 60 (load_key 8 key rk)" if "length key = 32"
    unfolding load_key_def
    apply (rule ldkey_next, rule start)
     apply (rule ldkey_next, assumption)
      apply (rule ldkey_next, assumption)
       apply (rule ldkey_next, assumption)
        apply simp
        apply (rule ldkey_next, assumption)
         apply (rule ldkey_next, assumption)
          apply (rule ldkey_next, assumption)
           apply (rule ldkey_next, assumption)
    using that key32_ok [of key 0 _ 7] by simp_all
qed

lemma setkey_e_load:
  assumes "keylen = 4 * nk" "nk \<in> {4, 6, 8}"
  shows "setkey_e key keylen a = bindR (load_key nk key (e_key a)) (\<lambda>rk. Inr (a\<lparr>nrounds := nk + 6, e_key := rk\<rparr>))"
  using assms by (auto simp: setkey_e_def load_key_def bindR_assoc)

lemma setkey_e_ok:
  assumes "length key = 4 * nk" "nk \<in> {4, 6, 8}" "length (e_key a) = 60"
  shows "\<exists>a'. setkey_e key (4 * nk) a = Inr a' \<and> nrounds a' = nk + 6 \<and>
    keys_ok (key_expansion aes_sbox nk key) (4 * nrounds a' + 4) (e_key a') \<and> aes_e.more a' = aes_e.more a"
proof -
  have "expands (key_expansion aes_sbox nk key) (4 * (nk + 6) + 4) (load_key nk key (e_key a))"
    using load_key_ok [OF assms(3), of key] assms(1,2) by auto
  then show ?thesis unfolding setkey_e_load [OF refl assms(2)] expands_def by auto
qed

end
