(* ===== verification/Aes_Inverse.thy ===== *)
theory Aes_Inverse
  imports Aes_Fips
begin

text \<open>
  The decryption of \<open>crypt/aes.C\<close>. \<open>setkey_d\<close> reverses the round keys and applies the inverse of MixColumns to them, so that
  \<open>decipher_bytes\<close> has the shape of encryption: the equivalent inverse cipher of FIPS 197. It is defined here on bytes and goes back
  through the states of the cipher one round at a time.
\<close>

section \<open>The inverse\<close>

lemma nth_list_update_if: "xs[i := v] ! j = (if j = i \<and> i < length xs then v else xs ! j)"
  by (cases "i < length xs") (simp_all add: nth_list_update not_less list_update_beyond)

lemma swapkey_ok: "i < length rk \<Longrightarrow> j < length rk \<Longrightarrow> swapkey i j rk = Inr (rk[i := rk ! j, j := rk ! i])"
  by (simp add: swapkey_def)

lemma key_index:
  assumes "k < 4" "k' < (4 :: nat)"
  shows "4 * r + k = 4 * p + k' \<longleftrightarrow> r = p \<and> k = k'"
proof
  assume "4 * r + k = 4 * p + k'"
  then have "(4 * r + k) div 4 = (4 * p + k') div 4" "(4 * r + k) mod 4 = (4 * p + k') mod 4" by simp_all
  then show "r = p \<and> k = k'" using assms by simp
qed simp

text \<open>One turn swaps two round keys.\<close>

lemma swap_turn:
  assumes "length rk = 60" "p < q" "q < 15"
  shows "\<exists>rk'. swap_rounds (4 * p) (4 * q) rk = swap_rounds (4 * Suc p) (4 * (q - 1)) rk' \<and> length rk' = 60 \<and>
    (\<forall>r<15. \<forall>k<4. rk' ! (4 * r + k) = rk ! (4 * (if r = p then q else if r = q then p else r) + k))"
proof -
  define sw where "sw k rk = rk[4 * p + k := rk ! (4 * q + k), 4 * q + k := rk ! (4 * p + k)]" for k and rk :: "u32 list"
  have l: "length (sw k rk) = length rk" for k rk by (simp add: sw_def)
  have nth: "sw k' rk ! (4 * r + k) = rk ! (4 * (if k \<noteq> k' then r else if r = p then q else if r = q then p else r) + k)"
    if "length rk = 60" "r < 15" "k < 4" "k' < 4" for rk r k k'
  proof -
    have b: "4 * r + k < 60" "4 * p + k' < 60" "4 * q + k' < 60" using that assms(2,3) by linarith+
    show ?thesis using that(1) b assms(2) unfolding sw_def nth_list_update_if key_index [OF that(3,4)] by auto
  qed
  have four: "sw d (sw c (sw b (sw a rk))) ! (4 * r + k) = rk ! (4 * (if r = p then q else if r = q then p else r) + k)"
    if "distinct [a, b, c, d]" "a < 4" "b < 4" "c < 4" "d < 4" "k \<in> {a, b, c, d}" "r < 15" for a b c d r k
    using that assms by (auto simp: nth l)
  define rk' where "rk' = sw 3 (sw 2 (sw 1 (sw 0 rk)))"
  have "swap_rounds (4 * p) (4 * q) rk = swap_rounds (4 * p + 4) (4 * q - 4) rk'"
    using assms by (subst swap_rounds.simps) (simp add: swapkey_ok l rk'_def, simp add: sw_def ac_simps)
  moreover have "rk' ! (4 * r + k) = rk ! (4 * (if r = p then q else if r = q then p else r) + k)" if "r < 15" "k < 4" for r k
    unfolding rk'_def by (rule four) (use that in auto)
  moreover have "4 * p + 4 = 4 * Suc p" "4 * q - 4 = 4 * (q - 1)" by simp_all
  moreover have "length rk' = 60" using assms(1) by (simp add: rk'_def l)
  ultimately show ?thesis by metis
qed

lemma swap_rounds_ok:
  "length rk = 60 \<Longrightarrow> q < 15 \<Longrightarrow> \<exists>rk'. swap_rounds (4 * p) (4 * q) rk = Inr rk' \<and> length rk' = 60 \<and>
    (\<forall>r<15. \<forall>k<4. rk' ! (4 * r + k) = rk ! (4 * (if p \<le> r \<and> r \<le> q then p + q - r else r) + k))"
proof (induction "q - p" arbitrary: p q rk rule: less_induct)
  case less
  show ?case
  proof (cases "p < q")
    case False
    then have "swap_rounds (4 * p) (4 * q) rk = Inr rk" by (subst swap_rounds.simps) simp
    moreover have "4 * (if p \<le> r \<and> r \<le> q then p + q - r else r) + k = 4 * r + k" for r k using False by auto
    ultimately show ?thesis using less.prems by simp
  next
    case True
    obtain rk1 where 1: "swap_rounds (4 * p) (4 * q) rk = swap_rounds (4 * Suc p) (4 * (q - 1)) rk1" "length rk1 = 60"
      "\<forall>r<15. \<forall>k<4. rk1 ! (4 * r + k) = rk ! (4 * (if r = p then q else if r = q then p else r) + k)"
      using swap_turn [OF less.prems(1) True less.prems(2)] by blast
    have m: "q - 1 - Suc p < q - p" "q - 1 < 15" using True less.prems(2) by auto
    obtain rk2 where 2: "swap_rounds (4 * Suc p) (4 * (q - 1)) rk1 = Inr rk2" "length rk2 = 60"
      "\<forall>r<15. \<forall>k<4. rk2 ! (4 * r + k) = rk1 ! (4 * (if Suc p \<le> r \<and> r \<le> q - 1 then Suc p + (q - 1) - r else r) + k)"
      using less.hyps [OF m(1) 1(2) m(2)] by blast
    have "rk2 ! (4 * r + k) = rk ! (4 * (if p \<le> r \<and> r \<le> q then p + q - r else r) + k)" if "r < 15" "k < 4" for r k
    proof -
      let ?r = "if Suc p \<le> r \<and> r \<le> q - 1 then Suc p + (q - 1) - r else r"
      have "?r < 15" using that(1) True less.prems(2) by auto
      then have "rk2 ! (4 * r + k) = rk ! (4 * (if ?r = p then q else if ?r = q then p else ?r) + k)" using 1(3) 2(3) that by simp
      moreover have "(if ?r = p then q else if ?r = q then p else ?r) = (if p \<le> r \<and> r \<le> q then p + q - r else r)" using True by auto
      ultimately show ?thesis by simp
    qed
    then show ?thesis using 1(1) 2(1,2) by auto
  qed
qed

lemma mixkey_ok: "i < length rk \<Longrightarrow> mixkey i rk = Inr (rk[i := inv_mix (rk ! i)])"
  by (simp add: mixkey_def)

lemma mix_rounds_ok:
  "length rk = 60 \<Longrightarrow> m + n < 15 \<Longrightarrow> \<exists>rk'. mix_rounds n (4 * m) rk = Inr rk' \<and> length rk' = 60 \<and>
    (\<forall>r<15. \<forall>k<4. rk' ! (4 * r + k) = (if m < r \<and> r \<le> m + n then inv_mix (rk ! (4 * r + k)) else rk ! (4 * r + k)))"
proof (induction n arbitrary: m rk)
  case (Suc n)
  define mk where "mk k rk = rk[4 * m + 4 + k := inv_mix (rk ! (4 * m + 4 + k))]" for k and rk :: "u32 list"
  obtain M where M: "Suc m = M" by simp
  have l: "length (mk k rk) = length rk" for k rk by (simp add: mk_def)
  have nth: "mk k' rk ! (4 * r + k) = (if k = k' \<and> r = M then inv_mix (rk ! (4 * r + k)) else rk ! (4 * r + k))"
    if "length rk = 60" "r < 15" "k < 4" "k' < 4" for rk r k k'
  proof -
    have b: "4 * r + k < 60" "4 * m + 4 + k' < 60" "4 * m + 4 + k' = 4 * Suc m + k'" using that Suc.prems(2) by simp_all
    show ?thesis using that(1) b(1,2) unfolding mk_def b(3) M nth_list_update_if key_index [OF that(3,4)] by auto
  qed
  have four: "mk d (mk c (mk b (mk a rk))) ! (4 * r + k) = (if r = M then inv_mix (rk ! (4 * r + k)) else rk ! (4 * r + k))"
    if "distinct [a, b, c, d]" "a < 4" "b < 4" "c < 4" "d < 4" "k \<in> {a, b, c, d}" "r < 15" for a b c d r k
    using that Suc.prems(1) by (auto simp: nth l)
  define rk1 where "rk1 = mk 3 (mk 2 (mk 1 (mk 0 rk)))"
  have l1: "length rk1 = 60" using Suc.prems(1) by (simp add: rk1_def l)
  have step: "mix_rounds (Suc n) (4 * m) rk = mix_rounds n (4 * Suc m) rk1"
    using Suc.prems by (simp add: mixkey_ok l rk1_def) (simp add: mk_def ac_simps)
  obtain rk2 where 2: "mix_rounds n (4 * Suc m) rk1 = Inr rk2" "length rk2 = 60"
    "\<forall>r<15. \<forall>k<4. rk2 ! (4 * r + k) = (if Suc m < r \<and> r \<le> Suc m + n then inv_mix (rk1 ! (4 * r + k)) else rk1 ! (4 * r + k))"
    using Suc.IH [OF l1, of "Suc m"] Suc.prems(2) by auto
  have r1: "rk1 ! (4 * r + k) = (if r = M then inv_mix (rk ! (4 * r + k)) else rk ! (4 * r + k))" if "r < 15" "k < 4" for r k
    unfolding rk1_def by (rule four) (use that in auto)
  have "rk2 ! (4 * r + k) = (if m < r \<and> r \<le> m + Suc n then inv_mix (rk ! (4 * r + k)) else rk ! (4 * r + k))" if "r < 15" "k < 4" for r k
  proof -
    have "m < r \<and> r \<le> m + Suc n \<longleftrightarrow> r = M \<or> M < r \<and> r \<le> M + n" using M by auto
    then show ?thesis using 2(3) [rule_format, OF that] r1 [OF that] unfolding M by auto
  qed
  then show ?case using step 2(1,2) by auto
qed auto

text \<open>The equivalent inverse cipher, with its round keys.\<close>

definition inv_round :: "(nat \<Rightarrow> u8 list) \<Rightarrow> nat \<Rightarrow> u8 list list \<Rightarrow> u8 list list" where
  "inv_round w r st = add_round_key w r (map inv_mix_column (inv_shift_rows (sub_bytes inv_sbox st)))"

definition inv_cipher :: "nat \<Rightarrow> (nat \<Rightarrow> u8 list) \<Rightarrow> u8 list \<Rightarrow> u8 list" where
  "inv_cipher nr w inp =
     concat (add_round_key w nr (inv_shift_rows (sub_bytes inv_sbox (fold (inv_round w) [1..<nr] (add_round_key w 0 (columns inp))))))"

definition inv_keys :: "(nat \<Rightarrow> u8 list) \<Rightarrow> nat \<Rightarrow> nat \<Rightarrow> u8 list" where
  "inv_keys w nr i =
     (let v = w (4 * (nr - i div 4) + i mod 4) in if 0 < i div 4 \<and> i div 4 < nr then inv_mix_column v else v)"

lemma sub_inv_shift_cols: "inv_shift_rows (sub_bytes S (cols (s0, s1, s2, s3))) =
  [[S (byt 0 s0), S (byt 1 s3), S (byt 2 s2), S (byt 3 s1)], [S (byt 0 s1), S (byt 1 s0), S (byt 2 s3), S (byt 3 s2)],
   [S (byt 0 s2), S (byt 1 s1), S (byt 2 s0), S (byt 3 s3)], [S (byt 0 s3), S (byt 1 s2), S (byt 2 s1), S (byt 3 s0)]]"
  unfolding cols_def prod.case sub_bytes_def
  by (subst putint_byts [of s0], subst putint_byts [of s1], subst putint_byts [of s2], subst putint_byts [of s3])
    (simp only: list.map inv_shift_rows_4)

lemma dec_round_ok:
  assumes "keys_ok w n rk" "4 * r + 4 \<le> n"
  shows "yields_st (dec_round rk (4 * r) s) (inv_round w r (cols s))"
proof -
  obtain s0 s1 s2 s3 where s: "s = (s0, s1, s2, s3)" by (metis prod_cases4)
  obtain k0 k1 k2 k3 where k: "dec_round rk (4 * r) s = Inr (td_word s0 s3 s2 s1 k0, td_word s1 s0 s3 s2 k1, td_word s2 s1 s0 s3 k2, td_word s3 s2 s1 s0 k3)"
    "map w [4 * r..<4 * r + 4] = [putint k0, putint k1, putint k2, putint k3]"
    unfolding dec_round_def s prod.case by (rule with_key_ok [OF assms])
  have "cols (td_word s0 s3 s2 s1 k0, td_word s1 s0 s3 s2 k1, td_word s2 s1 s0 s3 k2, td_word s3 s2 s1 s0 k3) = inv_round w r (cols s)"
    unfolding inv_round_def add_round_key_def k(2) unfolding s sub_inv_shift_cols by (simp add: cols_def td_word_bytes)
  then show ?thesis using k(1) by (simp only: yields_st_def) blast
qed

lemma decipher_ok:
  assumes "length ct = 16" "keys_ok w (4 * nr + 4) (d_key a)" "nrounds a = nr" "nr \<in> {10, 12, 14}"
  shows "decipher_bytes a ct = Inr (inv_cipher nr w ct)"
proof -
  let ?rk = "d_key a"
  obtain s where s: "getquad ?rk ct = Inr s" "cols s = add_round_key w 0 (columns ct)"
    using getquad_ok [OF assms(1,2)] by (auto simp: yields_st_def)
  obtain h where h: "nr = 2 * h + 2" "nr div 2 = Suc h" using assms(4) that [of "nr div 2 - 1"] by auto
  have "8 * 0 + 8 * h + 8 \<le> 4 * nr + 4" using h(1) by simp
  then have "yields_st (dec_loop (Suc h) ?rk (8 * 0) s) (fold (inv_round w) [2 * 0 + 1..<2 * 0 + 2 * h + 2] (cols s))"
    by (rule loop_ok [where L = "\<lambda>r. dec_loop r ?rk" and R = "dec_round ?rk", rotated 2]) (simp_all add: dec_round_ok [OF assms(2)])
  then have "yields_st (dec_loop (Suc h) ?rk 0 s) (fold (inv_round w) [1..<nr] (cols s))" using h(1) by simp
  then obtain t0 t1 t2 t3 where t: "dec_rounds nr ?rk s = Inr (t0, t1, t2, t3)" "cols (t0, t1, t2, t3) = fold (inv_round w) [1..<nr] (cols s)"
    unfolding yields_st_def dec_rounds_loop [OF assms(4), of ?rk s] h(2) by (metis prod_cases4)
  let ?f = "\<lambda>k0 k1 k2 k3. putint (t4_word Td4 t0 t3 t2 t1 k0) @ putint (t4_word Td4 t1 t0 t3 t2 k1) @
       putint (t4_word Td4 t2 t1 t0 t3 k2) @ putint (t4_word Td4 t3 t2 t1 t0 k3)"
  obtain k0 k1 k2 k3 where k: "with_key ?f ?rk (4 * nr) = Inr (?f k0 k1 k2 k3)" "map w [4 * nr..<4 * nr + 4] = [putint k0, putint k1, putint k2, putint k3]"
    by (rule with_key_ok [OF assms(2) order_refl])
  have "decipher_bytes a ct = Inr (?f k0 k1 k2 k3)" using k(1) by (simp add: decipher_bytes_def s(1) t(1) assms(3))
  moreover have e: "inv_cipher nr w ct = concat (add_round_key w nr (inv_shift_rows (sub_bytes inv_sbox (cols (t0, t1, t2, t3)))))"
    by (simp only: inv_cipher_def s(2) t(2))
  have "?f k0 k1 k2 k3 = inv_cipher nr w ct"
    unfolding e sub_inv_shift_cols add_round_key_def k(2) by (simp add: t4_word_bytes)
  ultimately show ?thesis by simp
qed

lemma setkey_d_ok:
  assumes "nrounds a = nr" "0 < nr" "nr < 15" "keys_ok w (4 * nr + 4) (e_key a)"
  shows "\<exists>rk. setkey_d a = Inr (a\<lparr>d_key := rk\<rparr>) \<and> keys_ok (inv_keys w nr) (4 * nr + 4) rk"
proof -
  have l: "length (e_key a) = 60" using assms(4) by (simp add: keys_ok_def)
  obtain rk1 where 1: "swap_rounds 0 (4 * nr) (e_key a) = Inr rk1" "length rk1 = 60"
    "\<forall>r<15. \<forall>k<4. rk1 ! (4 * r + k) = e_key a ! (4 * (if 0 \<le> r \<and> r \<le> nr then 0 + nr - r else r) + k)"
    using swap_rounds_ok [OF l assms(3), of 0] by auto
  obtain rk2 where 2: "mix_rounds (nr - 1) 0 rk1 = Inr rk2" "length rk2 = 60"
    "\<forall>r<15. \<forall>k<4. rk2 ! (4 * r + k) = (if 0 < r \<and> r \<le> nr - 1 then inv_mix (rk1 ! (4 * r + k)) else rk1 ! (4 * r + k))"
    using mix_rounds_ok [OF 1(2), of 0 "nr - 1"] less_imp_diff_less [OF assms(3), of 1] unfolding add_0 mult_0_right by blast
  have "putint (rk2 ! i) = inv_keys w nr i" if "i < 4 * nr + 4" for i
  proof -
    define r k where "r = i div 4" and "k = i mod 4"
    have i: "i = 4 * r + k" "r \<le> nr" "r < 15" "k < 4" using that assms(3) by (auto simp: r_def k_def)
    have "4 * (nr - r) + k < 4 * nr + 4" using i(4) by linarith
    then have "putint (e_key a ! (4 * (nr - r) + k)) = w (4 * (nr - r) + k)" using assms(4) by (simp add: keys_ok_def)
    moreover have "rk1 ! (4 * r + k) = e_key a ! (4 * (nr - r) + k)" using 1(3) i(2-4) by simp
    moreover have "rk2 ! (4 * r + k) = (if 0 < r \<and> r \<le> nr - 1 then inv_mix (rk1 ! (4 * r + k)) else rk1 ! (4 * r + k))" using 2(3) i(3,4) by simp
    ultimately show ?thesis unfolding inv_keys_def r_def [symmetric] k_def [symmetric] Let_def unfolding i(1)
      using assms(2) by (auto simp: inv_mix_bytes)
  qed
  then have "keys_ok (inv_keys w nr) (4 * nr + 4) rk2" using 2(2) assms(3) by (simp add: keys_ok_def)
  moreover have "setkey_d a = Inr (a\<lparr>d_key := rk2\<rparr>)" using 1(1) 2(1) assms(1) by (simp add: setkey_d_def)
  ultimately show ?thesis by blast
qed

text \<open>States of the right shape.\<close>

definition square :: "u8 list list \<Rightarrow> bool" where
  "square st \<longleftrightarrow> length st = 4 \<and> (\<forall>c\<in>set st. length c = 4)"

lemma length4: "length xs = 4 \<longleftrightarrow> (\<exists>a b c d. xs = [a, b, c, d])"
  by (auto simp: numeral_eq_Suc length_Suc_conv)

lemma squareE:
  assumes "square st"
  obtains a0 a1 a2 a3 b0 b1 b2 b3 c0 c1 c2 c3 d0 d1 d2 d3
  where "st = [[a0, a1, a2, a3], [b0, b1, b2, b3], [c0, c1, c2, c3], [d0, d1, d2, d3]]"
  using assms unfolding square_def length4 by auto

lemma square_4 [simp]: "square [[a0, a1, a2, a3], [b0, b1, b2, b3], [c0, c1, c2, c3], [d0, d1, d2, d3]]"
  by (simp add: square_def)

definition keys_len :: "(nat \<Rightarrow> u8 list) \<Rightarrow> nat \<Rightarrow> bool" where
  "keys_len w r \<longleftrightarrow> (\<forall>k<4. length (w (4 * r + k)) = 4)"

lemma map_upt_4: "map w [4 * r..<4 * r + 4] = [w (4 * r), w (4 * r + 1), w (4 * r + 2), w (4 * r + 3)]"
proof -
  have "[4 * r..<4 * r + 4] = [4 * r, 4 * r + 1, 4 * r + 2, 4 * r + 3]" by (simp add: upt_conv_Cons numeral_eq_Suc)
  then show ?thesis by simp
qed

lemma keys_lenE:
  assumes "keys_len w r"
  obtains a0 a1 a2 a3 b0 b1 b2 b3 c0 c1 c2 c3 d0 d1 d2 d3
  where "map w [4 * r..<4 * r + 4] = [[a0, a1, a2, a3], [b0, b1, b2, b3], [c0, c1, c2, c3], [d0, d1, d2, d3]]"
proof -
  have "square [w (4 * r), w (4 * r + 1), w (4 * r + 2), w (4 * r + 3)]"
    using assms [unfolded keys_len_def, rule_format, of 0] assms [unfolded keys_len_def, rule_format, of 1]
      assms [unfolded keys_len_def, rule_format, of 2] assms [unfolded keys_len_def, rule_format, of 3] by (simp add: square_def)
  then show thesis using that by (rule squareE) (simp add: map_upt_4)
qed

lemma xor_col_4 [simp]: "xor_col [a, b, c, d] [e, f, g, h] = [a XOR e, b XOR f, c XOR g, d XOR h]"
  by (simp add: xor_col_def)

lemma add_twice:
  assumes "square st" "keys_len w r"
  shows "add_round_key w r (add_round_key w r st) = st"
  using assms by (elim squareE keys_lenE) (simp add: add_round_key_def xor.assoc)

lemma square_ops:
  assumes "square st"
  shows "keys_len w r \<Longrightarrow> square (add_round_key w r st)" "square (shift_rows (sub_bytes S st))" "square (map mix_column st)"
proof -
  show "square (add_round_key w r st)" if "keys_len w r" using that assms by (elim squareE keys_lenE) (simp add: add_round_key_def)
  show "square (shift_rows (sub_bytes S st))" using assms by (elim squareE) (simp add: sub_bytes_def shift_rows_4)
  show "square (map mix_column st)" using assms by (elim squareE) (simp add: mix_column_def mul_column_def)
qed

lemma sub_shift_inverse: "square st \<Longrightarrow> inv_shift_rows (sub_bytes inv_sbox (shift_rows (sub_bytes aes_sbox st))) = st"
  by (elim squareE) (simp add: sub_bytes_def shift_rows_4 inv_shift_rows_4)

lemma xtime_xor: "xtime (x XOR y) = xtime x XOR xtime y"
proof -
  have "push_bit 1 (x XOR y) = push_bit 1 x XOR push_bit 1 y" by (rule push_bit_xor)
  moreover have "bit (x XOR y) 7 \<longleftrightarrow> bit x 7 \<noteq> bit y 7" by (simp add: bit_xor_iff)
  ultimately show ?thesis unfolding xtime_def by (auto simp: ac_simps simp del: push_bit_Suc)
qed

lemma xor8_cancel: "(x :: u8) XOR (x XOR y) = y"
  by (simp flip: xor.assoc)

lemma gmul_xor: "gmul c (x XOR y) = gmul c x XOR gmul c y" if "c \<in> {1, 2, 3, 9, 11, 13, 14}"
  using that by (auto simp: gmul_consts xtime_xor ac_simps)

lemma inv_mix_mix: "inv_mix_column (mix_column [a, b, c, d]) = [a, b, c, d]"
  unfolding inv_mix_column_def mix_column_def mul_column_def
  by (simp add: gmul_consts xtime_xor) (simp add: ac_simps xor8_cancel)

lemma inv_mix_xor: "inv_mix_column (xor_col [a, b, c, d] [e, f, g, h]) = xor_col (inv_mix_column [a, b, c, d]) (inv_mix_column [e, f, g, h])"
  unfolding inv_mix_column_def mul_column_def by (simp add: gmul_xor ac_simps)

lemma inv_mix_columns: "square st \<Longrightarrow> map inv_mix_column (map mix_column st) = st"
  by (elim squareE) (simp add: inv_mix_mix)

lemma inv_mix_add:
  assumes "square st" "keys_len w r" "\<And>k. k < 4 \<Longrightarrow> w' (4 * r' + k) = inv_mix_column (w (4 * r + k))"
  shows "add_round_key w' r' (map inv_mix_column (add_round_key w r st)) = map inv_mix_column st"
proof -
  obtain a0 a1 a2 a3 b0 b1 b2 b3 c0 c1 c2 c3 d0 d1 d2 d3 where k: "map w [4 * r..<4 * r + 4] = [[a0, a1, a2, a3], [b0, b1, b2, b3], [c0, c1, c2, c3], [d0, d1, d2, d3]]"
    using assms(2) by (elim keys_lenE)
  have k': "map w' [4 * r'..<4 * r' + 4] = map inv_mix_column (map w [4 * r..<4 * r + 4])"
    unfolding map_upt_4 using assms(3) [of 0] assms(3) [of 1] assms(3) [of 2] assms(3) [of 3] by simp
  have x: "xor_col (xor_col (inv_mix_column [a, b, c, d]) u) u = inv_mix_column [a, b, c, d]" if "length u = 4" for a b c d u
    using that unfolding length4 by (auto simp: inv_mix_column_def mul_column_def xor.assoc)
  have l: "length (inv_mix_column c) = 4" for c by (simp add: inv_mix_column_def mul_column_def)
  show ?thesis using assms(1) by (elim squareE) (simp only: add_round_key_def k' k list.map zip_Cons_Cons zip_Nil prod.case inv_mix_xor x l)
qed

lemma columns_concat: "square st \<Longrightarrow> columns (concat st) = st"
  by (elim squareE) (simp add: columns_def upt4)

lemma concat_columns:
  assumes "length bs = 16"
  shows "concat (columns bs) = bs"
proof -
  have split: "xs = take 4 xs @ drop 4 xs" for xs :: "u8 list" by simp
  have "bs = take 4 bs @ take 4 (drop 4 bs) @ take 4 (drop 8 bs) @ drop 12 bs"
    by (subst split [of bs], subst split [of "drop 4 bs"], subst split [of "drop 4 (drop 4 bs)"]) simp
  also have "drop 12 bs = take 4 (drop 12 bs)" using assms by simp
  finally show ?thesis by (simp add: columns_def upt4)
qed

lemma square_columns: "length bs = 16 \<Longrightarrow> square (columns bs)"
  by (simp add: columns_def upt4 square_def)

text \<open>The rounds of the inverse go back through the states of the cipher.\<close>

lemma inv_keys_quad: "j < 4 \<Longrightarrow> inv_keys w nr (4 * r + j) =
  (if 0 < r \<and> r < nr then inv_mix_column (w (4 * (nr - r) + j)) else w (4 * (nr - r) + j))"
  by (simp add: inv_keys_def Let_def)

lemma inv_keys_ends:
  "map (inv_keys w nr) [4 * 0..<4 * 0 + 4] = map w [4 * nr..<4 * nr + 4]"
  "map (inv_keys w nr) [4 * nr..<4 * nr + 4] = map w [4 * 0..<4 * 0 + 4]"
proof -
  have e: "map (inv_keys w nr) [4 * r..<4 * r + 4] = map w [4 * (nr - r)..<4 * (nr - r) + 4]" if "\<not> (0 < r \<and> r < nr)" for r
    unfolding map_upt_4 using inv_keys_quad [of 0 w nr r] inv_keys_quad [of 1 w nr r] inv_keys_quad [of 2 w nr r] inv_keys_quad [of 3 w nr r]
    unfolding if_not_P [OF that] by simp
  show "map (inv_keys w nr) [4 * 0..<4 * 0 + 4] = map w [4 * nr..<4 * nr + 4]" using e [of 0] by (simp only: diff_zero less_irrefl HOL.simp_thms)
  show "map (inv_keys w nr) [4 * nr..<4 * nr + 4] = map w [4 * 0..<4 * 0 + 4]" using e [of nr] by (simp only: diff_self_eq_0 less_irrefl HOL.simp_thms)
qed

lemma inv_round_back:
  assumes "square X" "square st" "keys_len w k" "0 < k" "k < nr" "st = add_round_key w k (map mix_column X)"
  shows "inv_round (inv_keys w nr) (nr - k) (shift_rows (sub_bytes aes_sbox st)) = X"
proof -
  have "inv_keys w nr (4 * (nr - k) + j) = inv_mix_column (w (4 * k + j))" if "j < 4" for j
    using that assms(4,5) by (simp add: inv_keys_quad)
  then have "add_round_key (inv_keys w nr) (nr - k) (map inv_mix_column st) = map inv_mix_column (map mix_column X)"
    unfolding assms(6) by (rule inv_mix_add [OF square_ops(3) [OF assms(1)] assms(3)])
  then show ?thesis unfolding inv_round_def sub_shift_inverse [OF assms(2)] inv_mix_columns [OF assms(1)] .
qed

text \<open>The state after round \<open>r\<close>.\<close>

definition fips_state :: "(nat \<Rightarrow> u8 list) \<Rightarrow> u8 list \<Rightarrow> nat \<Rightarrow> u8 list list" where
  "fips_state w pt r = fold (cipher_round aes_sbox w) [1..<Suc r] (add_round_key w 0 (columns pt))"

definition fips_half :: "(nat \<Rightarrow> u8 list) \<Rightarrow> u8 list \<Rightarrow> nat \<Rightarrow> u8 list list" where
  "fips_half w pt r = shift_rows (sub_bytes aes_sbox (fips_state w pt r))"

lemma fips_state_0: "fips_state w pt 0 = add_round_key w 0 (columns pt)"
  by (simp add: fips_state_def)

lemma fips_state_Suc: "fips_state w pt (Suc r) = add_round_key w (Suc r) (map mix_column (fips_half w pt r))"
  by (simp add: fips_state_def fips_half_def cipher_round_def)

lemma fips_cipher_half: "0 < nr \<Longrightarrow> fips_cipher aes_sbox nr w pt = concat (add_round_key w nr (fips_half w pt (nr - 1)))"
  by (simp add: fips_cipher_def fips_half_def fips_state_def)

lemma square_states:
  assumes "length pt = 16" "\<And>r. r \<le> nr \<Longrightarrow> keys_len w r" "r \<le> nr"
  shows "square (fips_state w pt r)" "square (fips_half w pt r)"
proof -
  show "square (fips_state w pt r)" using assms(3)
  proof (induction r)
    case 0
    show ?case unfolding fips_state_0 by (rule square_ops(1) [OF square_columns [OF assms(1)] assms(2)]) simp
  next
    case (Suc r)
    then show ?case unfolding fips_state_Suc fips_half_def by (intro square_ops assms(2)) simp_all
  qed
  then show "square (fips_half w pt r)" unfolding fips_half_def by (rule square_ops(2))
qed

lemma inv_rounds_back:
  assumes "length pt = 16" "\<And>r. r \<le> nr \<Longrightarrow> keys_len w r" "r < nr"
  shows "fold (inv_round (inv_keys w nr)) [1..<Suc r] (fips_half w pt (nr - 1)) = fips_half w pt (nr - 1 - r)"
  using assms(3)
proof (induction r)
  case (Suc r)
  define q where "q = nr - 1 - Suc r"
  have k: "nr - 1 - r = Suc q" "nr - Suc q = Suc r" "Suc q < nr" using Suc.prems by (auto simp: q_def)
  have "inv_round (inv_keys w nr) (nr - Suc q) (shift_rows (sub_bytes aes_sbox (fips_state w pt (Suc q)))) = fips_half w pt q"
    by (rule inv_round_back) (use k(3) in \<open>simp_all add: square_states [OF assms(1,2)] assms(2) flip: fips_state_Suc\<close>)
  moreover have "fold (inv_round (inv_keys w nr)) [1..<Suc r] (fips_half w pt (nr - 1)) = fips_half w pt (Suc q)"
    using Suc k(1) by simp
  ultimately show ?case unfolding q_def [symmetric] k(2) by (simp add: fips_half_def [of w pt "Suc q"])
qed simp

lemma inv_cipher_cipher:
  assumes "length pt = 16" "0 < nr" "\<And>r. r \<le> nr \<Longrightarrow> keys_len w r"
  shows "inv_cipher nr (inv_keys w nr) (fips_cipher aes_sbox nr w pt) = pt"
proof -
  let ?dw = "inv_keys w nr" and ?h = "fips_half w pt"
  have sq: "square (fips_state w pt r)" "square (?h r)" if "r \<le> nr" for r
    using that by (simp_all add: square_states [OF assms(1,3)])
  have l: "keys_len w nr" "keys_len w 0" by (simp_all add: assms(3))
  have n: "nr - 1 \<le> nr" "nr - 1 < nr" "nr - 1 - (nr - 1) = 0" "Suc (nr - 1) = nr" using assms(2) by simp_all
  have "add_round_key ?dw 0 (columns (fips_cipher aes_sbox nr w pt)) = ?h (nr - 1)"
    unfolding fips_cipher_half [OF assms(2)] columns_concat [OF square_ops(1) [OF sq(2) [OF n(1)] l(1)]]
    using add_twice [OF sq(2) [OF n(1)] l(1)] by (simp only: add_round_key_def inv_keys_ends)
  then have "fold (inv_round ?dw) [1..<nr] (add_round_key ?dw 0 (columns (fips_cipher aes_sbox nr w pt))) = ?h 0"
    using inv_rounds_back [OF assms(1,3) n(2)] by (simp only: n)
  then have "inv_cipher nr ?dw (fips_cipher aes_sbox nr w pt) = concat (add_round_key ?dw nr (inv_shift_rows (sub_bytes inv_sbox (?h 0))))"
    by (simp only: inv_cipher_def)
  also have "inv_shift_rows (sub_bytes inv_sbox (?h 0)) = fips_state w pt 0"
    unfolding fips_half_def by (rule sub_shift_inverse) (simp add: sq)
  also have "add_round_key ?dw nr (fips_state w pt 0) = columns pt"
    using add_twice [OF square_columns [OF assms(1)] l(2)] by (simp only: fips_state_0 add_round_key_def inv_keys_ends)
  also have "concat (columns pt) = pt" by (rule concat_columns [OF assms(1)])
  finally show ?thesis .
qed

lemma fips_cipher_length:
  assumes "length pt = 16" "0 < nr" "\<And>r. r \<le> nr \<Longrightarrow> keys_len w r"
  shows "length (fips_cipher aes_sbox nr w pt) = 16"
proof -
  have "square (add_round_key w nr (fips_half w pt (nr - 1)))"
    using square_ops(1) [OF square_states(2) [OF assms(1,3)] assms(3)] by simp
  then show ?thesis unfolding fips_cipher_half [OF assms(2)] by (elim squareE) simp
qed

lemma keys_ok_len: "keys_ok w (4 * nr + 4) rk \<Longrightarrow> r \<le> nr \<Longrightarrow> keys_len w r"
  unfolding keys_len_def keys_ok_def
proof (intro allI impI)
  fix k :: nat
  assume a: "length rk = 60 \<and> 4 * nr + 4 \<le> 60 \<and> (\<forall>i<4 * nr + 4. putint (rk ! i) = w i)" "r \<le> nr" "k < 4"
  then have "putint (rk ! (4 * r + k)) = w (4 * r + k)" by (metis (no_types) add_le_less_mono mult_le_mono2)
  then show "length (w (4 * r + k)) = 4" by (metis length_put(2))
qed

section \<open>Properties\<close>

definition aes_new :: "u32 list \<Rightarrow> u32 list \<Rightarrow> aes" where
  "aes_new e d = \<lparr>nrounds = 0, e_key = e, d_key = d\<rparr>"

lemma aes_setkey_ok:
  assumes "length key \<in> {16, 24, 32}" "length (e_key a) = 60"
  obtains a' nr w where "aes_setkey key (length key) (a :: 'a aes_scheme) = Inr a'" "nrounds a' = nr" "nr = length key div 4 + 6" "nr \<in> {10, 12, 14}"
    "w = key_expansion aes_sbox (length key div 4) key" "keys_ok w (4 * nr + 4) (e_key a')" "keys_ok (inv_keys w nr) (4 * nr + 4) (d_key a')"
proof -
  obtain nk where nk: "length key = 4 * nk" "nk \<in> {4, 6, 8}" "nk = length key div 4" using assms(1) that [of "length key div 4"] by auto
  let ?w = "key_expansion aes_sbox nk key"
  obtain a1 where 1: "setkey_e key (4 * nk) a = Inr a1" "nrounds a1 = nk + 6" "keys_ok ?w (4 * nrounds a1 + 4) (e_key a1)"
    using setkey_e_ok [OF nk(1,2) assms(2)] by blast
  obtain rk where 2: "setkey_d a1 = Inr (a1\<lparr>d_key := rk\<rparr>)" "keys_ok (inv_keys ?w (nk + 6)) (4 * (nk + 6) + 4) rk"
    using setkey_d_ok [of a1 "nk + 6" ?w] 1(2,3) nk(2) by auto
  show thesis
  proof (rule that [of "a1\<lparr>d_key := rk\<rparr>" "nk + 6" ?w])
    show "aes_setkey key (length key) a = Inr (a1\<lparr>d_key := rk\<rparr>)" using 1(1) 2(1) nk(1) by (simp add: aes_setkey_def)
    show "nrounds (a1\<lparr>d_key := rk\<rparr>) = nk + 6" "keys_ok ?w (4 * (nk + 6) + 4) (e_key (a1\<lparr>d_key := rk\<rparr>))"
      using 1(2,3) by simp_all
    show "keys_ok (inv_keys ?w (nk + 6)) (4 * (nk + 6) + 4) (d_key (a1\<lparr>d_key := rk\<rparr>))" using 2(2) by simp
    show "nk + 6 = length key div 4 + 6" "?w = key_expansion aes_sbox (length key div 4) key" unfolding nk(3) [symmetric] by (rule refl)+
    show "nk + 6 \<in> {10, 12, 14}" using nk(2) by auto
  qed
qed

text \<open>
  C10. The cipher is AES. For a key of 16, 24 or 32 bytes, \<open>setkey\<close> returns, whatever the arrays held, and then \<open>encipher_bytes\<close> maps
  every block of 16 bytes to what the cipher of FIPS 197 maps it to, with the key expansion of that standard, 10, 12 or 14 rounds, and
  the S-box \<open>aes_sbox\<close>, which is the one the standard describes.
\<close>

theorem aes_encipher_fips:
  assumes "length key \<in> {16, 24, 32}" "length pt = 16" "length (e_key a) = 60"
  shows "fips_sbox aes_sbox \<and> (\<exists>a'. aes_setkey key (length key) (a :: 'a aes_scheme) = Inr a' \<and>
    encipher_bytes a' pt = Inr (fips_cipher aes_sbox (length key div 4 + 6) (key_expansion aes_sbox (length key div 4) key) pt))"
proof -
  obtain a' nr w where a': "aes_setkey key (length key) a = Inr a'" "nrounds a' = nr" "nr = length key div 4 + 6" "nr \<in> {10, 12, 14}"
    "w = key_expansion aes_sbox (length key div 4) key" "keys_ok w (4 * nr + 4) (e_key a')"
    by (rule aes_setkey_ok [OF assms(1,3)])
  show ?thesis using sbox_fips a'(1) encipher_ok [OF assms(2) a'(6,2,4)] unfolding a'(3,5) by blast
qed

theorem aes_encipher_fips_witness:
  "fips_sbox aes_sbox \<and> (\<exists>a'. aes_setkey (replicate 24 7) 24 (aes_new (replicate 60 0) (replicate 60 0)) = Inr a' \<and>
    encipher_bytes a' (replicate 16 1) = Inr (fips_cipher aes_sbox 12 (key_expansion aes_sbox 6 (replicate 24 7)) (replicate 16 1)))"
  using aes_encipher_fips [of "replicate 24 7" "replicate 16 1" "aes_new (replicate 60 0) (replicate 60 0)"] by (simp add: aes_new_def)

text \<open>
  C11. Decryption undoes encryption. After \<open>setkey\<close> with a key of 16, 24 or 32 bytes, \<open>decipher_bytes\<close> gives back every block that
  \<open>encipher_bytes\<close> has enciphered.
\<close>

theorem aes_roundtrip:
  assumes "length key \<in> {16, 24, 32}" "length pt = 16" "length (e_key a) = 60"
  shows "\<exists>a' ct. aes_setkey key (length key) (a :: 'a aes_scheme) = Inr a' \<and> encipher_bytes a' pt = Inr ct \<and> decipher_bytes a' ct = Inr pt"
proof -
  obtain a' nr w where a': "aes_setkey key (length key) a = Inr a'" "nrounds a' = nr" "nr = length key div 4 + 6" "nr \<in> {10, 12, 14}"
    "w = key_expansion aes_sbox (length key div 4) key" "keys_ok w (4 * nr + 4) (e_key a')" "keys_ok (inv_keys w nr) (4 * nr + 4) (d_key a')"
    by (rule aes_setkey_ok [OF assms(1,3)])
  let ?ct = "fips_cipher aes_sbox nr w pt"
  have nr: "0 < nr" using a'(3) by simp
  note l = keys_ok_len [OF a'(6)]
  have "encipher_bytes a' pt = Inr ?ct" by (rule encipher_ok [OF assms(2) a'(6,2,4)])
  moreover have "decipher_bytes a' ?ct = Inr pt"
    using decipher_ok [OF fips_cipher_length [OF assms(2) nr l] a'(7,2,4)] inv_cipher_cipher [OF assms(2) nr l] by simp
  ultimately show ?thesis using a'(1) by blast
qed

theorem aes_roundtrip_witness:
  "\<exists>a' ct. aes_setkey (replicate 32 7) 32 (aes_new (replicate 60 1) (replicate 60 2)) = Inr a' \<and>
    encipher_bytes a' (replicate 16 3) = Inr ct \<and> decipher_bytes a' ct = Inr (replicate 16 3)"
  using aes_roundtrip [of "replicate 32 7" "replicate 16 3" "aes_new (replicate 60 1) (replicate 60 2)"] by (simp add: aes_new_def)

end
