(* ===== verification/Spec2Isabelle.thy ===== *)
theory Spec2Isabelle
  imports Msb Xdr_Suio Armor Axprt_Pipe Aclnt Asrv Sha1 Cbuf Axprt_Crypt Seqno Tmoq Itree_Walk Aes_Inverse
begin

text \<open>
  \<^bold>\<open>The program.\<close> sfslite is a C++ library for event-driven network programs: \<open>src/async\<close> holds the event
  loop and the data structures, \<open>src/arpc\<close> the Sun RPC client and server over packet transports,
  \<open>src/crypt\<close> the cryptography, \<open>src/sfsmisc\<close> and \<open>src/libsfs\<close> the SFS file system code built on them, and
  \<open>src/rpcc\<close>, \<open>src/arpcgen\<close>, \<open>src/tame\<close> compilers for protocol files and for the tame language. This
  development models the path a remote call takes, from the bytes of its arguments to the wire and back,
  and the data structures and algorithms on the way.

  A call is marshalled into a queue of buffers (\<open>Suio\<close>), given a XID and remembered by the client
  (\<open>Aclnt\<close>), framed and written by a transport (\<open>Axprt_Pipe\<close>, or encrypted and authenticated by
  \<open>Axprt_Crypt\<close> with \<open>Arc4\<close> and \<open>Sha1\<close>); the other side reads frames from its transport, \<open>xhinfo\<close> tells
  calls from replies, the server looks a call up in its replay cache, serves it and answers (\<open>Asrv\<close>); the
  reply travels back and finishes the call.

  \<^bold>\<open>Theories.\<close>
  \<^item> \<open>Prelude\<close>: machine integers, the faults a run can end in, results and their composition, array access.
  \<^item> \<open>Msb\<close>: \<open>async/msb.h\<close>, \<open>async/msb.C\<close>; the position of the highest and lowest bit against the binary
    logarithm.
  \<^item> \<open>Serial\<close>: \<open>async/serial.h\<close>; big-endian loads and stores, hexadecimal.
  \<^item> \<open>Armor\<close>: \<open>async/armor.C\<close>; base 32 and base 64, their round trips, what the decoders read.
  \<^item> \<open>Suio\<close>: \<open>async/suio++.h\<close>, \<open>async/suio++.C\<close>; the queue as addresses into a heap, with an invariant on
    ownership, as a queue of bytes.
  \<^item> \<open>Xdr\<close>, \<open>Xdr_Suio\<close>: \<open>arpc/xdrmisc.h\<close>, \<open>arpc/rpctypes.h\<close>, \<open>arpc/xdr_suio.h\<close>; marshalling by the structure of types,
    behind a contract of the streams, into the queue and back.
  \<^item> \<open>Axprt_Pipe\<close>: \<open>arpc/axprt_pipe.C\<close>, \<open>arpc/axprt_stream.C\<close>; framing over a byte stream with partial reads
    and writes, as delivery of packets.
  \<^item> \<open>Aclnt\<close>: \<open>arpc/aclnt.C\<close>, \<open>arpc/xhinfo.C\<close>; the heap of calls and clients with callbacks that re-enter; an
    invariant over all runs, the fate of every call.
  \<^item> \<open>Asrv\<close>: \<open>arpc/asrv.C\<close>; requests, replay caches, delayed end of file; an invariant over all runs.
  \<^item> \<open>Mdblock\<close>, \<open>Sha1\<close>: \<open>crypt/mdblock.C\<close>, \<open>crypt/sha1.C\<close>, \<open>crypt/sha1oracle.C\<close>; block buffering behind a
    locale, SHA-1 against FIPS 180-1, HMAC against RFC 2104, the random oracle.
  \<^item> \<open>Arc4\<close>, \<open>Axprt_Crypt\<close>: \<open>crypt/arc4.C\<close>, \<open>crypt/axprt_crypt.C\<close>; the stream cipher and the transport that
    uses it.
  \<^item> \<open>Aes_Tables\<close>, \<open>Aes\<close>, \<open>Aes_Fips\<close>, \<open>Aes_Inverse\<close>: \<open>crypt/aes.C\<close>, \<open>crypt/aes.h\<close>; the tables as products in the field of
    256 elements, the block cipher as the cipher of FIPS 197, and decryption as its inverse.
  \<^item> \<open>Cbuf\<close>: \<open>async/cbuf.C\<close>; the circular buffer as a bounded queue.
  \<^item> \<open>Bitvec\<close>, \<open>Seqno\<close>: \<open>async/bitvec.h\<close>, \<open>crypt/seqno.C\<close>; vectors of bits as words, and the check of sequence
    numbers as a refusal of replays.
  \<^item> \<open>Tmoq\<close>: \<open>async/backoff.h\<close>; the retransmission queues with the links of their lists, callbacks that re-enter and
    timers; an invariant over all runs, and termination.
  \<^item> \<open>Itree\<close>, \<open>Itree_Delete\<close>, \<open>Itree_Walk\<close>: \<open>async/itree.C\<close>, \<open>async/itree.h\<close>; red-black trees as pointers in memory,
    as sorted lists.

  \<^bold>\<open>How the code is rendered.\<close> A class is a record and a method a function from the record before to the
  record after; operations that may fail return a fault (a failed \<open>assert\<close>, a \<open>panic\<close>, an access outside an
  object, a use after \<open>delete\<close>) or a value. Objects that refer to each other live in maps from identities,
  so that a deleted object is a missing entry. A virtual function is an argument (\<open>consume\<close> of \<open>mdblock\<close>).
  A callback of the user is an argument too, a function of the whole state where the code allows it to call
  back into the library. What the kernel answers (\<open>read\<close>, \<open>writev\<close>) is an argument: a script of results.
  Uninitialised memory is an argument. Sizes are natural numbers where the code's own bounds keep them from
  wrapping, and words where they wrap (XIDs, frame headers, the counter of a hash).

  \<^bold>\<open>Bounds and fuel.\<close> Loops are functions with termination proofs. Those driven by the outside are bounded by
  the script they read. \<open>genxid\<close> draws from a list of random numbers, and running out of it is the fault
  \<open>NoReturn\<close>. The loops over pointers of \<open>Tmoq\<close> and \<open>Itree\<close> take a bound of their turns and end in \<open>NoReturn\<close>
  beyond it; that one turn per entry is enough is part of the theorems. Re-entrant callbacks of \<open>Aclnt\<close> and \<open>Asrv\<close> are arbitrary functions that keep the invariant.

  \<^bold>\<open>What the lemmas show.\<close> Each theory proves first an invariant of its state and that every operation keeps it,
  then what each operation does on every branch, and last the properties: end-to-end delivery of the
  transports, soundness of the tables of client and server, equivalence of the hash functions with their
  standards, refinement of an abstract queue by the buffers, round trips of the encodings, and where the
  code does not do what it means to, a theorem that exhibits the fault.

  \<^bold>\<open>Not modelled.\<close> The event loop and the system interface (\<open>core.C\<close>, \<open>select*.C\<close>, \<open>socket.C\<close>, \<open>spawn.C\<close>,
  \<open>aiod.C\<close> and the like) are calls of the kernel; \<open>callback.h\<close> is generated; the multi-precision arithmetic
  of \<open>crypt\<close> rests on GMP, which is not part of the sources; the compilers \<open>rpcc\<close>, \<open>arpcgen\<close> and \<open>tame\<close>
  are parsers and printers of other languages; \<open>sfsmisc\<close> and \<open>libsfs\<close> are the file system on top of the
  library, whose state is in the kernel and in other processes; \<open>mallock.C\<close>, \<open>patch\<close> and \<open>Attic\<close> are
  third-party or retired. Tracing, statistics and reference counts are left out where they have no effect
  on a result.
\<close>

end
